(* ===== verification/Prelude.thy ===== *)
theory Prelude
  imports Main "HOL-Library.Word" "HOL-Library.Multiset"
begin

text \<open>
  Shared vocabulary of the development: the machine types of the Go sources, the result
  type of fallible operations, the generic facts on words, lists and sums that the
  component theories rely on, and the named collections they extend.
\<close>

unbundle bit_operations_syntax

subsection \<open>Machine types and results\<close>

type_synonym u8 = "8 word"
type_synonym u16 = "16 word"
type_synonym u32 = "32 word"
type_synonym u64 = "64 word"
type_synonym bytes = "u8 list"

text \<open>Durations are signed 64-bit nanoseconds, read by \<open>sint\<close>.\<close>

type_synonym duration = "64 word"

definition Millisecond :: duration where "Millisecond = 1000000"
definition Second :: duration where "Second = 1000000000"

lemma sint_small: "0 \<le> x \<Longrightarrow> x < 2 ^ 63 \<Longrightarrow> sint (word_of_int x :: duration) = x"
  by (simp add: sint_sbintrunc' signed_take_bit_int_eq_self)

text \<open>Go's \<open>(value, error)\<close> pairs are sums: \<open>Inl\<close> the error, \<open>Inr\<close> the value.\<close>

type_synonym ('e, 'a) result = "'e + 'a"

text \<open>Defining equations that a component unfolds together, and its step-wise facts.\<close>

named_theorems go_defs
named_theorems inv_intros

subsection \<open>Powers of two\<close>

lemma nat_and_pred_double: "(2 * k :: nat) AND (2 * k - 1) = 2 * (k AND (k - 1))"
proof (cases k)
  case (Suc j)
  have "2 * k - 1 = 1 + 2 * (k - 1)" using Suc by simp
  then show ?thesis by (subst and_rec) simp
qed simp

lemma nat_and_pred_zero_power:
  fixes m :: nat
  assumes "0 < m" "m AND (m - 1) = 0"
  shows "\<exists>n. m = 2 ^ n"
  using assms
proof (induction m rule: less_induct)
  case (less m)
  show ?case
  proof (cases "even m")
    case True
    then obtain k where k: "m = 2 * k" by blast
    with less.prems have "0 < k" "k < m" by auto
    moreover have "k AND (k - 1) = 0"
      using less.prems(2) unfolding k nat_and_pred_double by simp
    ultimately obtain n where "k = 2 ^ n" using less.IH by blast
    then have "m = 2 ^ Suc n" by (simp add: k)
    then show ?thesis by blast
  next
    case False
    then obtain k where k: "m = 2 * k + 1" by (auto elim: oddE)
    have "m AND (m - 1) = m - 1"
      unfolding k by (subst and_rec) simp
    with less.prems k have "m = 2 ^ 0" by simp
    then show ?thesis by blast
  qed
qed

lemma word_pow2_check:
  fixes w :: "'a::len word"
  assumes "w \<noteq> 0" "w AND (w - 1) = 0"
  obtains n where "n < LENGTH('a)" "unat w = 2 ^ n"
proof -
  have pos: "0 < unat w" using assms(1) by (simp add: unat_gt_0)
  then have "unat (w - 1) = unat w - 1"
    by (metis assms(1) unat_minus_one)
  then have "unat w AND (unat w - 1) = 0"
    using assms(2) by (metis unsigned_and_eq unsigned_0)
  then obtain n where n: "unat w = 2 ^ n"
    using nat_and_pred_zero_power pos by blast
  have "(2::nat) ^ n < 2 ^ LENGTH('a)" using n unsigned_less [of w, where ?'a = nat] by simp
  then have "n < LENGTH('a)" by simp
  with n that show thesis by blast
qed

lemma unat_and_pred_pow2:
  fixes w c :: "'a::len word"
  assumes "unat c = 2 ^ n" "n < LENGTH('a)"
  shows "unat (w AND (c - 1)) = unat w mod unat c"
proof -
  have "c \<noteq> 0" using assms(1) by auto
  then have "unat (c - 1) = mask n"
    by (simp add: unat_minus_one assms(1) mask_eq_exp_minus_1)
  then show ?thesis
    by (simp add: unsigned_and_eq assms(1) flip: take_bit_eq_mask take_bit_eq_mod)
qed

lemma word_xor_cancel [simp]:
  fixes a b c :: "'a::len word"
  shows "a XOR c = b XOR c \<longleftrightarrow> a = b" "c XOR a = c XOR b \<longleftrightarrow> a = b"
  by (metis xor.assoc xor.commute xor_self_eq xor.right_neutral)+

subsection \<open>Modular arithmetic\<close>

lemma mod_add_inj_le:
  fixes a c j k :: nat
  assumes "j \<le> k" "k < c" "(a + j) mod c = (a + k) mod c"
  shows "j = k"
proof -
  have "c dvd (a + k) - (a + j)"
    using assms by (subst mod_eq_dvd_iff_nat [symmetric]) simp_all
  then have "c dvd k - j" by simp
  moreover have "k - j < c" using assms(2) by simp
  ultimately have "k - j = 0" by (metis nat_dvd_not_less neq0_conv)
  with assms(1) show ?thesis by simp
qed

lemma mod_add_inj:
  fixes a c j k :: nat
  assumes "j < c" "k < c" "(a + j) mod c = (a + k) mod c"
  shows "j = k"
  using assms mod_add_inj_le [of j k c a] mod_add_inj_le [of k j c a] by linarith

subsection \<open>Lists updated at an index\<close>

lemma map_update_same:
  assumes "f y = f (xs ! i)"
  shows "map f (xs[i := y]) = map f xs"
proof (cases "i < length xs")
  case True
  then show ?thesis
    using assms by (simp add: map_update) (metis list_update_id nth_map)
qed (simp add: list_update_beyond)

lemma length_filter_update:
  assumes "i < length xs"
  shows "length (filter P (xs[i := y])) + (if P (xs ! i) then 1 else 0) =
    length (filter P xs) + (if P y then 1 else 0)"
proof -
  have "filter P xs = filter P (take i xs @ xs ! i # drop (Suc i) xs)"
    using assms by (simp add: id_take_nth_drop [symmetric])
  then show ?thesis using assms by (simp add: upd_conv_take_nth_drop)
qed

lemma mset_concat_map_update:
  assumes "i < length xs"
  shows "mset (concat (map f (xs[i := y]))) + mset (f (xs ! i)) =
    mset (concat (map f xs)) + mset (f y)"
proof -
  have "concat (map f xs) = concat (map f (take i xs @ xs ! i # drop (Suc i) xs))"
    using assms by (simp add: id_take_nth_drop [symmetric])
  then show ?thesis using assms by (simp add: upd_conv_take_nth_drop)
qed

lemma distinct_mset_sub:
  assumes "distinct xs" "mset ys \<subseteq># mset xs"
  shows "distinct ys"
  unfolding distinct_count_atmost_1
proof
  fix a
  have "count (mset ys) a \<le> count (mset xs) a" using assms(2) by (rule mset_subset_eq_count)
  moreover have "count (mset xs) a \<le> 1" using assms(1) by (simp add: distinct_count_atmost_1)
  ultimately show "count (mset ys) a = (if a \<in> set ys then 1 else 0)"
    by (metis One_nat_def count_mset_0_iff le_antisym le_trans not_gr_zero less_eq_Suc_le)
qed

end
