(* ===== verification/Ring.thy ===== *)
theory Ring
  imports Prelude
begin

text \<open>
  The bounded multiple-producer single-consumer ring of \<^verbatim>\<open>internal/ring\<close>
  (\<^verbatim>\<open>queue.go\<close>, \<^verbatim>\<open>result.go\<close>, \<^verbatim>\<open>stats.go\<close>). This theory holds the data
  structure and the operations as one goroutine executes them without interference; the
  interleaved execution of many producers and one consumer is in theory
  \<^verbatim>\<open>Ring_MPSC\<close>. Sequence numbers and cursors are 64-bit words and wrap around.
\<close>

subsection \<open>Results, statistics and the queue\<close>

datatype PublishResult = PublishAccepted | PublishFull | PublishClosed | PublishInvalid

fun PublishResult_String :: "PublishResult \<Rightarrow> string" where
  "PublishResult_String PublishAccepted = ''accepted''"
| "PublishResult_String PublishFull = ''queue_full''"
| "PublishResult_String PublishClosed = ''closed''"
| "PublishResult_String PublishInvalid = ''invalid''"

record ring_Stats =
  rs_Capacity :: u64
  rs_Depth :: u64
  rs_HighWater :: u64
  rs_PublishAttempts :: u64
  rs_Published :: u64
  rs_Consumed :: u64
  rs_RejectedFull :: u64
  rs_RejectedClosed :: u64
  rs_RejectedInvalid :: u64
  rs_Closed :: bool

definition Dropped :: "ring_Stats \<Rightarrow> u64" where
  "Dropped s = rs_RejectedFull s"

definition maxCapacity :: u64 where
  "maxCapacity = 1073741824"

definition maxPublishAttempts :: nat where
  "maxPublishAttempts = 128"

text \<open>A slot's \<open>atomic.Pointer\<close> is an option, \<open>None\<close> for nil.\<close>

record 'a slot =
  sequence :: u64
  cell_value :: "'a option"

record 'a Queue =
  producer :: u64
  consumer :: u64
  capacity :: u64
  mask_bits :: u64
  slots :: "'a slot list"
  q_closed :: bool
  publishAttempts :: u64
  published :: u64
  consumed :: u64
  rejectedFull :: u64
  rejectedClosed :: u64
  rejectedInvalid :: u64
  highWater :: u64

datatype ring_error = ErrInvalidCapacity u64

subsection \<open>Operations\<close>

definition ring_New :: "u64 \<Rightarrow> (ring_error, 'a Queue) result" where
  "ring_New cap =
     (if cap < 2 \<or> cap > maxCapacity \<or> cap AND (cap - 1) \<noteq> 0 then Inl (ErrInvalidCapacity cap)
      else Inr \<lparr>producer = 0, consumer = 0, capacity = cap, mask_bits = cap - 1,
        slots = map (\<lambda>i. \<lparr>sequence = of_nat i, cell_value = None\<rparr>) [0..<unat cap],
        q_closed = False, publishAttempts = 0, published = 0, consumed = 0,
        rejectedFull = 0, rejectedClosed = 0, rejectedInvalid = 0, highWater = 0\<rparr>)"

text \<open>\<open>&q.slots[position & q.mask]\<close>: the index, the cell read there, and stores to it.\<close>

definition slot_index :: "'a Queue \<Rightarrow> u64 \<Rightarrow> nat" where
  "slot_index q position = unat (position AND mask_bits q)"

definition cell_at :: "'a Queue \<Rightarrow> u64 \<Rightarrow> 'a slot" where
  "cell_at q position = slots q ! slot_index q position"

definition store_sequence :: "u64 \<Rightarrow> u64 \<Rightarrow> 'a Queue \<Rightarrow> 'a Queue" where
  "store_sequence position s q =
     q\<lparr>slots := (slots q)[slot_index q position := (cell_at q position)\<lparr>sequence := s\<rparr>]\<rparr>"

definition store_value :: "u64 \<Rightarrow> 'a option \<Rightarrow> 'a Queue \<Rightarrow> 'a Queue" where
  "store_value position v q =
     q\<lparr>slots := (slots q)[slot_index q position := (cell_at q position)\<lparr>cell_value := v\<rparr>]\<rparr>"

text \<open>\<open>difference := int64(sequence - position)\<close>.\<close>

definition seq_difference :: "u64 \<Rightarrow> u64 \<Rightarrow> int" where
  "seq_difference s position = sint (s - position)"

definition clamp_depth :: "'a Queue \<Rightarrow> u64 \<Rightarrow> u64" where
  "clamp_depth q depth = (if depth > capacity q then capacity q else depth)"

text \<open>Without interference the compare-and-swap of the loop succeeds at its first turn.\<close>

definition observeHighWater :: "u64 \<Rightarrow> 'a Queue \<Rightarrow> 'a Queue" where
  "observeHighWater depth q =
     (let d = clamp_depth q depth
      in if d > highWater q then q\<lparr>highWater := d\<rparr> else q)"

text \<open>The body of the retry loop; the first argument counts the attempts that are left.\<close>

fun publish_loop :: "nat \<Rightarrow> 'a \<Rightarrow> 'a Queue \<Rightarrow> 'a Queue \<times> PublishResult" where
  "publish_loop 0 v q = (q\<lparr>rejectedFull := rejectedFull q + 1\<rparr>, PublishFull)"
| "publish_loop (Suc n) v q =
     (if q_closed q then (q\<lparr>rejectedClosed := rejectedClosed q + 1\<rparr>, PublishClosed)
      else let position = producer q;
               difference = seq_difference (sequence (cell_at q position)) position
      in if difference = 0 then
           (let q1 = q\<lparr>producer := position + 1\<rparr>;
                q2 = observeHighWater (position + 1 - consumer q1) q1;
                q3 = store_value position (Some v) q2;
                q4 = store_sequence position (position + 1) q3
            in (q4\<lparr>published := published q4 + 1\<rparr>, PublishAccepted))
         else if difference < 0 then (q\<lparr>rejectedFull := rejectedFull q + 1\<rparr>, PublishFull)
         else publish_loop n v q)"

definition TryPublish :: "'a option \<Rightarrow> 'a Queue \<Rightarrow> 'a Queue \<times> PublishResult" where
  "TryPublish value q =
     (let q1 = q\<lparr>publishAttempts := publishAttempts q + 1\<rparr>
      in case value of
           None \<Rightarrow> (q1\<lparr>rejectedInvalid := rejectedInvalid q1 + 1\<rparr>, PublishInvalid)
         | Some v \<Rightarrow>
             if q_closed q1 then (q1\<lparr>rejectedClosed := rejectedClosed q1 + 1\<rparr>, PublishClosed)
             else publish_loop maxPublishAttempts v q1)"

definition TryConsume :: "'a Queue \<Rightarrow> 'a Queue \<times> 'a option" where
  "TryConsume q =
     (let position = consumer q; cell = cell_at q position
      in if seq_difference (sequence cell) (position + 1) \<noteq> 0 then (q, None)
         else let q1 = store_value position None q
              in case cell_value cell of
                   None \<Rightarrow> (q1, None)
                 | Some v \<Rightarrow>
                     (let q2 = store_sequence position (position + capacity q) q1;
                          q3 = q2\<lparr>consumer := position + 1\<rparr>
                      in (q3\<lparr>consumed := consumed q3 + 1\<rparr>, Some v)))"

definition ring_Close :: "'a Queue \<Rightarrow> 'a Queue" where
  "ring_Close q = q\<lparr>q_closed := True\<rparr>"

definition ring_Closed :: "'a Queue \<Rightarrow> bool" where
  "ring_Closed q = q_closed q"

definition ring_Capacity :: "'a Queue \<Rightarrow> u64" where
  "ring_Capacity q = capacity q"

definition Depth :: "'a Queue \<Rightarrow> u64" where
  "Depth q = clamp_depth q (producer q - consumer q)"

definition Empty :: "'a Queue \<Rightarrow> bool" where
  "Empty q = (Depth q = 0)"

definition ring_stats :: "'a Queue \<Rightarrow> ring_Stats" where
  "ring_stats q = \<lparr>rs_Capacity = capacity q, rs_Depth = Depth q, rs_HighWater = highWater q,
     rs_PublishAttempts = publishAttempts q, rs_Published = published q,
     rs_Consumed = consumed q, rs_RejectedFull = rejectedFull q,
     rs_RejectedClosed = rejectedClosed q, rs_RejectedInvalid = rejectedInvalid q,
     rs_Closed = q_closed q\<rparr>"

definition seedEmptyForTest :: "u64 \<Rightarrow> 'a Queue \<Rightarrow> 'a Queue" where
  "seedEmptyForTest b q =
     q\<lparr>producer := b, consumer := b,
       slots := map (\<lambda>i. \<lparr>sequence = b + ((of_nat i - (b AND mask_bits q)) AND mask_bits q),
                          cell_value = None\<rparr>) [0..<unat (capacity q)]\<rparr>"

subsection \<open>Shape of the ring and index arithmetic\<close>

definition ring_shape :: "'a Queue \<Rightarrow> bool" where
  "ring_shape q \<longleftrightarrow>
     2 \<le> capacity q \<and> capacity q \<le> maxCapacity \<and> capacity q AND (capacity q - 1) = 0 \<and>
     mask_bits q = capacity q - 1 \<and> length (slots q) = unat (capacity q)"

lemma ring_capE:
  assumes "ring_shape q"
  obtains n where "n < 31" "unat (capacity q) = 2 ^ n" "2 \<le> unat (capacity q)"
proof -
  have ge: "2 \<le> unat (capacity q)" and le: "unat (capacity q) \<le> 2 ^ 30"
    using assms by (simp_all add: ring_shape_def word_le_nat_alt maxCapacity_def)
  then have "capacity q \<noteq> 0" by auto
  moreover have "capacity q AND (capacity q - 1) = 0" using assms by (simp add: ring_shape_def)
  ultimately obtain n where n: "unat (capacity q) = 2 ^ n" by (rule word_pow2_check)
  with le have "n \<le> 30" by (metis power_le_imp_le_exp one_less_numeral_iff semiring_norm(76))
  with n ge that show thesis by simp
qed

lemma ring_cap_bounds:
  assumes "ring_shape q"
  shows "2 \<le> unat (capacity q)" "unat (capacity q) < 2 ^ 31" "unat (capacity q) dvd 2 ^ 64"
proof -
  obtain n where n: "n < 31" "unat (capacity q) = 2 ^ n" "2 \<le> unat (capacity q)"
    using assms by (rule ring_capE)
  then show "2 \<le> unat (capacity q)" by simp
  show "unat (capacity q) < 2 ^ 31"
    unfolding n(2) using n(1) by (intro power_strict_increasing) simp_all
  show "unat (capacity q) dvd 2 ^ 64" unfolding n(2) using n(1) by (intro le_imp_power_dvd) simp
qed

lemma slot_index_mod:
  assumes "ring_shape q"
  shows "slot_index q p = unat p mod unat (capacity q)"
proof -
  obtain n where "n < 31" "unat (capacity q) = 2 ^ n" using assms by (rule ring_capE)
  then show ?thesis
    using assms by (simp add: slot_index_def ring_shape_def unat_and_pred_pow2)
qed

lemma slot_index_less:
  assumes "ring_shape q"
  shows "slot_index q p < length (slots q)"
  using assms ring_cap_bounds(1) [OF assms]
  by (simp add: slot_index_mod ring_shape_def)

lemma slot_index_add:
  assumes "ring_shape q"
  shows "slot_index q (p + of_nat k) = (unat p + k) mod unat (capacity q)"
proof -
  have "unat (p + of_nat k) = (unat p + k) mod 2 ^ 64"
    by (simp add: unat_word_ariths unat_of_nat mod_simps)
  then show ?thesis
    using assms ring_cap_bounds(3) [OF assms] by (simp add: slot_index_mod mod_mod_cancel)
qed

lemma slot_index_inj:
  assumes "ring_shape q" "j < unat (capacity q)" "k < unat (capacity q)"
  shows "slot_index q (p + of_nat j) = slot_index q (p + of_nat k) \<longleftrightarrow> j = k"
  using assms by (auto simp: slot_index_add dest: mod_add_inj)

lemma slot_index_wrap:
  assumes "ring_shape q"
  shows "slot_index q (p + capacity q) = slot_index q p"
  using slot_index_add [OF assms, of p "unat (capacity q)"] by (simp add: slot_index_mod assms)

subsection \<open>Frame facts of the primitive stores\<close>

lemma cell_at_frame [simp]:
  "cell_at (q\<lparr>producer := w\<rparr>) p = cell_at q p"
  "cell_at (q\<lparr>consumer := w\<rparr>) p = cell_at q p"
  "cell_at (q\<lparr>publishAttempts := w\<rparr>) p = cell_at q p"
  "cell_at (q\<lparr>published := w\<rparr>) p = cell_at q p"
  "cell_at (q\<lparr>consumed := w\<rparr>) p = cell_at q p"
  "cell_at (q\<lparr>rejectedFull := w\<rparr>) p = cell_at q p"
  "cell_at (q\<lparr>rejectedClosed := w\<rparr>) p = cell_at q p"
  "cell_at (q\<lparr>rejectedInvalid := w\<rparr>) p = cell_at q p"
  "cell_at (q\<lparr>highWater := w\<rparr>) p = cell_at q p"
  "cell_at (q\<lparr>q_closed := b\<rparr>) p = cell_at q p"
  by (simp_all add: cell_at_def slot_index_def)

lemma ring_shape_frame [simp]:
  "ring_shape (q\<lparr>producer := w\<rparr>) = ring_shape q"
  "ring_shape (q\<lparr>consumer := w\<rparr>) = ring_shape q"
  "ring_shape (q\<lparr>publishAttempts := w\<rparr>) = ring_shape q"
  "ring_shape (q\<lparr>published := w\<rparr>) = ring_shape q"
  "ring_shape (q\<lparr>consumed := w\<rparr>) = ring_shape q"
  "ring_shape (q\<lparr>rejectedFull := w\<rparr>) = ring_shape q"
  "ring_shape (q\<lparr>rejectedClosed := w\<rparr>) = ring_shape q"
  "ring_shape (q\<lparr>rejectedInvalid := w\<rparr>) = ring_shape q"
  "ring_shape (q\<lparr>highWater := w\<rparr>) = ring_shape q"
  "ring_shape (q\<lparr>q_closed := b\<rparr>) = ring_shape q"
  by (simp_all add: ring_shape_def)

lemma store_frame [simp]:
  "producer (store_sequence p s q) = producer q" "producer (store_value p v q) = producer q"
  "consumer (store_sequence p s q) = consumer q" "consumer (store_value p v q) = consumer q"
  "capacity (store_sequence p s q) = capacity q" "capacity (store_value p v q) = capacity q"
  "mask_bits (store_sequence p s q) = mask_bits q" "mask_bits (store_value p v q) = mask_bits q"
  "q_closed (store_sequence p s q) = q_closed q" "q_closed (store_value p v q) = q_closed q"
  "publishAttempts (store_sequence p s q) = publishAttempts q"
  "publishAttempts (store_value p v q) = publishAttempts q"
  "published (store_sequence p s q) = published q" "published (store_value p v q) = published q"
  "consumed (store_sequence p s q) = consumed q" "consumed (store_value p v q) = consumed q"
  "rejectedFull (store_sequence p s q) = rejectedFull q"
  "rejectedFull (store_value p v q) = rejectedFull q"
  "rejectedClosed (store_sequence p s q) = rejectedClosed q"
  "rejectedClosed (store_value p v q) = rejectedClosed q"
  "rejectedInvalid (store_sequence p s q) = rejectedInvalid q"
  "rejectedInvalid (store_value p v q) = rejectedInvalid q"
  "highWater (store_sequence p s q) = highWater q" "highWater (store_value p v q) = highWater q"
  "ring_shape (store_sequence p s q) = ring_shape q" "ring_shape (store_value p v q) = ring_shape q"
  "slot_index (store_sequence p s q) = slot_index q" "slot_index (store_value p v q) = slot_index q"
  by (simp_all add: store_sequence_def store_value_def ring_shape_def slot_index_def fun_eq_iff)

lemma cell_at_store_sequence:
  assumes "ring_shape q"
  shows "cell_at (store_sequence p s q) p' =
    (if slot_index q p' = slot_index q p then (cell_at q p)\<lparr>sequence := s\<rparr> else cell_at q p')"
  using slot_index_less [OF assms, of p]
  by (simp add: store_sequence_def cell_at_def slot_index_def nth_list_update)

lemma cell_at_store_value:
  assumes "ring_shape q"
  shows "cell_at (store_value p v q) p' =
    (if slot_index q p' = slot_index q p then (cell_at q p)\<lparr>cell_value := v\<rparr> else cell_at q p')"
  using slot_index_less [OF assms, of p]
  by (simp add: store_value_def cell_at_def slot_index_def nth_list_update)

lemma cell_at_cong_index:
  "slot_index q p = slot_index q p' \<Longrightarrow> cell_at q p = cell_at q p'"
  by (simp add: cell_at_def)

lemma observeHighWater_frame [simp]:
  "producer (observeHighWater d q) = producer q" "consumer (observeHighWater d q) = consumer q"
  "capacity (observeHighWater d q) = capacity q" "cell_at (observeHighWater d q) p = cell_at q p"
  "q_closed (observeHighWater d q) = q_closed q" "published (observeHighWater d q) = published q"
  "publishAttempts (observeHighWater d q) = publishAttempts q"
  "consumed (observeHighWater d q) = consumed q"
  "rejectedFull (observeHighWater d q) = rejectedFull q"
  "rejectedClosed (observeHighWater d q) = rejectedClosed q"
  "rejectedInvalid (observeHighWater d q) = rejectedInvalid q"
  "ring_shape (observeHighWater d q) = ring_shape q"
  "slot_index (observeHighWater d q) = slot_index q"
  by (simp_all add: observeHighWater_def Let_def slot_index_def fun_eq_iff)

lemma observeHighWater_max: "highWater (observeHighWater d q) = max (highWater q) (clamp_depth q d)"
  by (auto simp: observeHighWater_def Let_def max_def)

lemma seq_difference_zero [simp]: "seq_difference a b = 0 \<longleftrightarrow> a = b"
  by (simp add: seq_difference_def signed_eq_0_iff)

lemma seq_difference_same [simp]: "seq_difference a a = 0"
  by simp

text \<open>The bound on the capacity is what makes the signed comparison of sequences sound.\<close>

lemma seq_difference_behind:
  assumes "0 < k" "k < 2 ^ 63"
  shows "seq_difference p (p + of_nat k) < 0"
proof -
  have "sint (word_of_int (- int k) :: u64) = - int k"
    unfolding signed_of_int using assms by (subst signed_take_bit_int_eq_self) simp_all
  then show ?thesis using assms(1) by (simp add: seq_difference_def)
qed

lemma seq_difference_ahead:
  assumes "k < 2 ^ 63"
  shows "seq_difference (p + of_nat k) p = int k"
proof -
  have "sint (word_of_int (int k) :: u64) = int k"
    unfolding signed_of_int using assms by (subst signed_take_bit_int_eq_self) simp_all
  then show ?thesis by (simp add: seq_difference_def)
qed

subsection \<open>Invariant and abstract contents\<close>

definition ring_len :: "'a Queue \<Rightarrow> nat" where
  "ring_len q = unat (producer q - consumer q)"

text \<open>The \<open>k\<close>-th slot counted from the consumer: published below the depth, free above it.\<close>

definition slot_ok :: "'a Queue \<Rightarrow> nat \<Rightarrow> bool" where
  "slot_ok q k =
     (let position = consumer q + of_nat k; cell = cell_at q position
      in if k < ring_len q then sequence cell = position + 1 \<and> cell_value cell \<noteq> None
         else sequence cell = position \<and> cell_value cell = None)"

definition ring_inv :: "'a Queue \<Rightarrow> bool" where
  "ring_inv q \<longleftrightarrow> ring_shape q \<and> ring_len q \<le> unat (capacity q) \<and> highWater q \<le> capacity q \<and>
     (\<forall>k < unat (capacity q). slot_ok q k)"

definition ring_items :: "'a Queue \<Rightarrow> 'a list" where
  "ring_items q = map (\<lambda>k. the (cell_value (cell_at q (consumer q + of_nat k)))) [0..<ring_len q]"

lemma length_ring_items [simp]: "length (ring_items q) = ring_len q"
  by (simp add: ring_items_def)

lemma ring_len_pos: "0 < ring_len q \<longleftrightarrow> ring_items q \<noteq> []"
  by (metis length_ring_items length_greater_0_conv)

lemma ring_invD:
  assumes "ring_inv q"
  shows "ring_shape q" "ring_len q \<le> unat (capacity q)" "highWater q \<le> capacity q"
    "k < unat (capacity q) \<Longrightarrow> slot_ok q k"
  using assms by (simp_all add: ring_inv_def)

lemma producer_eq: "producer q = consumer q + of_nat (ring_len q)"
  by (simp add: ring_len_def)

lemma slot_ok_published:
  assumes "slot_ok q k" "k < ring_len q"
  shows "sequence (cell_at q (consumer q + of_nat k)) = consumer q + of_nat k + 1"
    "\<exists>v. cell_value (cell_at q (consumer q + of_nat k)) = Some v"
  using assms by (simp_all add: slot_ok_def Let_def)

lemma slot_ok_free:
  assumes "slot_ok q k" "\<not> k < ring_len q"
  shows "sequence (cell_at q (consumer q + of_nat k)) = consumer q + of_nat k"
  using assms by (simp_all add: slot_ok_def Let_def)

lemma ring_inv_frame [simp]:
  "ring_inv (q\<lparr>publishAttempts := w\<rparr>) = ring_inv q"
  "ring_inv (q\<lparr>published := w\<rparr>) = ring_inv q"
  "ring_inv (q\<lparr>consumed := w\<rparr>) = ring_inv q"
  "ring_inv (q\<lparr>rejectedFull := w\<rparr>) = ring_inv q"
  "ring_inv (q\<lparr>rejectedClosed := w\<rparr>) = ring_inv q"
  "ring_inv (q\<lparr>rejectedInvalid := w\<rparr>) = ring_inv q"
  "ring_inv (q\<lparr>q_closed := b\<rparr>) = ring_inv q"
  by (simp_all add: ring_inv_def slot_ok_def ring_len_def)

lemma ring_items_frame [simp]:
  "ring_items (q\<lparr>publishAttempts := w\<rparr>) = ring_items q"
  "ring_items (q\<lparr>published := w\<rparr>) = ring_items q"
  "ring_items (q\<lparr>consumed := w\<rparr>) = ring_items q"
  "ring_items (q\<lparr>rejectedFull := w\<rparr>) = ring_items q"
  "ring_items (q\<lparr>rejectedClosed := w\<rparr>) = ring_items q"
  "ring_items (q\<lparr>rejectedInvalid := w\<rparr>) = ring_items q"
  "ring_items (q\<lparr>q_closed := b\<rparr>) = ring_items q"
  by (simp_all add: ring_items_def ring_len_def)

lemma ring_len_frame [simp]:
  "ring_len (q\<lparr>publishAttempts := w\<rparr>) = ring_len q"
  "ring_len (q\<lparr>published := w\<rparr>) = ring_len q"
  "ring_len (q\<lparr>consumed := w\<rparr>) = ring_len q"
  by (simp_all add: ring_len_def)

subsection \<open>One accepted publication and one consumption\<close>

definition publish_accept :: "'a \<Rightarrow> 'a Queue \<Rightarrow> 'a Queue" where
  "publish_accept v q =
     (let position = producer q;
          q1 = q\<lparr>producer := position + 1\<rparr>;
          q2 = observeHighWater (position + 1 - consumer q1) q1;
          q3 = store_value position (Some v) q2;
          q4 = store_sequence position (position + 1) q3
      in q4\<lparr>published := published q4 + 1\<rparr>)"

lemma unat_Suc_less:
  assumes "unat (w :: u64) < 2 ^ 63"
  shows "unat (w + 1) = Suc (unat w)"
  using assms by (subst unat_word_ariths) simp

lemma publish_accept_frame [simp]:
  "consumer (publish_accept v q) = consumer q" "capacity (publish_accept v q) = capacity q"
  "producer (publish_accept v q) = producer q + 1" "q_closed (publish_accept v q) = q_closed q"
  "ring_shape (publish_accept v q) = ring_shape q"
  "published (publish_accept v q) = published q + 1" "consumed (publish_accept v q) = consumed q"
  "publishAttempts (publish_accept v q) = publishAttempts q"
  "rejectedFull (publish_accept v q) = rejectedFull q"
  "rejectedClosed (publish_accept v q) = rejectedClosed q"
  "rejectedInvalid (publish_accept v q) = rejectedInvalid q"
  by (simp_all add: publish_accept_def Let_def)

lemma publish_accept_cell:
  assumes "ring_shape q"
  shows "cell_at (publish_accept v q) p =
    (if slot_index q p = slot_index q (producer q)
     then \<lparr>sequence = producer q + 1, cell_value = Some v\<rparr> else cell_at q p)"
  using assms
  by (simp add: publish_accept_def Let_def cell_at_store_sequence cell_at_store_value slot_index_def)

lemma ring_len_publish_accept:
  assumes "ring_inv q"
  shows "ring_len (publish_accept v q) = Suc (ring_len q)"
proof -
  have "ring_len q < 2 ^ 63"
    using ring_invD(2) [OF assms] ring_cap_bounds(2) [OF ring_invD(1) [OF assms]] by simp
  then have "unat (producer q - consumer q + 1) = Suc (ring_len q)"
    unfolding ring_len_def by (rule unat_Suc_less)
  then show ?thesis by (simp add: ring_len_def algebra_simps)
qed

lemma publish_accept_slot:
  assumes inv: "ring_inv q" and room: "ring_len q < unat (capacity q)" and k: "k < unat (capacity q)"
  shows "cell_at (publish_accept v q) (consumer q + of_nat k) =
    (if k = ring_len q then \<lparr>sequence = producer q + 1, cell_value = Some v\<rparr>
     else cell_at q (consumer q + of_nat k))"
proof -
  have shape: "ring_shape q" using inv by (rule ring_invD)
  show ?thesis
    using slot_index_inj [OF shape k room, of "consumer q"]
    by (simp add: publish_accept_cell [OF shape] producer_eq [symmetric])
qed

lemma clamp_depth_le: "clamp_depth q d \<le> capacity q"
  by (auto simp: clamp_depth_def not_less)

lemma highWater_publish_clamp:
  "highWater (publish_accept v q) = max (highWater q) (clamp_depth q (producer q + 1 - consumer q))"
  by (simp add: publish_accept_def Let_def observeHighWater_max clamp_depth_def)

lemma highWater_publish_accept:
  assumes "ring_inv q" "ring_len q < unat (capacity q)"
  shows "highWater (publish_accept v q) = max (highWater q) (of_nat (Suc (ring_len q)))"
proof -
  have len: "unat (producer q + 1 - consumer q) = Suc (ring_len q)"
    using ring_len_publish_accept [OF assms(1)] by (simp add: ring_len_def)
  then have eq: "producer q + 1 - consumer q = of_nat (Suc (ring_len q))"
    by (metis of_nat_unat ucast_id)
  have "clamp_depth q (producer q + 1 - consumer q) = producer q + 1 - consumer q"
    using assms(2) len by (simp add: clamp_depth_def word_less_nat_alt)
  then show ?thesis unfolding highWater_publish_clamp eq by simp
qed

lemma ring_inv_publish_accept:
  assumes inv: "ring_inv q" and room: "ring_len q < unat (capacity q)"
  shows "ring_inv (publish_accept v q)"
proof -
  have "slot_ok (publish_accept v q) k" if k: "k < unat (capacity q)" for k
    using ring_invD(4) [OF inv k]
    by (auto simp: slot_ok_def Let_def publish_accept_slot [OF inv room k] producer_eq
        ring_len_publish_accept [OF inv])
  moreover have "highWater (publish_accept v q) \<le> capacity q"
    using ring_invD(3) [OF inv] clamp_depth_le by (simp add: highWater_publish_clamp)
  ultimately show ?thesis
    using assms by (simp add: ring_inv_def ring_len_publish_accept)
qed

lemma ring_items_publish_accept:
  assumes inv: "ring_inv q" and room: "ring_len q < unat (capacity q)"
  shows "ring_items (publish_accept v q) = ring_items q @ [v]"
proof (rule nth_equalityI)
  show "length (ring_items (publish_accept v q)) = length (ring_items q @ [v])"
    by (simp add: ring_len_publish_accept inv)
next
  fix k assume "k < length (ring_items (publish_accept v q))"
  then have k: "k < Suc (ring_len q)" by (simp add: ring_len_publish_accept inv)
  with room have "k < unat (capacity q)" by simp
  then show "ring_items (publish_accept v q) ! k = (ring_items q @ [v]) ! k"
    using k
    by (auto simp: ring_items_def nth_append ring_len_publish_accept inv
        publish_accept_slot [OF inv room] simp del: upt_Suc)
qed

lemma publish_loop_room:
  assumes inv: "ring_inv q" and room: "ring_len q < unat (capacity q)" and "\<not> q_closed q"
  shows "publish_loop (Suc n) v q = (publish_accept v q, PublishAccepted)"
proof -
  have "slot_ok q (ring_len q)" using inv room by (rule ring_invD)
  then have "sequence (cell_at q (producer q)) = producer q"
    using slot_ok_free [of q "ring_len q"] by (simp add: producer_eq [symmetric])
  then show ?thesis using assms(3) by (simp add: publish_accept_def Let_def)
qed

lemma publish_loop_full:
  assumes inv: "ring_inv q" and full: "ring_len q = unat (capacity q)" and "\<not> q_closed q"
  shows "publish_loop (Suc n) v q = (q\<lparr>rejectedFull := rejectedFull q + 1\<rparr>, PublishFull)"
proof -
  have shape: "ring_shape q" using inv by (rule ring_invD)
  note cap = ring_cap_bounds [OF shape]
  have p: "producer q = consumer q + capacity q"
    using producer_eq [of q] by (simp add: full)
  then have "cell_at q (producer q) = cell_at q (consumer q)"
    by (intro cell_at_cong_index) (simp add: slot_index_wrap shape)
  moreover have "sequence (cell_at q (consumer q)) = consumer q + 1"
    using slot_ok_published(1) [of q 0] ring_invD(4) [OF inv, of 0] cap full by simp
  moreover have neg: "seq_difference (consumer q + 1) (producer q) < 0"
  proof -
    have "producer q = consumer q + 1 + of_nat (unat (capacity q) - 1)"
      using cap(1) by (simp add: p of_nat_diff)
    then show ?thesis using cap seq_difference_behind [of "unat (capacity q) - 1" "consumer q + 1"]
      by simp
  qed
  moreover have "consumer q + 1 \<noteq> producer q"
    using neg seq_difference_zero [of "consumer q + 1" "producer q"] by linarith
  ultimately show ?thesis using assms(3) by (simp add: Let_def)
qed

lemma maxPublishAttempts_Suc: "maxPublishAttempts = Suc 127"
  by (simp add: maxPublishAttempts_def)

text \<open>The whole operation on every branch, for a queue that satisfies the invariant.\<close>

lemma TryPublish_cases:
  assumes "ring_inv q"
  defines "q1 \<equiv> q\<lparr>publishAttempts := publishAttempts q + 1\<rparr>"
  shows "TryPublish None q = (q1\<lparr>rejectedInvalid := rejectedInvalid q + 1\<rparr>, PublishInvalid)"
    and "TryPublish (Some v) q =
      (if q_closed q then (q1\<lparr>rejectedClosed := rejectedClosed q + 1\<rparr>, PublishClosed)
       else if ring_len q = unat (capacity q)
         then (q1\<lparr>rejectedFull := rejectedFull q + 1\<rparr>, PublishFull)
       else (publish_accept v q1, PublishAccepted))"
  using assms(1) ring_invD(2) [OF assms(1)]
    publish_loop_full [of q1 127 v] publish_loop_room [of q1 127 v]
  by (simp_all add: TryPublish_def q1_def Let_def maxPublishAttempts_Suc del: publish_loop.simps)

definition consume_accept :: "'a Queue \<Rightarrow> 'a Queue" where
  "consume_accept q =
     (let position = consumer q;
          q1 = store_value position None q;
          q2 = store_sequence position (position + capacity q) q1;
          q3 = q2\<lparr>consumer := position + 1\<rparr>
      in q3\<lparr>consumed := consumed q3 + 1\<rparr>)"

lemma consume_accept_frame [simp]:
  "consumer (consume_accept q) = consumer q + 1" "capacity (consume_accept q) = capacity q"
  "producer (consume_accept q) = producer q" "q_closed (consume_accept q) = q_closed q"
  "ring_shape (consume_accept q) = ring_shape q" "highWater (consume_accept q) = highWater q"
  "published (consume_accept q) = published q" "consumed (consume_accept q) = consumed q + 1"
  "publishAttempts (consume_accept q) = publishAttempts q"
  "rejectedFull (consume_accept q) = rejectedFull q"
  "rejectedClosed (consume_accept q) = rejectedClosed q"
  "rejectedInvalid (consume_accept q) = rejectedInvalid q"
  by (simp_all add: consume_accept_def Let_def)

lemma consume_accept_cell:
  assumes "ring_shape q"
  shows "cell_at (consume_accept q) p =
    (if slot_index q p = slot_index q (consumer q)
     then \<lparr>sequence = consumer q + capacity q, cell_value = None\<rparr> else cell_at q p)"
  using assms
  by (simp add: consume_accept_def Let_def cell_at_store_sequence cell_at_store_value)

lemma ring_len_consume_accept:
  assumes "0 < ring_len q"
  shows "ring_len (consume_accept q) = ring_len q - 1"
proof -
  have "producer q - consumer q \<noteq> 0" using assms by (auto simp: ring_len_def)
  then have "unat (producer q - consumer q - 1) = ring_len q - 1"
    by (simp add: ring_len_def unat_minus_one)
  then show ?thesis by (simp add: ring_len_def algebra_simps)
qed

text \<open>Counted from the new consumer, the released slot is the last one of the next lap.\<close>

lemma consume_accept_slot:
  assumes inv: "ring_inv q" and k: "k < unat (capacity q)"
  shows "cell_at (consume_accept q) (consumer q + 1 + of_nat k) =
    (if Suc k = unat (capacity q) then \<lparr>sequence = consumer q + capacity q, cell_value = None\<rparr>
     else cell_at q (consumer q + of_nat (Suc k)))"
proof -
  have shape: "ring_shape q" using inv by (rule ring_invD)
  have eq: "consumer q + 1 + of_nat k = consumer q + of_nat (Suc k)" by simp
  show ?thesis
  proof (cases "Suc k = unat (capacity q)")
    case True
    have "of_nat (Suc k) = capacity q" unfolding True by simp
    then have "slot_index q (consumer q + of_nat (Suc k)) = slot_index q (consumer q)"
      by (simp only: slot_index_wrap [OF shape])
    then show ?thesis unfolding eq using True by (simp add: consume_accept_cell [OF shape])
  next
    case False
    then have "slot_index q (consumer q + of_nat (Suc k)) \<noteq> slot_index q (consumer q + of_nat 0)"
      using k by (subst slot_index_inj [OF shape]) auto
    then show ?thesis unfolding eq
      using False by (simp add: consume_accept_cell [OF shape] del: of_nat_Suc)
  qed
qed

lemma ring_inv_consume_accept:
  assumes inv: "ring_inv q" and ne: "0 < ring_len q"
  shows "ring_inv (consume_accept q)"
proof -
  have "slot_ok (consume_accept q) k" if k: "k < unat (capacity q)" for k
  proof (cases "Suc k = unat (capacity q)")
    case True
    then have "of_nat (Suc k) = capacity q" by simp
    then have "consumer q + 1 + of_nat k = consumer q + capacity q" by simp
    then show ?thesis
      using True ring_invD(2) [OF inv] consume_accept_slot [OF inv k]
      by (simp add: slot_ok_def Let_def ring_len_consume_accept ne)
  next
    case False
    with k have "slot_ok q (Suc k)" using inv by (intro ring_invD) auto
    then show ?thesis
      using False consume_accept_slot [OF inv k] ne
      by (simp add: slot_ok_def Let_def ring_len_consume_accept less_diff_conv algebra_simps
          split: if_splits)
  qed
  then show ?thesis
    using inv ne ring_invD(2) [OF inv] by (auto simp: ring_inv_def ring_len_consume_accept)
qed

lemma ring_items_consume_accept:
  assumes inv: "ring_inv q" and ne: "0 < ring_len q"
  shows "ring_items (consume_accept q) = tl (ring_items q)"
proof (rule nth_equalityI)
  show "length (ring_items (consume_accept q)) = length (tl (ring_items q))"
    by (simp add: ring_len_consume_accept ne)
next
  fix k assume "k < length (ring_items (consume_accept q))"
  then have k: "Suc k < ring_len q" by (simp add: ring_len_consume_accept ne)
  with ring_invD(2) [OF inv] have k': "k < unat (capacity q)" "Suc k \<noteq> unat (capacity q)" by auto
  show "ring_items (consume_accept q) ! k = tl (ring_items q) ! k"
    using k k'(2) consume_accept_slot [OF inv k'(1)] nth_upt [of 0 k "ring_len q - 1"]
    by (simp add: ring_items_def nth_tl ring_len_consume_accept ne algebra_simps)
qed

lemma TryConsume_cases:
  assumes inv: "ring_inv q"
  shows "TryConsume q =
    (if ring_items q = [] then (q, None) else (consume_accept q, Some (hd (ring_items q))))"
proof (cases "ring_len q")
  case 0
  have "slot_ok q 0"
    using ring_cap_bounds(1) [OF ring_invD(1) [OF inv]] by (intro ring_invD [OF inv]) simp
  then have "sequence (cell_at q (consumer q)) = consumer q"
    using slot_ok_free [of q 0] 0 by simp
  then show ?thesis using 0 by (simp add: TryConsume_def Let_def ring_items_def)
next
  case (Suc n)
  have "slot_ok q 0"
    using ring_cap_bounds(1) [OF ring_invD(1) [OF inv]] by (intro ring_invD [OF inv]) simp
  then obtain v where "sequence (cell_at q (consumer q)) = consumer q + 1"
    "cell_value (cell_at q (consumer q)) = Some v"
    using slot_ok_published [of q 0] Suc by auto
  then show ?thesis
    using Suc by (simp add: TryConsume_def Let_def ring_items_def consume_accept_def upt_rec)
qed

subsection \<open>Construction, re-seeding and depth\<close>

lemma fresh_cells_inv:
  assumes "ring_shape q" "producer q = b" "consumer q = b" "highWater q \<le> capacity q"
    and cells: "\<And>k. k < unat (capacity q) \<Longrightarrow>
      cell_at q (b + of_nat k) = \<lparr>sequence = b + of_nat k, cell_value = None\<rparr>"
  shows "ring_inv q \<and> ring_items q = []"
  using assms by (simp add: ring_inv_def slot_ok_def Let_def ring_len_def ring_items_def)

lemma ring_New_shape:
  assumes "ring_New cap = Inr q"
  shows "ring_shape q" "capacity q = cap" "producer q = 0" "consumer q = 0" "\<not> q_closed q"
    "highWater q = 0" "slots q = map (\<lambda>i. \<lparr>sequence = of_nat i, cell_value = None\<rparr>) [0..<unat cap]"
  using assms by (auto simp: ring_New_def ring_shape_def not_less split: if_splits)

lemma ring_New_inv:
  assumes "ring_New cap = Inr q"
  shows "ring_inv q \<and> ring_items q = [] \<and> \<not> q_closed q"
proof -
  note q = ring_New_shape [OF assms]
  have "cell_at q (0 + of_nat k) = \<lparr>sequence = 0 + of_nat k, cell_value = None\<rparr>"
    if "k < unat (capacity q)" for k
    using that slot_index_add [OF q(1), of 0 k] by (simp add: cell_at_def q(2,7))
  with q show ?thesis using fresh_cells_inv [of q 0] by simp
qed

lemma offset_index:
  fixes b :: u64
  assumes "ring_shape q" "k < unat (capacity q)"
  shows "(of_nat (slot_index q (b + of_nat k)) - (b AND mask_bits q)) AND mask_bits q = of_nat k"
proof -
  let ?c = "unat (capacity q)"
  have m: "unat (w AND mask_bits q) = unat w mod ?c" for w :: u64
    using slot_index_mod [OF assms(1), of w] by (simp add: slot_index_def)
  let ?i = "slot_index q (b + of_nat k)"
  have i: "?i = (unat b + k) mod ?c" by (rule slot_index_add [OF assms(1)])
  have bm: "b AND mask_bits q = of_nat (unat b mod ?c)"
    by (metis m of_nat_unat ucast_id)
  have "int (unat ((of_nat ?i - (b AND mask_bits q)) AND mask_bits q))
      = int (unat (of_nat ?i - (of_nat (unat b mod ?c) :: u64))) mod int ?c"
    unfolding m bm by (simp add: zmod_int)
  also have "int (unat (of_nat ?i - (of_nat (unat b mod ?c) :: u64)))
      = (int ?i - int (unat b mod ?c)) mod 2 ^ 64"
    by (simp add: uint_word_ariths unsigned_of_nat take_bit_eq_mod zmod_int mod_simps)
  also have "\<dots> mod int ?c = (int ?i - int (unat b mod ?c)) mod int ?c"
  proof -
    have "int ?c dvd 2 ^ 64"
      using ring_cap_bounds(3) [OF assms(1)] by (metis of_nat_dvd_iff of_nat_numeral of_nat_power)
    then show ?thesis by (rule mod_mod_cancel)
  qed
  also have "\<dots> = int k mod int ?c"
    unfolding i by (simp add: zmod_int mod_simps)
  also have "\<dots> = int k" using assms(2) by (metis mod_less of_nat_mod)
  finally have "unat ((of_nat ?i - (b AND mask_bits q)) AND mask_bits q) = k"
    by (simp only: of_nat_eq_iff)
  then show ?thesis by (metis of_nat_unat ucast_id)
qed

lemma seedEmptyForTest_inv:
  assumes "ring_inv q"
  shows "ring_inv (seedEmptyForTest b q) \<and> ring_items (seedEmptyForTest b q) = []"
proof -
  let ?s = "seedEmptyForTest b q"
  have shape: "ring_shape q" using assms by (rule ring_invD)
  then have shape': "ring_shape ?s" by (simp add: ring_shape_def seedEmptyForTest_def)
  have idx: "slot_index ?s = slot_index q"
    by (simp add: fun_eq_iff slot_index_def seedEmptyForTest_def)
  have "cell_at ?s (b + of_nat k) = \<lparr>sequence = b + of_nat k, cell_value = None\<rparr>"
    if k: "k < unat (capacity q)" for k
    using slot_index_less [OF shape, of "b + of_nat k"] shape offset_index [OF shape k, of b]
    unfolding cell_at_def idx by (simp add: seedEmptyForTest_def ring_shape_def)
  then show ?thesis
    using shape' ring_invD(3) [OF assms]
    by (intro fresh_cells_inv [where b = b]) (simp_all add: seedEmptyForTest_def)
qed

lemma Depth_items:
  assumes "ring_inv q"
  shows "Depth q = of_nat (length (ring_items q))" "unat (Depth q) = length (ring_items q)"
proof -
  have "unat (Depth q) = ring_len q"
    using ring_invD(2) [OF assms] by (simp add: Depth_def clamp_depth_def ring_len_def word_less_nat_alt)
  then show "unat (Depth q) = length (ring_items q)" by simp
  then show "Depth q = of_nat (length (ring_items q))" by (metis of_nat_unat ucast_id)
qed

subsection \<open>The contract of a bounded queue\<close>

text \<open>
  What the flusher and the appender rely on: the queue is a bounded first-in first-out list.
  \<open>items\<close> is the abstract content, \<open>bound\<close> its limit, \<open>shut\<close> the closed flag. The
  client lemmas are about arbitrary sequences of operations.
\<close>

datatype 'a queue_op = OpPublish 'a | OpConsume | OpClose

fun run_ops :: "('a option \<Rightarrow> 'q \<Rightarrow> 'q \<times> PublishResult) \<Rightarrow> ('q \<Rightarrow> 'q \<times> 'a option) \<Rightarrow> ('q \<Rightarrow> 'q) \<Rightarrow>
    'a queue_op list \<Rightarrow> 'q \<Rightarrow> 'q \<times> 'a list \<times> 'a list" where
  "run_ops pub con cls [] q = (q, [], [])"
| "run_ops pub con cls (OpPublish v # ops) q =
     (let (q1, r) = pub (Some v) q; (q2, acc, out) = run_ops pub con cls ops q1
      in (q2, (if r = PublishAccepted then v # acc else acc), out))"
| "run_ops pub con cls (OpConsume # ops) q =
     (let (q1, r) = con q; (q2, acc, out) = run_ops pub con cls ops q1
      in (q2, acc, (case r of None \<Rightarrow> out | Some v \<Rightarrow> v # out)))"
| "run_ops pub con cls (OpClose # ops) q = run_ops pub con cls ops (cls q)"

fun consume_n :: "('q \<Rightarrow> 'q \<times> 'a option) \<Rightarrow> nat \<Rightarrow> 'q \<Rightarrow> 'q \<times> 'a list" where
  "consume_n con 0 q = (q, [])"
| "consume_n con (Suc n) q =
     (case con q of
        (q1, None) \<Rightarrow> (q1, [])
      | (q1, Some v) \<Rightarrow> (let (q2, vs) = consume_n con n q1 in (q2, v # vs)))"

locale bounded_fifo =
  fixes publish :: "'a option \<Rightarrow> 'q \<Rightarrow> 'q \<times> PublishResult"
    and consume :: "'q \<Rightarrow> 'q \<times> 'a option"
    and close :: "'q \<Rightarrow> 'q"
    and items :: "'q \<Rightarrow> 'a list"
    and bound :: "'q \<Rightarrow> nat"
    and shut :: "'q \<Rightarrow> bool"
    and invar :: "'q \<Rightarrow> bool"
  assumes publish_result: "invar q \<Longrightarrow> snd (publish (Some v) q) =
      (if shut q then PublishClosed else if length (items q) = bound q then PublishFull
       else PublishAccepted)"
    and publish_items: "invar q \<Longrightarrow> items (fst (publish (Some v) q)) =
      (if snd (publish (Some v) q) = PublishAccepted then items q @ [v] else items q)"
    and publish_invar: "invar q \<Longrightarrow> invar (fst (publish x q))"
    and publish_frame: "invar q \<Longrightarrow> bound (fst (publish x q)) = bound q"
      "invar q \<Longrightarrow> shut (fst (publish x q)) = shut q"
    and consume_result: "invar q \<Longrightarrow> snd (consume q) =
      (case items q of [] \<Rightarrow> None | x # xs \<Rightarrow> Some x)"
    and consume_items: "invar q \<Longrightarrow> items (fst (consume q)) = tl (items q)"
    and consume_invar: "invar q \<Longrightarrow> invar (fst (consume q))"
    and consume_frame: "invar q \<Longrightarrow> bound (fst (consume q)) = bound q"
      "invar q \<Longrightarrow> shut (fst (consume q)) = shut q"
    and close_spec: "invar q \<Longrightarrow> invar (close q)" "invar q \<Longrightarrow> items (close q) = items q"
      "invar q \<Longrightarrow> bound (close q) = bound q" "invar q \<Longrightarrow> shut (close q)"
    and bounded: "invar q \<Longrightarrow> length (items q) \<le> bound q"
begin

text \<open>Nothing is lost, duplicated or reordered, whatever the sequence of operations.\<close>

lemma publish_step:
  assumes "invar q" "publish (Some v) q = (q1, r)"
  shows "invar q1" "items q1 = (if r = PublishAccepted then items q @ [v] else items q)"
    "shut q1 = shut q" "bound q1 = bound q" "shut q \<Longrightarrow> r = PublishClosed"
  using assms publish_result [of q v] publish_items [of q v] publish_invar [of q "Some v"]
    publish_frame [of q "Some v"] by simp_all

lemma consume_step:
  assumes "invar q" "consume q = (q1, r)"
  shows "invar q1" "shut q1 = shut q" "bound q1 = bound q"
    "r = None \<Longrightarrow> items q = [] \<and> items q1 = []" "r = Some v \<Longrightarrow> items q = v # items q1"
  using assms consume_result [of q] consume_items [of q] consume_invar [of q] consume_frame [of q]
  by (cases "items q"; simp)+

lemma run_ops_fifo:
  assumes "invar q" "run_ops publish consume close ops q = (q', acc, out)"
  shows "invar q' \<and> items q @ acc = out @ items q'"
  using assms
proof (induction ops arbitrary: q acc out)
  case (Cons op ops)
  show ?case
  proof (cases op)
    case (OpPublish v)
    obtain q1 r where p: "publish (Some v) q = (q1, r)" by fastforce
    obtain acc' where "run_ops publish consume close ops q1 = (q', acc', out)"
      "acc = (if r = PublishAccepted then v # acc' else acc')"
      using Cons.prems(2) OpPublish p by (auto split: prod.splits)
    then show ?thesis
      using Cons.IH [of q1 acc' out] publish_step(1,2) [OF Cons.prems(1) p]
      by (auto split: if_splits)
  next
    case OpConsume
    obtain q1 r where c: "consume q = (q1, r)" by fastforce
    obtain out' where "run_ops publish consume close ops q1 = (q', acc, out')"
      "out = (case r of None \<Rightarrow> out' | Some v \<Rightarrow> v # out')"
      using Cons.prems(2) OpConsume c by (auto split: prod.splits)
    then show ?thesis
      using Cons.IH [of q1 acc out'] consume_step [OF Cons.prems(1) c] by (cases r) auto
  next
    case OpClose
    then show ?thesis
      using Cons.IH [of "close q" acc out] Cons.prems close_spec [OF Cons.prems(1)] by simp
  qed
qed auto

lemma run_ops_closed:
  assumes "invar q" "shut q" "run_ops publish consume close ops q = (q', acc, out)"
  shows "acc = [] \<and> shut q'"
  using assms
proof (induction ops arbitrary: q acc out)
  case (Cons op ops)
  show ?case
  proof (cases op)
    case (OpPublish v)
    obtain q1 r where p: "publish (Some v) q = (q1, r)" by fastforce
    obtain acc' where "run_ops publish consume close ops q1 = (q', acc', out)"
      "acc = (if r = PublishAccepted then v # acc' else acc')"
      using Cons.prems(3) OpPublish p by (auto split: prod.splits)
    then show ?thesis
      using Cons.IH [of q1 acc' out] publish_step [OF Cons.prems(1) p] Cons.prems(2) by simp
  next
    case OpConsume
    obtain q1 r where c: "consume q = (q1, r)" by fastforce
    obtain out' where "run_ops publish consume close ops q1 = (q', acc, out')"
      using Cons.prems(3) OpConsume c by (auto split: prod.splits)
    then show ?thesis
      using Cons.IH [of q1 acc out'] consume_step [OF Cons.prems(1) c] Cons.prems(2) by simp
  next
    case OpClose
    then show ?thesis
      using Cons.IH [of "close q" acc out] Cons.prems close_spec [OF Cons.prems(1)] by simp
  qed
qed auto

lemma consume_n_take:
  assumes "invar q" "consume_n consume n q = (q', vs)"
  shows "invar q' \<and> vs = take n (items q) \<and> items q' = drop n (items q)
    \<and> shut q' = shut q \<and> bound q' = bound q"
  using assms
proof (induction n arbitrary: q vs)
  case (Suc n)
  obtain q1 r where c: "consume q = (q1, r)" by fastforce
  note st = consume_step [OF Suc.prems(1) c]
  show ?case
  proof (cases r)
    case None
    then show ?thesis using Suc.prems c st by auto
  next
    case (Some v)
    obtain vs' where "consume_n consume n q1 = (q', vs')" "vs = v # vs'"
      using Suc.prems(2) c Some by (auto split: prod.splits)
    then show ?thesis using Suc.IH [of q1 vs'] st Some by auto
  qed
qed simp

end

interpretation ring: bounded_fifo TryPublish TryConsume ring_Close ring_items
  "\<lambda>q. unat (capacity q)" q_closed ring_inv
proof unfold_locales
  fix q :: "'a Queue" and v :: 'a and x :: "'a option"
  assume inv: "ring_inv q"
  note le = ring_invD(2) [OF inv]
  let ?q = "q\<lparr>publishAttempts := publishAttempts q + 1\<rparr>"
  show "snd (TryPublish (Some v) q) = (if q_closed q then PublishClosed
      else if length (ring_items q) = unat (capacity q) then PublishFull else PublishAccepted)"
    by (simp add: TryPublish_cases [OF inv])
  show "ring_items (fst (TryPublish (Some v) q)) =
      (if snd (TryPublish (Some v) q) = PublishAccepted then ring_items q @ [v] else ring_items q)"
    using le inv by (simp add: TryPublish_cases [OF inv] ring_items_publish_accept)
  show "ring_inv (fst (TryPublish x q))"
    using le inv by (cases x) (simp_all add: TryPublish_cases [OF inv] ring_inv_publish_accept)
  show "unat (capacity (fst (TryPublish x q))) = unat (capacity q)"
    by (cases x) (simp_all add: TryPublish_cases [OF inv])
  show "q_closed (fst (TryPublish x q)) = q_closed q"
    by (cases x) (simp_all add: TryPublish_cases [OF inv])
  show "snd (TryConsume q) = (case ring_items q of [] \<Rightarrow> None | x # xs \<Rightarrow> Some x)"
    by (simp add: TryConsume_cases [OF inv] split: list.splits)
  show "ring_items (fst (TryConsume q)) = tl (ring_items q)"
    using ring_items_consume_accept [OF inv] by (auto simp: TryConsume_cases [OF inv] ring_len_pos)
  show "ring_inv (fst (TryConsume q))"
    using inv ring_inv_consume_accept [OF inv]
    by (auto simp: TryConsume_cases [OF inv] ring_len_pos)
qed (simp_all add: TryConsume_cases ring_Close_def ring_invD)

subsection \<open>Accounting\<close>

text \<open>Every attempt is counted once, and the depth is what was published and not consumed.\<close>

definition ring_accounts :: "'a Queue \<Rightarrow> bool" where
  "ring_accounts q \<longleftrightarrow>
     publishAttempts q = published q + rejectedFull q + rejectedClosed q + rejectedInvalid q \<and>
     published q - consumed q = of_nat (ring_len q)"

lemma of_nat_ring_len: "of_nat (ring_len q) = producer q - consumer q"
  by (simp add: ring_len_def)

lemma ring_accounts_TryPublish:
  assumes "ring_inv q" "ring_accounts q"
  shows "ring_accounts (fst (TryPublish x q))"
  using assms by (cases x)
    (simp_all add: TryPublish_cases [OF assms(1)] ring_accounts_def of_nat_ring_len algebra_simps)

lemma ring_accounts_TryConsume:
  assumes "ring_inv q" "ring_accounts q"
  shows "ring_accounts (fst (TryConsume q))"
  using assms
  by (simp add: TryConsume_cases [OF assms(1)] ring_accounts_def of_nat_ring_len algebra_simps)

lemma ring_New_accounts: "ring_New cap = Inr q \<Longrightarrow> ring_accounts q"
  by (auto simp: ring_New_def ring_accounts_def ring_len_def split: if_splits)

subsection \<open>Properties\<close>

text \<open>
  \<open>New\<close> accepts exactly the powers of two from 2 to \<open>2 ^ 30\<close>, and the queue it builds is
  open, empty, well-formed and has its counters in balance; every other capacity is refused.
\<close>

theorem ring_New_spec:
  "case (ring_New cap :: (ring_error, 'a Queue) result) of
     Inl e \<Rightarrow> e = ErrInvalidCapacity cap \<and> (\<forall>n \<in> {1..30}. unat cap \<noteq> 2 ^ n)
   | Inr q \<Rightarrow> (\<exists>n \<in> {1..30}. unat cap = 2 ^ n) \<and> unat (capacity q) = unat cap \<and> ring_inv q \<and>
       ring_items q = [] \<and> \<not> q_closed q \<and> ring_accounts q"
proof (cases "ring_New cap :: (ring_error, 'a Queue) result")
  case (Inl e)
  have "unat cap \<noteq> 2 ^ n" if n: "n \<in> {1..30}" for n
  proof
    assume eq: "unat cap = 2 ^ n"
    have "(2::nat) ^ 1 \<le> 2 ^ n" "(2::nat) ^ n \<le> 2 ^ 30"
      using n by (intro power_increasing; simp)+
    then have "2 \<le> cap" "cap \<le> maxCapacity"
      using eq by (simp_all add: word_le_nat_alt maxCapacity_def)
    moreover have "cap AND (cap - 1) = 0"
    proof -
      have "unat (cap AND (cap - 1)) = unat cap mod unat cap"
        by (rule unat_and_pred_pow2 [OF eq]) (use n in simp)
      then show ?thesis by (simp add: unat_eq_zero)
    qed
    ultimately show False using Inl by (simp add: ring_New_def not_less [symmetric])
  qed
  moreover have "e = ErrInvalidCapacity cap" using Inl by (simp add: ring_New_def split: if_splits)
  ultimately show ?thesis using Inl by simp
next
  case (Inr q)
  note shape = ring_New_shape [OF Inr]
  obtain n where n: "n < 31" "unat (capacity q) = 2 ^ n" "2 \<le> unat (capacity q)"
    using shape(1) by (rule ring_capE)
  then have "n \<in> {1..30}" by (cases n) auto
  then show ?thesis
    using Inr n shape(2) ring_New_inv [OF Inr] ring_New_accounts [OF Inr] by auto
qed

text \<open>
  For any sequence of publications, consumptions and closings on a well-formed ring, the
  accepted values are consumed in order: what was inside, followed by what was accepted, is what
  was consumed followed by what is left, and the ring stays well-formed.
\<close>

theorem ring_run_fifo:
  assumes "ring_inv q" "run_ops TryPublish TryConsume ring_Close ops q = (q', acc, out)"
  shows "ring_inv q' \<and> ring_items q @ acc = out @ ring_items q' \<and>
    length (ring_items q') \<le> unat (capacity q')"
  using ring.run_ops_fifo [OF assms] ring.bounded by blast

text \<open>
  On a well-formed ring, \<open>TryPublish\<close> and \<open>TryConsume\<close> behave as the operations of a bounded
  list on every branch (closed, full, accepted, empty), \<open>Depth\<close> is the length of the list, the
  high-water mark is the maximum of the depths, and the counters stay in balance.
\<close>

theorem ring_operations_refine:
  assumes "ring_inv q" "ring_accounts q"
  shows "snd (TryPublish (Some v) q) =
      (if q_closed q then PublishClosed
       else if length (ring_items q) = unat (capacity q) then PublishFull else PublishAccepted) \<and>
    ring_items (fst (TryPublish (Some v) q)) =
      (if snd (TryPublish (Some v) q) = PublishAccepted then ring_items q @ [v] else ring_items q) \<and>
    highWater (fst (TryPublish (Some v) q)) =
      (if snd (TryPublish (Some v) q) = PublishAccepted
       then max (highWater q) (of_nat (length (ring_items q) + 1)) else highWater q) \<and>
    snd (TryConsume q) = (case ring_items q of [] \<Rightarrow> None | x # xs \<Rightarrow> Some x) \<and>
    ring_items (fst (TryConsume q)) = tl (ring_items q) \<and>
    unat (Depth q) = length (ring_items q) \<and>
    ring_accounts (fst (TryPublish (Some v) q)) \<and> ring_accounts (fst (TryConsume q))"
proof -
  let ?q = "q\<lparr>publishAttempts := publishAttempts q + 1\<rparr>"
  have "highWater (fst (TryPublish (Some v) q)) =
      (if snd (TryPublish (Some v) q) = PublishAccepted
       then max (highWater q) (of_nat (length (ring_items q) + 1)) else highWater q)"
    using highWater_publish_accept [of ?q v] assms(1) ring_invD(2) [OF assms(1)]
    by (simp add: TryPublish_cases [OF assms(1)] ac_simps)
  then show ?thesis
    using ring.publish_result [OF assms(1)] ring.publish_items [OF assms(1)]
      ring.consume_result [OF assms(1)] ring.consume_items [OF assms(1)] Depth_items [OF assms(1)]
      ring_accounts_TryPublish [OF assms] ring_accounts_TryConsume [OF assms]
    by blast
qed

definition ring4 :: "nat Queue" where
  "ring4 = projr (ring_New 4)"

lemma ring4_ok: "ring_inv ring4" "ring_items ring4 = []" "ring_accounts ring4" "\<not> q_closed ring4"
  "capacity ring4 = 4"
proof -
  obtain q :: "nat Queue" where q: "ring_New 4 = Inr q"
    by (simp add: ring_New_def maxCapacity_def)
  then have eq: "ring4 = q" by (simp add: ring4_def)
  then show "ring_inv ring4" "ring_items ring4 = []" "\<not> q_closed ring4" "capacity ring4 = 4"
    using ring_New_inv [OF q] ring_New_shape [OF q] by simp_all
  show "ring_accounts ring4" using ring_New_accounts [OF q] eq by simp
qed

theorem ring_run_fifo_witness:
  "\<exists>q' acc out. run_ops TryPublish TryConsume ring_Close
      [OpPublish 1, OpPublish 2, OpConsume, OpClose, OpPublish 3, OpConsume] ring4 = (q', acc, out) \<and>
    ring_items ring4 @ acc = out @ ring_items q'"
proof -
  obtain q' acc out where r: "run_ops TryPublish TryConsume ring_Close
      [OpPublish 1, OpPublish 2, OpConsume, OpClose, OpPublish 3, OpConsume] ring4 = (q', acc, out)"
    by (metis prod_cases3)
  with ring_run_fifo [OF ring4_ok(1) r] show ?thesis by blast
qed

theorem ring_operations_refine_witness:
  "snd (TryPublish (Some 5) ring4) = PublishAccepted \<and>
   ring_items (fst (TryPublish (Some 5) ring4)) = [5] \<and> unat (Depth ring4) = 0 \<and>
   snd (TryConsume ring4) = None"
  using ring_operations_refine [OF ring4_ok(1,3), of 5] ring4_ok by simp

lemma ring_New_spec_witness:
  "(\<exists>q. (ring_New 4 :: (ring_error, nat Queue) result) = Inr q \<and> ring_inv q \<and> ring_items q = []) \<and>
   (ring_New 6 :: (ring_error, nat Queue) result) = Inl (ErrInvalidCapacity 6)"
proof -
  have "(ring_New 6 :: (ring_error, nat Queue) result) = Inl (ErrInvalidCapacity 6)"
    by (simp add: ring_New_def)
  moreover have "\<exists>q. (ring_New 4 :: (ring_error, nat Queue) result) = Inr q"
    by (simp add: ring_New_def maxCapacity_def)
  ultimately show ?thesis
    using ring_New_spec [where cap = 4 and ?'a = nat] by auto
qed

end
