(* ===== verification/Ring_MPSC.thy ===== *)
theory Ring_MPSC
  imports Ring
begin

text \<open>
  The interleaved execution of the ring: any number of goroutines inside \<open>TryPublish\<close>, one
  inside \<open>TryConsume\<close>, and \<open>Close\<close> at any moment. Every transition performs exactly one
  atomic operation of \<^verbatim>\<open>internal/ring/queue.go\<close>; the program counters name the point a
  goroutine has reached and carry its local variables. The machine also records the history
  (the values in the order of their reservations, the number of released slots, the values
  returned by the consumer), which the code does not store and the steps never read.
\<close>

subsection \<open>Program counters and atomic steps\<close>

datatype 'a prod_pc =
    Idle
  | Entry "'a option"
  | RejInvalid
  | CheckClosed 'a
  | LoopTop 'a nat
  | LoadPos 'a nat
  | LoadSeq 'a nat u64
  | Cas 'a nat u64
  | LoadCons 'a u64
  | HwLoad 'a u64 u64
  | HwCas 'a u64 u64 u64
  | StoreVal 'a u64
  | StoreSeq 'a u64
  | AddPublished
  | RejClosed
  | RejFull
  | Returned PublishResult

fun prod_step :: "'a Queue \<Rightarrow> 'a prod_pc \<Rightarrow> 'a Queue \<times> 'a prod_pc" where
  "prod_step q Idle = (q, Idle)"
| "prod_step q (Entry x) =
     (q\<lparr>publishAttempts := publishAttempts q + 1\<rparr>,
      case x of None \<Rightarrow> RejInvalid | Some v \<Rightarrow> CheckClosed v)"
| "prod_step q RejInvalid =
     (q\<lparr>rejectedInvalid := rejectedInvalid q + 1\<rparr>, Returned PublishInvalid)"
| "prod_step q (CheckClosed v) = (q, if q_closed q then RejClosed else LoopTop v 0)"
| "prod_step q (LoopTop v attempt) =
     (q, if attempt < maxPublishAttempts
         then (if q_closed q then RejClosed else LoadPos v attempt) else RejFull)"
| "prod_step q (LoadPos v attempt) = (q, LoadSeq v attempt (producer q))"
| "prod_step q (LoadSeq v attempt position) =
     (let difference = seq_difference (sequence (cell_at q position)) position
      in (q, if difference = 0 then Cas v attempt position
             else if difference < 0 then RejFull else LoopTop v (attempt + 1)))"
| "prod_step q (Cas v attempt position) =
     (if producer q = position then (q\<lparr>producer := position + 1\<rparr>, LoadCons v position)
      else (q, LoopTop v (attempt + 1)))"
| "prod_step q (LoadCons v position) =
     (q, HwLoad v position (clamp_depth q (position + 1 - consumer q)))"
| "prod_step q (HwLoad v position depth) =
     (q, if depth > highWater q then HwCas v position depth (highWater q) else StoreVal v position)"
| "prod_step q (HwCas v position depth current) =
     (if highWater q = current then (q\<lparr>highWater := depth\<rparr>, StoreVal v position)
      else (q, HwLoad v position depth))"
| "prod_step q (StoreVal v position) =
     (store_value position (Some v) q, StoreSeq v position)"
| "prod_step q (StoreSeq v position) =
     (store_sequence position (position + 1) q, AddPublished)"
| "prod_step q AddPublished = (q\<lparr>published := published q + 1\<rparr>, Returned PublishAccepted)"
| "prod_step q RejClosed = (q\<lparr>rejectedClosed := rejectedClosed q + 1\<rparr>, Returned PublishClosed)"
| "prod_step q RejFull = (q\<lparr>rejectedFull := rejectedFull q + 1\<rparr>, Returned PublishFull)"
| "prod_step q (Returned r) = (q, Returned r)"

datatype 'a cons_pc =
    CIdle
  | CLoadPos
  | CLoadSeq u64
  | CSwap u64
  | CStoreSeq u64 'a
  | CStoreCons u64 'a
  | CAddConsumed 'a
  | CReturned "'a option"

fun cons_step :: "'a Queue \<Rightarrow> 'a cons_pc \<Rightarrow> 'a Queue \<times> 'a cons_pc" where
  "cons_step q CIdle = (q, CIdle)"
| "cons_step q CLoadPos = (q, CLoadSeq (consumer q))"
| "cons_step q (CLoadSeq position) =
     (q, if seq_difference (sequence (cell_at q position)) (position + 1) \<noteq> 0
         then CReturned None else CSwap position)"
| "cons_step q (CSwap position) =
     (store_value position None q,
      case cell_value (cell_at q position) of
        None \<Rightarrow> CReturned None | Some v \<Rightarrow> CStoreSeq position v)"
| "cons_step q (CStoreSeq position v) =
     (store_sequence position (position + capacity q) q, CStoreCons position v)"
| "cons_step q (CStoreCons position v) = (q\<lparr>consumer := position + 1\<rparr>, CAddConsumed v)"
| "cons_step q (CAddConsumed v) = (q\<lparr>consumed := consumed q + 1\<rparr>, CReturned (Some v))"
| "cons_step q (CReturned r) = (q, CReturned r)"

text \<open>A goroutine that runs alone: \<open>n\<close> atomic steps from a program counter.\<close>

fun prod_steps :: "nat \<Rightarrow> 'a Queue \<times> 'a prod_pc \<Rightarrow> 'a Queue \<times> 'a prod_pc" where
  "prod_steps 0 s = s"
| "prod_steps (Suc n) s = prod_steps n (prod_step (fst s) (snd s))"

fun cons_steps :: "nat \<Rightarrow> 'a Queue \<times> 'a cons_pc \<Rightarrow> 'a Queue \<times> 'a cons_pc" where
  "cons_steps 0 s = s"
| "cons_steps (Suc n) s = cons_steps n (cons_step (fst s) (snd s))"

subsection \<open>The machine\<close>

record 'a mpsc =
  mq :: "'a Queue"
  prods :: "nat \<Rightarrow> 'a prod_pc"
  cons_at :: "'a cons_pc"
  origin :: u64
  reserved :: "'a list"
  released :: nat
  delivered :: "'a list"

definition mpsc_init :: "'a Queue \<Rightarrow> 'a mpsc" where
  "mpsc_init q = \<lparr>mq = q, prods = (\<lambda>_. Idle), cons_at = CIdle, origin = consumer q,
     reserved = [], released = 0, delivered = []\<rparr>"

fun at_rest :: "'a prod_pc \<Rightarrow> bool" where
  "at_rest Idle = True"
| "at_rest (Returned r) = True"
| "at_rest _ = False"

fun cons_at_rest :: "'a cons_pc \<Rightarrow> bool" where
  "cons_at_rest CIdle = True"
| "cons_at_rest (CReturned r) = True"
| "cons_at_rest _ = False"

text \<open>History: what a producer step reserves, and what a consumer step releases or returns.\<close>

fun reserves :: "'a Queue \<Rightarrow> 'a prod_pc \<Rightarrow> 'a list" where
  "reserves q (Cas v attempt position) = (if producer q = position then [v] else [])"
| "reserves q _ = []"

fun releases :: "'a cons_pc \<Rightarrow> nat" where
  "releases (CStoreSeq position v) = 1"
| "releases _ = 0"

fun delivers :: "'a cons_pc \<Rightarrow> 'a list" where
  "delivers (CAddConsumed v) = [v]"
| "delivers _ = []"

definition prod_move :: "nat \<Rightarrow> 'a mpsc \<Rightarrow> 'a mpsc" where
  "prod_move i m =
     (let (q, pc) = prod_step (mq m) (prods m i)
      in m\<lparr>mq := q, prods := (prods m)(i := pc),
           reserved := reserved m @ reserves (mq m) (prods m i)\<rparr>)"

definition cons_move :: "'a mpsc \<Rightarrow> 'a mpsc" where
  "cons_move m =
     (let (q, pc) = cons_step (mq m) (cons_at m)
      in m\<lparr>mq := q, cons_at := pc, released := released m + releases (cons_at m),
           delivered := delivered m @ delivers (cons_at m)\<rparr>)"

inductive mpsc_step :: "'a mpsc \<Rightarrow> 'a mpsc \<Rightarrow> bool" where
  publish_call: "at_rest (prods m i) \<Longrightarrow> mpsc_step m (m\<lparr>prods := (prods m)(i := Entry x)\<rparr>)"
| prod: "\<not> at_rest (prods m i) \<Longrightarrow> mpsc_step m (prod_move i m)"
| consume_call: "cons_at_rest (cons_at m) \<Longrightarrow> mpsc_step m (m\<lparr>cons_at := CLoadPos\<rparr>)"
| cons: "\<not> cons_at_rest (cons_at m) \<Longrightarrow> mpsc_step m (cons_move m)"
| close: "mpsc_step m (m\<lparr>mq := ring_Close (mq m)\<rparr>)"

inductive mpsc_steps :: "'a mpsc \<Rightarrow> 'a mpsc \<Rightarrow> bool" where
  refl: "mpsc_steps m m"
| step: "mpsc_steps m m' \<Longrightarrow> mpsc_step m' m'' \<Longrightarrow> mpsc_steps m m''"

subsection \<open>The invariant\<close>

text \<open>The distance of a cursor value from the position at which the run started.\<close>

definition rel :: "'a mpsc \<Rightarrow> u64 \<Rightarrow> nat" where
  "rel m w = unat (w - origin m)"

definition pos_of :: "'a mpsc \<Rightarrow> nat \<Rightarrow> u64" where
  "pos_of m p = origin m + of_nat p"

abbreviation cap_of :: "'a mpsc \<Rightarrow> nat" where
  "cap_of m \<equiv> unat (capacity (mq m))"

text \<open>A reserved, not yet published position: its owner, the value and whether it is stored.\<close>

fun owned :: "'a prod_pc \<Rightarrow> (u64 \<times> 'a \<times> bool) option" where
  "owned (LoadCons v position) = Some (position, v, False)"
| "owned (HwLoad v position depth) = Some (position, v, False)"
| "owned (HwCas v position depth current) = Some (position, v, False)"
| "owned (StoreVal v position) = Some (position, v, False)"
| "owned (StoreSeq v position) = Some (position, v, True)"
| "owned _ = None"

definition owns :: "'a mpsc \<Rightarrow> nat \<Rightarrow> nat \<Rightarrow> bool" where
  "owns m i p \<longleftrightarrow> (\<exists>v b. owned (prods m i) = Some (pos_of m p, v, b))"

fun local_ok :: "'a mpsc \<Rightarrow> 'a prod_pc \<Rightarrow> bool" where
  "local_ok m (LoadSeq v n position) = (rel m position \<le> length (reserved m))"
| "local_ok m (Cas v n position) = (rel m position < released m + cap_of m)"
| "local_ok m (HwLoad v position depth) = (depth \<le> capacity (mq m))"
| "local_ok m (HwCas v position depth current) =
     (depth \<le> capacity (mq m) \<and> current < depth \<and> current \<le> highWater (mq m))"
| "local_ok m _ = True"

definition owner_ok :: "'a mpsc \<Rightarrow> 'a prod_pc \<Rightarrow> bool" where
  "owner_ok m pc \<longleftrightarrow> (case owned pc of None \<Rightarrow> True
     | Some (position, v, b) \<Rightarrow>
         released m \<le> rel m position \<and> rel m position < length (reserved m) \<and>
         v = reserved m ! rel m position \<and>
         cell_at (mq m) position = \<lparr>sequence = position, cell_value = (if b then Some v else None)\<rparr>)"

fun swapped :: "'a cons_pc \<Rightarrow> bool" where
  "swapped (CStoreSeq position v) = True"
| "swapped _ = False"

definition published_ok :: "'a mpsc \<Rightarrow> nat \<Rightarrow> bool" where
  "published_ok m p \<longleftrightarrow>
     cell_at (mq m) (pos_of m p) = \<lparr>sequence = pos_of m p + 1, cell_value =
       (if p = released m \<and> swapped (cons_at m) then None else Some (reserved m ! p))\<rparr>"

fun cons_ok :: "'a mpsc \<Rightarrow> 'a cons_pc \<Rightarrow> bool" where
  "cons_ok m (CLoadSeq position) = (position = pos_of m (released m))"
| "cons_ok m (CSwap position) =
     (position = pos_of m (released m) \<and> released m < length (reserved m) \<and>
      (\<forall>i. \<not> owns m i (released m)))"
| "cons_ok m (CStoreSeq position v) =
     (position = pos_of m (released m) \<and> released m < length (reserved m) \<and>
      (\<forall>i. \<not> owns m i (released m)) \<and> v = reserved m ! released m)"
| "cons_ok m (CStoreCons position v) =
     (0 < released m \<and> position = pos_of m (released m - 1) \<and> v = reserved m ! (released m - 1))"
| "cons_ok m (CAddConsumed v) = (0 < released m \<and> v = reserved m ! (released m - 1))"
| "cons_ok m _ = True"

text \<open>The consumer cursor trails the released slots by one between the two stores; the
  returned values trail them by one until the call returns.\<close>

fun cursor_lag :: "'a cons_pc \<Rightarrow> nat" where
  "cursor_lag (CStoreCons position v) = 1"
| "cursor_lag _ = 0"

fun delivery_lag :: "'a cons_pc \<Rightarrow> nat" where
  "delivery_lag (CStoreCons position v) = 1"
| "delivery_lag (CAddConsumed v) = 1"
| "delivery_lag _ = 0"

definition cursors_ok :: "'a mpsc \<Rightarrow> bool" where
  "cursors_ok m \<longleftrightarrow>
     ring_shape (mq m) \<and> highWater (mq m) \<le> capacity (mq m) \<and>
     producer (mq m) = pos_of m (length (reserved m)) \<and>
     consumer (mq m) = pos_of m (released m - cursor_lag (cons_at m)) \<and>
     released m \<le> length (reserved m) \<and> length (reserved m) \<le> released m + cap_of m \<and>
     delivered m = take (released m - delivery_lag (cons_at m)) (reserved m)"

definition cells_ok :: "'a mpsc \<Rightarrow> bool" where
  "cells_ok m \<longleftrightarrow>
     (\<forall>p. length (reserved m) \<le> p \<and> p < released m + cap_of m \<longrightarrow>
        cell_at (mq m) (pos_of m p) = \<lparr>sequence = pos_of m p, cell_value = None\<rparr>) \<and>
     (\<forall>p. released m \<le> p \<and> p < length (reserved m) \<and> (\<forall>i. \<not> owns m i p) \<longrightarrow> published_ok m p)"

definition owners_distinct :: "'a mpsc \<Rightarrow> bool" where
  "owners_distinct m \<longleftrightarrow> (\<forall>i j p. owns m i p \<longrightarrow> owns m j p \<longrightarrow> i = j)"

definition mpsc_inv :: "'a mpsc \<Rightarrow> bool" where
  "mpsc_inv m \<longleftrightarrow> cursors_ok m \<and> cells_ok m \<and> owners_distinct m \<and> cons_ok m (cons_at m) \<and>
     (\<forall>i. local_ok m (prods m i)) \<and> (\<forall>i. owner_ok m (prods m i))"

text \<open>The run has not gone once around the 64-bit position space.\<close>

definition no_lap :: "'a mpsc \<Rightarrow> bool" where
  "no_lap m \<longleftrightarrow> length (reserved m) + cap_of m < 2 ^ 63"

subsection \<open>Positions and slots\<close>

lemma mpsc_frame [simp]:
  "pos_of (m\<lparr>mq := q\<rparr>) = pos_of m" "rel (m\<lparr>mq := q\<rparr>) = rel m"
  "pos_of (m\<lparr>prods := f\<rparr>) = pos_of m" "rel (m\<lparr>prods := f\<rparr>) = rel m"
  "pos_of (m\<lparr>cons_at := pc\<rparr>) = pos_of m" "rel (m\<lparr>cons_at := pc\<rparr>) = rel m"
  "pos_of (m\<lparr>reserved := xs\<rparr>) = pos_of m" "rel (m\<lparr>reserved := xs\<rparr>) = rel m"
  "pos_of (m\<lparr>released := h\<rparr>) = pos_of m" "rel (m\<lparr>released := h\<rparr>) = rel m"
  "pos_of (m\<lparr>delivered := ys\<rparr>) = pos_of m" "rel (m\<lparr>delivered := ys\<rparr>) = rel m"
  by (simp_all add: fun_eq_iff pos_of_def rel_def)

lemma owns_frame:
  "owns (m\<lparr>mq := q\<rparr>) = owns m"
  "owns (m\<lparr>cons_at := pc\<rparr>) = owns m"
  "owns (m\<lparr>reserved := xs\<rparr>) = owns m"
  "owns (m\<lparr>released := h\<rparr>) = owns m"
  "owns (m\<lparr>delivered := ys\<rparr>) = owns m"
  by (simp_all add: fun_eq_iff owns_def)

lemma rel_pos_of: "p < 2 ^ 64 \<Longrightarrow> rel m (pos_of m p) = p"
  by (simp add: rel_def pos_of_def unsigned_of_nat take_bit_eq_mod)

lemma pos_of_rel [simp]: "pos_of m (rel m w) = w"
  by (simp add: rel_def pos_of_def)

lemma pos_of_Suc [simp]: "pos_of m (Suc p) = pos_of m p + 1"
  by (simp add: pos_of_def)

lemma pos_of_add_cap: "pos_of m (p + cap_of m) = pos_of m p + capacity (mq m)"
  by (simp add: pos_of_def)

lemma slot_index_window:
  assumes "ring_shape (mq m)" "h \<le> p" "p < h + cap_of m" "h \<le> p'" "p' < h + cap_of m"
  shows "slot_index (mq m) (pos_of m p) = slot_index (mq m) (pos_of m p') \<longleftrightarrow> p = p'"
proof -
  have eq: "pos_of m x = pos_of m h + of_nat (x - h)" if "h \<le> x" for x
    using that by (simp add: pos_of_def flip: of_nat_add)
  show ?thesis
    using slot_index_inj [OF assms(1), of "p - h" "p' - h" "pos_of m h"] assms(2-)
    unfolding eq [OF assms(2)] eq [OF assms(4)] by auto
qed

lemma mpsc_invD:
  assumes "mpsc_inv m"
  shows "cursors_ok m" "cells_ok m" "owners_distinct m" "cons_ok m (cons_at m)"
    "local_ok m (prods m i)" "owner_ok m (prods m i)"
  using assms by (simp_all add: mpsc_inv_def)

lemma cursors_okD:
  assumes "cursors_ok m"
  shows "ring_shape (mq m)" "highWater (mq m) \<le> capacity (mq m)"
    "producer (mq m) = pos_of m (length (reserved m))"
    "consumer (mq m) = pos_of m (released m - cursor_lag (cons_at m))"
    "released m \<le> length (reserved m)" "length (reserved m) \<le> released m + cap_of m"
    "delivered m = take (released m - delivery_lag (cons_at m)) (reserved m)"
  using assms by (simp_all add: cursors_ok_def)

lemma cap_of_bounds:
  assumes "cursors_ok m"
  shows "2 \<le> cap_of m" "cap_of m < 2 ^ 31"
  using ring_cap_bounds [OF cursors_okD(1) [OF assms]] by simp_all

lemma free_cell:
  assumes "cells_ok m" "length (reserved m) \<le> p" "p < released m + cap_of m"
  shows "cell_at (mq m) (pos_of m p) = \<lparr>sequence = pos_of m p, cell_value = None\<rparr>"
  using assms by (simp add: cells_ok_def)

lemma published_cell:
  assumes "cells_ok m" "released m \<le> p" "p < length (reserved m)" "\<forall>i. \<not> owns m i p"
  shows "published_ok m p"
  using assms by (simp add: cells_ok_def)

lemma cells_okI:
  assumes "\<And>p. length (reserved m) \<le> p \<Longrightarrow> p < released m + cap_of m \<Longrightarrow>
      cell_at (mq m) (pos_of m p) = \<lparr>sequence = pos_of m p, cell_value = None\<rparr>"
    and "\<And>p. released m \<le> p \<Longrightarrow> p < length (reserved m) \<Longrightarrow> \<forall>i. \<not> owns m i p \<Longrightarrow> published_ok m p"
  shows "cells_ok m"
  using assms by (simp add: cells_ok_def)

lemma owned_cell:
  assumes "owner_ok m pc" "owned pc = Some (position, v, b)"
  shows "released m \<le> rel m position" "rel m position < length (reserved m)"
    "v = reserved m ! rel m position"
    "cell_at (mq m) position = \<lparr>sequence = position, cell_value = (if b then Some v else None)\<rparr>"
  using assms by (simp_all add: owner_ok_def)

lemma ownsE:
  assumes "owns m i p"
  obtains v b where "owned (prods m i) = Some (pos_of m p, v, b)"
  using assms by (auto simp: owns_def)

text \<open>Every slot of the current window is free, owned or published.\<close>

lemma window_sequence:
  assumes inv: "mpsc_inv m" and "released m \<le> p" "p < released m + cap_of m"
  shows "sequence (cell_at (mq m) (pos_of m p)) = pos_of m p \<or>
    (sequence (cell_at (mq m) (pos_of m p)) = pos_of m p + 1 \<and> p < length (reserved m) \<and>
      (\<forall>i. \<not> owns m i p))"
proof (cases "length (reserved m) \<le> p")
  case True
  then show ?thesis using free_cell [OF mpsc_invD(2) [OF inv]] assms by simp
next
  case below: False
  show ?thesis
  proof (cases "\<exists>i. owns m i p")
    case True
    then obtain i v b where "owned (prods m i) = Some (pos_of m p, v, b)"
      by (auto elim: ownsE)
    then show ?thesis using owned_cell(4) [OF mpsc_invD(6) [OF inv, of i]] by simp
  next
    case False
    then have "published_ok m p"
      using published_cell [OF mpsc_invD(2) [OF inv]] assms below by simp
    then show ?thesis using False below by (simp add: published_ok_def)
  qed
qed

subsection \<open>Steps that leave the slots alone\<close>

definition same_ring :: "'a Queue \<Rightarrow> 'a Queue \<Rightarrow> bool" where
  "same_ring q q' \<longleftrightarrow> producer q' = producer q \<and> consumer q' = consumer q \<and>
     capacity q' = capacity q \<and> mask_bits q' = mask_bits q \<and> slots q' = slots q \<and>
     highWater q \<le> highWater q' \<and> highWater q' \<le> capacity q"

lemma same_ringD:
  assumes "same_ring q q'"
  shows "producer q' = producer q" "consumer q' = consumer q" "capacity q' = capacity q"
    "cell_at q' = cell_at q" "ring_shape q' = ring_shape q" "highWater q \<le> highWater q'"
    "highWater q' \<le> capacity q"
  using assms
  by (auto simp: same_ring_def cell_at_def slot_index_def ring_shape_def fun_eq_iff)

lemma frame_simps:
  assumes "same_ring (mq m) q'"
  shows "cap_of (m\<lparr>mq := q', prods := f\<rparr>) = cap_of m" "rel (m\<lparr>mq := q', prods := f\<rparr>) = rel m"
    "pos_of (m\<lparr>mq := q', prods := f\<rparr>) = pos_of m"
    "published_ok (m\<lparr>mq := q', prods := f\<rparr>) = published_ok m"
    "owner_ok (m\<lparr>mq := q', prods := f\<rparr>) = owner_ok m"
    "cursors_ok m \<Longrightarrow> cursors_ok (m\<lparr>mq := q', prods := f\<rparr>)"
  using same_ringD [OF assms]
  by (auto simp: rel_def pos_of_def published_ok_def owner_ok_def cursors_ok_def
      fun_eq_iff split: option.splits)

lemma local_ok_frame:
  assumes "same_ring (mq m) q'" "local_ok m pc"
  shows "local_ok (m\<lparr>mq := q', prods := f\<rparr>) pc"
  using assms(2) same_ringD [OF assms(1)]
  by (cases pc) (auto simp: frame_simps [OF assms(1)])

lemma quiet_prod_inv:
  assumes inv: "mpsc_inv m" and same: "same_ring (mq m) q'"
    and own: "owned pc = owned (prods m i)"
    and loc: "local_ok (m\<lparr>mq := q', prods := (prods m)(i := pc)\<rparr>) pc"
  shows "mpsc_inv (m\<lparr>mq := q', prods := (prods m)(i := pc)\<rparr>)"
proof -
  let ?m = "m\<lparr>mq := q', prods := (prods m)(i := pc)\<rparr>"
  note fr = frame_simps [OF same, of "(prods m)(i := pc)"]
  have owns: "owns ?m = owns m"
    using own by (auto simp: fun_eq_iff owns_def fr(3))
  have "cons_ok ?m (cons_at m) = cons_ok m (cons_at m)"
    by (cases "cons_at m") (simp_all add: fr owns)
  moreover have "cells_ok ?m = cells_ok m"
    by (simp add: cells_ok_def fr owns same_ringD(3,4) [OF same])
  moreover have "owners_distinct ?m = owners_distinct m"
    by (simp add: owners_distinct_def owns)
  moreover have "local_ok ?m (prods ?m j)" for j
    using loc local_ok_frame [OF same mpsc_invD(5) [OF inv]] by simp
  moreover have "owner_ok ?m (prods ?m j)" for j
    using mpsc_invD(6) [OF inv] own by (auto simp: fr owner_ok_def)
  ultimately show ?thesis
    using inv fr(6) by (simp add: mpsc_inv_def)
qed

lemma same_ring_refl: "cursors_ok m \<Longrightarrow> same_ring (mq m) (mq m)"
  by (simp add: same_ring_def cursors_ok_def)

subsection \<open>The producer steps that matter\<close>

lemma word_of_nat_cap_neq:
  assumes "2 \<le> c" "c < 2 ^ 31"
  shows "(of_nat c :: u64) \<noteq> 0" "(of_nat c :: u64) \<noteq> 1"
proof -
  have "unat (of_nat c :: u64) = c" using assms by (simp add: unsigned_of_nat take_bit_eq_mod)
  then show "(of_nat c :: u64) \<noteq> 0" "(of_nat c :: u64) \<noteq> 1" using assms by auto
qed

lemma window_end_sequence:
  assumes inv: "mpsc_inv m" and full: "length (reserved m) = released m + cap_of m"
  shows "sequence (cell_at (mq m) (pos_of m (released m + cap_of m))) =
      pos_of m (released m) \<or>
    sequence (cell_at (mq m) (pos_of m (released m + cap_of m))) = pos_of m (released m) + 1"
proof -
  note cur = mpsc_invD(1) [OF inv]
  have "slot_index (mq m) (pos_of m (released m + cap_of m)) = slot_index (mq m) (pos_of m (released m))"
    unfolding pos_of_add_cap by (rule slot_index_wrap [OF cursors_okD(1) [OF cur]])
  then have "cell_at (mq m) (pos_of m (released m + cap_of m)) = cell_at (mq m) (pos_of m (released m))"
    by (rule cell_at_cong_index)
  then show ?thesis
    using window_sequence [OF inv, of "released m"] cap_of_bounds(1) [OF cur] by auto
qed

lemma sequence_match_room:
  assumes inv: "mpsc_inv m" and le: "rel m position \<le> length (reserved m)"
    and match: "sequence (cell_at (mq m) position) = position"
  shows "rel m position < released m + cap_of m"
proof (rule ccontr)
  note cur = mpsc_invD(1) [OF inv]
  assume "\<not> ?thesis"
  with le cursors_okD(6) [OF cur]
  have eq: "rel m position = released m + cap_of m" "length (reserved m) = released m + cap_of m"
    by simp_all
  then have "position = pos_of m (released m + cap_of m)" by (metis pos_of_rel)
  with window_end_sequence [OF inv eq(2)] match
  have "pos_of m (released m) + of_nat (cap_of m) = pos_of m (released m) \<or>
      pos_of m (released m) + of_nat (cap_of m) = pos_of m (released m) + 1"
    by (auto simp: pos_of_def ac_simps)
  then show False using word_of_nat_cap_neq [OF cap_of_bounds [OF cur]] by simp
qed

text \<open>A successful compare-and-swap reserves the next position for its goroutine.\<close>

lemma cas_inv:
  assumes inv: "mpsc_inv m" and lap: "no_lap m" and pc: "prods m i = Cas v n position"
    and win: "producer (mq m) = position"
  shows "mpsc_inv (m\<lparr>mq := (mq m)\<lparr>producer := position + 1\<rparr>,
    prods := (prods m)(i := LoadCons v position), reserved := reserved m @ [v]\<rparr>)"
    (is "mpsc_inv ?m")
proof -
  let ?T = "length (reserved m)"
  note cur = mpsc_invD(1) [OF inv] and cells = mpsc_invD(2) [OF inv]
  note c = cursors_okD [OF cur]
  have pos: "position = pos_of m ?T" using win c(3) by simp
  have T: "?T < 2 ^ 63" using lap by (simp add: no_lap_def)
  then have rT: "rel m position = ?T" unfolding pos by (intro rel_pos_of) simp
  then have room: "?T < released m + cap_of m" using mpsc_invD(5) [OF inv, of i] pc by simp
  have fr: "rel ?m = rel m" "pos_of ?m = pos_of m" "cap_of ?m = cap_of m"
    by simp_all
  have owns: "owns ?m j p \<longleftrightarrow> (if j = i then pos_of m p = position else owns m j p)" for j p
    by (auto simp: owns_def fr)
  have other: "rel m w < ?T" if "owned (prods m j) = Some (w, u, b)" for j w u b
    using owned_cell [OF mpsc_invD(6) [OF inv]] that by blast
  have no_own: "\<not> owns m j p" if "pos_of m p = position" for j p
    using other [of j position] rT that by (fastforce simp: owns_def)
  have "cursors_ok ?m"
    using c room by (auto simp: cursors_ok_def pos)
  moreover have "cells_ok ?m"
  proof (rule cells_okI)
    show "cell_at (mq ?m) (pos_of ?m p) = \<lparr>sequence = pos_of ?m p, cell_value = None\<rparr>"
      if "length (reserved ?m) \<le> p" "p < released ?m + cap_of ?m" for p
      using free_cell [OF cells, of p] that by simp
    show "published_ok ?m p"
      if "released ?m \<le> p" "p < length (reserved ?m)" "\<forall>j. \<not> owns ?m j p" for p
    proof -
      have "pos_of m p \<noteq> position" using that(3) unfolding owns by metis
      then have "p \<noteq> ?T" using pos by auto
      then have p: "p < ?T" using that(2) by simp
      have "\<not> owns m j p" for j
        using that(3) pc unfolding owns by (cases "j = i") (simp add: owns_def, metis)
      then have "published_ok m p" using published_cell [OF cells, of p] that(1) p by simp
      then show ?thesis using p by (simp add: published_ok_def nth_append)
    qed
  qed
  moreover have "owners_distinct ?m"
    using mpsc_invD(3) [OF inv] no_own unfolding owners_distinct_def owns by (auto split: if_splits)
  moreover have "cons_ok ?m (cons_at m)"
  proof -
    have "\<not> owns ?m j (released m)" if "released m < ?T" "\<forall>j. \<not> owns m j (released m)" for j
    proof -
      have "rel m (pos_of m (released m)) = released m" using that(1) T by (simp add: rel_pos_of)
      then have "pos_of m (released m) \<noteq> position" using rT that(1) by auto
      then show ?thesis using that(2) by (simp add: owns)
    qed
    then show ?thesis
      using mpsc_invD(4) [OF inv] c(5)
      by (cases "cons_at m") (auto simp: fr nth_append)
  qed
  moreover have "local_ok ?m (prods ?m j)" for j
    using mpsc_invD(5) [OF inv, of j] by (cases "prods m j") (auto simp: fr)
  moreover have "owner_ok ?m (prods ?m j)" for j
  proof (cases "j = i")
    case True
    then show ?thesis
      using free_cell [OF cells _ room] c(5) by (simp add: owner_ok_def fr rT pos [symmetric])
  next
    case False
    then show ?thesis
      using mpsc_invD(6) [OF inv, of j] by (auto simp: owner_ok_def fr nth_append split: option.splits)
  qed
  ultimately show ?thesis by (simp add: mpsc_inv_def)
qed

text \<open>Storing into an owned slot: the slots of the other positions of the window are kept.\<close>

lemma store_cell_other:
  assumes inv: "mpsc_inv m" and own: "owned (prods m i) = Some (position, v, b)"
    and p: "released m \<le> p" "p < released m + cap_of m" "pos_of m p \<noteq> position"
  shows "cell_at (store_value position x (mq m)) (pos_of m p) = cell_at (mq m) (pos_of m p)"
    "cell_at (store_sequence position y (mq m)) (pos_of m p) = cell_at (mq m) (pos_of m p)"
proof -
  note cur = mpsc_invD(1) [OF inv]
  note c = cursors_okD [OF cur] and o = owned_cell [OF mpsc_invD(6) [OF inv, of i] own]
  have "slot_index (mq m) (pos_of m p) \<noteq> slot_index (mq m) (pos_of m (rel m position))"
    using slot_index_window [OF c(1) p(1,2) o(1)] o(2) c(6) p(3) by auto
  then show "cell_at (store_value position x (mq m)) (pos_of m p) = cell_at (mq m) (pos_of m p)"
    "cell_at (store_sequence position y (mq m)) (pos_of m p) = cell_at (mq m) (pos_of m p)"
    by (simp_all add: cell_at_store_value cell_at_store_sequence c(1))
qed

lemma owners_differ:
  assumes inv: "mpsc_inv m" and "owned (prods m i) = Some (w, v, b)"
    "owned (prods m j) = Some (w', v', b')" "i \<noteq> j"
  shows "w' \<noteq> w"
proof
  assume "w' = w"
  then have "owns m i (rel m w)" "owns m j (rel m w)" using assms by (auto simp: owns_def)
  then show False using mpsc_invD(3) [OF inv] assms(4) by (auto simp: owners_distinct_def)
qed

lemma store_owned_inv:
  assumes inv: "mpsc_inv m" and own: "owned (prods m i) = Some (position, v, b)"
    and q: "producer q' = producer (mq m)" "consumer q' = consumer (mq m)"
      "capacity q' = capacity (mq m)" "highWater q' = highWater (mq m)" "ring_shape q'"
    and other: "\<And>p. released m \<le> p \<Longrightarrow> p < released m + cap_of m \<Longrightarrow> pos_of m p \<noteq> position \<Longrightarrow>
      cell_at q' (pos_of m p) = cell_at (mq m) (pos_of m p)"
    and new: "(\<exists>b'. owned pc = Some (position, v, b') \<and> cell_at q' position =
        \<lparr>sequence = position, cell_value = (if b' then Some v else None)\<rparr>) \<or>
      (owned pc = None \<and> cell_at q' position = \<lparr>sequence = position + 1, cell_value = Some v\<rparr>)"
    and loc: "\<And>m'. local_ok m' pc"
  shows "mpsc_inv (m\<lparr>mq := q', prods := (prods m)(i := pc)\<rparr>)" (is "mpsc_inv ?m")
proof -
  note cur = mpsc_invD(1) [OF inv] and cells = mpsc_invD(2) [OF inv]
  note c = cursors_okD [OF cur] and o = owned_cell [OF mpsc_invD(6) [OF inv, of i] own]
  have sub: "owns m j p" if "owns ?m j p" for j p
    using that own new by (auto simp: owns_def split: if_splits)
  have drop: "pos_of m p = position" if "owns m j p" "\<not> owns ?m j p" for j p
    using that own by (auto simp: owns_def split: if_splits)
  have "cells_ok ?m"
  proof (rule cells_okI)
    show "cell_at (mq ?m) (pos_of ?m p) = \<lparr>sequence = pos_of ?m p, cell_value = None\<rparr>"
      if "length (reserved ?m) \<le> p" "p < released ?m + cap_of ?m" for p
    proof -
      have p: "length (reserved m) \<le> p" "p < released m + cap_of m" using that q by simp_all
      have "pos_of m p \<noteq> position"
        using o c p slot_index_window [OF c(1), of "released m" p "rel m position"] by auto
      then show ?thesis using other [of p] p c(5) free_cell [OF cells p] by simp
    qed
    show "published_ok ?m p"
      if "released ?m \<le> p" "p < length (reserved ?m)" "\<forall>j. \<not> owns ?m j p" for p
    proof (cases "pos_of m p = position")
      case True
      then have n: "owned pc = None" "cell_at q' position = \<lparr>sequence = position + 1, cell_value = Some v\<rparr>"
        using that(3) new by (auto simp: owns_def split: if_splits)
      have "p = rel m position"
        using that(1,2) o c True slot_index_window [OF c(1), of "released m" p "rel m position"] by auto
      moreover have "owns m i p" using own True by (simp add: owns_def)
      ultimately show ?thesis
        using n True o(3) mpsc_invD(4) [OF inv]
        by (cases "cons_at m") (auto simp: published_ok_def)
    next
      case False
      then have "\<not> owns m j p" for j using that(3) drop by blast
      then show ?thesis
        using other [of p] False that(1,2) c(6) published_cell [OF cells, of p]
        by (simp add: published_ok_def)
    qed
  qed
  moreover have "cons_ok ?m (cons_at m)"
    using mpsc_invD(4) [OF inv] sub by (cases "cons_at m") auto
  moreover have "owners_distinct ?m"
    using mpsc_invD(3) [OF inv] sub unfolding owners_distinct_def by blast
  moreover have "local_ok ?m (prods ?m j)" for j
    using mpsc_invD(5) [OF inv, of j] loc q by (cases "prods m j") auto
  moreover have "owner_ok ?m (prods ?m j)" for j
  proof (cases "j = i")
    case True
    then show ?thesis using o new by (auto simp: owner_ok_def)
  next
    case False
    have "owner_ok ?m (prods m j)"
    proof (cases "owned (prods m j)")
      case (Some t)
      obtain w u d where t: "t = (w, u, d)" by (cases t) auto
      note o' = owned_cell [OF mpsc_invD(6) [OF inv, of j] Some [unfolded t]]
      have "w \<noteq> position" using owners_differ [OF inv own Some [unfolded t]] False by simp
      then show ?thesis
        using Some t o' other [of "rel m w"] c(6) by (simp add: owner_ok_def)
    qed (simp add: owner_ok_def)
    then show ?thesis using False by simp
  qed
  moreover have "cursors_ok ?m" using cur q by (simp add: cursors_ok_def)
  ultimately show ?thesis by (simp add: mpsc_inv_def)
qed

lemma store_value_inv:
  assumes inv: "mpsc_inv m" and pc: "prods m i = StoreVal v position"
  shows "mpsc_inv (m\<lparr>mq := store_value position (Some v) (mq m),
    prods := (prods m)(i := StoreSeq v position)\<rparr>)"
proof -
  have own: "owned (prods m i) = Some (position, v, False)" using pc by simp
  note c = cursors_okD [OF mpsc_invD(1) [OF inv]]
  show ?thesis
    using owned_cell(4) [OF mpsc_invD(6) [OF inv] own] c(1) store_cell_other [OF inv own]
    by (intro store_owned_inv [OF inv own]) (auto simp: cell_at_store_value)
qed

lemma store_sequence_inv:
  assumes inv: "mpsc_inv m" and pc: "prods m i = StoreSeq v position"
  shows "mpsc_inv (m\<lparr>mq := store_sequence position (position + 1) (mq m),
    prods := (prods m)(i := AddPublished)\<rparr>)"
proof -
  have own: "owned (prods m i) = Some (position, v, True)" using pc by simp
  note c = cursors_okD [OF mpsc_invD(1) [OF inv]]
  show ?thesis
    using owned_cell(4) [OF mpsc_invD(6) [OF inv] own] c(1) store_cell_other [OF inv own]
    by (intro store_owned_inv [OF inv own]) (simp_all add: cell_at_store_sequence)
qed

lemma prod_move_inv:
  assumes inv: "mpsc_inv m" and lap: "no_lap m"
  shows "mpsc_inv (prod_move i m)"
proof -
  note cur = mpsc_invD(1) [OF inv]
  note c = cursors_okD [OF cur] and same = same_ring_refl [OF cur]
  have quiet: "mpsc_inv (m\<lparr>mq := q', prods := (prods m)(i := pc)\<rparr>)"
    if "same_ring (mq m) q'" "owned pc = owned (prods m i)"
      "local_ok (m\<lparr>mq := q', prods := (prods m)(i := pc)\<rparr>) pc" for q' pc
    using quiet_prod_inv [OF inv] that by blast
  have stay: "mpsc_inv (m\<lparr>prods := (prods m)(i := pc)\<rparr>)"
    if "owned pc = owned (prods m i)" "local_ok m pc" for pc
    using quiet [OF same] that local_ok_frame [OF same, of pc "(prods m)(i := pc)"] by simp
  have loc: "local_ok m (prods m i)" using inv by (rule mpsc_invD)
  show ?thesis
  proof (cases "prods m i")
    case (LoadSeq v n w)
    then show ?thesis
      using loc sequence_match_room [OF inv, of w] by (auto simp: prod_move_def Let_def intro!: stay)
  next
    case (LoadPos v n)
    have "length (reserved m) < 2 ^ 64" using lap by (simp add: no_lap_def)
    with LoadPos show ?thesis
      using c(3) by (auto simp: prod_move_def rel_pos_of intro!: stay)
  next
    case (Cas v n w)
    then show ?thesis
      using cas_inv [OF inv lap, of i v n w] by (auto simp: prod_move_def intro!: stay)
  next
    case (StoreVal v w)
    then show ?thesis using store_value_inv [OF inv, of i v w] by (simp add: prod_move_def)
  next
    case (StoreSeq v w)
    then show ?thesis using store_sequence_inv [OF inv, of i v w] by (simp add: prod_move_def)
  next
    case (HwCas v w d cur)
    then show ?thesis using loc c(2)
      by (auto simp: prod_move_def same_ring_def intro!: stay quiet)
  qed (use inv loc c in \<open>auto simp: prod_move_def same_ring_def clamp_depth_le fun_upd_idem
      split: option.splits intro!: stay quiet\<close>)
qed

subsection \<open>The consumer steps\<close>

lemma cons_local_inv:
  assumes inv: "mpsc_inv m" and "cons_ok m pc"
    and "cursor_lag pc = cursor_lag (cons_at m)" "delivery_lag pc = delivery_lag (cons_at m)"
    and "swapped pc = swapped (cons_at m)"
  shows "mpsc_inv (m\<lparr>cons_at := pc\<rparr>)"
proof -
  have "local_ok (m\<lparr>cons_at := pc\<rparr>) x = local_ok m x" for x by (cases x) simp_all
  moreover have "owner_ok (m\<lparr>cons_at := pc\<rparr>) x = owner_ok m x" for x
    by (simp add: owner_ok_def split: option.splits)
  moreover have "cons_ok (m\<lparr>cons_at := pc\<rparr>) pc = cons_ok m pc"
    by (cases pc) (simp_all add: owns_frame)
  ultimately show ?thesis
    using assms by (simp add: mpsc_inv_def cursors_ok_def cells_ok_def published_ok_def
        owners_distinct_def owns_frame)
qed

lemma consumer_sees_published:
  assumes inv: "mpsc_inv m"
    and seq: "sequence (cell_at (mq m) (pos_of m (released m))) = pos_of m (released m) + 1"
  shows "released m < length (reserved m)" "\<not> owns m i (released m)"
  using window_sequence [OF inv, of "released m"] cap_of_bounds(1) [OF mpsc_invD(1) [OF inv]] seq
  by auto

lemma swap_cell:
  assumes inv: "mpsc_inv m" and pc: "cons_at m = CSwap position"
  shows "cell_at (mq m) position =
    \<lparr>sequence = position + 1, cell_value = Some (reserved m ! released m)\<rparr>"
  using mpsc_invD(4) [OF inv] pc published_cell [OF mpsc_invD(2) [OF inv], of "released m"]
  by (simp add: published_ok_def)

text \<open>Taking the value out of the released position and handing the slot to the next lap.\<close>

lemma consumer_cell_other:
  assumes inv: "mpsc_inv m" and p: "released m < p" "p < released m + cap_of m"
  shows "cell_at (store_value (pos_of m (released m)) x (mq m)) (pos_of m p) =
      cell_at (mq m) (pos_of m p)"
    "cell_at (store_sequence (pos_of m (released m)) y (mq m)) (pos_of m p) =
      cell_at (mq m) (pos_of m p)"
proof -
  note c = cursors_okD [OF mpsc_invD(1) [OF inv]]
  have "slot_index (mq m) (pos_of m p) \<noteq> slot_index (mq m) (pos_of m (released m))"
    using slot_index_window [OF c(1), of "released m" p "released m"] p by simp
  then show "cell_at (store_value (pos_of m (released m)) x (mq m)) (pos_of m p) =
      cell_at (mq m) (pos_of m p)"
    "cell_at (store_sequence (pos_of m (released m)) y (mq m)) (pos_of m p) =
      cell_at (mq m) (pos_of m p)"
    by (simp_all add: cell_at_store_value cell_at_store_sequence c(1))
qed

lemma owner_above:
  assumes inv: "mpsc_inv m" and "\<forall>i. \<not> owns m i (released m)"
    and own: "owned (prods m i) = Some (w, v, b)"
  shows "released m < rel m w" "rel m w < released m + cap_of m"
proof -
  note o = owned_cell [OF mpsc_invD(6) [OF inv, of i] own]
  have "owns m i (rel m w)" using own by (simp add: owns_def)
  then have "rel m w \<noteq> released m" using assms(2) by metis
  with o(1) show "released m < rel m w" by simp
  show "rel m w < released m + cap_of m"
    using o(2) cursors_okD(6) [OF mpsc_invD(1) [OF inv]] by simp
qed

lemma swap_inv:
  assumes inv: "mpsc_inv m" and pc: "cons_at m = CSwap position"
  shows "mpsc_inv (m\<lparr>mq := store_value position None (mq m),
    cons_at := CStoreSeq position (reserved m ! released m)\<rparr>)" (is "mpsc_inv ?m")
proof -
  note cur = mpsc_invD(1) [OF inv] and cells = mpsc_invD(2) [OF inv]
  note c = cursors_okD [OF cur]
  have ok: "position = pos_of m (released m)" "released m < length (reserved m)"
    "\<forall>i. \<not> owns m i (released m)"
    using mpsc_invD(4) [OF inv] pc by simp_all
  have other: "cell_at (mq ?m) (pos_of m p) = cell_at (mq m) (pos_of m p)"
    if "released m < p" "p < released m + cap_of m" for p
    using consumer_cell_other(1) [OF inv that] ok by simp
  have "cells_ok ?m"
  proof (rule cells_okI)
    show "cell_at (mq ?m) (pos_of ?m p) = \<lparr>sequence = pos_of ?m p, cell_value = None\<rparr>"
      if "length (reserved ?m) \<le> p" "p < released ?m + cap_of ?m" for p
      using that other [of p] ok(2) free_cell [OF cells, of p] by simp
    show "published_ok ?m p"
      if "released ?m \<le> p" "p < length (reserved ?m)" "\<forall>j. \<not> owns ?m j p" for p
      using that other [of p] ok c(1,6) swap_cell [OF inv pc] published_cell [OF cells, of p] pc
      by (cases "p = released m") (simp_all add: published_ok_def cell_at_store_value owns_frame)
  qed
  moreover have "owner_ok ?m (prods m j)" for j
    using mpsc_invD(6) [OF inv, of j] owner_above [OF inv ok(3), of j] other [of "rel m w" for w]
    by (fastforce simp: owner_ok_def split: option.splits)
  moreover have "local_ok ?m (prods m j)" for j
    using mpsc_invD(5) [OF inv, of j] by (cases "prods m j") auto
  ultimately show ?thesis
    using inv pc ok by (simp add: mpsc_inv_def cursors_ok_def owners_distinct_def owns_frame)
qed

lemma release_inv:
  assumes inv: "mpsc_inv m" and pc: "cons_at m = CStoreSeq position v"
  shows "mpsc_inv (m\<lparr>mq := store_sequence position (position + capacity (mq m)) (mq m),
    cons_at := CStoreCons position v, released := released m + 1\<rparr>)" (is "mpsc_inv ?m")
proof -
  note cur = mpsc_invD(1) [OF inv] and cells = mpsc_invD(2) [OF inv]
  note c = cursors_okD [OF cur]
  have ok: "position = pos_of m (released m)" "released m < length (reserved m)"
    "\<forall>i. \<not> owns m i (released m)" "v = reserved m ! released m"
    using mpsc_invD(4) [OF inv] pc by simp_all
  have other: "cell_at (mq ?m) (pos_of m p) = cell_at (mq m) (pos_of m p)"
    if "released m < p" "p < released m + cap_of m" for p
    using consumer_cell_other(2) [OF inv that] ok by simp
  have last: "cell_at (mq ?m) (pos_of m (released m + cap_of m)) =
      \<lparr>sequence = pos_of m (released m + cap_of m), cell_value = None\<rparr>"
    using published_cell [OF cells, of "released m"] ok pc slot_index_wrap [OF c(1)]
    by (simp add: published_ok_def pos_of_add_cap cell_at_store_sequence c(1))
  have "cells_ok ?m"
  proof (rule cells_okI)
    show "cell_at (mq ?m) (pos_of ?m p) = \<lparr>sequence = pos_of ?m p, cell_value = None\<rparr>"
      if "length (reserved ?m) \<le> p" "p < released ?m + cap_of ?m" for p
      using that other [of p] last ok(2) free_cell [OF cells, of p]
      by (cases "p = released m + cap_of m") simp_all
    show "published_ok ?m p"
      if "released ?m \<le> p" "p < length (reserved ?m)" "\<forall>j. \<not> owns ?m j p" for p
      using that other [of p] c(6) published_cell [OF cells, of p] by (simp add: published_ok_def owns_frame)
  qed
  moreover have "owner_ok ?m (prods m j)" for j
    using mpsc_invD(6) [OF inv, of j] owner_above [OF inv ok(3), of j] other [of "rel m w" for w]
    by (fastforce simp: owner_ok_def Suc_le_eq split: option.splits)
  moreover have "local_ok ?m (prods m j)" for j
    using mpsc_invD(5) [OF inv, of j] by (cases "prods m j") auto
  ultimately show ?thesis
    using inv pc ok by (simp add: mpsc_inv_def cursors_ok_def owners_distinct_def owns_frame)
qed

lemma cons_cursor_inv:
  assumes inv: "mpsc_inv m"
    and step: "cons_at m = CStoreCons position v \<and> q' = (mq m)\<lparr>consumer := position + 1\<rparr> \<and>
        pc = CAddConsumed v \<and> out = delivered m
      \<or> cons_at m = CAddConsumed v \<and> q' = (mq m)\<lparr>consumed := consumed (mq m) + 1\<rparr> \<and>
        pc = CReturned (Some v) \<and> out = delivered m @ [v]"
  shows "mpsc_inv (m\<lparr>mq := q', cons_at := pc, delivered := out\<rparr>)" (is "mpsc_inv ?m")
proof -
  note c = cursors_okD [OF mpsc_invD(1) [OF inv]]
  have "cursors_ok ?m"
    using step mpsc_invD(4) [OF inv] c
    by (cases "released m") (auto simp: cursors_ok_def take_Suc_conv_app_nth)
  moreover have "owner_ok ?m x = owner_ok m x" for x
    using step by (auto simp: owner_ok_def split: option.splits)
  moreover have "local_ok ?m x = local_ok m x" for x
    using step by (cases x) auto
  moreover have "cells_ok ?m"
    using step mpsc_invD(2) [OF inv] by (auto simp: cells_ok_def published_ok_def owns_frame)
  ultimately show ?thesis
    using inv step by (auto simp: mpsc_inv_def owners_distinct_def owns_frame)
qed

lemma cons_move_inv:
  assumes inv: "mpsc_inv m" and busy: "\<not> cons_at_rest (cons_at m)"
  shows "mpsc_inv (cons_move m)"
proof (cases "cons_at m")
  case CLoadPos
  then show ?thesis
    using cursors_okD(4) [OF mpsc_invD(1) [OF inv]] cons_local_inv [OF inv, of "CLoadSeq (consumer (mq m))"]
    by (simp add: cons_move_def)
next
  case (CLoadSeq w)
  then have "w = pos_of m (released m)" using mpsc_invD(4) [OF inv] by simp
  with CLoadSeq show ?thesis
    using consumer_sees_published [OF inv] cons_local_inv [OF inv, of "CSwap w"]
      cons_local_inv [OF inv, of "CReturned None"]
    by (auto simp: cons_move_def)
next
  case (CSwap w)
  then show ?thesis using swap_cell [OF inv CSwap] swap_inv [OF inv CSwap] by (simp add: cons_move_def)
next
  case (CStoreSeq w v)
  then show ?thesis using release_inv [OF inv CStoreSeq] by (simp add: cons_move_def)
next
  case (CStoreCons w v)
  then show ?thesis
    using cons_cursor_inv [OF inv, of w v _ "CAddConsumed v" "delivered m"] by (simp add: cons_move_def)
next
  case (CAddConsumed v)
  then show ?thesis
    using cons_cursor_inv [OF inv, of _ v _ "CReturned (Some v)" "delivered m @ [v]"]
    by (simp add: cons_move_def)
qed (use busy in auto)

subsection \<open>Every interleaving keeps the invariant\<close>

lemma mpsc_init_simps [simp]:
  "mq (mpsc_init q) = q" "prods (mpsc_init q) i = Idle" "cons_at (mpsc_init q) = CIdle"
  "origin (mpsc_init q) = consumer q" "reserved (mpsc_init q) = []" "released (mpsc_init q) = 0"
  "delivered (mpsc_init q) = []"
  by (simp_all add: mpsc_init_def)

lemma cell_eqI: "sequence c = s \<Longrightarrow> cell_value c = v \<Longrightarrow> c = \<lparr>sequence = s, cell_value = v\<rparr>"
  by (cases c) simp

lemma mpsc_init_inv:
  assumes inv: "ring_inv q" and empty: "ring_items q = []"
  shows "mpsc_inv (mpsc_init q)"
proof -
  let ?m = "mpsc_init q"
  have len: "ring_len q = 0" using empty by (metis length_ring_items list.size(3))
  have pos: "pos_of ?m p = consumer q + of_nat p" for p by (simp add: mpsc_init_def pos_of_def)
  have "cells_ok ?m"
    using ring_invD(4) [OF inv]
    by (intro cells_okI) (auto simp: pos slot_ok_def Let_def len intro!: cell_eqI)
  moreover have "cursors_ok ?m"
    using ring_invD [OF inv] producer_eq [of q] len by (simp add: cursors_ok_def pos)
  ultimately show ?thesis
    by (simp add: mpsc_inv_def owners_distinct_def owns_def owner_ok_def)
qed

lemma mpsc_step_inv:
  assumes "mpsc_step m m'" "mpsc_inv m" "no_lap m"
  shows "mpsc_inv m'"
  using assms
proof (induction rule: mpsc_step.induct)
  case (publish_call m i x)
  note same = same_ring_refl [OF mpsc_invD(1) [OF publish_call(2)]]
  have "owned (prods m i) = None" using publish_call(1) by (cases "prods m i") auto
  then show ?case using quiet_prod_inv [OF publish_call(2) same, of "Entry x" i] by simp
next
  case (consume_call m)
  then show ?case using cons_local_inv [of m CLoadPos] by (cases "cons_at m") auto
next
  case (close m)
  have "same_ring (mq m) (ring_Close (mq m))"
    using same_ring_refl [OF mpsc_invD(1) [OF close(1)]] by (simp add: same_ring_def ring_Close_def)
  then show ?case
    using quiet_prod_inv [OF close(1), of "ring_Close (mq m)" "prods m i" i for i]
      local_ok_frame mpsc_invD(5) [OF close(1)] by fastforce
qed (simp_all add: prod_move_inv cons_move_inv)

lemma prod_step_capacity: "capacity (fst (prod_step q pc)) = capacity q"
  by (cases pc) (auto simp: Let_def)

lemma cons_step_capacity: "capacity (fst (cons_step q pc)) = capacity q"
  by (cases pc) auto

lemma mpsc_step_mono:
  assumes "mpsc_step m m'"
  shows "\<exists>xs. reserved m' = reserved m @ xs" "origin m' = origin m" "cap_of m' = cap_of m"
    "\<exists>ys. delivered m' = delivered m @ ys" "released m \<le> released m'"
  using assms
  by (cases rule: mpsc_step.cases; auto simp: prod_move_def cons_move_def ring_Close_def
      prod_step_capacity cons_step_capacity split: prod.splits; metis prod_step_capacity cons_step_capacity fst_conv)+

lemma no_lap_mono: "mpsc_step m m' \<Longrightarrow> no_lap m' \<Longrightarrow> no_lap m"
  using mpsc_step_mono(1,3) [of m m'] by (auto simp: no_lap_def)

lemma mpsc_steps_inv:
  assumes "mpsc_steps m m'" "mpsc_inv m" "no_lap m'"
  shows "mpsc_inv m'"
  using assms
proof (induction rule: mpsc_steps.induct)
  case (step m m' m'')
  then show ?case using mpsc_step_inv no_lap_mono by blast
qed simp

lemma mpsc_steps_mono:
  assumes "mpsc_steps m m'"
  shows "(\<exists>xs. reserved m' = reserved m @ xs) \<and> origin m' = origin m \<and> cap_of m' = cap_of m \<and>
    (\<exists>ys. delivered m' = delivered m @ ys) \<and> released m \<le> released m'"
  using assms
proof (induction rule: mpsc_steps.induct)
  case (step m m' m'')
  then show ?case using mpsc_step_mono [of m' m''] by fastforce
qed simp

subsection \<open>A publication finishes in a bounded number of its own steps\<close>

text \<open>
  Every other goroutine may move between two steps of a call. The bounded retry budget limits
  the compare-and-swap loop; the high-water loop can be disturbed only by an update that raises
  the mark, which is bounded by the capacity.
\<close>

fun attempt_ok :: "'a prod_pc \<Rightarrow> bool" where
  "attempt_ok (LoadPos v n) = (n < maxPublishAttempts)"
| "attempt_ok (LoadSeq v n w) = (n < maxPublishAttempts)"
| "attempt_ok (Cas v n w) = (n < maxPublishAttempts)"
| "attempt_ok _ = True"

fun rank :: "'a Queue \<Rightarrow> 'a prod_pc \<Rightarrow> nat" where
  "rank q Idle = 0"
| "rank q (Returned r) = 0"
| "rank q AddPublished = 1"
| "rank q RejInvalid = 1"
| "rank q RejClosed = 1"
| "rank q RejFull = 1"
| "rank q (StoreSeq v w) = 2"
| "rank q (StoreVal v w) = 3"
| "rank q (HwLoad v w d) = 2 * (unat (capacity q) - unat (highWater q)) + 5"
| "rank q (HwCas v w d current) = 2 * (unat (capacity q) - unat current) + 4"
| "rank q (LoadCons v w) = 2 * unat (capacity q) + 6"
| "rank q (Cas v n w) = 2 * unat (capacity q) + 7 + 4 * (maxPublishAttempts - n)"
| "rank q (LoadSeq v n w) = 2 * unat (capacity q) + 8 + 4 * (maxPublishAttempts - n)"
| "rank q (LoadPos v n) = 2 * unat (capacity q) + 9 + 4 * (maxPublishAttempts - n)"
| "rank q (LoopTop v n) = 2 * unat (capacity q) + 10 + 4 * (maxPublishAttempts - n)"
| "rank q (CheckClosed v) = 2 * unat (capacity q) + 11 + 4 * maxPublishAttempts"
| "rank q (Entry x) = 2 * unat (capacity q) + 12 + 4 * maxPublishAttempts"

lemma attempt_ok_step: "attempt_ok pc \<Longrightarrow> attempt_ok (snd (prod_step q pc))"
  by (cases pc) (auto simp: Let_def split: option.splits)

lemma rank_decreases:
  assumes "\<not> at_rest pc" "attempt_ok pc" "local_ok m pc" "mq m = q"
  shows "rank (fst (prod_step q pc)) (snd (prod_step q pc)) < rank q pc"
proof (cases pc)
  case (HwCas v w d current)
  then have "unat current \<le> unat (highWater q)" "unat current < unat (capacity q)"
    "highWater q \<noteq> current \<Longrightarrow> unat current \<noteq> unat (highWater q)"
    using assms by (auto simp: word_le_nat_alt word_less_nat_alt dest: word_unat_eq_iff [THEN iffD2])
  then show ?thesis using HwCas by (cases "highWater q = current") auto
qed (use assms in \<open>auto simp: Let_def split: option.splits\<close>)

lemma highWater_grows:
  assumes "mpsc_inv m" "mpsc_step m m'"
  shows "highWater (mq m) \<le> highWater (mq m')"
  using assms(2)
proof (cases rule: mpsc_step.cases)
  case (prod i)
  then show ?thesis
    using mpsc_invD(5) [OF assms(1), of i]
    by (cases "prods m i") (auto simp: prod_move_def Let_def order.strict_implies_order)
next
  case cons
  then show ?thesis by (cases "cons_at m") (auto simp: cons_move_def)
qed (auto simp: ring_Close_def)

lemma rank_interference:
  assumes "capacity q' = capacity q" "highWater q \<le> highWater q'"
  shows "rank q' pc \<le> rank q pc"
  using assms by (cases pc) (auto simp: word_le_nat_alt)

inductive own_run :: "nat \<Rightarrow> 'a mpsc \<Rightarrow> nat \<Rightarrow> 'a mpsc \<Rightarrow> bool" for i :: nat and m0 :: "'a mpsc" where
  start: "own_run i m0 0 m0"
| own: "own_run i m0 k m \<Longrightarrow> \<not> at_rest (prods m i) \<Longrightarrow> own_run i m0 (Suc k) (prod_move i m)"
| other: "own_run i m0 k m \<Longrightarrow> mpsc_step m m' \<Longrightarrow> prods m' i = prods m i \<Longrightarrow> own_run i m0 k m'"

lemma own_run_rank:
  assumes "own_run i m0 k m" "mpsc_inv m0" "attempt_ok (prods m0 i)" "no_lap m"
  shows "mpsc_inv m \<and> attempt_ok (prods m i) \<and> cap_of m = cap_of m0 \<and>
    k + rank (mq m) (prods m i) \<le> rank (mq m0) (prods m0 i)"
  using assms
proof (induction rule: own_run.induct)
  case (own k m)
  have step: "mpsc_step m (prod_move i m)" using own.hyps(2) by (rule mpsc_step.prod)
  have IH: "mpsc_inv m" "attempt_ok (prods m i)" "cap_of m = cap_of m0"
    "k + rank (mq m) (prods m i) \<le> rank (mq m0) (prods m0 i)"
    using own.IH own.prems no_lap_mono [OF step] by auto
  have "rank (mq (prod_move i m)) (prods (prod_move i m) i) < rank (mq m) (prods m i)"
    using rank_decreases [OF own.hyps(2) IH(2) mpsc_invD(5) [OF IH(1)] HOL.refl]
    by (auto simp: prod_move_def split: prod.splits)
  moreover have "attempt_ok (prods (prod_move i m) i)"
    using attempt_ok_step [OF IH(2), of "mq m"] by (auto simp: prod_move_def split: prod.splits)
  ultimately show ?case
    using IH mpsc_step_inv [OF step IH(1)] no_lap_mono [OF step] own.prems mpsc_step_mono(3) [OF step]
    by simp
next
  case (other k m m')
  have IH: "mpsc_inv m" "attempt_ok (prods m i)" "cap_of m = cap_of m0"
    "k + rank (mq m) (prods m i) \<le> rank (mq m0) (prods m0 i)"
    using other.IH other.prems no_lap_mono [OF other.hyps(2)] by auto
  have cap: "capacity (mq m') = capacity (mq m)"
    using mpsc_step_mono(3) [OF other.hyps(2)] by (simp add: word_unat_eq_iff)
  have "rank (mq m') (prods m' i) \<le> rank (mq m) (prods m i)"
    using rank_interference [OF cap highWater_grows [OF IH(1) other.hyps(2)]] other.hyps(3) by simp
  then show ?case
    using IH cap mpsc_step_inv [OF other.hyps(2) IH(1)] no_lap_mono [OF other.hyps(2)] other
    by simp
qed simp

subsection \<open>The operations run alone\<close>

lemma prod_steps_add: "prod_steps (n + k) s = prod_steps k (prod_steps n s)"
  by (induction n arbitrary: s) auto

lemma prod_steps_chain:
  assumes "prod_step q pc = s1" "prod_steps k s1 = s2"
  shows "prod_steps (Suc k) (q, pc) = s2"
  using assms by simp

lemma high_water_steps:
  "\<exists>k. prod_steps k (q, HwLoad v w (clamp_depth q d)) = (observeHighWater d q, StoreVal v w)"
proof (cases "clamp_depth q d > highWater q")
  case True
  then have "prod_steps 2 (q, HwLoad v w (clamp_depth q d)) = (observeHighWater d q, StoreVal v w)"
    by (simp add: numeral_2_eq_2 observeHighWater_def)
  then show ?thesis by blast
next
  case False
  then have "prod_steps 1 (q, HwLoad v w (clamp_depth q d)) = (observeHighWater d q, StoreVal v w)"
    by (simp add: observeHighWater_def Let_def)
  then show ?thesis by blast
qed

lemma accept_steps:
  assumes "producer q = w"
  shows "\<exists>k. prod_steps k (q, Cas v n w) = (publish_accept v q, Returned PublishAccepted)"
proof -
  let ?q1 = "q\<lparr>producer := w + 1\<rparr>"
  have "clamp_depth ?q1 (w + 1 - consumer q) = clamp_depth q (w + 1 - consumer q)"
    by (simp add: clamp_depth_def)
  then have first: "prod_steps 2 (q, Cas v n w) =
      (?q1, HwLoad v w (clamp_depth ?q1 (w + 1 - consumer q)))"
    using assms by (simp add: numeral_2_eq_2)
  obtain k where k: "prod_steps k (?q1, HwLoad v w (clamp_depth ?q1 (w + 1 - consumer q))) =
      (observeHighWater (w + 1 - consumer q) ?q1, StoreVal v w)"
    using high_water_steps [of ?q1 v w "w + 1 - consumer q"] by blast
  have last: "prod_steps 3 (observeHighWater (w + 1 - consumer q) ?q1, StoreVal v w) =
      (publish_accept v q, Returned PublishAccepted)"
    using assms by (simp add: numeral_3_eq_3 publish_accept_def Let_def)
  have "prod_steps (2 + k + 3) (q, Cas v n w) = (publish_accept v q, Returned PublishAccepted)"
    by (simp only: prod_steps_add first k last)
  then show ?thesis by blast
qed

lemma publish_loop_steps:
  assumes "n \<le> maxPublishAttempts"
  shows "\<exists>k. prod_steps k (q, LoopTop v (maxPublishAttempts - n)) =
    (fst (publish_loop n v q), Returned (snd (publish_loop n v q)))"
  using assms
proof (induction n)
  case 0
  have "prod_steps 2 (q, LoopTop v (maxPublishAttempts - 0)) =
      (fst (publish_loop 0 v q), Returned (snd (publish_loop 0 v q)))"
    by (simp add: numeral_2_eq_2)
  then show ?case by blast
next
  case (Suc n)
  let ?a = "maxPublishAttempts - Suc n" and ?w = "producer q"
  let ?d = "seq_difference (sequence (cell_at q ?w)) ?w"
  have a: "?a < maxPublishAttempts" "?a + 1 = maxPublishAttempts - n" using Suc.prems by auto
  show ?case
  proof (cases "q_closed q")
    case True
    then have "prod_steps 2 (q, LoopTop v ?a) =
        (fst (publish_loop (Suc n) v q), Returned (snd (publish_loop (Suc n) v q)))"
      using a by (simp add: numeral_2_eq_2)
    then show ?thesis by blast
  next
    case open_q: False
    have head: "prod_steps 3 (q, LoopTop v ?a) = prod_step q (LoadSeq v ?a ?w)"
      using a open_q by (simp add: numeral_3_eq_3)
    consider "?d = 0" | "?d < 0" | "?d > 0" by linarith
    then show ?thesis
    proof cases
      case 1
      then have "prod_steps 3 (q, LoopTop v ?a) = (q, Cas v ?a ?w)" using head by simp
      moreover obtain k where
        "prod_steps k (q, Cas v ?a ?w) = (publish_accept v q, Returned PublishAccepted)"
        using accept_steps [of q ?w v ?a] by blast
      ultimately have "prod_steps (3 + k) (q, LoopTop v ?a) =
          (fst (publish_loop (Suc n) v q), Returned (snd (publish_loop (Suc n) v q)))"
        using 1 open_q by (simp only: prod_steps_add) (simp add: Let_def publish_accept_def)
      then show ?thesis by blast
    next
      case 2
      then have "sequence (cell_at q ?w) \<noteq> ?w" by auto
      with 2 have "prod_steps (3 + 1) (q, LoopTop v ?a) =
          (fst (publish_loop (Suc n) v q), Returned (snd (publish_loop (Suc n) v q)))"
        using open_q by (subst prod_steps_add, subst head) (auto simp: Let_def)
      then show ?thesis by blast
    next
      case 3
      then have h3: "prod_steps 3 (q, LoopTop v ?a) = (q, LoopTop v (maxPublishAttempts - n))"
        using a by (subst head) (auto simp: Let_def)
      obtain k where "prod_steps k (q, LoopTop v (maxPublishAttempts - n)) =
          (fst (publish_loop n v q), Returned (snd (publish_loop n v q)))"
        using Suc by auto
      then have "prod_steps (3 + k) (q, LoopTop v ?a) =
          (fst (publish_loop (Suc n) v q), Returned (snd (publish_loop (Suc n) v q)))"
        using 3 open_q by (subst prod_steps_add, subst h3) (auto simp: Let_def)
      then show ?thesis by blast
    qed
  qed
qed

subsection \<open>A stale position never looks full\<close>

lemma window_representative:
  assumes "0 < c" "p < (h::nat)"
  obtains k where "h \<le> p + c * k" "p + c * k < h + c"
proof
  let ?k = "(h - p + c - 1) div c"
  have "c * ?k \<le> h - p + c - 1" by simp
  then show "p + c * ?k < h + c" using assms by linarith
  have "h - p + c - 1 < c * ?k + c" 
    using dividend_less_times_div [OF assms(1), of "h - p + c - 1"] by linarith
  then show "h \<le> p + c * ?k" using assms by linarith
qed

lemma slot_index_lap:
  assumes "ring_shape (mq m)"
  shows "slot_index (mq m) (pos_of m (p + cap_of m * k)) = slot_index (mq m) (pos_of m p)"
  unfolding pos_of_def slot_index_add [OF assms] by (metis add.assoc mod_mult_self2)

lemma sequence_behind_full:
  assumes inv: "mpsc_inv m" and lap: "no_lap m" and le: "rel m position \<le> length (reserved m)"
    and neg: "seq_difference (sequence (cell_at (mq m) position)) position < 0"
  shows "length (reserved m) = released m + cap_of m"
proof (rule ccontr)
  note cur = mpsc_invD(1) [OF inv]
  note c = cursors_okD [OF cur] and cap = cap_of_bounds [OF cur]
  let ?p = "rel m position"
  assume "\<not> ?thesis"
  with c(6) le have p: "?p < released m + cap_of m" by simp
  obtain p' k where k: "p' = ?p + cap_of m * k" and p': "released m \<le> p'" "p' < released m + cap_of m"
  proof (cases "?p < released m")
    case True
    have "0 < cap_of m" using cap by simp
    then show ?thesis using window_representative [OF _ True] that by blast
  next
    case False
    then show ?thesis using that [of ?p 0] p by simp
  qed
  have "cell_at (mq m) position = cell_at (mq m) (pos_of m p')"
    using slot_index_lap [OF c(1), of ?p k] unfolding k by (intro cell_at_cong_index) simp
  moreover have "pos_of m p' = position + of_nat (p' - ?p)"
    using pos_of_rel [of m position] k by (simp add: pos_of_def)
  ultimately have "sequence (cell_at (mq m) position) = position + of_nat (p' - ?p) \<or>
      sequence (cell_at (mq m) position) = position + of_nat (Suc (p' - ?p))"
    using window_sequence [OF inv p'] by (auto simp: ac_simps)
  moreover have "Suc (p' - ?p) < 2 ^ 63"
    using p'(2) lap c(5) by (simp add: no_lap_def)
  ultimately show False
    using neg seq_difference_ahead [of "p' - ?p" position] seq_difference_ahead [of "Suc (p' - ?p)" position]
    by auto
qed

subsection \<open>Schedules\<close>

text \<open>An executable scheduler: a move that is not enabled is skipped.\<close>

datatype 'a move = MPublish nat "'a option" | MProd nat | MConsume | MCons | MClose

fun do_move :: "'a move \<Rightarrow> 'a mpsc \<Rightarrow> 'a mpsc" where
  "do_move (MPublish i x) m =
     (if at_rest (prods m i) then m\<lparr>prods := (prods m)(i := Entry x)\<rparr> else m)"
| "do_move (MProd i) m = (if at_rest (prods m i) then m else prod_move i m)"
| "do_move MConsume m = (if cons_at_rest (cons_at m) then m\<lparr>cons_at := CLoadPos\<rparr> else m)"
| "do_move MCons m = (if cons_at_rest (cons_at m) then m else cons_move m)"
| "do_move MClose m = m\<lparr>mq := ring_Close (mq m)\<rparr>"

fun run_moves :: "'a move list \<Rightarrow> 'a mpsc \<Rightarrow> 'a mpsc" where
  "run_moves [] m = m"
| "run_moves (mv # mvs) m = run_moves mvs (do_move mv m)"

lemma do_move_step: "do_move mv m = m \<or> mpsc_step m (do_move mv m)"
  by (cases mv) (auto intro: mpsc_step.intros)

lemma mpsc_steps_trans: "mpsc_steps m' m'' \<Longrightarrow> mpsc_steps m m' \<Longrightarrow> mpsc_steps m m''"
  by (induction rule: mpsc_steps.induct) (auto intro: mpsc_steps.step)

lemma run_moves_steps: "mpsc_steps m (run_moves mvs m)"
proof (induction mvs arbitrary: m)
  case Nil
  show ?case by (simp add: mpsc_steps.refl)
next
  case (Cons mv mvs)
  have "mpsc_steps m (do_move mv m)"
    using do_move_step [of mv m] mpsc_steps.refl [of m] by (auto intro: mpsc_steps.step)
  with Cons.IH show ?case by (auto intro: mpsc_steps_trans)
qed

text \<open>
  A ring of capacity two whose cursors stand one before the wrap-around, and a schedule in which
  two producers interleave, a third finds the ring full, and the consumer takes one value.
\<close>

definition wrap_ring :: "nat Queue" where
  "wrap_ring = (case ring_New 2 of Inr q \<Rightarrow> seedEmptyForTest (- 1) q | Inl e \<Rightarrow> undefined)"

definition busy_schedule :: "nat move list" where
  "busy_schedule =
     [MPublish 0 (Some 7), MPublish 1 (Some 8),
      MProd 0, MProd 1, MProd 0, MProd 1, MProd 0, MProd 1, MProd 0, MProd 1, MProd 0, MProd 1,
      MProd 1, MProd 0, MProd 0, MProd 0, MProd 0, MProd 0, MProd 0, MProd 0, MProd 0, MProd 0,
      MProd 1, MProd 1, MProd 1, MProd 1, MProd 1, MProd 1, MProd 1, MProd 1, MProd 1, MProd 1,
      MConsume, MCons, MCons, MCons, MCons, MCons, MCons, MCons,
      MPublish 2 (Some 9), MProd 2, MProd 2, MProd 2]"

lemma wrap_ring_ok: "ring_inv wrap_ring" "ring_items wrap_ring = []"
proof -
  obtain q :: "nat Queue" where q: "ring_New 2 = Inr q"
    by (simp add: ring_New_def maxCapacity_def)
  then have "wrap_ring = seedEmptyForTest (- 1) q" by (simp add: wrap_ring_def)
  then show "ring_inv wrap_ring" "ring_items wrap_ring = []"
    using seedEmptyForTest_inv [of q "- 1"] ring_New_inv [OF q] by simp_all
qed

lemma wrap_ring_eq:
  "wrap_ring = \<lparr>producer = - 1, consumer = - 1, capacity = 2, mask_bits = 1,
     slots = [\<lparr>sequence = 0, cell_value = None\<rparr>, \<lparr>sequence = - 1, cell_value = None\<rparr>],
     q_closed = False, publishAttempts = 0, published = 0, consumed = 0, rejectedFull = 0,
     rejectedClosed = 0, rejectedInvalid = 0, highWater = 0\<rparr>"
proof -
  have "[0..<2] = [0, Suc 0]" by (simp add: upt_rec)
  then show ?thesis
    by (simp add: wrap_ring_def ring_New_def maxCapacity_def seedEmptyForTest_def)
qed

lemmas run_eval = wrap_ring_eq busy_schedule_def mpsc_init_def prod_move_def cons_move_def Let_def
  cell_at_def slot_index_def seq_difference_def clamp_depth_def store_value_def store_sequence_def
  maxPublishAttempts_def no_lap_def

subsection \<open>Properties\<close>

text \<open>
  C1. Whatever the interleaving of producers, consumer and Close, and wherever the 64-bit
  cursors stand at the start, the values returned by \<open>TryConsume\<close> are exactly a prefix of the
  values in the order of their successful reservations, and at most one capacity of reserved
  values plus the one being handed over is outstanding: nothing is lost, duplicated, reordered or
  overwritten.
\<close>

theorem mpsc_fifo:
  assumes "ring_inv q" "ring_items q = []" "mpsc_steps (mpsc_init q) m" "no_lap m"
  shows "\<exists>rest. reserved m = delivered m @ rest \<and> length rest \<le> unat (capacity q) + 1"
proof -
  have inv: "mpsc_inv m" using mpsc_steps_inv [OF assms(3) mpsc_init_inv [OF assms(1,2)] assms(4)] .
  note c = cursors_okD [OF mpsc_invD(1) [OF inv]]
  let ?n = "released m - delivery_lag (cons_at m)"
  have lag: "delivery_lag (cons_at m) \<le> 1" by (cases "cons_at m") auto
  have "reserved m = delivered m @ drop ?n (reserved m)" using c(7) by simp
  moreover have "length (drop ?n (reserved m)) \<le> cap_of m + 1" using c(6) lag by simp
  ultimately show ?thesis using mpsc_steps_mono [OF assms(3)] by auto
qed


theorem mpsc_fifo_witness:
  "delivered (run_moves busy_schedule (mpsc_init wrap_ring)) = [8] \<and>
   (\<exists>rest. reserved (run_moves busy_schedule (mpsc_init wrap_ring)) =
      delivered (run_moves busy_schedule (mpsc_init wrap_ring)) @ rest \<and>
      length rest \<le> unat (capacity wrap_ring) + 1)"
proof
  show "delivered (run_moves busy_schedule (mpsc_init wrap_ring)) = [8]"
    by (simp add: run_eval)
  have "no_lap (run_moves busy_schedule (mpsc_init wrap_ring))"
    by (simp add: run_eval)
  then show "\<exists>rest. reserved (run_moves busy_schedule (mpsc_init wrap_ring)) =
      delivered (run_moves busy_schedule (mpsc_init wrap_ring)) @ rest \<and>
      length rest \<le> unat (capacity wrap_ring) + 1"
    by (rule mpsc_fifo [OF wrap_ring_ok run_moves_steps])
qed

text \<open>
  C2. \<open>TryPublish\<close> returns after at most \<open>2 * capacity + 524\<close> of its own atomic steps, however
  the other goroutines interleave: the caller receives its answer in finite time.
\<close>

theorem publish_bounded_steps:
  assumes "mpsc_inv m0" "prods m0 i = Entry x" "own_run i m0 k m" "no_lap m"
  shows "k \<le> 2 * unat (capacity (mq m0)) + 524"
proof -
  have "k + rank (mq m) (prods m i) \<le> rank (mq m0) (Entry x)"
    using own_run_rank [OF assms(3,1) _ assms(4)] assms(2) by simp
  then show ?thesis by (simp add: maxPublishAttempts_def)
qed

theorem publish_bounded_steps_witness:
  "let m0 = do_move (MPublish 0 (Some (7::nat))) (mpsc_init wrap_ring)
   in own_run 0 m0 1 (prod_move 0 m0) \<and> 1 \<le> 2 * unat (capacity (mq m0)) + 524"
proof -
  let ?m0 = "do_move (MPublish 0 (Some (7::nat))) (mpsc_init wrap_ring)"
  have pc: "prods ?m0 0 = Entry (Some 7)" by simp
  have run: "own_run 0 ?m0 1 (prod_move 0 ?m0)"
    using own_run.own [OF own_run.start, of ?m0 0] pc by simp
  have step: "mpsc_step (mpsc_init wrap_ring) ?m0"
    using mpsc_step.publish_call [of "mpsc_init wrap_ring" 0 "Some 7"] by simp
  have "no_lap (mpsc_init wrap_ring)" by (simp add: no_lap_def wrap_ring_eq)
  then have "mpsc_inv ?m0"
    using mpsc_step_inv [OF step mpsc_init_inv [OF wrap_ring_ok]] by simp
  moreover have "no_lap (prod_move 0 ?m0)" by (simp add: run_eval)
  ultimately have "1 \<le> 2 * unat (capacity (mq ?m0)) + 524"
    using publish_bounded_steps [OF _ pc run] by blast
  with run show ?thesis by (simp add: Let_def)
qed

text \<open>
  A producer that gives up because the sequence of its slot lies behind its position does so
  only when the ring is full: every slot is reserved, published or being handed over.
\<close>

theorem full_only_when_full:
  assumes "mpsc_inv m" "no_lap m" "prods m i = LoadSeq v n position"
    "snd (prod_step (mq m) (prods m i)) = RejFull"
  shows "length (reserved m) = released m + unat (capacity (mq m))"
proof (rule sequence_behind_full [OF assms(1,2)])
  show "rel m position \<le> length (reserved m)"
    using mpsc_invD(5) [OF assms(1), of i] assms(3) by simp
  show "seq_difference (sequence (cell_at (mq m) position)) position < 0"
    using assms(3,4) by (auto simp: Let_def split: if_splits)
qed

theorem full_only_when_full_witness:
  "let m = run_moves (take 31 busy_schedule @ [MPublish 2 (Some 9), MProd 2, MProd 2, MProd 2, MProd 2])
     (mpsc_init wrap_ring)
   in prods m 2 = LoadSeq 9 0 1 \<and> length (reserved m) = released m + unat (capacity (mq m))"
proof -
  let ?m = "run_moves (take 31 busy_schedule @ [MPublish 2 (Some 9), MProd 2, MProd 2, MProd 2, MProd 2])
     (mpsc_init wrap_ring)"
  have pc: "prods ?m 2 = LoadSeq 9 0 1" by (simp add: run_eval)
  have lap: "no_lap ?m" by (simp add: run_eval)
  have full: "snd (prod_step (mq ?m) (prods ?m 2)) = RejFull" by (simp add: run_eval)
  have "mpsc_inv ?m"
    using mpsc_steps_inv [OF run_moves_steps mpsc_init_inv [OF wrap_ring_ok] lap] .
  with full_only_when_full [OF _ lap pc full] pc show ?thesis by (simp add: Let_def)
qed

text \<open>
  The consumer never takes nil out of a published slot, so the corrupt-slot branch of
  \<open>TryConsume\<close> is unreachable, and a depth computed from a consumer cursor loaded first and a
  producer cursor loaded at any later moment of the run does not underflow.
\<close>

theorem consumer_and_depth_sound:
  assumes "mpsc_inv m" "mpsc_steps m m'" "no_lap m'"
  shows "(cons_at m = CSwap position \<longrightarrow> cell_value (cell_at (mq m) position) \<noteq> None) \<and>
    unat (producer (mq m') - consumer (mq m)) =
      length (reserved m') - (released m - cursor_lag (cons_at m))"
proof -
  let ?h = "released m - cursor_lag (cons_at m)"
  have inv': "mpsc_inv m'" using mpsc_steps_inv [OF assms(2,1,3)] .
  note c = cursors_okD [OF mpsc_invD(1) [OF assms(1)]] and c' = cursors_okD [OF mpsc_invD(1) [OF inv']]
  have mono: "length (reserved m) \<le> length (reserved m')" "origin m' = origin m"
    using mpsc_steps_mono [OF assms(2)] by auto
  have "producer (mq m') - consumer (mq m) = of_nat (length (reserved m') - ?h)"
    using c(4,5) c'(3) mono by (simp add: pos_of_def of_nat_diff)
  then have "unat (producer (mq m') - consumer (mq m)) = length (reserved m') - ?h"
    using assms(3) by (simp add: no_lap_def unsigned_of_nat take_bit_eq_mod)
  then show ?thesis using swap_cell [OF assms(1)] by auto
qed

theorem consumer_and_depth_sound_witness:
  "unat (producer (mq (run_moves busy_schedule (mpsc_init wrap_ring))) - consumer wrap_ring) =
     length (reserved (run_moves busy_schedule (mpsc_init wrap_ring)))"
proof -
  have "no_lap (run_moves busy_schedule (mpsc_init wrap_ring))" by (simp add: run_eval)
  then show ?thesis
    using consumer_and_depth_sound [OF mpsc_init_inv [OF wrap_ring_ok] run_moves_steps] by simp
qed

lemma consume_steps_alone:
  "\<exists>k. cons_steps k (q, CLoadPos) = (fst (TryConsume q), CReturned (snd (TryConsume q)))"
proof -
  let ?w = "consumer q"
  consider "sequence (cell_at q ?w) \<noteq> ?w + 1"
    | "sequence (cell_at q ?w) = ?w + 1" "cell_value (cell_at q ?w) = None"
    | v where "sequence (cell_at q ?w) = ?w + 1" "cell_value (cell_at q ?w) = Some v" by fastforce
  then show ?thesis
  proof cases
    case 1
    then have "cons_steps 2 (q, CLoadPos) = (fst (TryConsume q), CReturned (snd (TryConsume q)))"
      by (simp add: numeral_2_eq_2 TryConsume_def Let_def)
    then show ?thesis by blast
  next
    case 2
    then have "cons_steps 3 (q, CLoadPos) = (fst (TryConsume q), CReturned (snd (TryConsume q)))"
      by (simp add: numeral_3_eq_3 TryConsume_def Let_def)
    then show ?thesis by blast
  next
    case 3
    then have "cons_steps (Suc (Suc (Suc (Suc (Suc (Suc 0)))))) (q, CLoadPos) =
        (fst (TryConsume q), CReturned (snd (TryConsume q)))"
      by (simp add: TryConsume_def Let_def)
    then show ?thesis by blast
  qed
qed


end
