(* ===== verification/Crc32.thy ===== *)
theory Crc32
  imports Prelude
begin

text \<open>
  The IEEE checksum of Go's \<^verbatim>\<open>hash/crc32\<close>, bit by bit with the reflected polynomial. The
  lease audit (\<^verbatim>\<open>internal/pool/lease.go\<close>) uses it to notice payloads that change after
  publication, the wire protocol (\<^verbatim>\<open>internal/protocol\<close>) to protect a batch. Shown here: the
  state transition is injective, so a change of a single byte is always noticed.
\<close>

definition crc_poly :: u32 where
  "crc_poly = 0xEDB88320"

definition crc_bit :: "u32 \<Rightarrow> u32" where
  "crc_bit s = (if odd s then drop_bit 1 s XOR crc_poly else drop_bit 1 s)"

definition crc_byte :: "u32 \<Rightarrow> u8 \<Rightarrow> u32" where
  "crc_byte s b = (crc_bit ^^ 8) (s XOR ucast b)"

text \<open>\<open>hash.Write\<close> on a running state, and \<open>Sum32\<close>.\<close>

definition crc_write :: "u32 \<Rightarrow> bytes \<Rightarrow> u32" where
  "crc_write s bs = foldl crc_byte s bs"

definition crc_init :: u32 where
  "crc_init = - 1"

definition crc_sum :: "u32 \<Rightarrow> u32" where
  "crc_sum s = NOT s"

definition ChecksumIEEE :: "bytes \<Rightarrow> u32" where
  "ChecksumIEEE bs = crc_sum (crc_write crc_init bs)"

lemma crc_write_append [simp]: "crc_write s (xs @ ys) = crc_write (crc_write s xs) ys"
  by (simp add: crc_write_def)

lemma crc_write_Nil [simp]: "crc_write s [] = s"
  by (simp add: crc_write_def)

lemma crc_write_Cons [simp]: "crc_write s (b # bs) = crc_write (crc_byte s b) bs"
  by (simp add: crc_write_def)

lemma crc_bit_top: "bit (crc_bit s) 31 = odd s"
proof -
  have "bit crc_poly 31" by (simp add: crc_poly_def)
  moreover have "\<not> bit (drop_bit 1 s) 31" 
    using bit_imp_le_length [of s 32] by (auto simp: bit_drop_bit_eq)
  ultimately show ?thesis by (simp add: crc_bit_def bit_xor_iff)
qed

lemma crc_bit_inj: "crc_bit s = crc_bit t \<Longrightarrow> s = t"
proof -
  assume eq: "crc_bit s = crc_bit t"
  then have par: "odd s = odd t" using crc_bit_top by metis
  with eq have "drop_bit 1 s = drop_bit 1 t"
    by (auto simp: crc_bit_def split: if_splits)
  then have "bit s (Suc n) = bit t (Suc n)" for n
    by (metis bit_drop_bit_eq comp_apply plus_1_eq_Suc)
  then have "bit s n = bit t n" for n
    using par by (cases n) (simp_all add: bit_0)
  then show "s = t" by (simp add: bit_eq_iff)
qed

lemma crc_byte_inj: "crc_byte s a = crc_byte t b \<Longrightarrow> s XOR ucast a = t XOR ucast b"
proof -
  have inj: "inj (crc_bit ^^ 8)" by (rule inj_fn) (simp add: inj_def crc_bit_inj)
  assume "crc_byte s a = crc_byte t b"
  from injD [OF inj this [unfolded crc_byte_def]] show ?thesis .
qed

lemma crc_byte_inj_state: "crc_byte s b = crc_byte t b \<Longrightarrow> s = t"
  by (drule crc_byte_inj) simp

lemma crc_byte_inj_byte:
  assumes "crc_byte s a = crc_byte s b"
  shows "a = b"
proof -
  have "(ucast a :: u32) = ucast b" using crc_byte_inj [OF assms] by simp
  then have "unat (ucast a :: u32) = unat (ucast b :: u32)" by simp
  then show ?thesis
    using unsigned_less [of a, where ?'a = nat] unsigned_less [of b, where ?'a = nat]
    by (simp add: unsigned_ucast_eq word_unat_eq_iff take_bit_eq_mod)
qed

lemma crc_write_inj: "crc_write s bs = crc_write t bs \<Longrightarrow> s = t"
  by (induction bs arbitrary: s t) (auto dest: crc_byte_inj_state)

lemma crc_sum_inj [simp]: "crc_sum s = crc_sum t \<longleftrightarrow> s = t"
  by (simp add: crc_sum_def)

lemma ChecksumIEEE_single_byte:
  assumes "a \<noteq> b"
  shows "ChecksumIEEE (xs @ a # ys) \<noteq> ChecksumIEEE (xs @ b # ys)"
  using assms by (auto simp: ChecksumIEEE_def dest!: crc_write_inj crc_byte_inj_byte)

text \<open>The published check value of the algorithm, for the string ``123456789''.\<close>

lemma crc_byte_eval:
  "crc_byte s b =
     crc_bit (crc_bit (crc_bit (crc_bit (crc_bit (crc_bit (crc_bit (crc_bit (s XOR ucast b))))))))"
  unfolding crc_byte_def by (simp add: numeral_eq_Suc)

lemmas crc_eval = ChecksumIEEE_def crc_sum_def crc_init_def crc_byte_eval crc_bit_def crc_poly_def

lemma ChecksumIEEE_check: "ChecksumIEEE [49, 50, 51, 52, 53, 54, 55, 56, 57] = 0xCBF43926"
  by (simp add: crc_eval)

end
