(* ===== verification/Pool.thy ===== *)
theory Pool
  imports Crc32 "HOL-Library.AList"
begin

text \<open>
  The byte pool of \<^verbatim>\<open>internal/pool\<close>: configuration and lease states (\<^verbatim>\<open>types.go\<close>), the
  audit registry (\<^verbatim>\<open>audit.go\<close>), the lease operations (\<^verbatim>\<open>lease.go\<close>) and the pool itself
  (\<^verbatim>\<open>pool.go\<close>). Leases and byte blocks are heap objects that several parts of the program
  share, so the pool state holds an explicit heap of leases and one of blocks; a pointer is an
  index. Every operation is one atomic step here. Time is a number of nanoseconds.
\<close>

subsection \<open>Configuration and lease states\<close>

datatype pool_error =
    ErrClosed | ErrTooLarge | ErrInvalidSize | ErrInvalidState | ErrDoubleReturn
  | ErrUnknownLease | ErrCapacity | ErrPayloadModified
  | ErrAuditMode string | ErrPoolLimits | ErrPoolClasses

definition AuditOff :: string where "AuditOff = ''OFF''"
definition AuditSampled :: string where "AuditSampled = ''SAMPLED''"
definition AuditFull :: string where "AuditFull = ''FULL''"

definition AuditMode_valid :: "string \<Rightarrow> bool" where
  "AuditMode_valid m \<longleftrightarrow> m = AuditOff \<or> m = AuditSampled \<or> m = AuditFull"

record pool_Config =
  Classes :: "int list"
  MaxBytes :: int
  AuditMode :: string
  SampleEvery :: u64
  LeaseTimeout :: int
  ScanInterval :: int
  HistoryLimit :: int
  StackDepth :: int
  ProjectRoot :: string

definition DefaultClasses :: "int list" where
  "DefaultClasses = [256, 1024, 4096, 16 * 1024, 64 * 1024]"

text \<open>The loop over the classes: positive, strictly increasing, not above the maximum.\<close>

fun classes_ok :: "int \<Rightarrow> int \<Rightarrow> int list \<Rightarrow> bool" where
  "classes_ok maxb previous [] = True"
| "classes_ok maxb previous (sz # rest) =
     (if sz \<le> previous \<or> sz > maxb then False else classes_ok maxb sz rest)"

text \<open>The two groups of defaults, before and after the check of the audit mode.\<close>

definition default_classes_and_mode :: "pool_Config \<Rightarrow> pool_Config" where
  "default_classes_and_mode c0 =
     (let c1 = (if Classes c0 = [] then c0\<lparr>Classes := DefaultClasses\<rparr> else c0);
          c2 = (if MaxBytes c1 = 0 then c1\<lparr>MaxBytes := 2 ^ 20\<rparr> else c1)
      in if AuditMode c2 = [] then c2\<lparr>AuditMode := AuditOff\<rparr> else c2)"

definition default_limits :: "pool_Config \<Rightarrow> pool_Config" where
  "default_limits c3 =
     (let c4 = (if SampleEvery c3 = 0 then c3\<lparr>SampleEvery := 100\<rparr> else c3);
          c5 = (if LeaseTimeout c4 = 0 then c4\<lparr>LeaseTimeout := 2 * 10 ^ 9\<rparr> else c4);
          c6 = (if ScanInterval c5 = 0 then c5\<lparr>ScanInterval := 100 * 10 ^ 6\<rparr> else c5);
          c7 = (if HistoryLimit c6 = 0 then c6\<lparr>HistoryLimit := 1000\<rparr> else c6)
      in if StackDepth c7 = 0 then c7\<lparr>StackDepth := 24\<rparr> else c7)"

definition pool_normalized :: "pool_Config \<Rightarrow> (pool_error, pool_Config) result" where
  "pool_normalized c0 =
     (let c3 = default_classes_and_mode c0
      in if \<not> AuditMode_valid (AuditMode c3) then Inl (ErrAuditMode (AuditMode c3))
      else let c = default_limits c3
      in if MaxBytes c \<le> 0 \<or> LeaseTimeout c \<le> 0 \<or> ScanInterval c \<le> 0 \<or> HistoryLimit c < 0 \<or>
            StackDepth c < 1 \<or> StackDepth c > 128 then Inl ErrPoolLimits
         else if \<not> classes_ok (MaxBytes c) 0 (Classes c) then Inl ErrPoolClasses
         else Inr c)"

text \<open>\<open>StateUnknown\<close> stands for every value of the underlying integer without a name.\<close>

datatype LeaseState = StateUnknown | StateBorrowed | StateQueued | StateInFlight | StateReturned

fun LeaseState_String :: "LeaseState \<Rightarrow> string" where
  "LeaseState_String StateBorrowed = ''BORROWED''"
| "LeaseState_String StateQueued = ''QUEUED''"
| "LeaseState_String StateInFlight = ''IN_FLIGHT''"
| "LeaseState_String StateReturned = ''RETURNED''"
| "LeaseState_String StateUnknown = ''UNKNOWN''"

record AuditContext =
  ac_Level :: string
  ac_Logger :: string
  ac_CallerSkip :: int

record Frame =
  fr_Function :: string
  fr_File :: string
  fr_Line :: int

record LeaseSnapshot =
  sn_ID :: u64
  sn_State :: string
  sn_ClassSize :: int
  sn_Capacity :: int
  sn_Length :: int
  sn_BorrowedAt :: int
  sn_Deadline :: int
  sn_ReturnedAt :: int
  sn_AgeNanos :: int
  sn_GoroutineID :: u64
  sn_Level :: string
  sn_Logger :: string
  sn_Function :: string
  sn_File :: string
  sn_Line :: int
  sn_Stack :: "Frame list"
  sn_PayloadMutated :: bool

subsection \<open>State\<close>

text \<open>
  A lease; \<open>l_block\<close> is the index of its byte block (nil after the return). The owner is the
  pool whose heap the lease is in.
\<close>

record Lease =
  l_id :: u64
  l_block :: "nat option"
  l_class :: int
  l_length :: int
  l_state :: LeaseState
  l_tracked :: bool
  l_checksum :: u32
  l_mutated :: bool
  l_borrowed :: int
  l_deadline :: int

record slab =
  sl_size :: int
  sl_store :: "nat list"
  sl_borrowed :: u64
  sl_inUse :: u64
  sl_hits :: u64
  sl_misses :: u64

record auditRecord =
  ar_lease :: nat
  ar_level :: string
  ar_logger :: string
  ar_frames :: "Frame list"
  ar_function :: string
  ar_file :: string
  ar_line :: int
  ar_goroutineID :: u64
  ar_overdue :: bool
  ar_payloadMutated :: bool

record auditRegistry =
  r_stackDepth :: int
  r_historyLimit :: int
  r_active :: "(u64 \<times> auditRecord) list"
  r_history :: "LeaseSnapshot list"

record BytePool =
  p_ident :: nat
  p_config :: pool_Config
  p_classes :: "slab list"
  p_nextID :: u64
  p_closed :: bool
  p_borrowed :: u64
  p_returned :: u64
  p_outstanding :: u64
  p_poolHits :: u64
  p_poolMisses :: u64
  p_oversized :: u64
  p_largeAllocations :: u64
  p_doubleReturns :: u64
  p_invalidReturns :: u64
  p_stateErrors :: u64
  p_useAfterPublish :: u64
  p_overdue :: u64
  p_audit :: auditRegistry
  p_leases :: "Lease list"
  p_blocks :: "bytes list"

text \<open>A pointer is an index into the heap; \<open>None\<close> is nil. \<open>Release\<close> also meets foreign leases.\<close>

type_synonym lease_ptr = "nat option"
type_synonym lease_ref = "(nat \<times> nat) option"

definition set_lease :: "nat \<Rightarrow> Lease \<Rightarrow> BytePool \<Rightarrow> BytePool" where
  "set_lease a l p = p\<lparr>p_leases := (p_leases p)[a := l]\<rparr>"

definition block_data :: "BytePool \<Rightarrow> Lease \<Rightarrow> bytes" where
  "block_data p l = (case l_block l of None \<Rightarrow> [] | Some b \<Rightarrow> p_blocks p ! b)"

definition Lease_Capacity :: "BytePool \<Rightarrow> lease_ptr \<Rightarrow> int" where
  "Lease_Capacity p r = (case r of None \<Rightarrow> 0 | Some a \<Rightarrow> int (length (block_data p (p_leases p ! a))))"

definition Lease_ClassSize :: "BytePool \<Rightarrow> lease_ptr \<Rightarrow> int" where
  "Lease_ClassSize p r = (case r of None \<Rightarrow> 0 | Some a \<Rightarrow>
     (let l = p_leases p ! a
      in if l_class l < 0 then 0 else sl_size (p_classes p ! nat (l_class l))))"

definition Lease_Len :: "BytePool \<Rightarrow> lease_ptr \<Rightarrow> int" where
  "Lease_Len p r = (case r of None \<Rightarrow> 0 | Some a \<Rightarrow>
     (let l = p_leases p ! a in if l_state l = StateReturned then 0 else l_length l))"

definition lease_payload :: "BytePool \<Rightarrow> Lease \<Rightarrow> bytes" where
  "lease_payload p l =
     (if l_block l = None \<or> l_state l = StateReturned then []
      else take (nat (l_length l)) (block_data p l))"

definition Payload :: "BytePool \<Rightarrow> lease_ptr \<Rightarrow> bytes" where
  "Payload p r = (case r of None \<Rightarrow> [] | Some a \<Rightarrow> lease_payload p (p_leases p ! a))"

subsection \<open>Audit registry\<close>

definition newAuditRegistry :: "pool_Config \<Rightarrow> auditRegistry" where
  "newAuditRegistry c = \<lparr>r_stackDepth = StackDepth c, r_historyLimit = HistoryLimit c,
     r_active = [], r_history = []\<rparr>"

text \<open>The stack frames and the goroutine number come from the Go runtime.\<close>

definition audit_register :: "nat \<Rightarrow> u64 \<Rightarrow> AuditContext \<Rightarrow> Frame list \<Rightarrow> u64 \<Rightarrow> auditRegistry \<Rightarrow> auditRegistry" where
  "audit_register a ident context frames gid r =
     (let rec0 = \<lparr>ar_lease = a, ar_level = ac_Level context, ar_logger = ac_Logger context,
            ar_frames = frames, ar_function = [], ar_file = [], ar_line = 0,
            ar_goroutineID = gid, ar_overdue = False, ar_payloadMutated = False\<rparr>;
          rec1 = (case frames of [] \<Rightarrow> rec0
            | f # _ \<Rightarrow> rec0\<lparr>ar_function := fr_Function f, ar_file := fr_File f, ar_line := fr_Line f\<rparr>)
      in r\<lparr>r_active := AList.update ident rec1 (r_active r)\<rparr>)"

definition updateContext :: "u64 \<Rightarrow> AuditContext \<Rightarrow> auditRegistry \<Rightarrow> auditRegistry" where
  "updateContext ident context r =
     (case map_of (r_active r) ident of
        None \<Rightarrow> r
      | Some rec0 \<Rightarrow> r\<lparr>r_active := AList.update ident
          (rec0\<lparr>ar_level := ac_Level context, ar_logger := ac_Logger context\<rparr>) (r_active r)\<rparr>)"

definition markMutated :: "u64 \<Rightarrow> auditRegistry \<Rightarrow> auditRegistry" where
  "markMutated ident r =
     (case map_of (r_active r) ident of
        None \<Rightarrow> r
      | Some rec0 \<Rightarrow>
          r\<lparr>r_active := AList.update ident (rec0\<lparr>ar_payloadMutated := True\<rparr>) (r_active r)\<rparr>)"

text \<open>One pass over the active records; the count is the number of newly overdue ones.\<close>

definition newly_overdue :: "BytePool \<Rightarrow> int \<Rightarrow> auditRecord \<Rightarrow> bool" where
  "newly_overdue p now rec0 \<longleftrightarrow>
     \<not> ar_overdue rec0 \<and> now > l_deadline (p_leases p ! ar_lease rec0)"

definition scanOverdue :: "int \<Rightarrow> BytePool \<Rightarrow> BytePool \<times> nat" where
  "scanOverdue now p =
     (let active = r_active (p_audit p);
          newlyOverdue = length (filter (\<lambda>(_, rec0). newly_overdue p now rec0) active);
          active' = map (\<lambda>(k, rec0). (k, if newly_overdue p now rec0
            then rec0\<lparr>ar_overdue := True\<rparr> else rec0)) active;
          p1 = p\<lparr>p_audit := (p_audit p)\<lparr>r_active := active'\<rparr>\<rparr>
      in (if newlyOverdue \<noteq> 0 then p1\<lparr>p_overdue := p_overdue p1 + of_nat newlyOverdue\<rparr> else p1,
          newlyOverdue))"

definition snapshotRecord :: "BytePool \<Rightarrow> auditRecord \<Rightarrow> int \<Rightarrow> LeaseSnapshot" where
  "snapshotRecord p rec0 now =
     (let l = p_leases p ! ar_lease rec0;
          state = (if ar_overdue rec0 then ''OVERDUE'' else LeaseState_String (l_state l))
      in \<lparr>sn_ID = l_id l, sn_State = state, sn_ClassSize = Lease_ClassSize p (Some (ar_lease rec0)),
          sn_Capacity = Lease_Capacity p (Some (ar_lease rec0)), sn_Length = l_length l,
          sn_BorrowedAt = l_borrowed l, sn_Deadline = l_deadline l, sn_ReturnedAt = 0,
          sn_AgeNanos = now - l_borrowed l, sn_GoroutineID = ar_goroutineID rec0,
          sn_Level = ar_level rec0, sn_Logger = ar_logger rec0, sn_Function = ar_function rec0,
          sn_File = ar_file rec0, sn_Line = ar_line rec0, sn_Stack = ar_frames rec0,
          sn_PayloadMutated = ar_payloadMutated rec0\<rparr>)"

text \<open>Appending to the bounded history drops the oldest entries.\<close>

definition push_history :: "int \<Rightarrow> LeaseSnapshot \<Rightarrow> LeaseSnapshot list \<Rightarrow> LeaseSnapshot list" where
  "push_history limit snapshot history =
     (if limit > 0 then
        (let h = history @ [snapshot]; overflow = int (length h) - limit
         in if overflow > 0 then drop (nat overflow) h else h)
      else history)"

definition audit_finalize :: "nat \<Rightarrow> int \<Rightarrow> BytePool \<Rightarrow> BytePool" where
  "audit_finalize a returnedAt p =
     (let r = p_audit p; ident = l_id (p_leases p ! a)
      in case map_of (r_active r) ident of
           None \<Rightarrow> p
         | Some rec0 \<Rightarrow>
             (let p1 = (if ar_overdue rec0 then p\<lparr>p_overdue := p_overdue p - 1\<rparr> else p);
                  snapshot = (snapshotRecord p1 rec0 returnedAt)
                    \<lparr>sn_State := LeaseState_String StateReturned, sn_ReturnedAt := returnedAt\<rparr>
              in p1\<lparr>p_audit := r\<lparr>r_active := AList.delete ident (r_active r),
                    r_history := push_history (r_historyLimit r) snapshot (r_history r)\<rparr>\<rparr>))"

text \<open>The items after filtering and sorting by descending ID, then the cursor and the limit.\<close>

definition clamp_limit :: "int \<Rightarrow> nat" where
  "clamp_limit limit = (if limit \<le> 0 then 50 else if limit > 200 then 200 else nat limit)"

definition snapshot_items :: "BytePool \<Rightarrow> string \<Rightarrow> int \<Rightarrow> LeaseSnapshot list" where
  "snapshot_items p flt now =
     filter (\<lambda>s. flt = [] \<or> sn_State s = flt)
       (map (\<lambda>(_, rec0). snapshotRecord p rec0 now) (r_active (p_audit p)) @ r_history (p_audit p))"

definition sort_by_id_desc :: "LeaseSnapshot list \<Rightarrow> LeaseSnapshot list" where
  "sort_by_id_desc items = rev (sort_key sn_ID items)"

fun collect_page :: "u64 \<Rightarrow> nat \<Rightarrow> LeaseSnapshot list \<Rightarrow> LeaseSnapshot list \<Rightarrow> LeaseSnapshot list" where
  "collect_page beforeID limit result [] = result"
| "collect_page beforeID limit result (item # items) =
     (if beforeID \<noteq> 0 \<and> sn_ID item \<ge> beforeID then collect_page beforeID limit result items
      else let result' = result @ [item]
           in if length result' = limit then result' else collect_page beforeID limit result' items)"

definition audit_snapshots :: "BytePool \<Rightarrow> string \<Rightarrow> u64 \<Rightarrow> int \<Rightarrow> int \<Rightarrow> LeaseSnapshot list" where
  "audit_snapshots p flt beforeID limit now =
     collect_page beforeID (clamp_limit limit) [] (sort_by_id_desc (snapshot_items p flt now))"

definition audit_byID :: "BytePool \<Rightarrow> u64 \<Rightarrow> int \<Rightarrow> LeaseSnapshot option" where
  "audit_byID p ident now =
     (case map_of (r_active (p_audit p)) ident of
        Some rec0 \<Rightarrow> Some (snapshotRecord p rec0 now)
      | None \<Rightarrow> find (\<lambda>s. sn_ID s = ident) (rev (r_history (p_audit p))))"

subsection \<open>Lease operations\<close>

definition Writable :: "BytePool \<Rightarrow> lease_ptr \<Rightarrow> (pool_error, bytes) result" where
  "Writable p r = (case r of None \<Rightarrow> Inl ErrInvalidState | Some a \<Rightarrow>
     (if l_state (p_leases p ! a) \<noteq> StateBorrowed then Inl ErrInvalidState
      else Inr (block_data p (p_leases p ! a))))"

text \<open>Writes through the slice that \<open>Writable\<close> returned: byte \<open>i\<close> of the block becomes \<open>v\<close>.\<close>

definition set_block :: "nat \<Rightarrow> bytes \<Rightarrow> BytePool \<Rightarrow> BytePool" where
  "set_block b bs p = p\<lparr>p_blocks := (p_blocks p)[b := bs]\<rparr>"

text \<open>Go's \<open>copy(dst[at:], src)\<close> on a block long enough for it.\<close>

definition copy_at :: "bytes \<Rightarrow> nat \<Rightarrow> bytes \<Rightarrow> bytes" where
  "copy_at dst at src = take at dst @ src @ drop (at + length src) dst"

definition Resize :: "lease_ptr \<Rightarrow> int \<Rightarrow> BytePool \<Rightarrow> BytePool \<times> pool_error option" where
  "Resize r sz p = (case r of None \<Rightarrow> (p, Some ErrInvalidState) | Some a \<Rightarrow>
     (let l = p_leases p ! a
      in if l_state l \<noteq> StateBorrowed then (p, Some ErrInvalidState)
         else if sz < 0 \<or> sz > int (length (block_data p l)) then (p, Some ErrCapacity)
         else (set_lease a (l\<lparr>l_length := sz\<rparr>) p, None)))"

definition Reset :: "lease_ptr \<Rightarrow> BytePool \<Rightarrow> BytePool \<times> pool_error option" where
  "Reset r p = Resize r 0 p"

definition Append :: "lease_ptr \<Rightarrow> bytes \<Rightarrow> BytePool \<Rightarrow> BytePool \<times> pool_error option" where
  "Append r data p = (case r of None \<Rightarrow> (p, Some ErrInvalidState) | Some a \<Rightarrow>
     (let l = p_leases p ! a; cap = int (length (block_data p l)); len = l_length l
      in if l_state l \<noteq> StateBorrowed then (p, Some ErrInvalidState)
         else if int (length data) > cap - len then (p, Some ErrCapacity)
         else (let p1 = set_block (the (l_block l)) (copy_at (block_data p l) (nat len) data) p
               in (set_lease a (l\<lparr>l_length := len + int (length data)\<rparr>) p1, None))))"

definition lease_Write :: "lease_ptr \<Rightarrow> bytes \<Rightarrow> BytePool \<Rightarrow> BytePool \<times> (pool_error, int) result" where
  "lease_Write r data p = (case Append r data p of
     (p1, Some e) \<Rightarrow> (p1, Inl e) | (p1, None) \<Rightarrow> (p1, Inr (int (length data))))"

definition SetBytes :: "lease_ptr \<Rightarrow> bytes \<Rightarrow> BytePool \<Rightarrow> BytePool \<times> pool_error option" where
  "SetBytes r data p = (case r of None \<Rightarrow> (p, Some ErrInvalidState) | Some a \<Rightarrow>
     (let l = p_leases p ! a
      in if l_state l \<noteq> StateBorrowed then (p, Some ErrInvalidState)
         else if length data > length (block_data p l) then (p, Some ErrCapacity)
         else (let p1 = set_block (the (l_block l)) (copy_at (block_data p l) 0 data) p
               in (set_lease a (l\<lparr>l_length := int (length data)\<rparr>) p1, None))))"

definition SetAuditContext :: "lease_ptr \<Rightarrow> AuditContext \<Rightarrow> BytePool \<Rightarrow> BytePool \<times> pool_error option" where
  "SetAuditContext r context p = (case r of None \<Rightarrow> (p, Some ErrInvalidState) | Some a \<Rightarrow>
     (let l = p_leases p ! a
      in if l_state l \<noteq> StateBorrowed then (p, Some ErrInvalidState)
         else if l_tracked l then (p\<lparr>p_audit := updateContext (l_id l) context (p_audit p)\<rparr>, None)
         else (p, None)))"

definition state_error :: "BytePool \<Rightarrow> BytePool \<times> pool_error option" where
  "state_error p = (p\<lparr>p_stateErrors := p_stateErrors p + 1\<rparr>, Some ErrInvalidState)"

definition MarkQueued :: "lease_ptr \<Rightarrow> BytePool \<Rightarrow> BytePool \<times> pool_error option" where
  "MarkQueued r p = (case r of None \<Rightarrow> (p, Some ErrInvalidState) | Some a \<Rightarrow>
     (let l = p_leases p ! a
      in if l_state l \<noteq> StateBorrowed then state_error p
         else (let l1 = l\<lparr>l_state := StateQueued\<rparr>;
                   l2 = (if l_tracked l1 then l1\<lparr>l_checksum := ChecksumIEEE (lease_payload p l1)\<rparr> else l1)
               in (set_lease a l2 p, None))))"

definition RollbackQueued :: "lease_ptr \<Rightarrow> BytePool \<Rightarrow> BytePool \<times> pool_error option" where
  "RollbackQueued r p = (case r of None \<Rightarrow> (p, Some ErrInvalidState) | Some a \<Rightarrow>
     (let l = p_leases p ! a
      in if l_state l \<noteq> StateQueued then state_error p
         else (set_lease a (l\<lparr>l_state := StateBorrowed\<rparr>) p, None)))"

definition detectMutation :: "nat \<Rightarrow> BytePool \<Rightarrow> BytePool \<times> bool" where
  "detectMutation a p =
     (let l = p_leases p ! a
      in if \<not> l_tracked l \<or> ChecksumIEEE (lease_payload p l) = l_checksum l then (p, False)
         else if \<not> l_mutated l
           then (let p1 = set_lease a (l\<lparr>l_mutated := True\<rparr>) p
                 in (p1\<lparr>p_useAfterPublish := p_useAfterPublish p1 + 1,
                        p_audit := markMutated (l_id l) (p_audit p1)\<rparr>, True))
         else (p, True))"

definition MarkInFlight :: "lease_ptr \<Rightarrow> BytePool \<Rightarrow> BytePool \<times> pool_error option" where
  "MarkInFlight r p = (case r of None \<Rightarrow> (p, Some ErrInvalidState) | Some a \<Rightarrow>
     (let l = p_leases p ! a
      in if l_state l \<noteq> StateQueued then state_error p
         else (let (p1, changed) = detectMutation a (set_lease a (l\<lparr>l_state := StateInFlight\<rparr>) p)
               in (p1, if changed then Some ErrPayloadModified else None))))"

subsection \<open>Pool operations\<close>

definition pool_New :: "nat \<Rightarrow> pool_Config \<Rightarrow> (pool_error, BytePool) result" where
  "pool_New ident config = (case pool_normalized config of Inl e \<Rightarrow> Inl e | Inr c \<Rightarrow>
     Inr \<lparr>p_ident = ident, p_config = c,
       p_classes = map (\<lambda>s. \<lparr>sl_size = s, sl_store = [], sl_borrowed = 0, sl_inUse = 0, sl_hits = 0,
         sl_misses = 0\<rparr>) (Classes c),
       p_nextID = 0, p_closed = False, p_borrowed = 0, p_returned = 0, p_outstanding = 0,
       p_poolHits = 0, p_poolMisses = 0, p_oversized = 0, p_largeAllocations = 0,
       p_doubleReturns = 0, p_invalidReturns = 0, p_stateErrors = 0, p_useAfterPublish = 0,
       p_overdue = 0, p_audit = newAuditRegistry c, p_leases = [], p_blocks = []\<rparr>)"

fun classFor_from :: "nat \<Rightarrow> slab list \<Rightarrow> int \<Rightarrow> int" where
  "classFor_from i [] cap = - 1"
| "classFor_from i (s # ss) cap = (if cap \<le> sl_size s then int i else classFor_from (Suc i) ss cap)"

definition classFor :: "BytePool \<Rightarrow> int \<Rightarrow> int" where
  "classFor p cap = classFor_from 0 (p_classes p) cap"

definition shouldTrack :: "BytePool \<Rightarrow> u64 \<Rightarrow> bool" where
  "shouldTrack p borrowNumber =
     (if AuditMode (p_config p) = AuditFull then True
      else if AuditMode (p_config p) = AuditSampled
        then borrowNumber mod SampleEvery (p_config p) = 0
      else False)"

text \<open>
  What the runtime contributes to one \<open>acquire\<close>: the clock, the item \<open>sync.Pool.Get\<close> chooses
  among the cached blocks of the class (its position in the store, or none), the captured frames
  and the goroutine number.
\<close>

record acquire_env =
  ae_now :: int
  ae_get :: "nat option"
  ae_frames :: "Frame list"
  ae_gid :: u64

text \<open>\<open>Get\<close> removes the item it returns; a choice outside the store is no item.\<close>

definition store_get :: "nat option \<Rightarrow> nat list \<Rightarrow> (nat \<times> nat list) option" where
  "store_get g store = (case g of None \<Rightarrow> None
     | Some i \<Rightarrow> if i < length store then Some (store ! i, take i store @ drop (Suc i) store) else None)"

text \<open>The block for a request: from the class's store, freshly allocated, or oversized.\<close>

definition acquire_block :: "acquire_env \<Rightarrow> int \<Rightarrow> BytePool \<Rightarrow> BytePool \<times> nat \<times> int" where
  "acquire_block env cap p =
     (let ci = classFor p cap
      in if ci \<ge> 0 then
           (let i = nat ci; class = p_classes p ! i
            in case store_get (ae_get env) (sl_store class) of
                 Some (b, rest) \<Rightarrow>
                   (p\<lparr>p_classes := (p_classes p)[i := class\<lparr>sl_store := rest, sl_hits := sl_hits class + 1,
                        sl_borrowed := sl_borrowed class + 1, sl_inUse := sl_inUse class + 1\<rparr>],
                      p_poolHits := p_poolHits p + 1\<rparr>, b, ci)
               | None \<Rightarrow>
                   (p\<lparr>p_classes := (p_classes p)[i := class\<lparr>sl_misses := sl_misses class + 1,
                        sl_borrowed := sl_borrowed class + 1, sl_inUse := sl_inUse class + 1\<rparr>],
                      p_poolMisses := p_poolMisses p + 1,
                      p_blocks := p_blocks p @ [replicate (nat (sl_size class)) 0]\<rparr>,
                    length (p_blocks p), ci))
         else (p\<lparr>p_poolMisses := p_poolMisses p + 1, p_largeAllocations := p_largeAllocations p + 1,
                 p_blocks := p_blocks p @ [replicate (nat cap) 0]\<rparr>, length (p_blocks p), ci))"

definition next_lease_id :: "u64 \<Rightarrow> u64" where
  "next_lease_id n = (if n + 1 = 0 then n + 2 else n + 1)"

definition acquire :: "acquire_env \<Rightarrow> int \<Rightarrow> AuditContext \<Rightarrow> BytePool \<Rightarrow> BytePool \<times> (pool_error, nat) result" where
  "acquire env cap context p =
     (if p_closed p then (p, Inl ErrClosed)
      else if cap < 0 then (p, Inl ErrInvalidSize)
      else if cap > MaxBytes (p_config p) then (p\<lparr>p_oversized := p_oversized p + 1\<rparr>, Inl ErrTooLarge)
      else
        (let (p1, b, ci) = acquire_block env cap p;
             now = ae_now env;
             ident = next_lease_id (p_nextID p1);
             borrowNumber = p_borrowed p1 + 1;
             tracked = shouldTrack p1 borrowNumber;
             l = \<lparr>l_id = ident, l_block = Some b, l_class = ci, l_length = 0, l_state = StateBorrowed,
                  l_tracked = tracked, l_checksum = 0, l_mutated = False, l_borrowed = now,
                  l_deadline = now + LeaseTimeout (p_config p1)\<rparr>;
             a = length (p_leases p1);
             p2 = p1\<lparr>p_nextID := ident, p_leases := p_leases p1 @ [l], p_borrowed := borrowNumber,
                     p_outstanding := p_outstanding p1 + 1\<rparr>;
             p3 = (if tracked then p2\<lparr>p_audit := audit_register a ident context (ae_frames env)
                      (ae_gid env) (p_audit p2)\<rparr> else p2)
         in (p3, Inr a)))"

text \<open>The part of \<open>Release\<close> after the state has become \<open>RETURNED\<close>.\<close>

definition release_block :: "nat \<Rightarrow> BytePool \<Rightarrow> BytePool" where
  "release_block a p =
     (let l = p_leases p ! a;
          p1 = (if l_class l \<ge> 0 then
              (let i = nat (l_class l); class = p_classes p ! i
               in set_lease a (l\<lparr>l_length := 0\<rparr>) (p\<lparr>p_classes := (p_classes p)[i :=
                    class\<lparr>sl_inUse := sl_inUse class - 1,
                          sl_store := (case l_block l of None \<Rightarrow> sl_store class
                                       | Some b \<Rightarrow> b # sl_store class)\<rparr>]\<rparr>))
              else p);
          p2 = set_lease a ((p_leases p1 ! a)\<lparr>l_block := None\<rparr>) p1
      in p2\<lparr>p_returned := p_returned p2 + 1, p_outstanding := p_outstanding p2 - 1\<rparr>)"

definition Release :: "lease_ref \<Rightarrow> int \<Rightarrow> BytePool \<Rightarrow> BytePool \<times> pool_error option" where
  "Release r now p = (case r of
     None \<Rightarrow> (p\<lparr>p_invalidReturns := p_invalidReturns p + 1\<rparr>, Some ErrUnknownLease)
   | Some (owner, a) \<Rightarrow>
       if owner \<noteq> p_ident p then (p\<lparr>p_invalidReturns := p_invalidReturns p + 1\<rparr>, Some ErrUnknownLease)
       else
         (let state = l_state (p_leases p ! a);
              p1 = (if state = StateInFlight then fst (detectMutation a p) else p)
          in case state of
               StateReturned \<Rightarrow> (p1\<lparr>p_doubleReturns := p_doubleReturns p1 + 1\<rparr>, Some ErrDoubleReturn)
             | StateQueued \<Rightarrow> (p1\<lparr>p_stateErrors := p_stateErrors p1 + 1\<rparr>, Some ErrInvalidState)
             | StateUnknown \<Rightarrow> (p1\<lparr>p_invalidReturns := p_invalidReturns p1 + 1\<rparr>, Some ErrUnknownLease)
             | _ \<Rightarrow>
                 (let p2 = set_lease a ((p_leases p1 ! a)\<lparr>l_state := StateReturned\<rparr>) p1;
                      p3 = (if l_tracked (p_leases p2 ! a) then audit_finalize a now p2 else p2)
                  in (release_block a p3, None))))"

definition ScanOverdue :: "int \<Rightarrow> BytePool \<Rightarrow> BytePool \<times> nat" where
  "ScanOverdue now p = (if AuditMode (p_config p) = AuditOff then (p, 0) else scanOverdue now p)"

definition pool_Close :: "BytePool \<Rightarrow> BytePool" where
  "pool_Close p = p\<lparr>p_closed := True\<rparr>"

subsection \<open>Memory safety: who owns which block\<close>

text \<open>The blocks held by outstanding leases, and the blocks cached in the size classes.\<close>

definition lease_blocks :: "Lease \<Rightarrow> nat list" where
  "lease_blocks l = (case l_block l of None \<Rightarrow> [] | Some b \<Rightarrow> [b])"

definition held_blocks :: "BytePool \<Rightarrow> nat list" where
  "held_blocks p = concat (map lease_blocks (p_leases p))"

definition cached_blocks :: "BytePool \<Rightarrow> nat list" where
  "cached_blocks p = concat (map sl_store (p_classes p))"

definition lease_ok :: "BytePool \<Rightarrow> Lease \<Rightarrow> bool" where
  "lease_ok p l \<longleftrightarrow>
     l_state l \<noteq> StateUnknown \<and> (l_block l = None \<longleftrightarrow> l_state l = StateReturned) \<and>
     - 1 \<le> l_class l \<and> l_class l < int (length (p_classes p)) \<and>
     (case l_block l of None \<Rightarrow> True | Some b \<Rightarrow>
        0 \<le> l_length l \<and> l_length l \<le> int (length (p_blocks p ! b)) \<and>
        (0 \<le> l_class l \<longrightarrow> int (length (p_blocks p ! b)) = sl_size (p_classes p ! nat (l_class l))))"

definition store_ok :: "BytePool \<Rightarrow> slab \<Rightarrow> bool" where
  "store_ok p s \<longleftrightarrow> (\<forall>b \<in> set (sl_store s). int (length (p_blocks p ! b)) = sl_size s)"

definition in_class :: "nat \<Rightarrow> Lease \<Rightarrow> bool" where
  "in_class i l \<longleftrightarrow> l_block l \<noteq> None \<and> l_class l = int i"

definition classes_sound :: "BytePool \<Rightarrow> bool" where
  "classes_sound p \<longleftrightarrow> map sl_size (p_classes p) = Classes (p_config p) \<and>
     classes_ok (MaxBytes (p_config p)) 0 (Classes (p_config p))"

definition pool_inv :: "BytePool \<Rightarrow> bool" where
  "pool_inv p \<longleftrightarrow>
     classes_sound p \<and> (\<forall>l \<in> set (p_leases p). lease_ok p l) \<and> (\<forall>s \<in> set (p_classes p). store_ok p s) \<and>
     distinct (held_blocks p @ cached_blocks p) \<and>
     set (held_blocks p @ cached_blocks p) \<subseteq> {..<length (p_blocks p)} \<and>
     p_borrowed p = of_nat (length (p_leases p)) \<and>
     p_outstanding p = of_nat (length (held_blocks p)) \<and>
     p_returned p = of_nat (length (p_leases p)) - of_nat (length (held_blocks p)) \<and>
     (\<forall>i < length (p_classes p).
        sl_inUse (p_classes p ! i) = of_nat (length (filter (in_class i) (p_leases p))))"

lemma pool_invD:
  assumes "pool_inv p"
  shows "classes_sound p" "l \<in> set (p_leases p) \<Longrightarrow> lease_ok p l" "s \<in> set (p_classes p) \<Longrightarrow> store_ok p s"
    "distinct (held_blocks p @ cached_blocks p)"
    "set (held_blocks p @ cached_blocks p) \<subseteq> {..<length (p_blocks p)}"
    "p_borrowed p = of_nat (length (p_leases p))"
    "p_outstanding p = of_nat (length (held_blocks p))"
    "p_returned p = of_nat (length (p_leases p)) - of_nat (length (held_blocks p))"
    "i < length (p_classes p) \<Longrightarrow>
        sl_inUse (p_classes p ! i) = of_nat (length (filter (in_class i) (p_leases p)))"
  using assms unfolding pool_inv_def by blast+

text \<open>The invariant reads only part of the state: everything else may change freely.\<close>

definition pool_core :: "BytePool \<Rightarrow> BytePool \<Rightarrow> bool" where
  "pool_core p q \<longleftrightarrow> p_config q = p_config p \<and> p_classes q = p_classes p \<and> p_borrowed q = p_borrowed p \<and>
     p_returned q = p_returned p \<and> p_outstanding q = p_outstanding p \<and> p_leases q = p_leases p \<and>
     p_blocks q = p_blocks p"

lemma ok_cong:
  assumes "p_classes q = p_classes p" "p_blocks q = p_blocks p"
  shows "lease_ok q l = lease_ok p l" "store_ok q s = store_ok p s"
  using assms by (auto simp: lease_ok_def store_ok_def split: option.splits)

lemma pool_core_inv:
  assumes "pool_core p q"
  shows "pool_inv q = pool_inv p"
  using assms ok_cong [of q p]
  by (simp add: pool_core_def pool_inv_def classes_sound_def held_blocks_def cached_blocks_def)

lemma pool_inv_frame [simp]:
  "pool_inv (p\<lparr>p_closed := x0\<rparr>) = pool_inv p"
  "pool_inv (p\<lparr>p_nextID := x1\<rparr>) = pool_inv p"
  "pool_inv (p\<lparr>p_poolHits := x2\<rparr>) = pool_inv p"
  "pool_inv (p\<lparr>p_poolMisses := x3\<rparr>) = pool_inv p"
  "pool_inv (p\<lparr>p_oversized := x4\<rparr>) = pool_inv p"
  "pool_inv (p\<lparr>p_largeAllocations := x5\<rparr>) = pool_inv p"
  "pool_inv (p\<lparr>p_doubleReturns := x6\<rparr>) = pool_inv p"
  "pool_inv (p\<lparr>p_invalidReturns := x7\<rparr>) = pool_inv p"
  "pool_inv (p\<lparr>p_stateErrors := x8\<rparr>) = pool_inv p"
  "pool_inv (p\<lparr>p_useAfterPublish := x9\<rparr>) = pool_inv p"
  "pool_inv (p\<lparr>p_overdue := x10\<rparr>) = pool_inv p"
  "pool_inv (p\<lparr>p_audit := x11\<rparr>) = pool_inv p"
  by (rule pool_core_inv, simp add: pool_core_def)+

text \<open>Changing the state, length, checksum or mutation mark of an outstanding lease.\<close>

lemma set_lease_inv:
  assumes inv: "pool_inv p" and a: "a < length (p_leases p)"
    and l: "l_block l = l_block (p_leases p ! a)" "l_class l = l_class (p_leases p ! a)" "lease_ok p l"
  shows "pool_inv (set_lease a l p)"
proof -
  have blk: "map lease_blocks ((p_leases p)[a := l]) = map lease_blocks (p_leases p)"
    using l(1) by (intro map_update_same) (simp add: lease_blocks_def)
  have "length (filter (in_class i) ((p_leases p)[a := l])) = length (filter (in_class i) (p_leases p))" for i
    using length_filter_update [OF a, of "in_class i" l] l by (simp add: in_class_def split: if_splits)
  moreover have "lease_ok (set_lease a l p) x" if "x \<in> set ((p_leases p)[a := l])" for x
    using that pool_invD(2) [OF inv] l(3) set_update_subset_insert [of "p_leases p" a l]
    by (auto simp: set_lease_def ok_cong(1) [of "p\<lparr>p_leases := (p_leases p)[a := l]\<rparr>" p])
  ultimately show ?thesis
    using inv blk by (simp add: pool_inv_def set_lease_def held_blocks_def cached_blocks_def
        classes_sound_def store_ok_def)
qed

lemma set_block_inv:
  assumes inv: "pool_inv p" and "length bs = length (p_blocks p ! b)"
  shows "pool_inv (set_block b bs p)"
proof -
  have len: "length ((p_blocks p)[b := bs] ! x) = length (p_blocks p ! x)" for x
    using assms(2) by (cases "b < length (p_blocks p)") (auto simp: nth_list_update list_update_beyond)
  then have "lease_ok (set_block b bs p) l = lease_ok p l" "store_ok (set_block b bs p) s = store_ok p s" for l s
    by (simp_all add: lease_ok_def store_ok_def set_block_def split: option.splits)
  then show ?thesis
    using inv
    by (simp add: pool_inv_def held_blocks_def cached_blocks_def classes_sound_def set_block_def)
qed

subsection \<open>Every operation keeps the invariant\<close>

definition valid_ptr :: "BytePool \<Rightarrow> lease_ptr \<Rightarrow> bool" where
  "valid_ptr p r \<longleftrightarrow> (case r of None \<Rightarrow> True | Some a \<Rightarrow> a < length (p_leases p))"

lemma valid_ptr_Some [simp]: "valid_ptr p (Some a) \<longleftrightarrow> a < length (p_leases p)"
  by (simp add: valid_ptr_def)

lemma length_copy_at: "at + length src \<le> length dst \<Longrightarrow> length (copy_at dst at src) = length dst"
  by (simp add: copy_at_def)

lemma lease_okD:
  assumes "pool_inv p" "a < length (p_leases p)" "l = p_leases p ! a"
  shows "lease_ok p l" "l_state l \<noteq> StateUnknown" "l_block l = None \<longleftrightarrow> l_state l = StateReturned"
    "l_block l = Some b \<Longrightarrow> b < length (p_blocks p)"
    "l_state l \<noteq> StateReturned \<Longrightarrow> 0 \<le> l_length l \<and> l_length l \<le> int (length (block_data p l))"
proof -
  have mem: "l \<in> set (p_leases p)" using assms by simp
  show ok: "lease_ok p l" using pool_invD(2) [OF assms(1) mem] .
  then show "l_state l \<noteq> StateUnknown" and n: "l_block l = None \<longleftrightarrow> l_state l = StateReturned"
    by (simp_all add: lease_ok_def)
  show "b < length (p_blocks p)" if "l_block l = Some b"
  proof -
    have "b \<in> set (held_blocks p)" using mem that by (force simp: held_blocks_def lease_blocks_def)
    then show ?thesis using pool_invD(5) [OF assms(1)] by auto
  qed
  show "0 \<le> l_length l \<and> l_length l \<le> int (length (block_data p l))" if "l_state l \<noteq> StateReturned"
    using ok n that by (auto simp: lease_ok_def block_data_def split: option.splits)
qed

lemma Resize_inv:
  assumes inv: "pool_inv p" and "valid_ptr p r"
  shows "pool_inv (fst (Resize r sz p))"
proof (cases r)
  case (Some a)
  let ?l = "p_leases p ! a"
  have a: "a < length (p_leases p)" using assms Some by simp
  have "lease_ok p (?l\<lparr>l_length := sz\<rparr>)"
    if "0 \<le> sz" "sz \<le> int (length (block_data p ?l))"
    using lease_okD(1) [OF inv a refl] that
    by (auto simp: lease_ok_def block_data_def split: option.splits)
  then show ?thesis
    using inv a Some by (auto simp: Resize_def Let_def not_less intro!: set_lease_inv)
qed (simp add: Resize_def inv)

text \<open>A write of \<open>data\<close> into the block of a borrowed lease, and the new committed length.\<close>

lemma write_inv:
  assumes inv: "pool_inv p" and a: "a < length (p_leases p)" and l: "l = p_leases p ! a"
    and st: "l_state l = StateBorrowed" and b: "l_block l = Some b"
    and fits: "at + length data \<le> length (block_data p l)" "0 \<le> n" "n \<le> int (length (block_data p l))"
  shows "pool_inv (set_lease a (l\<lparr>l_length := n\<rparr>) (set_block b (copy_at (block_data p l) at data) p))"
proof -
  let ?bs = "copy_at (block_data p l) at data"
  have len: "length ?bs = length (p_blocks p ! b)"
    using fits(1) b by (simp add: length_copy_at block_data_def)
  have inv': "pool_inv (set_block b ?bs p)" using set_block_inv [OF inv len] .
  have nth: "p_leases (set_block b ?bs p) = p_leases p" by (simp add: set_block_def)
  have "lease_ok (set_block b ?bs p) l" using lease_okD(1) [OF inv', of a] a l nth by simp
  then have "lease_ok (set_block b ?bs p) (l\<lparr>l_length := n\<rparr>)"
    using b fits len lease_okD(4) [OF inv a l b]
    by (auto simp: lease_ok_def set_block_def block_data_def)
  then show ?thesis
    using inv' a l nth by (intro set_lease_inv) simp_all
qed

lemma borrowed_block:
  assumes "pool_inv p" "a < length (p_leases p)" "l_state (p_leases p ! a) \<noteq> StateReturned"
  obtains b where "l_block (p_leases p ! a) = Some b"
  using lease_okD(3) [OF assms(1,2) refl] assms(3) by auto

lemma Append_inv:
  assumes "pool_inv p" "valid_ptr p r"
  shows "pool_inv (fst (Append r data p))"
proof (cases "snd (Append r data p)")
  case None
  then obtain a where r: "r = Some a" and a: "a < length (p_leases p)"
    and st: "l_state (p_leases p ! a) = StateBorrowed"
    and fits: "int (length data) \<le> int (length (block_data p (p_leases p ! a))) - l_length (p_leases p ! a)"
    using assms(2) by (cases r) (auto simp: Append_def Let_def split: if_splits)
  obtain b where b: "l_block (p_leases p ! a) = Some b"
    using borrowed_block [OF assms(1) a] st by auto
  have len: "0 \<le> l_length (p_leases p ! a)" using lease_okD(5) [OF assms(1) a refl] st by simp
  show ?thesis
    using write_inv [OF assms(1) a refl st b, of "nat (l_length (p_leases p ! a))" data
        "l_length (p_leases p ! a) + int (length data)"] len fits
    by (simp add: r Append_def Let_def st b)
next
  case (Some e)
  then have "fst (Append r data p) = p"
    by (cases r) (auto simp: Append_def Let_def split: if_splits)
  then show ?thesis using assms by simp
qed

lemma SetBytes_inv:
  assumes "pool_inv p" "valid_ptr p r"
  shows "pool_inv (fst (SetBytes r data p))"
proof (cases "snd (SetBytes r data p)")
  case None
  then obtain a where r: "r = Some a" and a: "a < length (p_leases p)"
    and st: "l_state (p_leases p ! a) = StateBorrowed"
    and fits: "length data \<le> length (block_data p (p_leases p ! a))"
    using assms(2) by (cases r) (auto simp: SetBytes_def Let_def split: if_splits)
  obtain b where b: "l_block (p_leases p ! a) = Some b"
    using borrowed_block [OF assms(1) a] st by auto
  show ?thesis
    using write_inv [OF assms(1) a refl st b, of 0 data "int (length data)"] fits
    by (simp add: r SetBytes_def Let_def st b)
next
  case (Some e)
  then have "fst (SetBytes r data p) = p"
    by (cases r) (auto simp: SetBytes_def Let_def split: if_splits)
  then show ?thesis using assms by simp
qed

lemma SetAuditContext_core: "pool_core p (fst (SetAuditContext r c p))"
  by (cases r) (simp_all add: SetAuditContext_def pool_core_def Let_def)

lemma scanOverdue_core: "pool_core p (fst (scanOverdue now p))"
  by (simp add: scanOverdue_def pool_core_def Let_def)

text \<open>A change of state between the three outstanding states.\<close>

lemma outstanding_state_inv:
  assumes "pool_inv p" "a < length (p_leases p)" "l_state (p_leases p ! a) \<noteq> StateReturned"
    "l_block l = l_block (p_leases p ! a)" "l_class l = l_class (p_leases p ! a)"
    "l_length l = l_length (p_leases p ! a)" "l_state l \<noteq> StateReturned" "l_state l \<noteq> StateUnknown"
  shows "pool_inv (set_lease a l p)"
  using assms lease_okD [OF assms(1,2) refl]
  by (intro set_lease_inv) (auto simp: lease_ok_def split: option.splits)

lemma MarkQueued_inv: "pool_inv p \<Longrightarrow> valid_ptr p r \<Longrightarrow> pool_inv (fst (MarkQueued r p))"
  by (cases r) (auto simp: MarkQueued_def Let_def state_error_def intro!: outstanding_state_inv)

lemma RollbackQueued_inv: "pool_inv p \<Longrightarrow> valid_ptr p r \<Longrightarrow> pool_inv (fst (RollbackQueued r p))"
  by (cases r) (auto simp: RollbackQueued_def Let_def state_error_def intro!: outstanding_state_inv)

lemma pool_core_invI: "pool_inv p \<Longrightarrow> pool_core p q \<Longrightarrow> pool_inv q"
  by (simp add: pool_core_inv)

lemma detectMutation_inv:
  assumes "pool_inv p" "a < length (p_leases p)" "l_state (p_leases p ! a) \<noteq> StateReturned"
  shows "pool_inv (fst (detectMutation a p))"
proof -
  let ?l = "(p_leases p ! a)\<lparr>l_mutated := True\<rparr>"
  have "pool_inv (set_lease a ?l p)"
    using assms lease_okD(2) [OF assms(1,2) refl] by (intro outstanding_state_inv) simp_all
  then show ?thesis
    using assms(1) by (simp add: detectMutation_def Let_def)
qed

lemma MarkInFlight_inv:
  assumes "pool_inv p" "valid_ptr p r"
  shows "pool_inv (fst (MarkInFlight r p))"
proof (cases r)
  case (Some a)
  let ?p = "set_lease a ((p_leases p ! a)\<lparr>l_state := StateInFlight\<rparr>) p"
  have a: "a < length (p_leases p)" using assms Some by simp
  have "pool_inv (fst (detectMutation a ?p))" if "l_state (p_leases p ! a) = StateQueued"
  proof (rule detectMutation_inv)
    show "pool_inv ?p" using that assms(1) a by (intro outstanding_state_inv) simp_all
    show "a < length (p_leases ?p)" "l_state (p_leases ?p ! a) \<noteq> StateReturned"
      using a by (simp_all add: set_lease_def)
  qed
  then show ?thesis
    using assms(1) Some
    by (auto simp: MarkInFlight_def Let_def state_error_def split: prod.splits)
qed (simp add: MarkInFlight_def assms)

subsection \<open>Borrowing and returning a block\<close>

lemma classFor_from_bounds:
  "classFor_from i ss cap = - 1 \<and> (\<forall>s \<in> set ss. sl_size s < cap) \<or>
   (\<exists>k < length ss. classFor_from i ss cap = int (i + k) \<and> cap \<le> sl_size (ss ! k) \<and>
      (\<forall>j < k. sl_size (ss ! j) < cap))"
proof (induction ss arbitrary: i)
  case (Cons s ss)
  show ?case
  proof (cases "cap \<le> sl_size s")
    case False
    show ?thesis using Cons.IH [of "Suc i"]
    proof
      assume "classFor_from (Suc i) ss cap = - 1 \<and> (\<forall>s \<in> set ss. sl_size s < cap)"
      then show ?thesis using False by auto
    next
      assume "\<exists>k < length ss. classFor_from (Suc i) ss cap = int (Suc i + k) \<and>
          cap \<le> sl_size (ss ! k) \<and> (\<forall>j < k. sl_size (ss ! j) < cap)"
      then obtain k where k: "k < length ss" "classFor_from (Suc i) ss cap = int (Suc i + k)"
        "cap \<le> sl_size (ss ! k)" "\<forall>j < k. sl_size (ss ! j) < cap" by blast
      then show ?thesis
        using False by (intro disjI2 exI [of _ "Suc k"]) (auto simp: less_Suc_eq_0_disj)
    qed
  qed force
qed simp

lemma classFor_cases:
  obtains "classFor p cap = - 1" "\<forall>s \<in> set (p_classes p). sl_size s < cap"
  | k where "k < length (p_classes p)" "classFor p cap = int k" "cap \<le> sl_size (p_classes p ! k)"
      "\<forall>j < k. sl_size (p_classes p ! j) < cap"
  using classFor_from_bounds [of 0 "p_classes p" cap] by (auto simp: classFor_def)

lemma classes_ok_pos: "classes_ok m prev cs \<Longrightarrow> c \<in> set cs \<Longrightarrow> prev < c \<and> c \<le> m"
proof (induction cs arbitrary: prev)
  case (Cons d cs)
  then have "prev < d" "d \<le> m" "classes_ok m d cs" by (simp_all split: if_splits)
  then show ?case using Cons by fastforce
qed simp

lemma class_size_bounds:
  assumes "classes_sound p" "k < length (p_classes p)"
  shows "0 < sl_size (p_classes p ! k)" "sl_size (p_classes p ! k) \<le> MaxBytes (p_config p)"
proof -
  have "sl_size (p_classes p ! k) \<in> set (Classes (p_config p))"
    using assms by (metis classes_sound_def length_map nth_map nth_mem)
  then show "0 < sl_size (p_classes p ! k)" "sl_size (p_classes p ! k) \<le> MaxBytes (p_config p)"
    using assms(1) classes_ok_pos by (auto simp: classes_sound_def)
qed

lemma store_get_spec:
  assumes "store_get g store = Some (b, rest)"
  shows "mset rest + {#b#} = mset store" "b \<in> set store"
proof -
  obtain i where i: "i < length store" "b = store ! i" "rest = take i store @ drop (Suc i) store"
    using assms by (auto simp: store_get_def split: option.splits if_splits)
  have "mset store = mset (take i store @ store ! i # drop (Suc i) store)"
    using i(1) by (simp add: id_take_nth_drop [symmetric])
  then show "mset rest + {#b#} = mset store" using i by simp
  show "b \<in> set store" using i by simp
qed

lemma held_blocks_snoc:
  "p_leases q = p_leases p @ [l] \<Longrightarrow> l_block l = Some b \<Longrightarrow> held_blocks q = held_blocks p @ [b]"
  by (simp add: held_blocks_def lease_blocks_def)

lemma new_lease_inv:
  assumes inv: "pool_inv p"
    and frame: "p_config q = p_config p" "p_leases q = p_leases p @ [l]"
      "p_borrowed q = p_borrowed p + 1" "p_outstanding q = p_outstanding p + 1"
      "p_returned q = p_returned p" "p_blocks q = p_blocks p @ extra"
    and l: "l_state l = StateBorrowed" "l_block l = Some b" "lease_ok q l"
    and b: "mset (cached_blocks q) + {#b#} = mset (cached_blocks p) \<or>
      cached_blocks q = cached_blocks p \<and> b = length (p_blocks p) \<and> extra \<noteq> []"
    and cls: "map sl_size (p_classes q) = map sl_size (p_classes p)" "\<forall>s \<in> set (p_classes q). store_ok q s"
    and use: "\<And>i. i < length (p_classes p) \<Longrightarrow> sl_inUse (p_classes q ! i) =
      sl_inUse (p_classes p ! i) + (if l_class l = int i then 1 else 0)"
  shows "pool_inv q"
proof -
  have held: "held_blocks q = held_blocks p @ [b]" using held_blocks_snoc [OF frame(2) l(2)] .
  have len: "length (p_classes q) = length (p_classes p)" using cls(1) by (metis length_map)
  have bnd: "set (held_blocks p @ cached_blocks p) \<subseteq> {..<length (p_blocks p)}" using inv by (rule pool_invD)
  have dist: "distinct (held_blocks q @ cached_blocks q)"
    using b
  proof
    assume "mset (cached_blocks q) + {#b#} = mset (cached_blocks p)"
    then have "mset (held_blocks q @ cached_blocks q) = mset (held_blocks p @ cached_blocks p)"
      by (simp add: held ac_simps flip: union_assoc)
    then show ?thesis using pool_invD(4) [OF inv] mset_eq_imp_distinct_iff by blast
  next
    assume "cached_blocks q = cached_blocks p \<and> b = length (p_blocks p) \<and> extra \<noteq> []"
    then show ?thesis using pool_invD(4) [OF inv] bnd by (auto simp: held)
  qed
  have sub: "set (held_blocks q @ cached_blocks q) \<subseteq> {..<length (p_blocks q)}"
    using b
  proof
    assume m: "mset (cached_blocks q) + {#b#} = mset (cached_blocks p)"
    then have "set (cached_blocks p) = insert b (set (cached_blocks q))"
      by (metis add_mset_add_single set_mset_add_mset_insert set_mset_mset)
    then show ?thesis using bnd by (auto simp: held frame(6))
  next
    assume "cached_blocks q = cached_blocks p \<and> b = length (p_blocks p) \<and> extra \<noteq> []"
    then show ?thesis using bnd by (auto simp: held frame(6))
  qed
  have sizes: "sl_size (p_classes q ! i) = sl_size (p_classes p ! i)" if "i < length (p_classes p)" for i
    using cls(1) that len by (metis nth_map)
  have "lease_ok q x" if x: "x \<in> set (p_leases p)" for x
  proof -
    have ok: "lease_ok p x" using pool_invD(2) [OF inv x] .
    have "c < length (p_blocks p)" if "l_block x = Some c" for c
      using x that bnd by (force simp: held_blocks_def lease_blocks_def)
    then show ?thesis
      using ok sizes len by (auto simp: lease_ok_def frame(6) nth_append split: option.splits)
  qed
  moreover have "sl_inUse (p_classes q ! i) = of_nat (length (filter (in_class i) (p_leases q)))"
    if "i < length (p_classes q)" for i
    using use [of i] pool_invD(9) [OF inv, of i] that len l(2) by (simp add: frame(2) in_class_def)
  moreover have "classes_sound q"
    using pool_invD(1) [OF inv] cls(1) by (simp add: classes_sound_def frame(1))
  ultimately show ?thesis
    using dist sub cls(2) l(3) pool_invD(6-8) [OF inv] unfolding pool_inv_def
    by (simp add: frame held)
qed

text \<open>What \<open>acquire_block\<close> does to the state: the block leaves the cache, or is new.\<close>

definition took_block :: "BytePool \<Rightarrow> BytePool \<Rightarrow> nat \<Rightarrow> int \<Rightarrow> bool" where
  "took_block p q b ci \<longleftrightarrow>
     p_config q = p_config p \<and> p_leases q = p_leases p \<and> p_borrowed q = p_borrowed p \<and>
     p_outstanding q = p_outstanding p \<and> p_returned q = p_returned p \<and>
     map sl_size (p_classes q) = map sl_size (p_classes p) \<and>
     (\<exists>extra. p_blocks q = p_blocks p @ extra \<and>
       (mset (cached_blocks q) + {#b#} = mset (cached_blocks p) \<or>
        cached_blocks q = cached_blocks p \<and> b = length (p_blocks p) \<and> extra \<noteq> [])) \<and>
     (\<forall>s \<in> set (p_classes q). store_ok q s) \<and>
     (\<forall>i < length (p_classes p). sl_inUse (p_classes q ! i) =
        sl_inUse (p_classes p ! i) + (if ci = int i then 1 else 0)) \<and>
     - 1 \<le> ci \<and> ci < int (length (p_classes p)) \<and>
     (0 \<le> ci \<longrightarrow> int (length (p_blocks q ! b)) = sl_size (p_classes p ! nat ci))"

lemma store_ok_mono:
  assumes "store_ok p s" "set (sl_store s') \<subseteq> set (sl_store s)" "sl_size s' = sl_size s"
    "set (sl_store s) \<subseteq> {..<length (p_blocks p)}" "p_blocks q = p_blocks p @ extra"
  shows "store_ok q s'"
  using assms by (auto simp: store_ok_def nth_append)

lemma stores_ok_update:
  assumes inv: "pool_inv p" and k: "k < length (p_classes p)"
    and s': "set (sl_store s') \<subseteq> set (sl_store (p_classes p ! k))" "sl_size s' = sl_size (p_classes p ! k)"
    and q: "p_blocks q = p_blocks p @ extra" "p_classes q = (p_classes p)[k := s']"
  shows "\<forall>s \<in> set (p_classes q). store_ok q s"
proof
  fix s assume "s \<in> set (p_classes q)"
  then consider "s = s'" | "s \<in> set (p_classes p)"
    using set_update_subset_insert [of "p_classes p" k s'] by (auto simp: q)
  moreover have "set (sl_store t) \<subseteq> {..<length (p_blocks p)}" if "t \<in> set (p_classes p)" for t
    using pool_invD(5) [OF inv] that by (auto simp: cached_blocks_def)
  ultimately show "store_ok q s"
    using store_ok_mono [OF pool_invD(3) [OF inv] _ _ _ q(1)] s' k by (metis nth_mem subset_refl)
qed

lemma took_block_large:
  assumes inv: "pool_inv p" and q: "p_blocks q = p_blocks p @ [bs]" "pool_core p (q\<lparr>p_blocks := p_blocks p\<rparr>)"
  shows "took_block p q (length (p_blocks p)) (- 1)"
proof -
  have c: "p_classes q = p_classes p" using q(2) by (simp add: pool_core_def)
  have "store_ok q s" if "s \<in> set (p_classes p)" for s
  proof -
    have "set (sl_store s) \<subseteq> {..<length (p_blocks p)}"
      using that pool_invD(5) [OF inv] by (auto simp: cached_blocks_def)
    then show ?thesis using store_ok_mono [OF pool_invD(3) [OF inv that], of s q] q(1) by simp
  qed
  then show ?thesis using q by (simp add: took_block_def cached_blocks_def c pool_core_def)
qed

lemma took_block_class:
  assumes inv: "pool_inv p" and k: "k < length (p_classes p)"
    and q: "p_blocks q = p_blocks p @ extra" "p_classes q = (p_classes p)[k := s']"
      "pool_core p (q\<lparr>p_blocks := p_blocks p, p_classes := p_classes p\<rparr>)"
    and s': "sl_size s' = sl_size (p_classes p ! k)" "sl_inUse s' = sl_inUse (p_classes p ! k) + 1"
    and b: "mset (sl_store s') + {#b#} = mset (sl_store (p_classes p ! k)) \<or>
      sl_store s' = sl_store (p_classes p ! k) \<and> b = length (p_blocks p) \<and> extra \<noteq> []"
    and len: "int (length (p_blocks q ! b)) = sl_size s'"
  shows "took_block p q b (int k)"
proof -
  have sub: "set (sl_store s') \<subseteq> set (sl_store (p_classes p ! k))"
    using b by (metis add_mset_add_single set_mset_add_mset_insert set_mset_mset subset_insertI subset_refl)
  have "mset (cached_blocks q) + mset (sl_store (p_classes p ! k)) = mset (cached_blocks p) + mset (sl_store s')"
    using mset_concat_map_update [OF k, of sl_store s'] by (simp add: cached_blocks_def q)
  then have "mset (cached_blocks q) + {#b#} = mset (cached_blocks p)"
    if "mset (sl_store s') + {#b#} = mset (sl_store (p_classes p ! k))"
    using that [symmetric] by (simp add: ac_simps)
  moreover have "cached_blocks q = cached_blocks p" if "sl_store s' = sl_store (p_classes p ! k)"
    unfolding cached_blocks_def q(2) map_update_same [OF that] ..
  ultimately have "mset (cached_blocks q) + {#b#} = mset (cached_blocks p) \<or>
      cached_blocks q = cached_blocks p \<and> b = length (p_blocks p) \<and> extra \<noteq> []"
    using b by blast
  then show ?thesis
    using q k s' len stores_ok_update [OF inv k sub s'(1) q(1,2)]
    by (simp add: took_block_def pool_core_def map_update_same nth_list_update)
qed

lemma acquire_block_took:
  assumes inv: "pool_inv p" and eq: "acquire_block env cap p = (q, b, ci)"
  shows "took_block p q b ci"
proof (cases rule: classFor_cases [of p cap])
  case 1
  then show ?thesis
    using eq took_block_large [OF inv, of q "replicate (nat cap) 0"]
    by (auto simp: acquire_block_def pool_core_def)
next
  case (2 k)
  let ?c = "p_classes p ! k"
  have pos: "0 < sl_size ?c" using class_size_bounds(1) [OF pool_invD(1) [OF inv] 2(1)] .
  show ?thesis
  proof (cases "store_get (ae_get env) (sl_store ?c)")
    case None
    then show ?thesis
      using eq 2(2) pos took_block_class [OF inv 2(1), of q "[replicate (nat (sl_size ?c)) 0]"
        "?c\<lparr>sl_misses := sl_misses ?c + 1, sl_borrowed := sl_borrowed ?c + 1, sl_inUse := sl_inUse ?c + 1\<rparr>" b]
      by (auto simp: acquire_block_def Let_def pool_core_def)
  next
    case (Some br)
    then obtain rest where br: "store_get (ae_get env) (sl_store ?c) = Some (b, rest)"
      using eq 2(2) by (cases br) (simp add: acquire_block_def Let_def)
    have "int (length (p_blocks p ! b)) = sl_size ?c"
      using store_get_spec(2) [OF br] pool_invD(3) [OF inv] 2(1) by (simp add: store_ok_def)
    then show ?thesis
      using eq 2(2) br store_get_spec(1) [OF br] took_block_class [OF inv 2(1), of q "[]"
        "?c\<lparr>sl_store := rest, sl_hits := sl_hits ?c + 1, sl_borrowed := sl_borrowed ?c + 1, sl_inUse := sl_inUse ?c + 1\<rparr>" b]
      by (auto simp: acquire_block_def Let_def pool_core_def)
  qed
qed

text \<open>The complete effect of a successful \<open>acquire\<close> on the part the invariant reads.\<close>

lemma acquire_success:
  assumes "acquire env cap context p = (q, Inr a)"
  obtains p1 b ci l where "acquire_block env cap p = (p1, b, ci)" "a = length (p_leases p1)"
    "l_state l = StateBorrowed" "l_block l = Some b" "l_class l = ci" "l_length l = 0"
    "pool_core (p1\<lparr>p_leases := p_leases p1 @ [l], p_borrowed := p_borrowed p1 + 1,
       p_outstanding := p_outstanding p1 + 1\<rparr>) q"
    "0 \<le> cap" "cap \<le> MaxBytes (p_config p)" "\<not> p_closed p"
    "l_id l = next_lease_id (p_nextID p1)" "l_tracked l = shouldTrack p1 (p_borrowed p1 + 1)"
    "l_mutated l = False" "l_deadline l = ae_now env + LeaseTimeout (p_config p1)"
proof -
  obtain p1 b ci where ab: "acquire_block env cap p = (p1, b, ci)" by (metis prod_cases3)
  show thesis
    using assms ab
    by (intro that [of p1 b ci "p_leases q ! a"])
      (auto simp: acquire_def Let_def pool_core_def split: if_splits)
qed

lemma acquire_inv:
  assumes inv: "pool_inv p"
  shows "pool_inv (fst (acquire env cap context p))"
proof (cases "snd (acquire env cap context p)")
  case (Inl e)
  then have "fst (acquire env cap context p) = p \<or>
      fst (acquire env cap context p) = p\<lparr>p_oversized := p_oversized p + 1\<rparr>"
    by (auto simp: acquire_def Let_def split: if_splits prod.splits)
  then show ?thesis using inv by auto
next
  case (Inr a)
  then obtain q where q: "acquire env cap context p = (q, Inr a)" by (metis prod.collapse)
  then obtain p1 b ci l where ab: "acquire_block env cap p = (p1, b, ci)"
    and l: "l_state l = StateBorrowed" "l_block l = Some b" "l_class l = ci" "l_length l = 0"
    and core: "pool_core (p1\<lparr>p_leases := p_leases p1 @ [l], p_borrowed := p_borrowed p1 + 1,
       p_outstanding := p_outstanding p1 + 1\<rparr>) q"
    by (rule acquire_success)
  note tb = acquire_block_took [OF inv ab, unfolded took_block_def]
  obtain extra where ex: "p_blocks p1 = p_blocks p @ extra"
      "mset (cached_blocks p1) + {#b#} = mset (cached_blocks p) \<or>
        cached_blocks p1 = cached_blocks p \<and> b = length (p_blocks p) \<and> extra \<noteq> []"
    using tb by blast
  have len: "length (p_classes p1) = length (p_classes p)" using tb by (metis length_map)
  have sz: "sl_size (p_classes p1 ! i) = sl_size (p_classes p ! i)" if "i < length (p_classes p)" for i
    using tb that len by (metis nth_map)
  have "pool_inv q"
  proof (rule new_lease_inv [OF inv, of q l extra b])
    have "store_ok q s = store_ok p1 s" for s using core by (simp add: pool_core_def store_ok_def)
    then show "\<forall>s \<in> set (p_classes q). store_ok q s" using tb core by (simp add: pool_core_def)
    show "lease_ok q l" using l tb core len sz by (auto simp: lease_ok_def pool_core_def)
  qed (use tb core ex l in \<open>auto simp: pool_core_def cached_blocks_def\<close>)
  then show ?thesis by (simp add: q)
qed

subsection \<open>Returning a lease\<close>

text \<open>The state after the audit part of \<open>Release\<close> differs from the state before only outside the core.\<close>

lemma audit_finalize_core: "pool_core p (audit_finalize a now p)"
  by (simp add: audit_finalize_def pool_core_def Let_def split: option.splits)

lemma cached_cons:
  assumes "k < length cs" "sl_store s' = b # sl_store (cs ! k)"
  shows "mset (concat (map sl_store (cs[k := s']))) = add_mset b (mset (concat (map sl_store cs)))"
  using mset_concat_map_update [OF assms(1), of sl_store s'] by (simp add: assms(2))

lemma return_lease_inv:
  assumes inv: "pool_inv p" and a: "a < length (p_leases p)" and b: "l_block (p_leases p ! a) = Some b"
    and core: "pool_core (set_lease a l p) q" and l: "l = (p_leases p ! a)\<lparr>l_state := StateReturned\<rparr>"
  shows "pool_inv (release_block a q)"
proof -
  let ?old = "p_leases p ! a" and ?r = "release_block a q"
  define new where "new = p_leases ?r ! a"
  have ql: "p_leases q = (p_leases p)[a := l]" "p_leases q ! a = l" "p_classes q = p_classes p"
      "p_blocks q = p_blocks p" "p_config q = p_config p" "p_outstanding q = p_outstanding p"
      "p_returned q = p_returned p" "p_borrowed q = p_borrowed p"
    using core a by (simp_all add: pool_core_def set_lease_def)
  have lb: "l_block l = Some b" "l_class l = l_class ?old" using l b by simp_all
  have leases: "p_leases ?r = (p_leases p)[a := new]"
    using a by (simp add: new_def release_block_def Let_def set_lease_def ql)
  have new: "l_block new = None" "l_state new = StateReturned" "l_class new = l_class ?old"
    using a lb by (simp_all add: new_def release_block_def Let_def set_lease_def ql l)
  have old_ok: "lease_ok p ?old" using lease_okD(1) [OF inv a refl] .
  have cls: "\<not> 0 \<le> l_class ?old \<longrightarrow> p_classes ?r = p_classes p"
    "0 \<le> l_class ?old \<longrightarrow> p_classes ?r = (p_classes p)[nat (l_class ?old) := (p_classes p ! nat (l_class ?old))
      \<lparr>sl_inUse := sl_inUse (p_classes p ! nat (l_class ?old)) - 1,
       sl_store := b # sl_store (p_classes p ! nat (l_class ?old))\<rparr>]"
    using lb a by (simp_all add: release_block_def Let_def set_lease_def ql)
  have k: "nat (l_class ?old) < length (p_classes p)" if "0 \<le> l_class ?old"
    using old_ok that unfolding lease_ok_def by linarith
  have rest: "p_blocks ?r = p_blocks p" "p_config ?r = p_config p" "p_borrowed ?r = p_borrowed p"
      "p_outstanding ?r = p_outstanding p - 1" "p_returned ?r = p_returned p + 1"
    by (simp_all add: release_block_def Let_def set_lease_def ql)
  have sizes: "map sl_size (p_classes ?r) = map sl_size (p_classes p)"
    using cls by (cases "0 \<le> l_class ?old") (simp_all add: map_update_same)
  have len: "length (p_classes ?r) = length (p_classes p)" using sizes by (metis length_map)
  have held: "mset (held_blocks ?r) + {#b#} = mset (held_blocks p)"
    using mset_concat_map_update [OF a, of lease_blocks new] new(1) b
    by (simp add: held_blocks_def leases lease_blocks_def)
  have cached: "mset (cached_blocks ?r) \<subseteq># mset (cached_blocks p) + {#b#}"
    using cls cached_cons [OF k]
    by (cases "0 \<le> l_class ?old") (simp_all add: cached_blocks_def)
  have sub: "mset (held_blocks ?r @ cached_blocks ?r) \<subseteq># mset (held_blocks p @ cached_blocks p)"
    using subset_mset.add_left_mono [OF cached, of "mset (held_blocks ?r)"] held [symmetric]
    by (simp add: ac_simps)
  have oks: "lease_ok ?r x" if "x \<in> set (p_leases ?r)" for x
  proof -
    have sz: "sl_size (p_classes ?r ! i) = sl_size (p_classes p ! i)" if "i < length (p_classes p)" for i
      using sizes that len by (metis nth_map)
    have "lease_ok p x \<or> x = new"
      using that pool_invD(2) [OF inv] set_update_subset_insert [of "p_leases p" a new] by (auto simp: leases)
    then show ?thesis
      using new old_ok sz by (auto simp: lease_ok_def rest len split: option.splits)
  qed
  have stores: "store_ok ?r s" if "s \<in> set (p_classes ?r)" for s
  proof (cases "0 \<le> l_class ?old")
    case True
    have "int (length (p_blocks p ! b)) = sl_size (p_classes p ! nat (l_class ?old))"
      using old_ok b True by (simp add: lease_ok_def)
    then show ?thesis
      using that True cls(2) pool_invD(3) [OF inv] k
        set_update_subset_insert [of "p_classes p" "nat (l_class ?old)"]
      by (fastforce simp: store_ok_def rest)
  next
    case False
    then show ?thesis using that cls(1) pool_invD(3) [OF inv] by (simp add: store_ok_def rest)
  qed
  have uses: "sl_inUse (p_classes ?r ! i) = of_nat (length (filter (in_class i) (p_leases ?r)))"
    if i: "i < length (p_classes ?r)" for i
  proof -
    have n: "length (filter (in_class i) (p_leases p)) =
        length (filter (in_class i) (p_leases ?r)) + (if in_class i ?old then 1 else 0)"
      using length_filter_update [OF a, of "in_class i" new] new(1) by (simp add: leases in_class_def)
    have "(of_nat (length (filter (in_class i) (p_leases p))) :: u64) =
        of_nat (length (filter (in_class i) (p_leases ?r))) + (if l_class ?old = int i then 1 else 0)"
      unfolding n using b by (simp add: in_class_def)
    then show ?thesis
      using pool_invD(9) [OF inv, of i] i len cls k
      by (cases "0 \<le> l_class ?old") (auto simp: nth_list_update)
  qed
  have hl: "length (held_blocks p) = Suc (length (held_blocks ?r))"
    using arg_cong [OF held, of size] by simp
  have dist: "distinct (held_blocks ?r @ cached_blocks ?r)"
    using distinct_mset_sub [OF pool_invD(4) [OF inv] sub] .
  have inb: "set (held_blocks ?r @ cached_blocks ?r) \<subseteq> {..<length (p_blocks ?r)}"
    using set_mset_mono [OF sub] pool_invD(5) [OF inv] unfolding rest set_mset_mset by blast
  have "p_borrowed ?r = of_nat (length (p_leases ?r))"
    "p_outstanding ?r = of_nat (length (held_blocks ?r))"
    "p_returned ?r = of_nat (length (p_leases ?r)) - of_nat (length (held_blocks ?r))"
    using pool_invD(6,7,8) [OF inv] by (simp_all add: rest leases hl)
  moreover have "classes_sound ?r"
    using pool_invD(1) [OF inv] sizes by (simp add: rest classes_sound_def)
  ultimately show ?thesis
    using oks stores uses dist inb unfolding pool_inv_def by blast
qed

lemma detectMutation_frame:
  "p_ident (fst (detectMutation a p)) = p_ident p"
  "length (p_leases (fst (detectMutation a p))) = length (p_leases p)"
  "p_blocks (fst (detectMutation a p)) = p_blocks p"
  "l_block (p_leases (fst (detectMutation a p)) ! x) = l_block (p_leases p ! x)"
  "l_state (p_leases (fst (detectMutation a p)) ! x) = l_state (p_leases p ! x)"
  "l_length (p_leases (fst (detectMutation a p)) ! x) = l_length (p_leases p ! x)"
  "l_id (p_leases (fst (detectMutation a p)) ! x) = l_id (p_leases p ! x)"
  "l_tracked (p_leases (fst (detectMutation a p)) ! x) = l_tracked (p_leases p ! x)"
  by (cases "x = a"; cases "a < length (p_leases p)";
      simp add: detectMutation_def Let_def set_lease_def list_update_beyond)+

lemma Release_inv:
  assumes inv: "pool_inv p" and ptr: "\<And>o' a. r = Some (o', a) \<Longrightarrow> o' = p_ident p \<Longrightarrow> a < length (p_leases p)"
  shows "pool_inv (fst (Release r now p))"
proof (cases "snd (Release r now p)")
  case None
  then obtain o' a where r: "r = Some (o', a)" and own: "o' = p_ident p"
    and st: "l_state (p_leases p ! a) = StateBorrowed \<or> l_state (p_leases p ! a) = StateInFlight"
    by (cases r) (auto simp: Release_def Let_def split: if_splits LeaseState.splits)
  have a: "a < length (p_leases p)" using ptr r own by blast
  let ?p1 = "if l_state (p_leases p ! a) = StateInFlight then fst (detectMutation a p) else p"
  let ?l = "(p_leases ?p1 ! a)\<lparr>l_state := StateReturned\<rparr>"
  let ?p2 = "set_lease a ?l ?p1"
  have inv1: "pool_inv ?p1" using inv detectMutation_inv [OF inv a] st by auto
  have a1: "a < length (p_leases ?p1)" using a by (simp add: detectMutation_frame)
  have "l_state (p_leases ?p1 ! a) \<noteq> StateReturned" using st by (auto simp: detectMutation_frame)
  then obtain b where b: "l_block (p_leases ?p1 ! a) = Some b" using borrowed_block [OF inv1 a1] by blast
  have "pool_core ?p2 (if l_tracked (p_leases ?p2 ! a) then audit_finalize a now ?p2 else ?p2)"
    using audit_finalize_core by (simp add: pool_core_def)
  from return_lease_inv [OF inv1 a1 b this refl] show ?thesis
    using st own by (auto simp: r Release_def Let_def)
next
  case (Some e)
  have "pool_inv (if l_state (p_leases p ! a) = StateInFlight then fst (detectMutation a p) else p)"
    if "a < length (p_leases p)" for a
    using inv detectMutation_inv [OF inv that] by auto
  then show ?thesis
    using Some inv ptr by (cases r) (auto simp: Release_def Let_def split: if_splits LeaseState.splits)
qed

lemma default_limits_frame:
  "AuditMode (default_limits c) = AuditMode c" "Classes (default_limits c) = Classes c"
  "SampleEvery (default_limits c) \<noteq> 0" "Classes (default_classes_and_mode c) \<noteq> []"
  by (simp_all add: default_limits_def default_classes_and_mode_def Let_def DefaultClasses_def)

lemma pool_normalized_ok:
  assumes "pool_normalized c0 = Inr c"
  shows "classes_ok (MaxBytes c) 0 (Classes c)" "0 < MaxBytes c" "0 < LeaseTimeout c" "0 < ScanInterval c"
    "0 \<le> HistoryLimit c" "1 \<le> StackDepth c" "StackDepth c \<le> 128" "AuditMode_valid (AuditMode c)"
    "SampleEvery c \<noteq> 0" "Classes c \<noteq> []"
  using assms default_limits_frame [of "default_classes_and_mode c0"] default_limits_frame(4) [of c0]
  by (auto simp: pool_normalized_def Let_def split: if_split_asm)

lemma pool_New_inv:
  assumes "pool_New i c0 = Inr p"
  shows "pool_inv p" "p_leases p = []" "p_ident p = i" "pool_normalized c0 = Inr (p_config p)"
proof -
  obtain c where c: "pool_normalized c0 = Inr c"
    using assms by (auto simp: pool_New_def split: sum.splits)
  have st: "concat (map (\<lambda>s. []) xs) = ([] :: nat list)" for xs :: "int list"
    by (induction xs) simp_all
  have p: "p_leases p = []" "p_ident p = i" "p_config p = c" "p_blocks p = []"
     "p_borrowed p = 0" "p_returned p = 0" "p_outstanding p = 0"
     "p_classes p = map (\<lambda>s. \<lparr>sl_size = s, sl_store = [], sl_borrowed = 0, sl_inUse = 0, sl_hits = 0,
         sl_misses = 0\<rparr>) (Classes c)"
    using assms c by (auto simp: pool_New_def)
  show "p_leases p = []" "p_ident p = i" "pool_normalized c0 = Inr (p_config p)" using p c by simp_all
  show "pool_inv p"
    using pool_normalized_ok(1) [OF c] p
    by (auto simp: pool_inv_def classes_sound_def held_blocks_def cached_blocks_def store_ok_def o_def st)
qed

end
