(* ===== verification/Pool_Safety.thy ===== *)
theory Pool_Safety
  imports Pool
begin

text \<open>
  Sequences of pool operations and what holds after any of them: exclusive ownership of the
  byte blocks, the counters of \<^verbatim>\<open>Stats\<close>, the lease state machine, the payload a lease carries,
  and the effect of every branch of \<^verbatim>\<open>Release\<close> and \<^verbatim>\<open>acquire\<close>.
\<close>

subsection \<open>The statistics\<close>

record ClassStats =
  cs_Size :: int
  cs_Borrowed :: u64
  cs_InUse :: u64
  cs_Hits :: u64
  cs_Misses :: u64

record pool_Stats =
  ps_Borrowed :: u64
  ps_Returned :: u64
  ps_Outstanding :: u64
  ps_PoolHits :: u64
  ps_PoolMisses :: u64
  ps_Oversized :: u64
  ps_LargeAllocations :: u64
  ps_DoubleReturns :: u64
  ps_InvalidReturns :: u64
  ps_StateErrors :: u64
  ps_UseAfterPublish :: u64
  ps_Overdue :: u64
  ps_Classes :: "ClassStats list"
  ps_Closed :: bool

definition class_stats :: "slab \<Rightarrow> ClassStats" where
  "class_stats c = \<lparr>cs_Size = sl_size c, cs_Borrowed = sl_borrowed c, cs_InUse = sl_inUse c,
     cs_Hits = sl_hits c, cs_Misses = sl_misses c\<rparr>"

definition pool_stats :: "BytePool \<Rightarrow> pool_Stats" where
  "pool_stats p = \<lparr>ps_Borrowed = p_borrowed p, ps_Returned = p_returned p, ps_Outstanding = p_outstanding p,
     ps_PoolHits = p_poolHits p, ps_PoolMisses = p_poolMisses p, ps_Oversized = p_oversized p,
     ps_LargeAllocations = p_largeAllocations p, ps_DoubleReturns = p_doubleReturns p,
     ps_InvalidReturns = p_invalidReturns p, ps_StateErrors = p_stateErrors p,
     ps_UseAfterPublish = p_useAfterPublish p, ps_Overdue = p_overdue p,
     ps_Classes = map class_stats (p_classes p), ps_Closed = p_closed p\<rparr>"

subsection \<open>Sequences of operations\<close>

text \<open>
  Every exported operation, and \<open>PoolPoke\<close>: a write of one byte through a slice of a lease's
  block that some caller still holds, at any time, legal or not.
\<close>

datatype pool_op =
    PoolAcquire acquire_env int AuditContext
  | PoolResize lease_ptr int
  | PoolAppend lease_ptr bytes
  | PoolSetBytes lease_ptr bytes
  | PoolSetContext lease_ptr AuditContext
  | PoolMarkQueued lease_ptr
  | PoolRollback lease_ptr
  | PoolMarkInFlight lease_ptr
  | PoolRelease lease_ref int
  | PoolScan int
  | PoolClose
  | PoolPoke nat nat u8

definition poke :: "nat \<Rightarrow> nat \<Rightarrow> u8 \<Rightarrow> BytePool \<Rightarrow> BytePool" where
  "poke b i v p = set_block b ((p_blocks p ! b)[i := v]) p"

fun do_pool_op :: "pool_op \<Rightarrow> BytePool \<Rightarrow> BytePool" where
  "do_pool_op (PoolAcquire env cap c) p = fst (acquire env cap c p)"
| "do_pool_op (PoolResize r sz) p = fst (Resize r sz p)"
| "do_pool_op (PoolAppend r d) p = fst (Append r d p)"
| "do_pool_op (PoolSetBytes r d) p = fst (SetBytes r d p)"
| "do_pool_op (PoolSetContext r c) p = fst (SetAuditContext r c p)"
| "do_pool_op (PoolMarkQueued r) p = fst (MarkQueued r p)"
| "do_pool_op (PoolRollback r) p = fst (RollbackQueued r p)"
| "do_pool_op (PoolMarkInFlight r) p = fst (MarkInFlight r p)"
| "do_pool_op (PoolRelease r now) p = fst (Release r now p)"
| "do_pool_op (PoolScan now) p = fst (ScanOverdue now p)"
| "do_pool_op PoolClose p = pool_Close p"
| "do_pool_op (PoolPoke b i v) p = poke b i v p"

text \<open>A pointer that a caller holds was returned by an earlier \<open>acquire\<close>.\<close>

definition valid_ref :: "BytePool \<Rightarrow> lease_ref \<Rightarrow> bool" where
  "valid_ref p r \<longleftrightarrow> (case r of None \<Rightarrow> True
     | Some (owner, a) \<Rightarrow> owner = p_ident p \<longrightarrow> a < length (p_leases p))"

fun pool_op_valid :: "BytePool \<Rightarrow> pool_op \<Rightarrow> bool" where
  "pool_op_valid p (PoolResize r sz) = valid_ptr p r"
| "pool_op_valid p (PoolAppend r d) = valid_ptr p r"
| "pool_op_valid p (PoolSetBytes r d) = valid_ptr p r"
| "pool_op_valid p (PoolSetContext r c) = valid_ptr p r"
| "pool_op_valid p (PoolMarkQueued r) = valid_ptr p r"
| "pool_op_valid p (PoolRollback r) = valid_ptr p r"
| "pool_op_valid p (PoolMarkInFlight r) = valid_ptr p r"
| "pool_op_valid p (PoolRelease r now) = valid_ref p r"
| "pool_op_valid p _ = True"

fun pool_ops_valid :: "pool_op list \<Rightarrow> BytePool \<Rightarrow> bool" where
  "pool_ops_valid [] p = True"
| "pool_ops_valid (x # xs) p = (pool_op_valid p x \<and> pool_ops_valid xs (do_pool_op x p))"

definition run_pool :: "pool_op list \<Rightarrow> BytePool \<Rightarrow> BytePool" where
  "run_pool ops p = fold do_pool_op ops p"

lemma run_pool_simps [simp]:
  "run_pool [] p = p" "run_pool (x # xs) p = run_pool xs (do_pool_op x p)"
  by (simp_all add: run_pool_def)

lemma do_pool_op_inv: "pool_inv p \<Longrightarrow> pool_op_valid p x \<Longrightarrow> pool_inv (do_pool_op x p)"
proof (cases x)
  case (PoolRelease r now)
  assume "pool_inv p" "pool_op_valid p x"
  then show ?thesis
    unfolding PoolRelease do_pool_op.simps
    by (intro Release_inv) (simp_all add: PoolRelease valid_ref_def split: option.splits)
next
  case (PoolPoke b i v)
  assume "pool_inv p"
  then show ?thesis using PoolPoke set_block_inv by (simp add: poke_def)
qed (auto simp: acquire_inv Resize_inv Append_inv SetBytes_inv MarkQueued_inv RollbackQueued_inv
    MarkInFlight_inv ScanOverdue_def pool_Close_def
    intro: pool_core_invI [OF _ SetAuditContext_core] pool_core_invI [OF _ scanOverdue_core])

lemma run_pool_inv: "pool_inv p \<Longrightarrow> pool_ops_valid ops p \<Longrightarrow> pool_inv (run_pool ops p)"
  by (induction ops arbitrary: p) (simp_all add: do_pool_op_inv)

subsection \<open>Exclusive ownership\<close>

lemma held_unique:
  assumes "pool_inv p" "a < length (p_leases p)" "a' < length (p_leases p)" "a \<noteq> a'"
    "l_block (p_leases p ! a) = Some b"
  shows "l_block (p_leases p ! a') \<noteq> Some b"
proof
  assume b': "l_block (p_leases p ! a') = Some b"
  have two: "\<not> distinct (concat (map lease_blocks ls))"
    if "i < length ls" "j < length ls" "i < j" "l_block (ls ! i) = Some b" "l_block (ls ! j) = Some b" for ls i j
  proof -
    have "ls = take j ls @ ls ! j # drop (Suc j) ls" using that by (simp add: id_take_nth_drop [symmetric])
    moreover have "ls ! i \<in> set (take j ls)" using that by (auto simp: in_set_conv_nth)
    then have "b \<in> set (concat (map lease_blocks (take j ls)))" using that(4) by (force simp: lease_blocks_def)
    moreover have "b \<in> set (lease_blocks (ls ! j))" using that(5) by (simp add: lease_blocks_def)
    moreover have "\<not> distinct (concat (map lease_blocks (xs @ y # ys)))"
      if "b \<in> set (concat (map lease_blocks xs))" "b \<in> set (lease_blocks y)" for xs y ys
      using that by auto
    ultimately show ?thesis by metis
  qed
  have "distinct (concat (map lease_blocks (p_leases p)))"
    using pool_invD(4) [OF assms(1)] by (simp add: held_blocks_def)
  then show False using two [of a "p_leases p" a'] two [of a' "p_leases p" a] assms b' by (metis linorder_neqE_nat)
qed

lemma held_not_cached:
  assumes "pool_inv p" "a < length (p_leases p)" "l_block (p_leases p ! a) = Some b"
  shows "b \<notin> set (cached_blocks p)" "b < length (p_blocks p)"
proof -
  have "b \<in> set (lease_blocks (p_leases p ! a))" using assms(3) by (simp add: lease_blocks_def)
  then have "b \<in> set (held_blocks p)" using assms(2) by (auto simp: held_blocks_def)
  then show "b \<notin> set (cached_blocks p)" "b < length (p_blocks p)"
    using pool_invD(4,5) [OF assms(1)] by auto
qed

text \<open>
  C15. Memory safety of the pool. After any sequence of operations on a new pool, stray writes
  through old slices included, two outstanding leases never share a byte block, an outstanding
  block is never in a free list, and a lease has a block exactly while it is not returned.
\<close>

theorem pool_blocks_exclusive:
  assumes "pool_New ident config = Inr p0" "pool_ops_valid ops p0" "p = run_pool ops p0"
    and "a < length (p_leases p)" "l_block (p_leases p ! a) = Some b"
  shows "(\<forall>a' < length (p_leases p). a' \<noteq> a \<longrightarrow> l_block (p_leases p ! a') \<noteq> Some b) \<and>
     b \<notin> set (cached_blocks p) \<and> b < length (p_blocks p) \<and>
     l_state (p_leases p ! a) \<in> {StateBorrowed, StateQueued, StateInFlight}"
proof -
  have inv: "pool_inv p" using run_pool_inv [OF pool_New_inv(1) [OF assms(1)] assms(2)] assms(3) by simp
  have "l_state (p_leases p ! a) \<noteq> StateReturned" "l_state (p_leases p ! a) \<noteq> StateUnknown"
    using lease_okD(2,3) [OF inv assms(4) refl] assms(5) by auto
  then have "l_state (p_leases p ! a) \<in> {StateBorrowed, StateQueued, StateInFlight}"
    by (cases "l_state (p_leases p ! a)") auto
  then show ?thesis
    using held_unique [OF inv assms(4) _ _ assms(5)] held_not_cached [OF inv assms(4,5)] by metis
qed

subsection \<open>What a lease carries\<close>

text \<open>The abstract content of a lease: its state, its payload and its capacity.\<close>

definition lease_view :: "BytePool \<Rightarrow> nat \<Rightarrow> LeaseState \<times> bytes \<times> int" where
  "lease_view p a = (l_state (p_leases p ! a), Payload p (Some a), Lease_Capacity p (Some a))"

lemma view_unfold:
  "lease_view p a = (l_state (p_leases p ! a), lease_payload p (p_leases p ! a),
     int (length (block_data p (p_leases p ! a))))"
  by (simp add: lease_view_def Payload_def Lease_Capacity_def)

lemma block_write_view:
  fixes n :: int
  assumes inv: "pool_inv p" and a: "a < length (p_leases p)" and b: "l_block (p_leases p ! a) = Some b"
    and len: "length bs = length (p_blocks p ! b)"
  defines "q \<equiv> set_lease a ((p_leases p ! a)\<lparr>l_length := n\<rparr>) (set_block b bs p)"
  shows "a' \<noteq> a \<Longrightarrow> a' < length (p_leases p) \<Longrightarrow> lease_view q a' = lease_view p a'"
    and "l_state (p_leases p ! a) \<noteq> StateReturned \<Longrightarrow>
      lease_view q a = (l_state (p_leases p ! a), take (nat n) bs, int (length (p_blocks p ! b)))"
proof -
  have bl: "b < length (p_blocks p)" using held_not_cached(2) [OF inv a b] .
  show "lease_view q a' = lease_view p a'" if "a' \<noteq> a" "a' < length (p_leases p)"
  proof -
    have "l_block (p_leases p ! a') \<noteq> Some b" using held_unique [OF inv a that(2) that(1) [symmetric] b] .
    then have "block_data q (p_leases p ! a') = block_data p (p_leases p ! a')"
      by (auto simp: block_data_def q_def set_lease_def set_block_def split: option.splits)
    moreover have "p_leases q ! a' = p_leases p ! a'" using that by (simp add: q_def set_lease_def set_block_def)
    ultimately show ?thesis by (simp add: view_unfold lease_payload_def)
  qed
  show "lease_view q a = (l_state (p_leases p ! a), take (nat n) bs, int (length (p_blocks p ! b)))"
    if "l_state (p_leases p ! a) \<noteq> StateReturned"
    using that a b bl len
    by (simp add: view_unfold lease_payload_def block_data_def q_def set_lease_def set_block_def)
qed

text \<open>
  \<open>Append\<close> implements appending to the payload of a borrowed lease: it succeeds exactly
  when the lease is borrowed and the data fits, then the payload is the old payload followed by
  the data; otherwise nothing changes, and no other lease's payload, state or capacity changes.
\<close>

theorem Append_spec:
  assumes inv: "pool_inv p" and a: "a < length (p_leases p)" and eq: "Append (Some a) data p = (q, r)"
    and view: "lease_view p a = (state, payload, cap)"
  shows "(if state \<noteq> StateBorrowed then r = Some ErrInvalidState \<and> q = p
      else if int (length payload + length data) > cap then r = Some ErrCapacity \<and> q = p
      else r = None \<and> lease_view q a = (StateBorrowed, payload @ data, cap)) \<and>
    (\<forall>a' < length (p_leases p). a' \<noteq> a \<longrightarrow> lease_view q a' = lease_view p a')"
proof (cases "state = StateBorrowed")
  case False
  then show ?thesis using eq view by (auto simp: Append_def Let_def view_unfold)
next
  case True
  let ?l = "p_leases p ! a"
  have st: "l_state ?l = StateBorrowed" using True view by (simp add: view_unfold)
  obtain b where b: "l_block ?l = Some b" using borrowed_block [OF inv a] st by auto
  have bd: "block_data p ?l = p_blocks p ! b" using b by (simp add: block_data_def)
  have len: "0 \<le> l_length ?l" "l_length ?l \<le> int (length (p_blocks p ! b))"
    using lease_okD(5) [OF inv a refl] st bd by simp_all
  have pl: "payload = take (nat (l_length ?l)) (p_blocks p ! b)" "cap = int (length (p_blocks p ! b))"
    using view st b bd by (simp_all add: view_unfold lease_payload_def)
  have n: "int (length payload) = l_length ?l" using len pl by simp
  show ?thesis
  proof (cases "int (length payload + length data) > cap")
    case True
    then show ?thesis using eq st n pl \<open>state = StateBorrowed\<close> by (auto simp: Append_def Let_def bd)
  next
    case False
    let ?bs = "copy_at (p_blocks p ! b) (nat (l_length ?l)) data"
    have fits: "nat (l_length ?l) + length data \<le> length (p_blocks p ! b)" using False n pl(2) len by linarith
    have q: "r = None" "q = set_lease a (?l\<lparr>l_length := l_length ?l + int (length data)\<rparr>) (set_block b ?bs p)"
      using eq st False n pl by (auto simp: Append_def Let_def bd b split: if_splits)
    have "take (nat (l_length ?l + int (length data))) ?bs = payload @ data"
      using fits len pl by (simp add: copy_at_def nat_add_distrib)
    then show ?thesis
      using block_write_view [OF inv a b length_copy_at [OF fits], where n = "l_length ?l + int (length data)"] st q pl False
        \<open>state = StateBorrowed\<close> by simp
  qed
qed

text \<open>
  \<open>SetBytes\<close> replaces the payload of a borrowed lease, refuses data above the capacity and
  other states without any change, and touches no other lease.
\<close>

theorem SetBytes_spec:
  assumes inv: "pool_inv p" and a: "a < length (p_leases p)" and eq: "SetBytes (Some a) data p = (q, r)"
    and view: "lease_view p a = (state, payload, cap)"
  shows "(if state \<noteq> StateBorrowed then r = Some ErrInvalidState \<and> q = p
      else if int (length data) > cap then r = Some ErrCapacity \<and> q = p
      else r = None \<and> lease_view q a = (StateBorrowed, data, cap)) \<and>
    (\<forall>a' < length (p_leases p). a' \<noteq> a \<longrightarrow> lease_view q a' = lease_view p a')"
proof (cases "state = StateBorrowed")
  case False
  then show ?thesis using eq view by (auto simp: SetBytes_def Let_def view_unfold)
next
  case True
  let ?l = "p_leases p ! a"
  have st: "l_state ?l = StateBorrowed" using True view by (simp add: view_unfold)
  obtain b where b: "l_block ?l = Some b" using borrowed_block [OF inv a] st by auto
  have bd: "block_data p ?l = p_blocks p ! b" using b by (simp add: block_data_def)
  have cap: "cap = int (length (p_blocks p ! b))" using view bd by (simp add: view_unfold)
  show ?thesis
  proof (cases "int (length data) > cap")
    case True
    then show ?thesis using eq st cap \<open>state = StateBorrowed\<close> by (auto simp: SetBytes_def Let_def bd)
  next
    case False
    let ?bs = "copy_at (p_blocks p ! b) 0 data"
    have fits: "0 + length data \<le> length (p_blocks p ! b)" using False cap by simp
    have q: "r = None" "q = set_lease a (?l\<lparr>l_length := int (length data)\<rparr>) (set_block b ?bs p)"
      using eq st False cap by (auto simp: SetBytes_def Let_def bd b split: if_splits)
    show ?thesis
      using block_write_view [OF inv a b length_copy_at [OF fits], where n = "int (length data)"] st q cap False
        \<open>state = StateBorrowed\<close> by (simp add: copy_at_def)
  qed
qed

subsection \<open>The state machine of a lease\<close>

text \<open>
  The transitions the code allows: \<open>MarkQueued\<close>, \<open>RollbackQueued\<close>, \<open>MarkInFlight\<close> and
  \<open>Release\<close> from \<open>BORROWED\<close> or \<open>IN_FLIGHT\<close>. \<open>RETURNED\<close> is final.
\<close>

inductive lease_step :: "LeaseState \<Rightarrow> LeaseState \<Rightarrow> bool" where
  queue: "lease_step StateBorrowed StateQueued"
| rollback: "lease_step StateQueued StateBorrowed"
| dispatch: "lease_step StateQueued StateInFlight"
| give_back: "lease_step StateBorrowed StateReturned"
| complete: "lease_step StateInFlight StateReturned"

inductive_simps lease_step_simps: "lease_step s t"
inductive_cases lease_step_fromE: "lease_step StateReturned t"

lemma state_set_lease:
  "a < length (p_leases p) \<Longrightarrow> l_state (p_leases (set_lease a l p) ! x) =
     (if x = a then l_state l else l_state (p_leases p ! x))"
  by (simp add: set_lease_def)

lemma leases_frame [simp]:
  "p_leases (set_block b bs p) = p_leases p"
  "p_leases (audit_finalize a now p) = p_leases p"
  "p_leases (fst (scanOverdue now p)) = p_leases p"
  "p_leases (fst (SetAuditContext r c p)) = p_leases p"
  using audit_finalize_core [of p a now] scanOverdue_core [of p now] SetAuditContext_core [of p r c]
  by (simp_all add: set_block_def pool_core_def)

lemma release_block_state:
  "a < length (p_leases p) \<Longrightarrow> l_state (p_leases (release_block a p) ! x) = l_state (p_leases p ! x)"
  by (cases "x = a") (simp_all add: release_block_def Let_def set_lease_def)

lemma release_block_length [simp]: "length (p_leases (release_block a p)) = length (p_leases p)"
  by (simp add: release_block_def Let_def set_lease_def)

text \<open>The lease state after a release, and that the number of leases does not change.\<close>

lemma Release_states:
  assumes "valid_ref p r"
  shows "length (p_leases (fst (Release r now p))) = length (p_leases p)"
    and "l_state (p_leases (fst (Release r now p)) ! x) =
      (if snd (Release r now p) = None \<and> r = Some (p_ident p, x) then StateReturned else l_state (p_leases p ! x))"
    and "snd (Release r now p) = None \<Longrightarrow> r = Some (p_ident p, x) \<Longrightarrow>
      l_state (p_leases p ! x) = StateBorrowed \<or> l_state (p_leases p ! x) = StateInFlight"
proof -
  show "length (p_leases (fst (Release r now p))) = length (p_leases p)"
    by (cases r) (auto simp: Release_def Let_def set_lease_def detectMutation_frame split: LeaseState.splits)
  show "l_state (p_leases (fst (Release r now p)) ! x) =
      (if snd (Release r now p) = None \<and> r = Some (p_ident p, x) then StateReturned else l_state (p_leases p ! x))"
    using assms
    by (cases r) (auto simp: Release_def Let_def release_block_state set_lease_def detectMutation_frame
        valid_ref_def nth_list_update split: LeaseState.splits if_splits)
  show "l_state (p_leases p ! x) = StateBorrowed \<or> l_state (p_leases p ! x) = StateInFlight"
    if "snd (Release r now p) = None" "r = Some (p_ident p, x)"
    using that by (auto simp: Release_def Let_def split: LeaseState.splits)
qed

lemma acquire_leases:
  "p_leases (fst (acquire env cap c p)) = p_leases p \<or>
   (\<exists>l. p_leases (fst (acquire env cap c p)) = p_leases p @ [l] \<and> l_state l = StateBorrowed)"
proof -
  have "p_leases (fst (acquire_block env cap p)) = p_leases p"
    by (auto simp: acquire_block_def Let_def split: option.splits)
  then show ?thesis
    by (auto simp: acquire_def Let_def split: prod.splits)
qed

lemma MarkInFlight_state:
  "a < length (p_leases p) \<Longrightarrow> l_state (p_leases (fst (MarkInFlight (Some a) p)) ! x) =
     (if x = a \<and> l_state (p_leases p ! a) = StateQueued then StateInFlight else l_state (p_leases p ! x))"
  by (auto simp: MarkInFlight_def Let_def state_error_def split_beta detectMutation_frame state_set_lease)

text \<open>
  Every operation moves a lease only along the state machine: in a step, the state of each
  existing lease stays or takes one transition of \<open>lease_step\<close>, a new lease starts \<open>BORROWED\<close>, and
  no lease disappears.
\<close>

theorem lease_transitions:
  assumes "pool_op_valid p x" "a < length (p_leases p)"
  shows "a < length (p_leases (do_pool_op x p)) \<and>
     (l_state (p_leases (do_pool_op x p) ! a) = l_state (p_leases p ! a) \<or>
      lease_step (l_state (p_leases p ! a)) (l_state (p_leases (do_pool_op x p) ! a))) \<and>
     (\<forall>a' < length (p_leases (do_pool_op x p)). length (p_leases p) \<le> a' \<longrightarrow>
        l_state (p_leases (do_pool_op x p) ! a') = StateBorrowed)"
proof (cases x)
  case (PoolAcquire env cap c)
  then show ?thesis
    using acquire_leases [of env cap c p] assms(2) by (auto simp: nth_append less_Suc_eq)
next
  case (PoolRelease r now)
  then have v: "valid_ref p r" using assms(1) by simp
  show ?thesis
    using Release_states(1) [OF v, of now] Release_states(2) [OF v, of now a]
      Release_states(3) [OF v, of now a] assms(2)
    by (auto simp: PoolRelease lease_step_simps)
next
  case (PoolMarkInFlight r)
  then show ?thesis
    using assms MarkInFlight_state [of _ p a]
    by (cases r) (auto simp: lease_step_simps, auto simp: MarkInFlight_def Let_def state_error_def split_beta
        detectMutation_frame set_lease_def)
next
  case (PoolMarkQueued r)
  then show ?thesis
    using assms by (cases r) (auto simp: MarkQueued_def Let_def state_error_def set_lease_def nth_list_update lease_step_simps)
next
  case (PoolRollback r)
  then show ?thesis
    using assms by (cases r) (auto simp: RollbackQueued_def Let_def state_error_def set_lease_def nth_list_update lease_step_simps)
next
  case (PoolAppend r d)
  then show ?thesis
    using assms by (cases r) (auto simp: Append_def Let_def set_lease_def nth_list_update)
next
  case (PoolSetBytes r d)
  then show ?thesis
    using assms by (cases r) (auto simp: SetBytes_def Let_def set_lease_def nth_list_update)
next
  case (PoolResize r sz)
  then show ?thesis
    using assms by (cases r) (auto simp: Resize_def Let_def set_lease_def nth_list_update)
qed (use assms in \<open>simp_all add: ScanOverdue_def pool_Close_def poke_def\<close>)

subsection \<open>Borrowing and returning\<close>

lemma classFor_find:
  "find (\<lambda>s. cap \<le> s) (map sl_size (p_classes p)) =
     (if classFor p cap < 0 then None else Some (sl_size (p_classes p ! nat (classFor p cap))))"
proof (cases rule: classFor_cases [of p cap])
  case 1
  then show ?thesis by (force simp: find_None_iff)
next
  case (2 k)
  then show ?thesis by (auto simp: find_Some_iff intro!: exI [of _ k])
qed

lemma acquire_block_length:
  assumes inv: "pool_inv p" and "0 \<le> cap" and eq: "acquire_block env cap p = (q, b, ci)"
  shows "int (length (p_blocks q ! b)) =
    (case find (\<lambda>s. cap \<le> s) (Classes (p_config p)) of Some s \<Rightarrow> s | None \<Rightarrow> cap)"
proof -
  note tb = acquire_block_took [OF inv eq, unfolded took_block_def]
  have cs: "Classes (p_config p) = map sl_size (p_classes p)"
    using pool_invD(1) [OF inv] by (simp add: classes_sound_def)
  have ci: "ci = classFor p cap"
    using eq by (auto simp: acquire_block_def Let_def split: if_splits option.splits)
  show ?thesis
  proof (cases "classFor p cap < 0")
    case True
    then have "p_blocks q ! b = replicate (nat cap) 0"
      using eq by (auto simp: acquire_block_def Let_def)
    then show ?thesis
      using True assms(2) classFor_find [of cap p] by (simp add: cs)
  next
    case False
    then show ?thesis
      using tb ci classFor_find [of cap p] by (simp add: cs)
  qed
qed

text \<open>
  \<open>acquire\<close> on every branch: the three refusals, and otherwise a new borrowed empty lease
  whose capacity is the smallest size class that fits the request, or the request itself when no
  class does; every other lease keeps its state, payload and capacity.
\<close>

theorem acquire_spec:
  assumes inv: "pool_inv p" and eq: "acquire env cap context p = (q, r)"
  shows "r = (if p_closed p then Inl ErrClosed else if cap < 0 then Inl ErrInvalidSize
        else if cap > MaxBytes (p_config p) then Inl ErrTooLarge else Inr (length (p_leases p))) \<and>
    (\<forall>a. r = Inr a \<longrightarrow> lease_view q a = (StateBorrowed, [],
        case find (\<lambda>s. cap \<le> s) (Classes (p_config p)) of Some s \<Rightarrow> s | None \<Rightarrow> cap)) \<and>
    (\<forall>a' < length (p_leases p). lease_view q a' = lease_view p a')"
proof (cases r)
  case (Inl e)
  then have "p_leases q = p_leases p" "p_blocks q = p_blocks p"
    using eq by (auto simp: acquire_def Let_def split: if_splits prod.splits)
  then show ?thesis
    using Inl eq by (auto simp: acquire_def Let_def view_unfold lease_payload_def block_data_def split: if_splits prod.splits)
next
  case (Inr a)
  obtain p1 b ci l where ab: "acquire_block env cap p = (p1, b, ci)"
    and l: "l_state l = StateBorrowed" "l_block l = Some b" "l_length l = 0"
    and core: "pool_core (p1\<lparr>p_leases := p_leases p1 @ [l], p_borrowed := p_borrowed p1 + 1,
       p_outstanding := p_outstanding p1 + 1\<rparr>) q"
    and ok: "a = length (p_leases p1)" "0 \<le> cap" "cap \<le> MaxBytes (p_config p)" "\<not> p_closed p"
    by (rule acquire_success [OF eq [unfolded Inr]])
  note tb = acquire_block_took [OF inv ab, unfolded took_block_def]
  obtain extra where ex: "p_blocks p1 = p_blocks p @ extra" using tb by blast
  have q: "p_leases q = p_leases p @ [l]" "p_blocks q = p_blocks p @ extra" "a = length (p_leases p)"
    using core tb ex ok by (simp_all add: pool_core_def)
  have "lease_view q a' = lease_view p a'" if a': "a' < length (p_leases p)" for a'
  proof -
    have "block_data q (p_leases p ! a') = block_data p (p_leases p ! a')"
      using held_not_cached(2) [OF inv a'] by (auto simp: block_data_def q nth_append split: option.splits)
    then show ?thesis using a' by (simp add: view_unfold q nth_append lease_payload_def)
  qed
  moreover have "lease_view q a = (StateBorrowed, [], int (length (p_blocks p1 ! b)))"
    using l ex by (simp add: view_unfold q lease_payload_def block_data_def)
  ultimately show ?thesis
    using acquire_block_length [OF inv ok(2) ab] ok q Inr by (simp del: Classes_def)
qed

text \<open>The blocks after a successful release, for the class it returns to.\<close>

lemma Release_success:
  assumes inv: "pool_inv p" and v: "valid_ref p (Some (p_ident p, a))"
    and st: "l_state (p_leases p ! a) = StateBorrowed \<or> l_state (p_leases p ! a) = StateInFlight"
  shows "snd (Release (Some (p_ident p, a)) now p) = None"
    and "p_outstanding (fst (Release (Some (p_ident p, a)) now p)) = p_outstanding p - 1"
    and "p_returned (fst (Release (Some (p_ident p, a)) now p)) = p_returned p + 1"
    and "l_block (p_leases (fst (Release (Some (p_ident p, a)) now p)) ! a) = None"
  using st v detectMutation_frame(2) [of a p]
  by (auto simp: Release_def Let_def release_block_def set_lease_def audit_finalize_def detectMutation_def valid_ref_def
      split: option.splits)

lemma release_block_other:
  "a < length (p_leases p) \<Longrightarrow> a' \<noteq> a \<Longrightarrow> p_leases (release_block a p) ! a' = p_leases p ! a'"
  "p_blocks (release_block a p) = p_blocks p"
  by (simp_all add: release_block_def Let_def set_lease_def)

lemma Release_other:
  assumes "valid_ref p (Some (p_ident p, a))" "a' \<noteq> a"
  shows "p_leases (fst (Release (Some (p_ident p, a)) now p)) ! a' = p_leases p ! a'"
    and "p_blocks (fst (Release (Some (p_ident p, a)) now p)) = p_blocks p"
proof -
  have d: "p_leases (fst (detectMutation a p)) ! a' = p_leases p ! a'"
    using assms(2) by (simp add: detectMutation_def Let_def set_lease_def)
  have blk: "p_blocks (audit_finalize a now x) = p_blocks x" for x
    using audit_finalize_core [of x a now] by (simp add: pool_core_def)
  have a: "a < length (p_leases p)" using assms(1) by (simp add: valid_ref_def)
  have len: "length (p_leases (fst (detectMutation a p))) = length (p_leases p)" by (rule detectMutation_frame)
  show "p_leases (fst (Release (Some (p_ident p, a)) now p)) ! a' = p_leases p ! a'"
    using a assms(2) d len
    by (auto simp: Release_def Let_def release_block_other set_lease_def split: LeaseState.splits)
  show "p_blocks (fst (Release (Some (p_ident p, a)) now p)) = p_blocks p"
    using blk by (auto simp: Release_def Let_def release_block_other set_lease_def detectMutation_frame split: LeaseState.splits)
qed

lemma Release_success_store:
  assumes a: "a < length (p_leases p)" and b: "l_block (p_leases p ! a) = Some b"
    and k: "0 \<le> l_class (p_leases p ! a)" "nat (l_class (p_leases p ! a)) < length (p_classes p)"
    and st: "l_state (p_leases p ! a) = StateBorrowed \<or> l_state (p_leases p ! a) = StateInFlight"
  shows "b \<in> set (sl_store (p_classes (fst (Release (Some (p_ident p, a)) now p)) ! nat (l_class (p_leases p ! a))))"
proof -
  have "b \<in> set (sl_store (p_classes (release_block a q) ! nat (l_class (p_leases p ! a))))"
    if "l_block (p_leases q ! a) = Some b" "l_class (p_leases q ! a) = l_class (p_leases p ! a)"
      "p_classes q = p_classes p" for q
    using k that by (simp add: release_block_def Let_def set_lease_def)
  moreover have "p_classes (audit_finalize a now x) = p_classes x" for x
    using audit_finalize_core [of x a now] by (simp add: pool_core_def)
  moreover have "p_classes (fst (detectMutation a p)) = p_classes p"
      "l_class (p_leases (fst (detectMutation a p)) ! a) = l_class (p_leases p ! a)"
      "length (p_leases (fst (detectMutation a p))) = length (p_leases p)"
    using a by (simp_all add: detectMutation_def Let_def set_lease_def)
  ultimately show ?thesis
    using st a b by (auto simp: Release_def Let_def set_lease_def detectMutation_frame)
qed

text \<open>
  \<open>Release\<close> on every branch: nil and foreign leases, double returns and queued leases are
  refused and only counted; a borrowed or in-flight lease becomes \<open>RETURNED\<close>, loses its block,
  which goes to the free list of its size class, and the counters move by one. No other lease
  changes.
\<close>

theorem Release_spec:
  assumes inv: "pool_inv p" and v: "valid_ref p r" and eq: "Release r now p = (q, e)"
  shows "case r of
      None \<Rightarrow> e = Some ErrUnknownLease \<and> q = p\<lparr>p_invalidReturns := p_invalidReturns p + 1\<rparr>
    | Some (owner, a) \<Rightarrow>
        if owner \<noteq> p_ident p then e = Some ErrUnknownLease \<and> q = p\<lparr>p_invalidReturns := p_invalidReturns p + 1\<rparr>
        else if l_state (p_leases p ! a) = StateReturned
          then e = Some ErrDoubleReturn \<and> q = p\<lparr>p_doubleReturns := p_doubleReturns p + 1\<rparr>
        else if l_state (p_leases p ! a) = StateQueued
          then e = Some ErrInvalidState \<and> q = p\<lparr>p_stateErrors := p_stateErrors p + 1\<rparr>
        else e = None \<and> lease_view q a = (StateReturned, [], 0) \<and>
          p_outstanding q = p_outstanding p - 1 \<and> p_returned q = p_returned p + 1 \<and>
          (\<forall>b. l_block (p_leases p ! a) = Some b \<and> 0 \<le> l_class (p_leases p ! a) \<longrightarrow>
             b \<in> set (sl_store (p_classes q ! nat (l_class (p_leases p ! a))))) \<and>
          (\<forall>a' < length (p_leases p). a' \<noteq> a \<longrightarrow> lease_view q a' = lease_view p a')"
proof (cases r)
  case None
  then show ?thesis using eq by (simp add: Release_def)
next
  case (Some oa)
  obtain owner a where oa: "oa = (owner, a)" by fastforce
  show ?thesis
  proof (cases "owner = p_ident p \<and> l_state (p_leases p ! a) \<noteq> StateReturned \<and> l_state (p_leases p ! a) \<noteq> StateQueued")
    case False
    then show ?thesis using eq by (auto simp: Some oa Release_def Let_def)
  next
    case True
    then have r: "r = Some (p_ident p, a)" and a: "a < length (p_leases p)"
      using Some oa v by (simp_all add: valid_ref_def)
    have st: "l_state (p_leases p ! a) = StateBorrowed \<or> l_state (p_leases p ! a) = StateInFlight"
      using True lease_okD(2) [OF inv a refl] by (cases "l_state (p_leases p ! a)") auto
    have q: "q = fst (Release (Some (p_ident p, a)) now p)" "e = snd (Release (Some (p_ident p, a)) now p)"
      using eq r by simp_all
    note ok = Release_success [OF inv v [unfolded r] st, of now, folded q]
    have "l_state (p_leases q ! a) = StateReturned"
      using Release_states(2) [OF v [unfolded r], of now a, folded q] ok(1) by simp
    then have view: "lease_view q a = (StateReturned, [], 0)"
      using ok(4) by (simp add: view_unfold lease_payload_def block_data_def)
    have k: "nat (l_class (p_leases p ! a)) < length (p_classes p)" if "0 \<le> l_class (p_leases p ! a)"
      using lease_okD(1) [OF inv a refl] that unfolding lease_ok_def by linarith
    have "lease_view q a' = lease_view p a'" if "a' \<noteq> a" for a'
      using Release_other [OF v [unfolded r] that, of now, folded q]
      by (simp add: view_unfold lease_payload_def block_data_def cong: option.case_cong)
    then show ?thesis
      using ok view Release_success_store [OF a _ _ k st, of _ now, folded q] True by (simp add: Some oa)
  qed
qed

lemma held_length:
  assumes "\<forall>l \<in> set ls. lease_ok p l"
  shows "length (concat (map lease_blocks ls)) = length (filter (\<lambda>l. l_state l \<noteq> StateReturned) ls)"
  using assms by (induction ls) (auto simp: lease_blocks_def lease_ok_def split: option.splits)

text \<open>
  The statistics are exact: borrowed is the number of leases ever handed out, outstanding the
  number not yet returned, borrowed is returned plus outstanding, and the in-use counter of each
  size class is the number of its outstanding leases (as 64-bit counters).
\<close>

theorem pool_accounting:
  assumes "pool_New ident config = Inr p0" "pool_ops_valid ops p0" "p = run_pool ops p0" "s = pool_stats p"
  shows "ps_Borrowed s = ps_Returned s + ps_Outstanding s \<and>
     ps_Borrowed s = of_nat (length (p_leases p)) \<and>
     ps_Outstanding s = of_nat (length (filter (\<lambda>l. l_state l \<noteq> StateReturned) (p_leases p))) \<and>
     map cs_InUse (ps_Classes s) = map (\<lambda>i. of_nat (length (filter
        (\<lambda>l. l_state l \<noteq> StateReturned \<and> l_class l = int i) (p_leases p)))) [0..<length (ps_Classes s)]"
proof -
  have inv: "pool_inv p" using run_pool_inv [OF pool_New_inv(1) [OF assms(1)] assms(2)] assms(3) by simp
  have flt: "filter (in_class i) (p_leases p) =
      filter (\<lambda>l. l_state l \<noteq> StateReturned \<and> l_class l = int i) (p_leases p)" for i
  proof (rule filter_cong [OF refl])
    fix l assume "l \<in> set (p_leases p)"
    from pool_invD(2) [OF inv this]
    show "in_class i l = (l_state l \<noteq> StateReturned \<and> l_class l = int i)" by (simp add: in_class_def lease_ok_def)
  qed
  have "map cs_InUse (ps_Classes s) = map (\<lambda>i. of_nat (length (filter
        (\<lambda>l. l_state l \<noteq> StateReturned \<and> l_class l = int i) (p_leases p)))) [0..<length (ps_Classes s)]"
    using pool_invD(9) [OF inv] assms(4)
    by (intro nth_equalityI) (simp_all add: pool_stats_def class_stats_def flt)
  then show ?thesis
    using pool_invD(6,7,8) [OF inv] held_length [of "p_leases p" p] pool_invD(2) [OF inv] assms(4)
    by (simp add: pool_stats_def held_blocks_def)
qed

subsection \<open>Concrete runs\<close>

definition demo_config :: pool_Config where
  "demo_config = \<lparr>Classes = [2, 4], MaxBytes = 8, AuditMode = ''FULL'', SampleEvery = 0, LeaseTimeout = 10,
     ScanInterval = 1, HistoryLimit = 3, StackDepth = 1, ProjectRoot = []\<rparr>"

definition demo_pool :: BytePool where
  "demo_pool = \<lparr>p_ident = 7, p_config = demo_config\<lparr>SampleEvery := 100\<rparr>,
     p_classes = map (\<lambda>s. \<lparr>sl_size = s, sl_store = [], sl_borrowed = 0, sl_inUse = 0, sl_hits = 0,
       sl_misses = 0\<rparr>) [2, 4],
     p_nextID = 0, p_closed = False, p_borrowed = 0, p_returned = 0, p_outstanding = 0,
     p_poolHits = 0, p_poolMisses = 0, p_oversized = 0, p_largeAllocations = 0, p_doubleReturns = 0,
     p_invalidReturns = 0, p_stateErrors = 0, p_useAfterPublish = 0, p_overdue = 0,
     p_audit = \<lparr>r_stackDepth = 1, r_historyLimit = 3, r_active = [], r_history = []\<rparr>,
     p_leases = [], p_blocks = []\<rparr>"

lemma demo_pool_New: "pool_New 7 demo_config = Inr demo_pool"
  by (simp add: pool_New_def pool_normalized_def default_classes_and_mode_def default_limits_def
      demo_config_def demo_pool_def AuditMode_valid_def AuditFull_def AuditOff_def AuditSampled_def
      newAuditRegistry_def)

definition demo_env :: "nat option \<Rightarrow> acquire_env" where
  "demo_env g = \<lparr>ae_now = 100, ae_get = g, ae_frames = [], ae_gid = 1\<rparr>"

definition no_context :: AuditContext where
  "no_context = \<lparr>ac_Level = [], ac_Logger = [], ac_CallerSkip = 0\<rparr>"

text \<open>Borrow, write, publish, dispatch and return one lease; its block serves the next one.\<close>

definition demo_ops :: "pool_op list" where
  "demo_ops = [PoolAcquire (demo_env None) 2 no_context, PoolAcquire (demo_env None) 3 no_context,
     PoolAppend (Some 0) [5], PoolRelease (Some (7, 0)) 120, PoolAcquire (demo_env (Some 0)) 1 no_context]"

lemmas pool_eval = run_pool_def acquire_def acquire_block_def classFor_def store_get_def next_lease_id_def
  shouldTrack_def audit_register_def Append_def SetBytes_def set_block_def copy_at_def block_data_def set_lease_def Release_def
  release_block_def audit_finalize_def snapshotRecord_def push_history_def Lease_ClassSize_def Lease_Capacity_def
  valid_ptr_def valid_ref_def Let_def AuditFull_def AuditOff_def AuditSampled_def demo_pool_def
  demo_config_def demo_env_def no_context_def

lemmas demo_run = demo_ops_def pool_eval

definition demo_end :: BytePool where "demo_end = run_pool demo_ops demo_pool"

lemma demo_valid: "pool_ops_valid demo_ops demo_pool"
  by (simp add: demo_run)

lemma replicate_4: "replicate 4 x = [x, x, x, x]"
  by (simp add: numeral_eq_Suc)

lemma demo_end_facts:
  "length (p_leases demo_end) = 3" "l_block (p_leases demo_end ! 2) = Some 0"
  "l_block (p_leases demo_end ! 1) = Some 1" "l_block (p_leases demo_end ! 0) = None"
  "l_state (p_leases demo_end ! 2) = StateBorrowed" "l_state (p_leases demo_end ! 0) = StateReturned"
  "l_length (p_leases demo_end ! 2) = 0" "p_blocks demo_end = [[5, 0], [0, 0, 0, 0]]"
  "p_ident demo_end = 7" "l_state (p_leases demo_end ! 1) = StateBorrowed"
  by (simp_all add: demo_end_def demo_run replicate_4)

lemma demo_inv: "pool_inv demo_end"
  unfolding demo_end_def by (rule run_pool_inv [OF pool_New_inv(1) [OF demo_pool_New] demo_valid])

lemma demo_view: "lease_view demo_end 2 = (StateBorrowed, [], 2)"
  by (simp add: demo_end_facts view_unfold lease_payload_def block_data_def)

lemma pool_blocks_exclusive_witness:
  "l_block (p_leases demo_end ! 2) = Some 0 \<and> 0 \<notin> set (cached_blocks demo_end) \<and>
   l_block (p_leases demo_end ! 1) \<noteq> Some 0"
  using pool_blocks_exclusive [OF demo_pool_New demo_valid demo_end_def, of 2 0] by (simp add: demo_end_facts)

lemma pool_accounting_witness:
  "ps_Borrowed (pool_stats demo_end) = ps_Returned (pool_stats demo_end) + ps_Outstanding (pool_stats demo_end)"
  using pool_accounting [OF demo_pool_New demo_valid demo_end_def refl] by blast

lemma Append_spec_witness:
  "lease_view (fst (Append (Some 2) [9, 8] demo_end)) 2 = (StateBorrowed, [9, 8], 2)"
  using Append_spec [OF demo_inv, of 2 "[9, 8]" "fst (Append (Some 2) [9, 8] demo_end)"
      "snd (Append (Some 2) [9, 8] demo_end)" StateBorrowed "[]" 2]
  by (simp add: demo_end_facts demo_view)

lemma SetBytes_spec_witness:
  "lease_view (fst (SetBytes (Some 2) [9, 8] demo_end)) 2 = (StateBorrowed, [9, 8], 2)"
  using SetBytes_spec [OF demo_inv, of 2 "[9, 8]" "fst (SetBytes (Some 2) [9, 8] demo_end)"
      "snd (SetBytes (Some 2) [9, 8] demo_end)" StateBorrowed "[]" 2]
  by (simp add: demo_end_facts demo_view)

lemma lease_transitions_witness:
  "l_state (p_leases (do_pool_op (PoolMarkQueued (Some 2)) demo_end) ! 2) = StateBorrowed \<or>
   lease_step StateBorrowed (l_state (p_leases (do_pool_op (PoolMarkQueued (Some 2)) demo_end) ! 2))"
  using lease_transitions [of demo_end "PoolMarkQueued (Some 2)" 2] by (simp add: demo_end_facts)

lemma acquire_spec_witness:
  "snd (acquire (demo_env None) 9 no_context demo_end) = Inl ErrTooLarge \<and>
   lease_view (fst (acquire (demo_env None) 3 no_context demo_end)) 3 = (StateBorrowed, [], 4)"
proof -
  have cfg: "p_closed demo_end = False" "p_config demo_end = demo_config\<lparr>SampleEvery := 100\<rparr>"
    by (simp_all add: demo_end_def demo_run)
  have "snd (acquire (demo_env None) 9 no_context demo_end) = Inl ErrTooLarge"
    using acquire_spec [OF demo_inv prod.collapse [symmetric], of "demo_env None" 9 no_context] cfg
    by (simp add: demo_config_def)
  moreover have "lease_view (fst (acquire (demo_env None) 3 no_context demo_end)) 3 = (StateBorrowed, [], 4)"
    using acquire_spec [OF demo_inv prod.collapse [symmetric], of "demo_env None" 3 no_context] cfg
    by (simp add: demo_config_def demo_end_facts)
  ultimately show ?thesis ..
qed

lemma Release_spec_witness:
  "snd (Release (Some (7, 0)) 130 demo_end) = Some ErrDoubleReturn \<and>
   lease_view (fst (Release (Some (7, 2)) 130 demo_end)) 2 = (StateReturned, [], 0)"
  using Release_spec [OF demo_inv _ prod.collapse [symmetric], of "Some (7, 0)" 130]
    Release_spec [OF demo_inv _ prod.collapse [symmetric], of "Some (7, 2)" 130]
  by (simp add: demo_end_facts valid_ref_def)

end
