(* ===== verification/Pool_Audit.thy ===== *)
theory Pool_Audit
  imports Pool_Safety "HOL-Library.Sublist"
begin

text \<open>
  The audit side of the pool (\<^verbatim>\<open>audit.go\<close>): the registry holds exactly the tracked leases that
  are not returned, the overdue counter counts the overdue ones, the history is bounded, cursor
  pagination reaches every retained item once, and a payload changed after publication is detected.
\<close>

subsection \<open>Queries of the pool\<close>

text \<open>
  \<open>strings.TrimSpace\<close> and \<open>strings.ToUpper\<close> on ASCII text, the alphabet of the state names.
\<close>

definition go_space :: "char \<Rightarrow> bool" where
  "go_space c \<longleftrightarrow> c \<in> {CHR 0x09, CHR 0x0A, CHR 0x0B, CHR 0x0C, CHR 0x0D, CHR '' ''}"

definition TrimSpace :: "string \<Rightarrow> string" where
  "TrimSpace s = rev (dropWhile go_space (rev (dropWhile go_space s)))"

definition char_upper :: "char \<Rightarrow> char" where
  "char_upper c = (if 97 \<le> (of_char c :: nat) \<and> (of_char c :: nat) \<le> 122 then char_of (of_char c - 32 :: nat) else c)"

definition ToUpper :: "string \<Rightarrow> string" where
  "ToUpper s = map char_upper s"

definition ParseLeaseState :: "string \<Rightarrow> string" where
  "ParseLeaseState value = ToUpper (TrimSpace value)"

definition SnapshotLeases :: "BytePool \<Rightarrow> string \<Rightarrow> int \<Rightarrow> int \<Rightarrow> LeaseSnapshot list" where
  "SnapshotLeases p state limit now = audit_snapshots p (ParseLeaseState state) 0 limit now"

definition SnapshotLeasesBefore :: "BytePool \<Rightarrow> string \<Rightarrow> u64 \<Rightarrow> int \<Rightarrow> int \<Rightarrow> LeaseSnapshot list" where
  "SnapshotLeasesBefore p state beforeID limit now =
     audit_snapshots p (ParseLeaseState state) beforeID limit now"

definition LeaseByID :: "BytePool \<Rightarrow> u64 \<Rightarrow> int \<Rightarrow> LeaseSnapshot option" where
  "LeaseByID p ident now = audit_byID p ident now"

subsection \<open>The registry invariant\<close>

definition active_core :: "auditRegistry \<Rightarrow> (u64 \<times> nat \<times> bool) list" where
  "active_core r = map (\<lambda>(k, rec0). (k, ar_lease rec0, ar_overdue rec0)) (r_active r)"

definition lease_core :: "Lease \<Rightarrow> u64 \<times> bool \<times> bool" where
  "lease_core l = (l_id l, l_tracked l, l_state l = StateReturned)"

text \<open>
  \<open>ls\<close>: identity, tracking and return of each lease in the order of borrowing; \<open>n\<close>: the last ID;
  \<open>act\<close>: the active records; \<open>hist\<close>: the IDs in the history; \<open>lim\<close>: the history limit; \<open>od\<close>: the
  overdue counter.
\<close>

definition audit_ok :: "(u64 \<times> bool \<times> bool) list \<Rightarrow> u64 \<Rightarrow> (u64 \<times> nat \<times> bool) list \<Rightarrow> u64 list \<Rightarrow> int \<Rightarrow> u64 \<Rightarrow> bool" where
  "audit_ok ls n act hist lim od \<longleftrightarrow>
     (\<forall>i < length ls. fst (ls ! i) = of_nat (i + 1)) \<and> n = of_nat (length ls) \<and>
     distinct (map fst act) \<and>
     (\<forall>k a ov. (k, a, ov) \<in> set act \<longrightarrow> a < length ls \<and> ls ! a = (k, True, False)) \<and>
     (\<forall>a < length ls. snd (ls ! a) = (True, False) \<longrightarrow> fst (ls ! a) \<in> fst ` set act) \<and>
     (\<forall>k \<in> set hist. \<exists>a < length ls. ls ! a = (k, True, True)) \<and> distinct hist \<and>
     int (length hist) \<le> max 0 lim \<and>
     od = of_nat (length (filter (\<lambda>(k, a, ov). ov) act))"

definition audit_inv :: "BytePool \<Rightarrow> bool" where
  "audit_inv p \<longleftrightarrow> audit_ok (map lease_core (p_leases p)) (p_nextID p) (active_core (p_audit p))
     (map sn_ID (r_history (p_audit p))) (r_historyLimit (p_audit p)) (p_overdue p)"

text \<open>Equal views have equal invariants.\<close>

definition same_audit :: "BytePool \<Rightarrow> BytePool \<Rightarrow> bool" where
  "same_audit p q \<longleftrightarrow> map lease_core (p_leases q) = map lease_core (p_leases p) \<and> p_nextID q = p_nextID p \<and>
     active_core (p_audit q) = active_core (p_audit p) \<and> r_history (p_audit q) = r_history (p_audit p) \<and>
     r_historyLimit (p_audit q) = r_historyLimit (p_audit p) \<and> p_overdue q = p_overdue p"

lemma same_audit_inv: "same_audit p q \<Longrightarrow> audit_inv q = audit_inv p"
  by (simp add: same_audit_def audit_inv_def)

lemma same_audit_length: "same_audit p q \<Longrightarrow> length (p_leases q) = length (p_leases p)"
  unfolding same_audit_def by (metis length_map)

lemma same_audit_refl [simp]: "same_audit p p"
  by (simp add: same_audit_def)

lemma same_audit_trans: "same_audit p q \<Longrightarrow> same_audit q r \<Longrightarrow> same_audit p r"
  by (simp add: same_audit_def)

lemma map_AList_update_same:
  "map_of al k = Some r \<Longrightarrow> f k r' = f k r \<Longrightarrow>
     map (\<lambda>(k, r). f k r) (AList.update k r' al) = map (\<lambda>(k, r). f k r) al"
  by (induction al) (auto split: if_splits)

lemma same_audit_set_lease:
  "lease_core l = lease_core (p_leases p ! a) \<Longrightarrow> same_audit p (set_lease a l p)"
  by (simp add: same_audit_def set_lease_def map_update_same)

lemma same_audit_set_block [simp]: "same_audit p (set_block b bs q) = same_audit p q"
  by (simp add: same_audit_def set_block_def)

lemma updateContext_core:
  "active_core (updateContext k c r) = active_core r" "r_history (updateContext k c r) = r_history r"
  "r_historyLimit (updateContext k c r) = r_historyLimit r"
  by (auto simp: updateContext_def active_core_def map_AList_update_same split: option.splits)

lemma markMutated_core:
  "active_core (markMutated k r) = active_core r" "r_history (markMutated k r) = r_history r"
  "r_historyLimit (markMutated k r) = r_historyLimit r"
  by (auto simp: markMutated_def active_core_def map_AList_update_same split: option.splits)

lemma state_error_same: "same_audit p (fst (state_error p))"
  by (simp add: same_audit_def state_error_def)

lemma detectMutation_same: "same_audit p (fst (detectMutation a p))"
  by (simp add: detectMutation_def Let_def same_audit_def set_lease_def map_update_same lease_core_def markMutated_core)

lemma lease_ops_same:
  "same_audit p (fst (Resize r sz p))" "same_audit p (fst (Append r d p))" "same_audit p (fst (SetBytes r d p))"
  "same_audit p (fst (SetAuditContext r c p))" "same_audit p (fst (MarkQueued r p))"
  "same_audit p (fst (RollbackQueued r p))" "same_audit p (pool_Close p)"
  by (cases r; simp add: Resize_def Append_def SetBytes_def SetAuditContext_def MarkQueued_def RollbackQueued_def
      Let_def state_error_def same_audit_def set_lease_def set_block_def map_update_same lease_core_def
      updateContext_core pool_Close_def)+

lemma MarkInFlight_same: "same_audit p (fst (MarkInFlight r p))"
proof (cases r)
  case (Some a)
  have "same_audit p (set_lease a ((p_leases p ! a)\<lparr>l_state := StateInFlight\<rparr>) p)"
    if "l_state (p_leases p ! a) = StateQueued"
    using that by (intro same_audit_set_lease) (simp add: lease_core_def)
  then show ?thesis
    using same_audit_trans [OF _ detectMutation_same] Some state_error_same
    by (auto simp: MarkInFlight_def Let_def split_beta)
qed (simp add: MarkInFlight_def)

subsection \<open>The operations that change the registry\<close>

lemma audit_okD:
  assumes "audit_ok ls n act hist lim od"
  shows "i < length ls \<Longrightarrow> fst (ls ! i) = of_nat (i + 1)" "n = of_nat (length ls)" "distinct (map fst act)"
    "(k, a, ov) \<in> set act \<Longrightarrow> a < length ls \<and> ls ! a = (k, True, False)"
    "a < length ls \<Longrightarrow> snd (ls ! a) = (True, False) \<Longrightarrow> fst (ls ! a) \<in> fst ` set act"
    "k \<in> set hist \<Longrightarrow> \<exists>a < length ls. ls ! a = (k, True, True)" "distinct hist"
    "int (length hist) \<le> max 0 lim" "od = of_nat (length (filter (\<lambda>(k, a, ov). ov) act))"
proof -
  note parts = assms [unfolded audit_ok_def]
  have 1: "\<forall>i < length ls. fst (ls ! i) = of_nat (i + 1)" using parts by (elim conjE)
  show "i < length ls \<Longrightarrow> fst (ls ! i) = of_nat (i + 1)" by (rule 1 [rule_format])
  have 4: "\<forall>k a ov. (k, a, ov) \<in> set act \<longrightarrow> a < length ls \<and> ls ! a = (k, True, False)" using parts by (elim conjE)
  then show "(k, a, ov) \<in> set act \<Longrightarrow> a < length ls \<and> ls ! a = (k, True, False)" by blast
  have 5: "\<forall>a < length ls. snd (ls ! a) = (True, False) \<longrightarrow> fst (ls ! a) \<in> fst ` set act"
    using parts by (elim conjE)
  show "a < length ls \<Longrightarrow> snd (ls ! a) = (True, False) \<Longrightarrow> fst (ls ! a) \<in> fst ` set act"
    by (rule 5 [rule_format])
  have 6: "\<forall>k \<in> set hist. \<exists>a < length ls. ls ! a = (k, True, True)" using parts by (elim conjE)
  show "k \<in> set hist \<Longrightarrow> \<exists>a < length ls. ls ! a = (k, True, True)" by (rule 6 [THEN bspec])
  show "n = of_nat (length ls)" "distinct (map fst act)"
    "distinct hist" "int (length hist) \<le> max 0 lim" "od = of_nat (length (filter (\<lambda>(k, a, ov). ov) act))"
    using parts by simp_all
qed

lemma audit_okI:
  assumes "\<And>i. i < length ls \<Longrightarrow> fst (ls ! i) = of_nat (i + 1)" "n = of_nat (length ls)" "distinct (map fst act)"
    "\<And>k a ov. (k, a, ov) \<in> set act \<Longrightarrow> a < length ls \<and> ls ! a = (k, True, False)"
    "\<And>a. a < length ls \<Longrightarrow> snd (ls ! a) = (True, False) \<Longrightarrow> fst (ls ! a) \<in> fst ` set act"
    "\<And>k. k \<in> set hist \<Longrightarrow> \<exists>a < length ls. ls ! a = (k, True, True)" "distinct hist"
    "int (length hist) \<le> max 0 lim" "od = of_nat (length (filter (\<lambda>(k, a, ov). ov) act))"
  shows "audit_ok ls n act hist lim od"
proof -
  have 1: "\<forall>i < length ls. fst (ls ! i) = of_nat (i + 1)" using assms(1) by (intro allI impI)
  have 4: "\<forall>k a ov. (k, a, ov) \<in> set act \<longrightarrow> a < length ls \<and> ls ! a = (k, True, False)"
    using assms(4) by (intro allI impI)
  have 5: "\<forall>a < length ls. snd (ls ! a) = (True, False) \<longrightarrow> fst (ls ! a) \<in> fst ` set act"
    using assms(5) by (intro allI impI)
  have 6: "\<forall>k \<in> set hist. \<exists>a < length ls. ls ! a = (k, True, True)" using assms(6) by (intro ballI)
  show ?thesis unfolding audit_ok_def by (intro conjI 1 4 5 6 assms(2,3,7,8,9))
qed

lemma word_of_nat_lt_inj:
  assumes "(of_nat i :: u64) = of_nat j" "i < 2 ^ 64" "j < 2 ^ 64"
  shows "i = j"
proof -
  have "unat (of_nat i :: u64) = i" "unat (of_nat j :: u64) = j"
    using assms(2,3) by (simp_all add: unsigned_of_nat take_bit_eq_mod)
  then show ?thesis using assms(1) by metis
qed

text \<open>While fewer than \<open>2 ^ 64\<close> leases were borrowed, IDs identify leases.\<close>

lemma audit_id_inj:
  assumes "audit_ok ls n act hist lim od" "length ls < 2 ^ 64" "i < length ls" "j < length ls"
    "fst (ls ! i) = fst (ls ! j)"
  shows "i = j"
proof -
  have "(of_nat (i + 1) :: u64) = of_nat (j + 1)"
    using audit_okD(1) [OF assms(1)] assms(3-5) by metis
  then show ?thesis using word_of_nat_lt_inj [of "i + 1" "j + 1"] assms(2-4) by simp
qed

lemma audit_ok_borrow:
  assumes ok: "audit_ok ls n act hist lim od" and len: "length ls + 1 < 2 ^ 64"
  shows "n + 1 \<noteq> 0" "audit_ok (ls @ [(n + 1, False, False)]) (n + 1) act hist lim od"
    "audit_ok (ls @ [(n + 1, True, False)]) (n + 1) (act @ [(n + 1, length ls, False)]) hist lim od"
    "n + 1 \<notin> fst ` set act"
proof -
  note d = audit_okD [OF ok]
  have n1: "n + 1 = of_nat (length ls + 1)" using d(2) by simp
  show nz: "n + 1 \<noteq> 0"
    using word_of_nat_lt_inj [of "length ls + 1" 0] len by (auto simp: n1 simp del: of_nat_add of_nat_Suc)
  have fresh: "fst (ls ! i) \<noteq> n + 1" if "i < length ls" for i
    using word_of_nat_lt_inj [of "i + 1" "length ls + 1"] d(1) [OF that] that len n1 by auto
  show notin: "n + 1 \<notin> fst ` set act"
    using d(4) fresh by fastforce
  have act: "a < length ls \<and> (ls @ [x]) ! a = (k, True, False)" if "(k, a, ov) \<in> set act" for k a ov x
    using d(4) [OF that] by (simp add: nth_append)
  have hist: "\<exists>a < length (ls @ [x]). (ls @ [x]) ! a = (k, True, True)" if k: "k \<in> set hist" for k x
    using d(6) [OF k] by (auto simp: nth_append)
  have ids: "fst ((ls @ [(n + 1, t, False)]) ! i) = of_nat (i + 1)" if "i < length ls + 1" for i t
    using d(1,2) that by (cases "i = length ls") (simp_all add: nth_append)
  have tracked: "fst ((ls @ [x]) ! a) \<in> fst ` set act"
    if "a < length ls" "snd ((ls @ [x]) ! a) = (True, False)" for a x
    using d(5) that by (simp add: nth_append)
  have n2: "n + 1 = of_nat (length (ls @ [x]))" for x using n1 by simp
  show "audit_ok (ls @ [(n + 1, False, False)]) (n + 1) act hist lim od"
  proof (rule audit_okI)
    show "fst ((ls @ [(n + 1, False, False)]) ! a) \<in> fst ` set act"
      if "a < length (ls @ [(n + 1, False, False)])" "snd ((ls @ [(n + 1, False, False)]) ! a) = (True, False)" for a
      using that tracked by (cases "a = length ls") (simp_all add: nth_append)
  qed (use d(3,7,8,9) act hist ids n2 in \<open>simp_all add: less_SucI\<close>)
  show "audit_ok (ls @ [(n + 1, True, False)]) (n + 1) (act @ [(n + 1, length ls, False)]) hist lim od"
  proof (rule audit_okI)
    show "fst ((ls @ [(n + 1, True, False)]) ! a) \<in> fst ` set (act @ [(n + 1, length ls, False)])"
      if "a < length (ls @ [(n + 1, True, False)])" "snd ((ls @ [(n + 1, True, False)]) ! a) = (True, False)" for a
      using that tracked [of a "(n + 1, True, False)"] by (cases "a = length ls") (simp_all add: nth_append)
    show "a < length (ls @ [(n + 1, True, False)]) \<and> (ls @ [(n + 1, True, False)]) ! a = (k, True, False)"
      if "(k, a, ov) \<in> set (act @ [(n + 1, length ls, False)])" for k a ov
      using that act by (auto simp: less_SucI)
  qed (use d(3,7,8,9) hist ids n2 notin in simp_all)
qed

lemma AList_update_fresh: "k \<notin> fst ` set al \<Longrightarrow> AList.update k v al = al @ [(k, v)]"
  by (induction al) auto

lemma active_core_keys: "fst ` set (active_core r) = fst ` set (r_active r)"
  by (force simp: active_core_def)

lemma acquire_block_audit:
  assumes "acquire_block env cap p = (q, b, ci)"
  shows "same_audit p q" "p_leases q = p_leases p" "p_audit q = p_audit p" "p_nextID q = p_nextID p"
    "p_overdue q = p_overdue p"
  using assms by (auto simp: acquire_block_def same_audit_def Let_def split: if_splits option.splits)

lemma acquire_audit_inv:
  assumes inv: "audit_inv p" and len: "length (p_leases p) + 1 < 2 ^ 64"
  shows "audit_inv (fst (acquire env cap c p))"
proof (cases "snd (acquire env cap c p)")
  case (Inl e)
  then have "same_audit p (fst (acquire env cap c p))"
    by (auto simp: acquire_def Let_def same_audit_def split: if_splits prod.splits)
  then show ?thesis using same_audit_inv inv by blast
next
  case (Inr a)
  obtain p1 b ci where ab: "acquire_block env cap p = (p1, b, ci)" by (metis prod_cases3)
  note same = acquire_block_audit [OF ab]
  have len': "length (map lease_core (p_leases p)) + 1 < 2 ^ 64" using len by simp
  note bor = audit_ok_borrow [OF inv [unfolded audit_inv_def] len']
  have nid: "next_lease_id (p_nextID p) = p_nextID p + 1" using bor(1) by (simp add: next_lease_id_def)
  have fresh: "p_nextID p + 1 \<notin> fst ` set (r_active (p_audit p))" using bor(4) active_core_keys by blast
  have reg: "active_core (audit_register a k ctx fr g r) = active_core r @ [(k, a, False)]"
      "r_history (audit_register a k ctx fr g r) = r_history r"
      "r_historyLimit (audit_register a k ctx fr g r) = r_historyLimit r"
    if "k \<notin> fst ` set (r_active r)" for a k ctx fr g r
    using that by (simp_all add: audit_register_def Let_def active_core_def AList_update_fresh split: list.splits)
  show ?thesis
    using Inr bor(2,3) reg [OF fresh] nid
    by (auto simp: acquire_def Let_def ab audit_inv_def same lease_core_def split: if_splits)
qed

lemma length_filter_delete:
  "distinct (map fst al) \<Longrightarrow> (k, v) \<in> set al \<Longrightarrow>
     length (filter P al) = length (filter P (filter (\<lambda>x. fst x \<noteq> k) al)) + (if P (k, v) then 1 else 0)"
proof (induction al)
  case (Cons x al)
  show ?case
  proof (cases "fst x = k")
    case True
    then have "k \<notin> fst ` set al" using Cons.prems(1) by auto
    then have "(k, v) \<notin> set al" by force
    then have "x = (k, v)" using Cons.prems(2) by simp
    have "filter (\<lambda>x. fst x \<noteq> k) al = al"
      using \<open>k \<notin> fst ` set al\<close> by (force simp: filter_id_conv)
    then show ?thesis using \<open>x = (k, v)\<close> by simp
  next
    case False
    then show ?thesis using Cons by auto
  qed
qed simp

lemma audit_ok_return:
  assumes ok: "audit_ok ls n act hist lim od" and len: "length ls < 2 ^ 64"
    and a: "a < length ls" "ls ! a = (k, True, False)"
    and hist': "set hist' \<subseteq> insert k (set hist)" "distinct hist'" "int (length hist') \<le> max 0 lim"
  obtains ov where "(k, a, ov) \<in> set act"
    "audit_ok (ls[a := (k, True, True)]) n (filter (\<lambda>x. fst x \<noteq> k) act) hist' lim (od - (if ov then 1 else 0))"
proof -
  note d = audit_okD [OF ok]
  have "k \<in> fst ` set act" using d(5) [OF a(1)] a(2) by simp
  then obtain a2 ov where m: "(k, a2, ov) \<in> set act" by force
  have a2: "a2 < length ls" "ls ! a2 = (k, True, False)" using d(4) [OF m] by simp_all
  have "a2 = a" using audit_id_inj [OF ok len a2(1) a(1)] a2(2) a(2) by simp
  then have mem: "(k, a, ov) \<in> set act" using m by simp
  let ?act = "filter (\<lambda>x. fst x \<noteq> k) act"
  have "audit_ok (ls[a := (k, True, True)]) n ?act hist' lim (od - (if ov then 1 else 0))"
  proof (rule audit_okI)
    show "fst (ls[a := (k, True, True)] ! i) = of_nat (i + 1)" if "i < length (ls[a := (k, True, True)])" for i
      using d(1) [of i] that a(2) by (cases "i = a") simp_all
    show "distinct (map fst ?act)" using d(3) by (simp add: distinct_map_filter)
    show "x < length (ls[a := (k, True, True)]) \<and> ls[a := (k, True, True)] ! x = (k', True, False)"
      if "(k', x, ov') \<in> set ?act" for k' x ov'
      using d(4) [of k' x ov'] that a(2) by (cases "x = a") simp_all
    show "fst (ls[a := (k, True, True)] ! x) \<in> fst ` set ?act"
      if x: "x < length (ls[a := (k, True, True)])" "snd (ls[a := (k, True, True)] ! x) = (True, False)" for x
    proof -
      have "x \<noteq> a" using x a(1) by auto
      then have "fst (ls ! x) \<in> fst ` set act" "fst (ls ! x) \<noteq> k"
        using d(5) [of x] x audit_id_inj [OF ok len, of x a] a by auto
      then show ?thesis using \<open>x \<noteq> a\<close> by force
    qed
    show "\<exists>x < length (ls[a := (k, True, True)]). ls[a := (k, True, True)] ! x = (k', True, True)"
      if k': "k' \<in> set hist'" for k'
    proof (cases "k' = k")
      case True
      then show ?thesis using a(1) by (intro exI [of _ a]) simp
    next
      case False
      then obtain x where "x < length ls" "ls ! x = (k', True, True)" using d(6) [of k'] k' hist'(1) by blast
      then show ?thesis using a(2) by (intro exI [of _ x]) (cases "x = a"; simp)
    qed
    show "od - (if ov then 1 else 0) = of_nat (length (filter (\<lambda>(k, a, ov). ov) ?act))"
      using length_filter_delete [OF d(3) mem, of "\<lambda>(k, a, ov). ov"] d(9) by simp
  qed (use d(2) hist' in simp_all)
  with mem show thesis by (rule that)
qed

lemma audit_ok_return_untracked:
  assumes ok: "audit_ok ls n act hist lim od" and a: "a < length ls" "ls ! a = (k, False, False)"
  shows "audit_ok (ls[a := (k, False, True)]) n act hist lim od"
proof -
  note d = audit_okD [OF ok]
  have keep: "ls[a := (k, False, True)] ! x = y" if "ls ! x = y" "fst (snd y)" for x y
    using that a by (cases "x = a") auto
  show ?thesis
  proof (rule audit_okI)
    show "fst (ls[a := (k, False, True)] ! i) = of_nat (i + 1)" if "i < length (ls[a := (k, False, True)])" for i
      using d(1) [of i] that a(2) by (cases "i = a") simp_all
    show "x < length (ls[a := (k, False, True)]) \<and> ls[a := (k, False, True)] ! x = (k', True, False)"
      if "(k', x, ov') \<in> set act" for k' x ov'
      using d(4) [OF that] keep by simp
    show "fst (ls[a := (k, False, True)] ! x) \<in> fst ` set act"
      if "x < length (ls[a := (k, False, True)])" "snd (ls[a := (k, False, True)] ! x) = (True, False)" for x
      using d(5) [of x] that a(1) by (cases "x = a") simp_all
    show "\<exists>x < length (ls[a := (k, False, True)]). ls[a := (k, False, True)] ! x = (k', True, True)"
      if k': "k' \<in> set hist" for k'
      using d(6) [OF k'] keep by auto
  qed (use d(2,3,7,8,9) in simp_all)
qed

lemma push_history_ids:
  assumes "distinct (map sn_ID h)" "sn_ID s \<notin> set (map sn_ID h)" "int (length h) \<le> max 0 lim"
  shows "set (map sn_ID (push_history lim s h)) \<subseteq> insert (sn_ID s) (set (map sn_ID h))"
    "distinct (map sn_ID (push_history lim s h))" "int (length (push_history lim s h)) \<le> max 0 lim"
proof -
  have "sn_ID ` set (drop m (h @ [s])) \<subseteq> insert (sn_ID s) (sn_ID ` set h)" for m
    using set_drop_subset [of m "h @ [s]"] by auto
  then show "set (map sn_ID (push_history lim s h)) \<subseteq> insert (sn_ID s) (set (map sn_ID h))"
    by (auto simp: push_history_def Let_def simp del: drop_append)
  have "distinct (map sn_ID (h @ [s]))" using assms(1,2) by simp
  then have "distinct (map sn_ID (drop m (h @ [s])))" for m
    unfolding drop_map [symmetric] by (rule distinct_drop)
  then show "distinct (map sn_ID (push_history lim s h))"
    using assms(1) \<open>distinct (map sn_ID (h @ [s]))\<close>
    by (simp add: push_history_def Let_def del: drop_append map_append)
  show "int (length (push_history lim s h)) \<le> max 0 lim"
    using assms(3) by (auto simp: push_history_def Let_def)
qed

lemma release_block_audit:
  assumes "a < length (p_leases p)"
  shows "same_audit p (release_block a p)"
  using assms
  by (simp add: same_audit_def release_block_def Let_def set_lease_def map_update_same lease_core_def)

lemma filter_active_core:
  "active_core (r\<lparr>r_active := AList.delete k (r_active r), r_history := h\<rparr>) =
     filter (\<lambda>x. fst x \<noteq> k) (active_core r)"
proof -
  have "AList.delete k al = filter (\<lambda>x. fst x \<noteq> k) al" for al :: "(u64 \<times> auditRecord) list"
    by (induction al) auto
  then show ?thesis by (simp add: active_core_def filter_map o_def split_beta)
qed

text \<open>The audit part of a successful release, on a lease that is not yet returned.\<close>

lemma finalize_audit_inv:
  assumes inv: "audit_inv p" and len: "length (p_leases p) < 2 ^ 64" and a: "a < length (p_leases p)"
    and st: "l_state (p_leases p ! a) \<noteq> StateReturned"
    and l: "l = (p_leases p ! a)\<lparr>l_state := StateReturned\<rparr>" and p2: "p2 = set_lease a l p"
  shows "audit_inv (if l_tracked l then audit_finalize a now p2 else p2)"
proof -
  let ?k = "l_id (p_leases p ! a)" and ?ls = "map lease_core (p_leases p)"
  note ok = inv [unfolded audit_inv_def]
  note d = audit_okD [OF ok]
  have core: "?ls ! a = (?k, l_tracked l, False)" using a st l by (simp add: lease_core_def)
  have ls2: "map lease_core (p_leases p2) = ?ls[a := (?k, l_tracked l, True)]"
    by (simp add: p2 set_lease_def map_update lease_core_def l)
  have fr: "p_nextID p2 = p_nextID p" "p_audit p2 = p_audit p" "p_overdue p2 = p_overdue p"
      "l_id (p_leases p2 ! a) = ?k"
    using a by (simp_all add: p2 set_lease_def l)
  show ?thesis
  proof (cases "l_tracked l")
    case False
    then show ?thesis
      using audit_ok_return_untracked [OF ok, of a ?k] a core ls2 by (simp add: audit_inv_def fr)
  next
    case True
    define hist' where "hist' s = push_history (r_historyLimit (p_audit p)) s (r_history (p_audit p))" for s
    have notin: "?k \<notin> set (map sn_ID (r_history (p_audit p)))"
    proof
      assume "?k \<in> set (map sn_ID (r_history (p_audit p)))"
      from d(6) [OF this] obtain x where x: "x < length ?ls" "?ls ! x = (?k, True, True)" by blast
      then have "x = a" using audit_id_inj [OF ok, of x a] len a core by simp
      then show False using x core by simp
    qed
    have push: "set (map sn_ID (hist' s)) \<subseteq> insert ?k (set (map sn_ID (r_history (p_audit p))))"
        "distinct (map sn_ID (hist' s))" "int (length (map sn_ID (hist' s))) \<le> max 0 (r_historyLimit (p_audit p))"
      if "sn_ID s = ?k" for s
      using push_history_ids [OF d(7), of s] d(8) notin that by (simp_all add: hist'_def)
    have some: "map_of (r_active (p_audit p2)) ?k \<noteq> None"
    proof -
      have "fst (?ls ! a) \<in> fst ` set (active_core (p_audit p))" using d(5) [of a] a core True by simp
      then show ?thesis by (simp add: core active_core_keys map_of_eq_None_iff fr)
    qed
    then obtain rec0 where rec0: "map_of (r_active (p_audit p2)) ?k = Some rec0" by blast
    define q s where "q = audit_finalize a now p2"
      and "s = (snapshotRecord (if ar_overdue rec0 then p2\<lparr>p_overdue := p_overdue p2 - 1\<rparr> else p2) rec0 now)
                    \<lparr>sn_State := LeaseState_String StateReturned, sn_ReturnedAt := now\<rparr>"
    have q: "map lease_core (p_leases q) = ?ls[a := (?k, True, True)]" "p_nextID q = p_nextID p"
        "active_core (p_audit q) = filter (\<lambda>x. fst x \<noteq> ?k) (active_core (p_audit p))"
        "r_history (p_audit q) = hist' s" "r_historyLimit (p_audit q) = r_historyLimit (p_audit p)"
        "p_overdue q = p_overdue p - (if ar_overdue rec0 then 1 else 0)"
      using rec0 ls2 True filter_active_core
      by (simp_all add: q_def s_def hist'_def audit_finalize_def fr Let_def)
    have mem: "(?k, ar_lease rec0, ar_overdue rec0) \<in> set (active_core (p_audit p))"
      using map_of_SomeD [OF rec0] by (force simp: active_core_def fr)
    then have al: "ar_lease rec0 = a"
      using d(4) [OF mem] audit_id_inj [OF ok, of "ar_lease rec0" a] len a core by simp
    have "sn_ID s = ?k" by (simp add: s_def snapshotRecord_def Let_def al fr)
    note ret = audit_ok_return [OF ok _ _ _ push [OF this], of a]
    obtain ov where ov: "(?k, a, ov) \<in> set (active_core (p_audit p))"
      "audit_ok (?ls[a := (?k, True, True)]) (p_nextID p) (filter (\<lambda>x. fst x \<noteq> ?k) (active_core (p_audit p)))
        (map sn_ID (hist' s)) (r_historyLimit (p_audit p)) (p_overdue p - (if ov then 1 else 0))"
      using ret len a core True by (auto simp del: map_update)
    have "ov = ar_overdue rec0"
      using ov(1) mem al eq_key_imp_eq_value [OF d(3)] by (metis prod.inject)
    then show ?thesis using ov(2) True q by (simp add: audit_inv_def q_def)
  qed
qed

lemma Release_audit_inv:
  assumes inv: "audit_inv p" and len: "length (p_leases p) < 2 ^ 64" and v: "valid_ref p r"
  shows "audit_inv (fst (Release r now p))"
proof (cases "snd (Release r now p)")
  case None
  then obtain a where r: "r = Some (p_ident p, a)"
    and st: "l_state (p_leases p ! a) = StateBorrowed \<or> l_state (p_leases p ! a) = StateInFlight"
    by (cases r) (auto simp: Release_def Let_def split: if_splits LeaseState.splits)
  have a: "a < length (p_leases p)" using v r by (simp add: valid_ref_def)
  let ?p1 = "if l_state (p_leases p ! a) = StateInFlight then fst (detectMutation a p) else p"
  let ?l = "(p_leases ?p1 ! a)\<lparr>l_state := StateReturned\<rparr>"
  have inv1: "audit_inv ?p1" using inv same_audit_inv [OF detectMutation_same] by simp
  have a1: "a < length (p_leases ?p1)" "length (p_leases ?p1) < 2 ^ 64"
    using a len by (simp_all add: detectMutation_frame)
  have st1: "l_state (p_leases ?p1 ! a) \<noteq> StateReturned" using st by (auto simp: detectMutation_frame)
  have fin: "audit_inv (if l_tracked ?l then audit_finalize a now (set_lease a ?l ?p1) else set_lease a ?l ?p1)"
    by (rule finalize_audit_inv [OF inv1 a1(2,1) st1 refl refl])
  have "a < length (p_leases (if l_tracked ?l then audit_finalize a now (set_lease a ?l ?p1) else set_lease a ?l ?p1))"
    using a1 by (simp add: set_lease_def)
  from same_audit_inv [OF release_block_audit [OF this]] fin
  show ?thesis
    using st a by (auto simp: r Release_def Let_def set_lease_def detectMutation_frame)
next
  case (Some e)
  have "same_audit p (fst (Release r now p))"
    using Some detectMutation_same [of p]
    by (cases r) (auto simp: Release_def Let_def same_audit_def split: if_splits LeaseState.splits)
  then show ?thesis using inv same_audit_inv by blast
qed

lemma length_filter_or:
  "length (filter (\<lambda>x. P x \<or> Q x) xs) = length (filter P xs) + length (filter (\<lambda>x. \<not> P x \<and> Q x) xs)"
  by (induction xs) auto

lemma scanOverdue_audit_inv:
  assumes inv: "audit_inv p"
  shows "audit_inv (fst (scanOverdue now p))"
proof -
  let ?late = "\<lambda>r. now > l_deadline (p_leases p ! ar_lease r)"
  let ?q = "fst (scanOverdue now p)"
  define mark where "mark = (\<lambda>(k :: u64, a, ov). (k, a :: nat, ov \<or> now > l_deadline (p_leases p ! a)))"
  have act: "active_core (p_audit ?q) = map mark (active_core (p_audit p))"
    by (auto simp: scanOverdue_def Let_def active_core_def mark_def newly_overdue_def)
  have rest: "map lease_core (p_leases ?q) = map lease_core (p_leases p)" "p_nextID ?q = p_nextID p"
      "r_history (p_audit ?q) = r_history (p_audit p)" "r_historyLimit (p_audit ?q) = r_historyLimit (p_audit p)"
    by (simp_all add: scanOverdue_def Let_def)
  have od: "p_overdue ?q = p_overdue p + of_nat (length (filter (\<lambda>(_, r). newly_overdue p now r) (r_active (p_audit p))))"
    by (simp add: scanOverdue_def Let_def)
  have "length (filter (\<lambda>(k, a, ov). ov) (map mark (active_core (p_audit p)))) =
      length (filter (\<lambda>(k, r). ar_overdue r \<or> ?late r) (r_active (p_audit p)))"
    by (simp add: active_core_def mark_def filter_map o_def case_prod_unfold)
  also have "\<dots> = length (filter (\<lambda>(k, a, ov). ov) (active_core (p_audit p))) +
      length (filter (\<lambda>(_, r). newly_overdue p now r) (r_active (p_audit p)))"
    using length_filter_or [of "\<lambda>x. ar_overdue (snd x)" "\<lambda>x. ?late (snd x)" "r_active (p_audit p)"]
    by (simp add: active_core_def filter_map o_def case_prod_unfold newly_overdue_def)
  finally have count: "length (filter (\<lambda>(k, a, ov). ov) (map mark (active_core (p_audit p)))) = \<dots>" .
  have keys: "map fst (map mark act) = map fst act" for act by (simp add: mark_def split_beta)
  note d = audit_okD [OF inv [unfolded audit_inv_def]]
  show ?thesis
    unfolding audit_inv_def act rest
  proof (rule audit_okI)
    show "a < length (map lease_core (p_leases p)) \<and> map lease_core (p_leases p) ! a = (k, True, False)"
      if "(k, a, ov) \<in> set (map mark (active_core (p_audit p)))" for k a ov
      using that d(4) by (auto simp: mark_def simp del: length_map)
    show "p_overdue ?q = of_nat (length (filter (\<lambda>(k, a, ov). ov) (map mark (active_core (p_audit p)))))"
      unfolding count od using d(9) by simp
    show "fst (map lease_core (p_leases p) ! a) \<in> fst ` set (map mark (active_core (p_audit p)))"
      if "a < length (map lease_core (p_leases p))" "snd (map lease_core (p_leases p) ! a) = (True, False)" for a
      using d(5) [OF that] by (metis keys set_map)
    show "distinct (map fst (map mark (active_core (p_audit p))))" unfolding keys by (rule d(3))
  qed (use d(1,2,6,7,8) in simp_all)
qed

lemma do_pool_op_audit_inv:
  assumes "audit_inv p" "pool_op_valid p x" "length (p_leases p) + 1 < 2 ^ 64"
  shows "audit_inv (do_pool_op x p)"
proof (cases x)
  case (PoolPoke b i v)
  then show ?thesis using assms(1) same_audit_inv [of p "poke b i v p"] by (simp add: poke_def)
qed (use assms in \<open>simp_all add: acquire_audit_inv Release_audit_inv scanOverdue_audit_inv ScanOverdue_def
    same_audit_inv [OF lease_ops_same(1)] same_audit_inv [OF lease_ops_same(2)] same_audit_inv [OF lease_ops_same(3)]
    same_audit_inv [OF lease_ops_same(4)] same_audit_inv [OF lease_ops_same(5)] same_audit_inv [OF lease_ops_same(6)]
    same_audit_inv [OF lease_ops_same(7)] same_audit_inv [OF MarkInFlight_same]\<close>)

lemma do_pool_op_mono:
  assumes "pool_op_valid p x"
  shows "length (p_leases p) \<le> length (p_leases (do_pool_op x p))"
proof (cases x)
  case (PoolAcquire env cap c)
  then show ?thesis using acquire_leases [of env cap c p] by auto
next
  case (PoolRelease r now)
  then show ?thesis using Release_states(1) [of p r now] assms by simp
next
  case (PoolPoke b i v)
  then show ?thesis by (simp add: poke_def)
next
  case (PoolScan now)
  then show ?thesis by (simp add: ScanOverdue_def)
qed (simp_all add: same_audit_length [OF lease_ops_same(1)] same_audit_length [OF lease_ops_same(2)]
    same_audit_length [OF lease_ops_same(3)] same_audit_length [OF lease_ops_same(4)]
    same_audit_length [OF lease_ops_same(5)] same_audit_length [OF lease_ops_same(6)]
    same_audit_length [OF lease_ops_same(7)] same_audit_length [OF MarkInFlight_same])

lemma run_pool_mono: "pool_ops_valid ops p \<Longrightarrow> length (p_leases p) \<le> length (p_leases (run_pool ops p))"
proof (induction ops arbitrary: p)
  case (Cons x xs)
  then show ?case using order_trans [OF do_pool_op_mono [of p x] Cons.IH [of "do_pool_op x p"]] by simp
qed simp

lemma run_pool_audit_inv:
  "audit_inv p \<Longrightarrow> pool_ops_valid ops p \<Longrightarrow> length (p_leases (run_pool ops p)) + 1 < 2 ^ 64 \<Longrightarrow>
     audit_inv (run_pool ops p)"
proof (induction ops arbitrary: p)
  case (Cons x xs)
  then have v: "pool_op_valid p x" "pool_ops_valid xs (do_pool_op x p)" by simp_all
  have "length (p_leases p) + 1 < 2 ^ 64"
    using run_pool_mono [OF v(2)] do_pool_op_mono [OF v(1)] Cons.prems(3) by simp
  from do_pool_op_audit_inv [OF Cons.prems(1) v(1) this] show ?case
    using Cons.IH [OF _ v(2)] Cons.prems(3) by simp
qed simp

lemma pool_New_audit_inv: "pool_New i c = Inr p \<Longrightarrow> audit_inv p"
  by (auto simp: pool_New_def audit_inv_def audit_ok_def active_core_def newAuditRegistry_def split: sum.splits)


subsection \<open>Pagination\<close>

text \<open>A client that follows the cursor: the last ID of a page is the bound of the next one.\<close>

fun walk_pages :: "nat \<Rightarrow> BytePool \<Rightarrow> string \<Rightarrow> u64 \<Rightarrow> int \<Rightarrow> int \<Rightarrow> LeaseSnapshot list" where
  "walk_pages 0 p state before limit now = []"
| "walk_pages (Suc n) p state before limit now =
     (let page = SnapshotLeasesBefore p state before limit now
      in if page = [] then [] else page @ walk_pages n p state (sn_ID (last page)) limit now)"

lemma collect_page_eq:
  "length res < limit \<Longrightarrow> collect_page before limit res items =
     res @ take (limit - length res) (filter (\<lambda>s. before = 0 \<or> sn_ID s < before) items)"
proof (induction items arbitrary: res)
  case (Cons s items)
  show ?case
  proof (cases "before = 0 \<or> sn_ID s < before")
    case True
    then have "\<not> (before \<noteq> 0 \<and> before \<le> sn_ID s)" by auto
    moreover have "limit - length res = Suc (limit - Suc (length res))" using Cons.prems by simp
    ultimately show ?thesis using True Cons.IH [of "res @ [s]"] Cons.prems by (auto simp: Let_def)
  next
    case False
    then show ?thesis using Cons by (auto simp: not_less)
  qed
qed simp

lemma clamp_limit_pos: "0 < clamp_limit limit" "clamp_limit limit \<le> 200"
  by (auto simp: clamp_limit_def)

lemma audit_snapshots_eq:
  "audit_snapshots p flt before limit now = take (clamp_limit limit)
     (filter (\<lambda>s. before = 0 \<or> sn_ID s < before) (sort_by_id_desc (snapshot_items p flt now)))"
  using clamp_limit_pos(1) [of limit] by (simp add: audit_snapshots_def collect_page_eq)

definition ids_descend :: "LeaseSnapshot list \<Rightarrow> bool" where
  "ids_descend xs \<longleftrightarrow> sorted_wrt (\<lambda>s t. sn_ID s > sn_ID t) xs"

lemma filter_below_last:
  assumes "ids_descend (ys @ zs)" "ys \<noteq> []"
  shows "filter (\<lambda>s. sn_ID s < sn_ID (last ys)) (ys @ zs) = zs"
proof -
  have "sn_ID (last ys) \<le> sn_ID s" if "s \<in> set ys" for s
  proof -
    have "ids_descend (butlast ys @ [last ys])" using assms by (simp add: ids_descend_def sorted_wrt_append)
    moreover have "s \<in> set (butlast ys) \<or> s = last ys"
      using that assms(2) by (metis append_butlast_last_id in_set_conv_decomp_first set_ConsD rotate1.simps(2) set_rotate1)
    ultimately show ?thesis by (auto simp: ids_descend_def sorted_wrt_append)
  qed
  then have "filter (\<lambda>s. sn_ID s < sn_ID (last ys)) ys = []"
    unfolding filter_empty_conv by (metis linorder_not_less)
  moreover have "filter (\<lambda>s. sn_ID s < sn_ID (last ys)) zs = zs"
    using assms by (auto simp: ids_descend_def sorted_wrt_append filter_id_conv)
  ultimately show ?thesis by simp
qed

lemma walk_pages_rest:
  assumes xs: "xs = sort_by_id_desc (snapshot_items p (ParseLeaseState state) now)" "ids_descend xs"
    "\<forall>s \<in> set xs. sn_ID s \<noteq> 0"
  shows "filter (\<lambda>s. before = 0 \<or> sn_ID s < before) xs = rest \<Longrightarrow> suffix rest xs \<Longrightarrow> length rest < n \<Longrightarrow>
    walk_pages n p state before limit now = rest"
proof (induction n arbitrary: before rest)
  case (Suc n)
  let ?m = "clamp_limit limit"
  have page: "SnapshotLeasesBefore p state before limit now = take ?m rest"
    using Suc.prems(1) xs(1) by (simp add: SnapshotLeasesBefore_def audit_snapshots_eq)
  show ?case
  proof (cases "rest = []")
    case True
    then show ?thesis by (simp add: page)
  next
    case False
    let ?page = "take ?m rest"
    have ne: "?page \<noteq> []" using False clamp_limit_pos(1) by simp
    obtain ys where ys: "xs = ys @ rest" using Suc.prems(2) by (auto simp: suffix_def)
    have "last (ys @ ?page) = last ?page" using ne by simp
    then have flt: "filter (\<lambda>s. sn_ID s < sn_ID (last ?page)) xs = drop ?m rest"
      using filter_below_last [of "ys @ ?page" "drop ?m rest"] xs(2) ys ne by simp
    have "last ?page \<in> set rest" using last_in_set [OF ne] in_set_takeD by fast
    then have "last ?page \<in> set xs" by (simp add: ys)
    then have nz: "sn_ID (last ?page) \<noteq> 0" using xs(3) by blast
    have "length (drop ?m rest) < n" using Suc.prems(3) False clamp_limit_pos(1) [of limit] by (cases rest) auto
    moreover have "suffix (drop ?m rest) xs" using ys by (metis append.assoc append_take_drop_id suffix_def)
    ultimately have "walk_pages n p state (sn_ID (last ?page)) limit now = drop ?m rest"
      using Suc.IH [of "sn_ID (last ?page)" "drop ?m rest"] flt nz by simp
    then show ?thesis using ne by (simp add: page)
  qed
qed simp

lemma snapshot_ids:
  assumes "audit_inv p" "length (p_leases p) + 1 < 2 ^ 64"
  shows "distinct (map sn_ID (snapshot_items p flt now))" "\<forall>s \<in> set (snapshot_items p flt now). sn_ID s \<noteq> 0"
proof -
  note ok = assms(1) [unfolded audit_inv_def]
  note d = audit_okD [OF ok]
  let ?all = "map (\<lambda>(_, rec0). snapshotRecord p rec0 now) (r_active (p_audit p)) @ r_history (p_audit p)"
  have lease: "a < length (p_leases p) \<and> lease_core (p_leases p ! a) = (k, True, False) \<and> sn_ID (snapshotRecord p rec0 now) = k"
    if "(k, rec0) \<in> set (r_active (p_audit p))" "a = ar_lease rec0" for k rec0 a
  proof -
    have m: "(k, a, ar_overdue rec0) \<in> set (active_core (p_audit p))"
      using that by (force simp: active_core_def)
    show ?thesis using d(4) [OF m] that(2) by (auto simp: snapshotRecord_def Let_def lease_core_def)
  qed
  have ids: "map sn_ID (map (\<lambda>(_, rec0). snapshotRecord p rec0 now) (r_active (p_audit p))) =
      map fst (active_core (p_audit p))"
    using lease by (auto simp: active_core_def)
  have lt: "length (map lease_core (p_leases p)) < 2 ^ 64" using assms(2) by simp
  have disj: "k \<notin> set (map sn_ID (r_history (p_audit p)))" if kin: "k \<in> set (map fst (active_core (p_audit p)))" for k
  proof
    assume "k \<in> set (map sn_ID (r_history (p_audit p)))"
    from d(6) [OF this] obtain x where x: "x < length (p_leases p)" "lease_core (p_leases p ! x) = (k, True, True)" by auto
    obtain a ov where m: "(k, a, ov) \<in> set (active_core (p_audit p))"
      using kin by force
    show False using d(4) [OF m] x audit_id_inj [OF ok lt, of x a] by auto
  qed
  have all: "distinct (map sn_ID ?all)"
    unfolding map_append ids using d(3,7) disj by auto
  then show "distinct (map sn_ID (snapshot_items p flt now))"
    by (simp add: snapshot_items_def distinct_map_filter del: map_append filter_append)
  have pos: "k \<noteq> 0" if "i < length (p_leases p)" "fst (lease_core (p_leases p ! i)) = k" for i k
  proof -
    have "k = of_nat (i + 1)" using d(1) [of i] that by simp
    moreover have "(of_nat (i + 1) :: u64) \<noteq> of_nat 0"
      using word_of_nat_lt_inj [of "i + 1" 0] that(1) assms(2) by fastforce
    ultimately show ?thesis by simp
  qed
  have "sn_ID s \<noteq> 0" if sin: "s \<in> set ?all" for s
  proof (cases "s \<in> set (r_history (p_audit p))")
    case True
    then show ?thesis using d(6) [of "sn_ID s"] pos by fastforce
  next
    case False
    then obtain k rec0 where "(k, rec0) \<in> set (r_active (p_audit p))" "s = snapshotRecord p rec0 now"
      using sin by auto
    then show ?thesis using lease [of k rec0] pos by fastforce
  qed
  then show "\<forall>s \<in> set (snapshot_items p flt now). sn_ID s \<noteq> 0"
    unfolding snapshot_items_def set_filter by blast
qed

lemma sort_desc:
  assumes "distinct (map sn_ID items)"
  shows "ids_descend (sort_by_id_desc items)" "mset (sort_by_id_desc items) = mset items"
proof -
  show "mset (sort_by_id_desc items) = mset items" by (simp add: sort_by_id_desc_def)
  have "distinct (map sn_ID (sort_key sn_ID items))"
    using assms by (metis distinct_map mset_eq_imp_distinct_iff mset_map mset_sort)
  then have "sorted_wrt (<) (map sn_ID (sort_key sn_ID items))"
    using strict_sorted_iff sorted_sort_key by blast
  then show "ids_descend (sort_by_id_desc items)"
    by (simp add: ids_descend_def sort_by_id_desc_def sorted_wrt_rev sorted_wrt_map)
qed

text \<open>
  Cursor pagination is complete: in a state reached by pool operations, a client that follows
  the cursor sees every active and retained lease with the requested state exactly once, in
  descending ID order, whatever the page limit, and no page has more than 200 entries.
\<close>

theorem pagination_complete:
  assumes "pool_New ident config = Inr p0" "pool_ops_valid ops p0" "p = run_pool ops p0"
    and "length (p_leases p) + 1 < 2 ^ 64"
    and "items = snapshot_items p (ParseLeaseState state) now" "length items < n"
  shows "mset (walk_pages n p state 0 limit now) = mset items \<and>
     sorted_wrt (\<lambda>s t. sn_ID s > sn_ID t) (walk_pages n p state 0 limit now) \<and>
     length (SnapshotLeasesBefore p state before limit now) \<le> 200"
proof -
  have inv: "audit_inv p"
    using run_pool_audit_inv [OF pool_New_audit_inv [OF assms(1)] assms(2)] assms(3,4) by simp
  note ids = snapshot_ids [OF inv assms(4), of "ParseLeaseState state" now, folded assms(5)]
  note sd = sort_desc [OF ids(1)]
  have "walk_pages n p state 0 limit now = sort_by_id_desc items"
  proof (rule walk_pages_rest [OF _ sd(1)])
    show "\<forall>s \<in> set (sort_by_id_desc items). sn_ID s \<noteq> 0"
      using ids(2) sd(2) by (metis set_mset_mset)
    show "length (sort_by_id_desc items) < n" using assms(6) sd(2) by (metis size_mset)
  qed (simp_all add: assms(5))
  moreover have "length (SnapshotLeasesBefore p state before limit now) \<le> 200"
    using clamp_limit_pos(2) [of limit] by (simp add: SnapshotLeasesBefore_def audit_snapshots_eq)
  ultimately show ?thesis using sd by (simp add: ids_descend_def)
qed

subsection \<open>Use after publication\<close>


subsection \<open>Concrete runs\<close>


lemma pagination_complete_witness:
  "mset (walk_pages 4 demo_end [] 0 1 130) = mset (snapshot_items demo_end [] 130) \<and>
   length (snapshot_items demo_end [] 130) = 3"
proof -
  have state: "ParseLeaseState [] = []" by (simp add: ParseLeaseState_def ToUpper_def TrimSpace_def)
  have len: "length (snapshot_items demo_end [] 130) = 3"
    by (simp add: snapshot_items_def demo_end_def demo_run)
  then show ?thesis
    using pagination_complete [OF demo_pool_New demo_valid demo_end_def _ refl, of "[]" 130 4 1 0]
    by (simp add: demo_end_facts state)
qed

definition tamper_start :: BytePool where
  "tamper_start = fst (Append (Some 2) [9] demo_end)"

lemma tamper_start_facts:
  "length (p_leases tamper_start) = 3" "l_state (p_leases tamper_start ! 2) = StateBorrowed"
  "l_tracked (p_leases tamper_start ! 2)" "\<not> l_mutated (p_leases tamper_start ! 2)"
  "l_block (p_leases tamper_start ! 2) = Some 0" "p_blocks tamper_start = [[9, 0], [0, 0, 0, 0]]"
  "p_ident tamper_start = 7" "l_length (p_leases tamper_start ! 2) = 1" "p_useAfterPublish tamper_start = 0"
  by (simp_all add: tamper_start_def demo_end_def demo_run replicate_4)

lemma tamper_start_inv: "pool_inv tamper_start"
  unfolding tamper_start_def using Append_inv [OF demo_inv, of "Some 2" "[9]"] by (simp add: demo_end_facts)


end
