(* ===== verification/Sink.thy ===== *)
theory Sink
  imports Prelude
begin

text \<open>
  The batch sinks of \<^verbatim>\<open>internal/sink\<close>: the batch cursor and the sequential writer of
  \<^verbatim>\<open>write.go\<close>, the counters of \<^verbatim>\<open>types.go\<close>, the writer sink of \<^verbatim>\<open>writer.go\<close> and the network
  adapter of \<^verbatim>\<open>network.go\<close>, with the contract of \<^verbatim>\<open>BatchSink\<close> as a locale. What the operating
  system answers is a script: one entry per loop iteration. A call whose script ends before it
  returns is \<open>None\<close>. Records are values: published payloads do not change (\<^verbatim>\<open>Pool_Audit\<close>).
\<close>

subsection \<open>Errors and counters\<close>

text \<open>\<open>IOError\<close> and \<open>CtxError\<close> stand for the errors of the system and of the context.\<close>

datatype sink_error =
    ErrBatchChanged | ErrShortWrite | ErrNoProgress | ErrSinkClosed | EINTR | ErrFileClosed
  | IOError nat | CtxError nat | ErrTransportNil | ErrPathRequired | ErrNegativeMaxBytes
  | ErrUnknownSyncPolicy string

record counters =
  c_batches :: u64
  c_records :: u64
  c_bytes :: u64
  c_errors :: u64
  c_shortWrites :: u64
  c_flushes :: u64
  c_rotations :: u64
  c_lastWriteNanos :: u64
  c_closed :: bool

record sink_Stats =
  ss_Batches :: u64
  ss_Records :: u64
  ss_Bytes :: u64
  ss_Errors :: u64
  ss_ShortWrites :: u64
  ss_Flushes :: u64
  ss_Rotations :: u64
  ss_LastWriteNanos :: u64
  ss_Closed :: bool

definition counters_snapshot :: "counters \<Rightarrow> sink_Stats" where
  "counters_snapshot c = \<lparr>ss_Batches = c_batches c, ss_Records = c_records c, ss_Bytes = c_bytes c,
     ss_Errors = c_errors c, ss_ShortWrites = c_shortWrites c, ss_Flushes = c_flushes c,
     ss_Rotations = c_rotations c, ss_LastWriteNanos = c_lastWriteNanos c, ss_Closed = c_closed c\<rparr>"

definition zero_counters :: counters where
  "zero_counters = \<lparr>c_batches = 0, c_records = 0, c_bytes = 0, c_errors = 0, c_shortWrites = 0,
     c_flushes = 0, c_rotations = 0, c_lastWriteNanos = 0, c_closed = False\<rparr>"

definition count_error :: "counters \<Rightarrow> counters" where
  "count_error c = c\<lparr>c_errors := c_errors c + 1\<rparr>"

record Capabilities =
  cap_BatchMode :: string
  cap_CopyAvoiding :: bool
  cap_DurableFlush :: bool
  cap_Acknowledged :: bool

subsection \<open>The batch cursor\<close>

record batchCursor =
  bc_records :: "bytes list"
  bc_record :: nat
  bc_offset :: nat
  bc_active :: bool

definition idle_cursor :: batchCursor where
  "idle_cursor = \<lparr>bc_records = [], bc_record = 0, bc_offset = 0, bc_active = False\<rparr>"

text \<open>The loop that steps over finished records.\<close>

function cursor_skip :: "batchCursor \<Rightarrow> batchCursor" where
  "cursor_skip c =
     (if bc_record c < length (bc_records c) \<and> bc_offset c = length (bc_records c ! bc_record c)
      then cursor_skip (c\<lparr>bc_record := bc_record c + 1, bc_offset := 0\<rparr>) else c)"
  by pat_completeness auto
termination by (relation "measure (\<lambda>c. length (bc_records c) - bc_record c)") auto

text \<open>The loop that consumes \<open>written\<close> bytes; the count that is left over is returned.\<close>

function advance_loop :: "int \<Rightarrow> batchCursor \<Rightarrow> batchCursor \<times> int" where
  "advance_loop written c =
     (if written > 0 \<and> bc_record c < length (bc_records c)
      then let available = int (length (bc_records c ! bc_record c)) - int (bc_offset c)
           in if written < available then (c\<lparr>bc_offset := bc_offset c + nat written\<rparr>, 0)
              else advance_loop (written - available) (c\<lparr>bc_record := bc_record c + 1, bc_offset := 0\<rparr>)
      else (c, written))"
  by pat_completeness auto
termination by (relation "measure (\<lambda>(w, c). length (bc_records c) - bc_record c)") auto

text \<open>
  The early return inside the loop leaves the cursor inside a record, where the last loop of
  \<open>advance\<close> does nothing; so it is the same as falling through with nothing left over.
\<close>

definition cursor_advance :: "int \<Rightarrow> batchCursor \<Rightarrow> batchCursor \<times> sink_error option" where
  "cursor_advance written c =
     (if written < 0 then (c, Some ErrShortWrite)
      else let (c1, left) = advance_loop written (cursor_skip c)
           in (cursor_skip c1, if left \<noteq> 0 then Some ErrShortWrite else None))"

definition cursor_begin :: "bytes list \<Rightarrow> batchCursor \<Rightarrow> batchCursor \<times> sink_error option" where
  "cursor_begin records c =
     (if \<not> bc_active c then cursor_advance 0 (c\<lparr>bc_records := records, bc_active := True\<rparr>)
      else if length (bc_records c) \<noteq> length records then (c, Some ErrBatchChanged)
      else if \<exists>i < length records. bc_records c ! i \<noteq> records ! i then (c, Some ErrBatchChanged)
      else cursor_advance 0 c)"

definition cursor_remaining :: "batchCursor \<Rightarrow> bytes list" where
  "cursor_remaining c =
     (if bc_record c \<ge> length (bc_records c) then []
      else let r = drop (bc_record c) (bc_records c)
           in if bc_offset c > 0 then r[0 := drop (bc_offset c) (r ! 0)] else r)"

definition cursor_done :: "batchCursor \<Rightarrow> bool" where
  "cursor_done c \<longleftrightarrow> bc_record c = length (bc_records c)"

definition cursor_reset :: "batchCursor \<Rightarrow> batchCursor" where
  "cursor_reset c = c\<lparr>bc_records := [], bc_record := 0, bc_offset := 0, bc_active := False\<rparr>"

subsection \<open>The sequential writer\<close>

text \<open>
  One iteration: the error of the context, the count that \<open>Write\<close> returns and its error. The
  bytes a writer reports as written are those it has put on its output.
\<close>

record io_step =
  io_ctx :: "sink_error option"
  io_count :: int
  io_err :: "sink_error option"

record write_acc =
  wa_out :: bytes
  wa_written :: int
  wa_shorts :: u64

fun writeSequential :: "io_step list \<Rightarrow> bytes list \<Rightarrow> write_acc \<Rightarrow> (write_acc \<times> sink_error option) option" where
  "writeSequential script [] acc = Some (acc, None)"
| "writeSequential script ([] # rs) acc = writeSequential script rs acc"
| "writeSequential [] ((b # bs) # rs) acc = None"
| "writeSequential (x # script) ((b # bs) # rs) acc =
     (let rec0 = b # bs; count = io_count x; k = nat count
      in case io_ctx x of
           Some e \<Rightarrow> Some (acc, Some e)
         | None \<Rightarrow>
             if count < 0 \<or> count > int (length rec0) then Some (acc, Some ErrShortWrite)
             else let acc1 = (if count > 0 then
                         acc\<lparr>wa_out := wa_out acc @ take k rec0, wa_written := wa_written acc + count,
                             wa_shorts := (if drop k rec0 \<noteq> [] then wa_shorts acc + 1 else wa_shorts acc)\<rparr>
                         else acc)
                  in case io_err x of
                       Some e \<Rightarrow> if e = EINTR then writeSequential script (drop k rec0 # rs) acc1
                                 else Some (acc1, Some e)
                     | None \<Rightarrow> if count = 0 then Some (acc1, Some ErrNoProgress)
                               else writeSequential script (drop k rec0 # rs) acc1)"

subsection \<open>The writer sink\<close>

record WriterSink =
  ws_closeUnderlying :: bool
  ws_pending :: batchCursor
  ws_counters :: counters
  ws_closed_once :: bool
  ws_closeErr :: "sink_error option"
  ws_out :: bytes

definition NewWriter :: WriterSink where
  "NewWriter = \<lparr>ws_closeUnderlying = False, ws_pending = idle_cursor, ws_counters = zero_counters,
     ws_closed_once = False, ws_closeErr = None, ws_out = []\<rparr>"

definition NewOwnedWriter :: WriterSink where
  "NewOwnedWriter = NewWriter\<lparr>ws_closeUnderlying := True\<rparr>"

definition ws_fail :: "sink_error \<Rightarrow> WriterSink \<Rightarrow> WriterSink \<times> sink_error option" where
  "ws_fail e s = (s\<lparr>ws_counters := count_error (ws_counters s)\<rparr>, Some e)"

text \<open>What one call of \<open>WriteBatch\<close> meets: the script of its writes and the elapsed time.\<close>

record write_env =
  we_script :: "io_step list"
  we_nanos :: u64

definition ws_WriteBatch :: "write_env \<Rightarrow> bytes list \<Rightarrow> WriterSink \<Rightarrow> (WriterSink \<times> sink_error option) option" where
  "ws_WriteBatch env records s =
     (if c_closed (ws_counters s) then Some (s, Some ErrSinkClosed)
      else case cursor_begin records (ws_pending s) of
        (p1, Some e) \<Rightarrow> Some (ws_fail e (s\<lparr>ws_pending := p1\<rparr>))
      | (p1, None) \<Rightarrow>
          (case writeSequential (we_script env) (cursor_remaining p1)
              \<lparr>wa_out = ws_out s, wa_written = 0, wa_shorts = 0\<rparr> of
             None \<Rightarrow> None
           | Some (acc, err) \<Rightarrow>
               let c = ws_counters s;
                   c1 = c\<lparr>c_bytes := c_bytes c + of_int (wa_written acc),
                          c_shortWrites := c_shortWrites c + wa_shorts acc, c_lastWriteNanos := we_nanos env\<rparr>;
                   (p2, advanceErr) = cursor_advance (wa_written acc) p1;
                   s1 = s\<lparr>ws_pending := p2, ws_counters := c1, ws_out := wa_out acc\<rparr>
               in (case advanceErr of
                     Some e \<Rightarrow> Some (ws_fail e s1)
                   | None \<Rightarrow>
                       (case err of
                          Some e \<Rightarrow> Some (ws_fail e s1)
                        | None \<Rightarrow>
                            if \<not> cursor_done p2 then Some (ws_fail ErrShortWrite s1)
                            else Some (s1\<lparr>ws_counters := c1\<lparr>c_batches := c_batches c1 + 1,
                                     c_records := c_records c1 + of_nat (length records)\<rparr>,
                                   ws_pending := cursor_reset p2\<rparr>, None)))))"

text \<open>\<open>flushable\<close>: the writer has a \<open>Flush\<close> method, with the error it returns.\<close>

definition ws_Flush :: "sink_error option \<Rightarrow> sink_error option option \<Rightarrow> WriterSink \<Rightarrow> WriterSink \<times> sink_error option" where
  "ws_Flush ctxErr flushable s =
     (case ctxErr of Some e \<Rightarrow> (s, Some e)
      | None \<Rightarrow> (case flushable of
            Some (Some e) \<Rightarrow> ws_fail e s
          | _ \<Rightarrow> (s\<lparr>ws_counters := (ws_counters s)\<lparr>c_flushes := c_flushes (ws_counters s) + 1\<rparr>\<rparr>, None)))"

text \<open>\<open>closer\<close>: the writer has a \<open>Close\<close> method, with the error it returns.\<close>

definition ws_Close :: "sink_error option option \<Rightarrow> WriterSink \<Rightarrow> WriterSink \<times> sink_error option" where
  "ws_Close closer s =
     (if ws_closed_once s then (s, ws_closeErr s)
      else let s1 = s\<lparr>ws_closed_once := True, ws_counters := (ws_counters s)\<lparr>c_closed := True\<rparr>\<rparr>
           in (case closer of
                 Some err \<Rightarrow>
                   if ws_closeUnderlying s1 then
                     let s2 = s1\<lparr>ws_closeErr := err\<rparr>
                     in (if err \<noteq> None then s2\<lparr>ws_counters := count_error (ws_counters s2)\<rparr> else s2, err)
                   else (s1, ws_closeErr s1)
               | None \<Rightarrow> (s1, ws_closeErr s1)))"

definition ws_Capabilities :: Capabilities where
  "ws_Capabilities = \<lparr>cap_BatchMode = ''sequential'', cap_CopyAvoiding = True, cap_DurableFlush = False,
     cap_Acknowledged = False\<rparr>"

definition ws_Stats :: "WriterSink \<Rightarrow> sink_Stats" where
  "ws_Stats s = counters_snapshot (ws_counters s)"

subsection \<open>The network adapter\<close>

text \<open>The transport is the client of the protocol; here, what its \<open>Send\<close> does to its state.\<close>

definition na_WriteBatch :: "('t \<Rightarrow> bytes list \<Rightarrow> 't \<times> sink_error option) \<Rightarrow> bytes list \<Rightarrow> 't option \<Rightarrow> 't option \<times> sink_error option" where
  "na_WriteBatch Send records a = (case a of None \<Rightarrow> (None, Some ErrTransportNil)
     | Some t \<Rightarrow> (case Send t records of (t', r) \<Rightarrow> (Some t', r)))"

definition na_Flush :: "'t option \<Rightarrow> 't option \<times> sink_error option" where
  "na_Flush a = (a, None)"

definition na_Close :: "('t \<Rightarrow> 't \<times> sink_error option) \<Rightarrow> 't option \<Rightarrow> 't option \<times> sink_error option" where
  "na_Close Close a = (case a of None \<Rightarrow> (None, None) | Some t \<Rightarrow> (case Close t of (t', r) \<Rightarrow> (Some t', r)))"

definition na_Capabilities :: Capabilities where
  "na_Capabilities = \<lparr>cap_BatchMode = ''scatter_gather'', cap_CopyAvoiding = True, cap_DurableFlush = False,
     cap_Acknowledged = True\<rparr>"

declare cursor_skip.simps [simp del] advance_loop.simps [simp del]

subsection \<open>The cursor as a byte position\<close>

definition cursor_ok :: "batchCursor \<Rightarrow> bool" where
  "cursor_ok c \<longleftrightarrow> bc_record c \<le> length (bc_records c) \<and>
     (if bc_record c < length (bc_records c) then bc_offset c \<le> length (bc_records c ! bc_record c)
      else bc_offset c = 0)"

definition committed :: "batchCursor \<Rightarrow> nat" where
  "committed c = length (concat (take (bc_record c) (bc_records c))) + bc_offset c"

text \<open>The cursor does not rest at the end of a record.\<close>

definition settled :: "batchCursor \<Rightarrow> bool" where
  "settled c \<longleftrightarrow> bc_record c < length (bc_records c) \<longrightarrow> bc_offset c < length (bc_records c ! bc_record c)"

lemma concat_at:
  assumes "k < length xs"
  shows "concat xs = concat (take k xs) @ xs ! k @ concat (drop (Suc k) xs)"
proof -
  have "xs = take k xs @ xs ! k # drop (Suc k) xs" using assms by (simp add: id_take_nth_drop [symmetric])
  then show ?thesis by (metis concat.simps(2) concat_append)
qed

lemma concat_take_Suc: "k < length xs \<Longrightarrow> concat (take (Suc k) xs) = concat (take k xs) @ xs ! k"
  by (simp add: take_Suc_conv_app_nth)

lemma cursor_rest:
  assumes "cursor_ok c"
  shows "concat (cursor_remaining c) = drop (committed c) (concat (bc_records c))"
proof (cases "bc_record c < length (bc_records c)")
  case True
  let ?k = "bc_record c" and ?rs = "bc_records c"
  have d: "drop ?k ?rs = ?rs ! ?k # drop (Suc ?k) ?rs" using True by (simp add: Cons_nth_drop_Suc)
  have "concat (cursor_remaining c) = drop (bc_offset c) (?rs ! ?k) @ concat (drop (Suc ?k) ?rs)"
    using True by (simp add: cursor_remaining_def Let_def d)
  also have "\<dots> = drop (committed c) (concat ?rs)"
    using assms True by (simp add: concat_at [OF True] committed_def cursor_ok_def)
  finally show ?thesis .
next
  case False
  then show ?thesis using assms by (simp add: cursor_remaining_def cursor_ok_def committed_def)
qed

lemma committed_le: "cursor_ok c \<Longrightarrow> committed c \<le> length (concat (bc_records c))"
  by (cases "bc_record c < length (bc_records c)")
    (auto simp: cursor_ok_def committed_def concat_at [of "bc_record c" "bc_records c"])

lemma settled_done:
  assumes "cursor_ok c" "settled c"
  shows "cursor_done c \<longleftrightarrow> committed c = length (concat (bc_records c))"
proof (cases "bc_record c < length (bc_records c)")
  case True
  then show ?thesis
    using assms by (auto simp: cursor_done_def settled_def committed_def concat_at [OF True])
next
  case False
  then show ?thesis using assms(1) by (auto simp: cursor_ok_def committed_def cursor_done_def)
qed

lemma cursor_skip_spec:
  assumes "cursor_ok c"
  shows "cursor_ok (cursor_skip c) \<and> settled (cursor_skip c) \<and> committed (cursor_skip c) = committed c \<and>
     bc_records (cursor_skip c) = bc_records c \<and> bc_active (cursor_skip c) = bc_active c"
  using assms
proof (induction c rule: cursor_skip.induct)
  case (1 c)
  show ?case
  proof (cases "bc_record c < length (bc_records c) \<and> bc_offset c = length (bc_records c ! bc_record c)")
    case True
    let ?c = "c\<lparr>bc_record := bc_record c + 1, bc_offset := 0\<rparr>"
    have "cursor_ok ?c" "committed ?c = committed c"
      using True by (auto simp: cursor_ok_def committed_def concat_take_Suc)
    then show ?thesis using 1(1) [OF True] True by (simp add: cursor_skip.simps [of c])
  next
    case False
    then show ?thesis using 1(2) by (auto simp: cursor_skip.simps [of c] settled_def cursor_ok_def)
  qed
qed

lemma advance_loop_spec:
  assumes "cursor_ok c" "0 \<le> w"
  shows "case advance_loop w c of (c', left) \<Rightarrow> cursor_ok c' \<and> 0 \<le> left \<and>
     int (committed c') + left = int (committed c) + w \<and>
     (0 < left \<longrightarrow> committed c' = length (concat (bc_records c))) \<and>
     bc_records c' = bc_records c \<and> bc_active c' = bc_active c"
  using assms
proof (induction w c rule: advance_loop.induct)
  case (1 w c)
  show ?case
  proof (cases "w > 0 \<and> bc_record c < length (bc_records c)")
    case True
    let ?r = "bc_records c ! bc_record c"
    let ?av = "int (length ?r) - int (bc_offset c)"
    let ?c = "c\<lparr>bc_record := bc_record c + 1, bc_offset := 0\<rparr>"
    have off: "bc_offset c \<le> length ?r" using 1(2) True by (simp add: cursor_ok_def)
    show ?thesis
    proof (cases "w < ?av")
      case True
      then show ?thesis
        using \<open>w > 0 \<and> _\<close> 1(2) off
        by (simp add: advance_loop.simps [of w c] cursor_ok_def committed_def) linarith
    next
      case False
      have "cursor_ok ?c" "int (committed ?c) = int (committed c) + ?av" "0 \<le> w - ?av"
        using \<open>w > 0 \<and> _\<close> False by (auto simp: cursor_ok_def committed_def concat_take_Suc)
      then show ?thesis
        using 1(1) [OF \<open>w > 0 \<and> _\<close> refl False] \<open>w > 0 \<and> _\<close> False
        by (simp add: advance_loop.simps [of w c] Let_def split: prod.splits)
    qed
  next
    case False
    then show ?thesis using 1(2,3) by (auto simp: advance_loop.simps [of w c] cursor_ok_def committed_def)
  qed
qed

text \<open>
  \<open>advance\<close> moves the position by exactly the bytes written, as long as they belong to the batch.
\<close>

lemma cursor_advance_spec:
  assumes ok: "cursor_ok c" and w: "0 \<le> w" "int (committed c) + w \<le> int (length (concat (bc_records c)))"
    and eq: "cursor_advance w c = (c', e)"
  shows "e = None" "cursor_ok c'" "settled c'" "int (committed c') = int (committed c) + w"
    "bc_records c' = bc_records c" "bc_active c' = bc_active c"
proof -
  note sk = cursor_skip_spec [OF ok]
  obtain c1 left where al: "advance_loop w (cursor_skip c) = (c1, left)" by fastforce
  note lp = advance_loop_spec [OF conjunct1 [OF sk] w(1), unfolded al prod.case]
  have "left = 0" using lp sk w by auto
  then have c': "c' = cursor_skip c1" "e = None" using eq al w(1) by (simp_all add: cursor_advance_def)
  note sk1 = cursor_skip_spec [OF conjunct1 [OF lp]]
  show "e = None" "cursor_ok c'" "settled c'" "int (committed c') = int (committed c) + w"
    "bc_records c' = bc_records c" "bc_active c' = bc_active c"
    using sk sk1 lp c' \<open>left = 0\<close> by simp_all
qed

text \<open>A count above what remains is refused, a negative one too.\<close>

lemma cursor_advance_too_much:
  assumes ok: "cursor_ok c" and w: "int (committed c) + w > int (length (concat (bc_records c)))"
    and eq: "cursor_advance w c = (c', e)"
  shows "e = Some ErrShortWrite"
proof -
  note sk = cursor_skip_spec [OF ok]
  obtain c1 left where al: "advance_loop w (cursor_skip c) = (c1, left)" by fastforce
  have w0: "0 \<le> w" using w committed_le [OF ok] by linarith
  note lp = advance_loop_spec [OF conjunct1 [OF sk] w0, unfolded al prod.case]
  have "left \<noteq> 0" using lp sk w committed_le [of c1] by auto
  then show ?thesis using eq al w0 by (simp add: cursor_advance_def)
qed

lemma records_differ:
  "(length xs = length ys \<and> \<not> (\<exists>i < length ys. xs ! i \<noteq> ys ! i)) \<longleftrightarrow> xs = ys"
  by (auto simp: list_eq_iff_nth_eq)

text \<open>
  The invariant between two calls: an idle cursor is empty, an active one is a settled position.
\<close>

definition cursor_inv :: "batchCursor \<Rightarrow> bool" where
  "cursor_inv c \<longleftrightarrow> (if bc_active c then cursor_ok c \<and> settled c else c = idle_cursor)"

lemma cursor_begin_spec:
  assumes inv: "cursor_inv c" and eq: "cursor_begin rs c = (c', e)"
  shows "bc_active c \<and> bc_records c \<noteq> rs \<Longrightarrow> e = Some ErrBatchChanged \<and> c' = c"
    and "\<not> bc_active c \<or> bc_records c = rs \<Longrightarrow>
      e = None \<and> cursor_ok c' \<and> settled c' \<and> bc_active c' \<and> bc_records c' = rs \<and>
      committed c' = (if bc_active c then committed c else 0)"
proof -
  show "e = Some ErrBatchChanged \<and> c' = c" if "bc_active c \<and> bc_records c \<noteq> rs"
    using that eq records_differ [of "bc_records c" rs] by (auto simp: cursor_begin_def split: if_splits)
  assume new: "\<not> bc_active c \<or> bc_records c = rs"
  define d where "d = (if bc_active c then c else c\<lparr>bc_records := rs, bc_active := True\<rparr>)"
  have d: "cursor_ok d" "bc_records d = rs" "bc_active d" "committed d = (if bc_active c then committed c else 0)"
    using inv new unfolding d_def cursor_inv_def
    by (cases "bc_active c"; simp add: cursor_ok_def idle_cursor_def committed_def)+
  have "cursor_advance 0 d = (c', e)"
    using eq new by (auto simp: cursor_begin_def d_def split: if_splits)
  from cursor_advance_spec [OF d(1) _ _ this] committed_le [OF d(1)] d
  show "e = None \<and> cursor_ok c' \<and> settled c' \<and> bc_active c' \<and> bc_records c' = rs \<and>
      committed c' = (if bc_active c then committed c else 0)" by simp
qed

subsection \<open>The contract of a batch sink\<close>

text \<open>
  \<open>BatchSink\<close>: \<open>out\<close> is what has reached the destination, \<open>pend\<close> the batch in progress with the
  number of its bytes already committed. After an error the same batch resumes where it stopped;
  another batch is refused.
\<close>

definition start_of :: "('s \<Rightarrow> (bytes list \<times> nat) option) \<Rightarrow> 's \<Rightarrow> nat" where
  "start_of pend s = (case pend s of None \<Rightarrow> 0 | Some (rs, n) \<Rightarrow> n)"

definition accepts :: "('s \<Rightarrow> (bytes list \<times> nat) option) \<Rightarrow> 's \<Rightarrow> bytes list \<Rightarrow> bool" where
  "accepts pend s rs \<longleftrightarrow> (case pend s of None \<Rightarrow> True | Some (rs0, n) \<Rightarrow> rs0 = rs)"

text \<open>The caller's loop: the same batch until a call succeeds or there are no more attempts.\<close>

fun retry_batch :: "('e \<Rightarrow> bytes list \<Rightarrow> 's \<Rightarrow> ('s \<times> sink_error option) option) \<Rightarrow> 'e list \<Rightarrow> bytes list \<Rightarrow> 's \<Rightarrow> ('s \<times> bool) option" where
  "retry_batch w [] rs s = Some (s, False)"
| "retry_batch w (e # es) rs s =
     (case w e rs s of
        None \<Rightarrow> None
      | Some (s', r) \<Rightarrow> if r = None then Some (s', True) else retry_batch w es rs s')"

text \<open>Batches one after the other, each retried until it succeeds.\<close>

fun deliver_all :: "('e \<Rightarrow> bytes list \<Rightarrow> 's \<Rightarrow> ('s \<times> sink_error option) option) \<Rightarrow> ('e list \<times> bytes list) list \<Rightarrow> 's \<Rightarrow> ('s \<times> bool) option" where
  "deliver_all w [] s = Some (s, True)"
| "deliver_all w ((es, rs) # xs) s =
     (case retry_batch w es rs s of
        None \<Rightarrow> None
      | Some (s', d) \<Rightarrow> if d then deliver_all w xs s' else Some (s', False))"

locale resumable_sink =
  fixes wr :: "'e \<Rightarrow> bytes list \<Rightarrow> 's \<Rightarrow> ('s \<times> sink_error option) option"
    and out :: "'s \<Rightarrow> bytes"
    and pend :: "'s \<Rightarrow> (bytes list \<times> nat) option"
    and ok :: "'s \<Rightarrow> bool"
  assumes keeps: "ok s \<Longrightarrow> wr e rs s = Some (s', r) \<Longrightarrow> ok s'"
    and refuse: "ok s \<Longrightarrow> \<not> accepts pend s rs \<Longrightarrow> wr e rs s = Some (s', r) \<Longrightarrow>
      r \<noteq> None \<and> out s' = out s \<and> pend s' = pend s"
    and finish: "ok s \<Longrightarrow> accepts pend s rs \<Longrightarrow> wr e rs s = Some (s', None) \<Longrightarrow>
      out s' = out s @ drop (start_of pend s) (concat rs) \<and> pend s' = None"
    and partial: "ok s \<Longrightarrow> accepts pend s rs \<Longrightarrow> wr e rs s = Some (s', Some x) \<Longrightarrow>
      \<exists>m. out s' = out s @ take m (drop (start_of pend s) (concat rs)) \<and>
        (pend s' = Some (rs, start_of pend s + m) \<or> m = 0 \<and> pend s' = pend s)"
begin

lemma retry_spec:
  assumes "ok s" "accepts pend s rs" "retry_batch wr es rs s = Some (s', d)"
  shows "ok s' \<and> (\<exists>m. out s' = out s @ take m (drop (start_of pend s) (concat rs)) \<and>
     (if d then out s' = out s @ drop (start_of pend s) (concat rs) \<and> pend s' = None
      else accepts pend s' rs \<and> start_of pend s' = start_of pend s + m))"
  using assms
proof (induction es arbitrary: s)
  case Nil
  then show ?case by (auto intro: exI [of _ 0])
next
  case (Cons e es)
  obtain s1 r where w: "wr e rs s = Some (s1, r)"
    using Cons.prems(3) by (cases "wr e rs s") auto
  have ok1: "ok s1" using keeps [OF Cons.prems(1) w] .
  show ?case
  proof (cases r)
    case None
    then have "s' = s1" "d" using Cons.prems(3) w by simp_all
    then show ?thesis
      using finish [OF Cons.prems(1,2) w [unfolded None]] ok1
      by (intro conjI exI [of _ "length (concat rs)"]) simp_all
  next
    case (Some x)
    obtain m where m: "out s1 = out s @ take m (drop (start_of pend s) (concat rs))"
      "pend s1 = Some (rs, start_of pend s + m) \<or> m = 0 \<and> pend s1 = pend s"
      using partial [OF Cons.prems(1,2) w [unfolded Some]] by blast
    have acc: "accepts pend s1 rs" "start_of pend s1 = start_of pend s + m"
      using m(2) Cons.prems(2) by (auto simp: accepts_def start_of_def)
    have "retry_batch wr es rs s1 = Some (s', d)" using Cons.prems(3) w Some by simp
    from Cons.IH [OF ok1 acc(1) this] obtain m' where ih: "ok s'"
      "out s' = out s1 @ take m' (drop (start_of pend s1) (concat rs))"
      "if d then out s' = out s1 @ drop (start_of pend s1) (concat rs) \<and> pend s' = None
       else accepts pend s' rs \<and> start_of pend s' = start_of pend s1 + m'" by blast
    have ta: "take (m + m') (drop (start_of pend s) (concat rs)) =
        take m (drop (start_of pend s) (concat rs)) @ take m' (drop (start_of pend s1) (concat rs))"
      by (simp add: acc(2) take_add) (simp add: add.commute)
    have "take m (drop (start_of pend s) (concat rs)) @ drop (start_of pend s1) (concat rs) =
        drop (start_of pend s) (concat rs)"
      by (simp add: acc(2)) (metis add.commute append_take_drop_id drop_drop)
    then show ?thesis
      using ih m(1) acc(2) ta by (intro conjI exI [of _ "m + m'"]) auto
  qed
qed

lemma deliver_all_exact:
  assumes "ok s" "pend s = None" "deliver_all wr xs s = Some (s', True)"
  shows "out s' = out s @ concat (map (\<lambda>(es, rs). concat rs) xs) \<and> pend s' = None \<and> ok s'"
  using assms
proof (induction xs arbitrary: s)
  case (Cons x xs)
  obtain es rs where x: "x = (es, rs)" by fastforce
  then obtain s1 where r: "retry_batch wr es rs s = Some (s1, True)" "deliver_all wr xs s1 = Some (s', True)"
    using Cons.prems(3) by (auto split: option.splits if_splits)
  have "accepts pend s rs" "start_of pend s = 0" using Cons.prems(2) by (simp_all add: accepts_def start_of_def)
  then have "ok s1" "pend s1 = None" "out s1 = out s @ concat rs"
    using retry_spec [OF Cons.prems(1) _ r(1)] by simp_all
  then show ?case using Cons.IH [OF _ _ r(2)] by (simp add: x)
qed simp

end

text \<open>
  The whole interface \<^verbatim>\<open>BatchSink\<close> that the flusher holds, and its contract: \<open>Flush\<close> and \<open>Close\<close> write
  nothing and keep the place of a batch in progress.
\<close>

record ('e, 'c, 's) BatchSink =
  bs_WriteBatch :: "'e \<Rightarrow> bytes list \<Rightarrow> 's \<Rightarrow> ('s \<times> sink_error option) option"
  bs_Flush :: "'c \<Rightarrow> 's \<Rightarrow> 's \<times> sink_error option"
  bs_Close :: "'c \<Rightarrow> 's \<Rightarrow> 's \<times> sink_error option"

locale batch_sink = resumable_sink +
  fixes fl cl :: "'c \<Rightarrow> 'b \<Rightarrow> 'b \<times> sink_error option"
  assumes fl_quiet: "fl c s = (s', r) \<Longrightarrow> out s' = out s \<and> pend s' = pend s \<and> (ok s \<longrightarrow> ok s')"
    and cl_quiet: "cl c s = (s', r) \<Longrightarrow> out s' = out s \<and> pend s' = pend s \<and> (ok s \<longrightarrow> ok s')"

subsection \<open>The writer sink keeps the contract\<close>

lemma first_record:
  "k \<le> length r \<Longrightarrow> take k (concat (r # rs)) = take k r"
  "k \<le> length r \<Longrightarrow> concat (drop k r # rs) = drop k (concat (r # rs))"
  by simp_all

lemma writeSequential_spec:
  assumes "writeSequential script rs acc = Some (acc', e)"
  shows "\<exists>m \<le> length (concat rs). wa_out acc' = wa_out acc @ take m (concat rs) \<and>
     wa_written acc' = wa_written acc + int m \<and> (e = None \<longrightarrow> m = length (concat rs))"
  using assms
proof (induction script rs acc rule: writeSequential.induct)
  case (4 x script b bs rs acc)
  let ?r = "b # bs" and ?k = "nat (io_count x)"
  show ?case
  proof (cases "io_ctx x \<noteq> None \<or> io_count x < 0 \<or> io_count x > int (length ?r)")
    case True
    have "acc' = acc \<and> e \<noteq> None"
    proof (cases "io_ctx x")
      case None
      then show ?thesis using True "4.prems" by (auto simp: Let_def)
    next
      case (Some y)
      then have "(acc', e) = (acc, Some y)" using "4.prems" by (simp add: Let_def)
      then show ?thesis by blast
    qed
    then show ?thesis by (intro exI [of _ 0]) simp
  next
    case False
    define acc1 where "acc1 = (if io_count x > 0 then
        acc\<lparr>wa_out := wa_out acc @ take ?k ?r, wa_written := wa_written acc + io_count x,
            wa_shorts := (if drop ?k ?r \<noteq> [] then wa_shorts acc + 1 else wa_shorts acc)\<rparr> else acc)"
    have k: "?k \<le> length ?r" "int ?k = io_count x" using False by auto
    have acc1: "wa_out acc1 = wa_out acc @ take ?k (concat (?r # rs))" "wa_written acc1 = wa_written acc + int ?k"
    proof -
      have "take ?k (concat (?r # rs)) = take ?k ?r"  by (rule first_record [OF k(1)])
      moreover have "io_count x = 0" if "\<not> 0 < io_count x" using that False by linarith
      ultimately show "wa_out acc1 = wa_out acc @ take ?k (concat (?r # rs))" "wa_written acc1 = wa_written acc + int ?k"
        by (simp_all add: acc1_def)
    qed
    have step: "\<exists>m \<le> length (concat (?r # rs)). wa_out acc' = wa_out acc @ take m (concat (?r # rs)) \<and>
        wa_written acc' = wa_written acc + int m \<and> (e = None \<longrightarrow> m = length (concat (?r # rs)))"
      if rest: "\<exists>m \<le> length (concat (drop ?k ?r # rs)). wa_out acc' = wa_out acc1 @ take m (concat (drop ?k ?r # rs)) \<and>
        wa_written acc' = wa_written acc1 + int m \<and> (e = None \<longrightarrow> m = length (concat (drop ?k ?r # rs)))"
    proof -
      have eq: "concat (drop ?k ?r # rs) = drop ?k (concat (?r # rs))" by (rule first_record [OF k(1)])
      obtain m where m: "m \<le> length (concat (?r # rs)) - ?k"
          "wa_out acc' = wa_out acc1 @ take m (drop ?k (concat (?r # rs)))"
          "wa_written acc' = wa_written acc1 + int m" "e = None \<longrightarrow> m = length (concat (?r # rs)) - ?k"
        using rest unfolding eq length_drop by (elim exE conjE) metis
      have kl: "?k \<le> length (concat (?r # rs))" using k(1) by simp
      have "wa_out acc' = wa_out acc @ take (?k + m) (concat (?r # rs))"
        unfolding m(2) acc1(1) take_add append_assoc ..
      moreover have "wa_written acc' = wa_written acc + int (?k + m)" using m(3) acc1(2) by simp
      moreover have "?k + m \<le> length (concat (?r # rs))" "e = None \<longrightarrow> ?k + m = length (concat (?r # rs))"
        using m(1,4) kl by linarith+
      ultimately show ?thesis by blast
    qed
    have stop: "\<exists>m \<le> length (concat (?r # rs)). wa_out acc1 = wa_out acc @ take m (concat (?r # rs)) \<and>
        wa_written acc1 = wa_written acc + int m"
      using acc1 k(1) by (intro exI [of _ ?k]) simp
    have ctx: "io_ctx x = None" "\<not> (io_count x < 0 \<or> io_count x > int (length ?r))" using False by auto
    show ?thesis
    proof (cases "io_err x")
      case None
      then show ?thesis
        using "4.IH"(1) [OF refl refl refl ctx(1) ctx(2) acc1_def None] "4.prems" stop step ctx
        by (auto simp: Let_def acc1_def [symmetric] split: if_splits simp del: concat.simps)
    next
      case (Some y)
      then show ?thesis
        using "4.IH"(2) [OF refl refl refl ctx(1) ctx(2) acc1_def Some] "4.prems" stop step ctx
        by (auto simp: Let_def acc1_def [symmetric] split: if_splits simp del: concat.simps)
    qed
  qed
qed auto

definition cursor_pend :: "batchCursor \<Rightarrow> (bytes list \<times> nat) option" where
  "cursor_pend c = (if bc_active c then Some (bc_records c, committed c) else None)"

definition ws_pend :: "WriterSink \<Rightarrow> (bytes list \<times> nat) option" where
  "ws_pend s = cursor_pend (ws_pending s)"

definition ws_ok :: "WriterSink \<Rightarrow> bool" where
  "ws_ok s \<longleftrightarrow> cursor_inv (ws_pending s) \<and> c_bytes (ws_counters s) = of_nat (length (ws_out s))"

lemma ws_pend_accepts:
  "accepts ws_pend s rs \<longleftrightarrow> (\<not> bc_active (ws_pending s) \<or> bc_records (ws_pending s) = rs)"
  "start_of ws_pend s = (if bc_active (ws_pending s) then committed (ws_pending s) else 0)"
  by (simp_all add: accepts_def start_of_def ws_pend_def cursor_pend_def)

lemma idle_cursor_simps [simp]:
  "bc_active idle_cursor = False" "cursor_inv idle_cursor" "cursor_pend idle_cursor = None"
  by (simp_all add: idle_cursor_def cursor_inv_def cursor_pend_def)

lemma cursor_reset_idle: "cursor_reset c = idle_cursor"
  by (simp add: cursor_reset_def idle_cursor_def)

lemma of_nat_length_append: "(of_nat (length (xs @ take m ys)) :: u64) = of_nat (length xs) + of_int (int (length (take m ys)))"
  by simp

text \<open>One call on a sink that accepts the batch: the three outcomes.\<close>

lemma ws_WriteBatch_cases:
  assumes ok: "ws_ok s" and acc: "\<not> bc_active (ws_pending s) \<or> bc_records (ws_pending s) = rs"
    and run: "ws_WriteBatch env rs s = Some (s', r)"
  defines "n \<equiv> (if bc_active (ws_pending s) then committed (ws_pending s) else 0)"
  obtains "r = Some ErrSinkClosed" "s' = s"
  | m where "m \<le> length (drop n (concat rs))" "ws_out s' = ws_out s @ take m (drop n (concat rs))" "ws_ok s'" "r \<noteq> None"
      "bc_active (ws_pending s')" "bc_records (ws_pending s') = rs" "committed (ws_pending s') = n + m"
  | "ws_out s' = ws_out s @ drop n (concat rs)" "ws_ok s'" "r = None" "ws_pending s' = idle_cursor"
      "c_batches (ws_counters s') = c_batches (ws_counters s) + 1"
      "c_records (ws_counters s') = c_records (ws_counters s) + of_nat (length rs)"
proof (cases "c_closed (ws_counters s)")
  case True
  then show thesis using that(1) run by (simp add: ws_WriteBatch_def)
next
  case False
  have inv: "cursor_inv (ws_pending s)" using ok by (simp add: ws_ok_def)
  obtain p1 e1 where b: "cursor_begin rs (ws_pending s) = (p1, e1)" by fastforce
  note bs = cursor_begin_spec(2) [OF inv b acc]
  have p1: "cursor_ok p1" "bc_records p1 = rs" "bc_active p1" "committed p1 = n" using bs by (simp_all add: n_def)
  obtain wacc err where w: "writeSequential (we_script env) (cursor_remaining p1)
      \<lparr>wa_out = ws_out s, wa_written = 0, wa_shorts = 0\<rparr> = Some (wacc, err)"
    using run False b bs by (auto simp: ws_WriteBatch_def split: option.splits)
  have rest: "concat (cursor_remaining p1) = drop n (concat rs)" using cursor_rest [OF p1(1)] p1 by simp
  obtain m where m: "m \<le> length (drop n (concat rs))" "wa_out wacc = ws_out s @ take m (drop n (concat rs))"
      "wa_written wacc = int m" "err = None \<longrightarrow> m = length (drop n (concat rs))"
    using writeSequential_spec [OF w] unfolding rest by auto
  obtain p2 e2 where a: "cursor_advance (wa_written wacc) p1 = (p2, e2)" by fastforce
  have nle: "n \<le> length (concat rs)" using committed_le [OF p1(1)] p1 by simp
  have "int (committed p1) + wa_written wacc \<le> int (length (concat (bc_records p1)))"
    using m(1,3) p1 nle by simp
  note ad = cursor_advance_spec [OF p1(1) _ this a]
  have p2: "e2 = None" "cursor_ok p2" "settled p2" "committed p2 = n + m" "bc_records p2 = rs" "bc_active p2"
    using ad m(3) p1 by simp_all
  define s1 where "s1 = s\<lparr>ws_pending := p2, ws_counters := (ws_counters s)\<lparr>c_bytes := c_bytes (ws_counters s) + of_int (wa_written wacc),
                          c_shortWrites := c_shortWrites (ws_counters s) + wa_shorts wacc, c_lastWriteNanos := we_nanos env\<rparr>,
                          ws_out := wa_out wacc\<rparr>"
  have bytes: "c_bytes (ws_counters s1) = of_nat (length (ws_out s1))"
    using ok m(1) by (simp add: s1_def ws_ok_def m(2,3))
  have ok1: "ws_ok s1" using p2 bytes by (simp add: ws_ok_def cursor_inv_def s1_def)
  have out1: "ws_out s1 = ws_out s @ take m (drop n (concat rs))" by (simp add: s1_def m(2))
  have run': "(s', r) = (case err of Some e \<Rightarrow> ws_fail e s1
      | None \<Rightarrow> if \<not> cursor_done p2 then ws_fail ErrShortWrite s1
          else (s1\<lparr>ws_counters := (ws_counters s1)\<lparr>c_batches := c_batches (ws_counters s) + 1,
                  c_records := c_records (ws_counters s) + of_nat (length rs)\<rparr>,
                ws_pending := cursor_reset p2\<rparr>, None))"
    using run False b bs w a p2(1) by (auto simp: ws_WriteBatch_def s1_def Let_def split: option.splits)
  show thesis
  proof (cases err)
    case (Some e)
    then show thesis
      using run' ok1 out1 p2 m(1) by (intro that(2) [of m]) (simp_all add: ws_fail_def ws_ok_def s1_def count_error_def)
  next
    case None
    then have full: "m = length (drop n (concat rs))" using m(4) by simp
    have "cursor_done p2" using settled_done [OF p2(2,3)] p2(4,5) full nle by simp
    then show thesis
      using run' None ok1 out1 full
      by (intro that(3)) (simp_all add: cursor_reset_idle ws_ok_def s1_def)
  qed
qed

lemma ws_WriteBatch_refuse:
  assumes ok: "ws_ok s" and acc: "\<not> (\<not> bc_active (ws_pending s) \<or> bc_records (ws_pending s) = rs)"
    and run: "ws_WriteBatch env rs s = Some (s', r)"
  shows "r \<noteq> None \<and> ws_out s' = ws_out s \<and> ws_pending s' = ws_pending s \<and> ws_ok s'"
proof -
  have inv: "cursor_inv (ws_pending s)" using ok by (simp add: ws_ok_def)
  obtain p1 e1 where b: "cursor_begin rs (ws_pending s) = (p1, e1)" by fastforce
  have "e1 = Some ErrBatchChanged \<and> p1 = ws_pending s" using cursor_begin_spec(1) [OF inv b] acc by blast
  then show ?thesis
    using run b ok by (auto simp: ws_WriteBatch_def ws_fail_def ws_ok_def count_error_def split: if_splits)
qed

interpretation wsink: resumable_sink ws_WriteBatch ws_out ws_pend ws_ok
proof unfold_locales
  fix s rs env s' r
  assume ok: "ws_ok s" and run: "ws_WriteBatch env rs s = Some (s', r)"
  show "ws_ok s'"
  proof (cases "\<not> bc_active (ws_pending s) \<or> bc_records (ws_pending s) = rs")
    case True
    show ?thesis by (rule ws_WriteBatch_cases [OF ok True run]) (use ok in simp_all)
  next
    case False
    show ?thesis using ws_WriteBatch_refuse [OF ok False run] by blast
  qed
  show "r \<noteq> None \<and> ws_out s' = ws_out s \<and> ws_pend s' = ws_pend s" if "\<not> accepts ws_pend s rs"
    using ws_WriteBatch_refuse [OF ok _ run] that
    unfolding ws_pend_accepts by (auto simp: ws_pend_def)
next
  fix s rs env s'
  assume ok: "ws_ok s" and acc: "accepts ws_pend s rs" and run: "ws_WriteBatch env rs s = Some (s', None)"
  have acc': "\<not> bc_active (ws_pending s) \<or> bc_records (ws_pending s) = rs"
    using acc unfolding ws_pend_accepts .
  show "ws_out s' = ws_out s @ drop (start_of ws_pend s) (concat rs) \<and> ws_pend s' = None"
    by (rule ws_WriteBatch_cases [OF ok acc' run])
      (auto simp: ws_pend_accepts ws_pend_def)
next
  fix s rs env s' x
  assume ok: "ws_ok s" and acc: "accepts ws_pend s rs" and run: "ws_WriteBatch env rs s = Some (s', Some x)"
  have acc': "\<not> bc_active (ws_pending s) \<or> bc_records (ws_pending s) = rs"
    using acc unfolding ws_pend_accepts .
  show "\<exists>m. ws_out s' = ws_out s @ take m (drop (start_of ws_pend s) (concat rs)) \<and>
      (ws_pend s' = Some (rs, start_of ws_pend s + m) \<or> m = 0 \<and> ws_pend s' = ws_pend s)"
    by (rule ws_WriteBatch_cases [OF ok acc' run])
      (auto simp: ws_pend_accepts, auto simp: ws_pend_def cursor_pend_def)
qed

definition writer_batch_sink :: "(write_env, sink_error option option, WriterSink) BatchSink" where
  "writer_batch_sink = \<lparr>bs_WriteBatch = ws_WriteBatch, bs_Flush = ws_Flush None, bs_Close = ws_Close\<rparr>"

interpretation wbatch: batch_sink ws_WriteBatch ws_out ws_pend ws_ok "ws_Flush None" ws_Close
proof unfold_locales
  fix c :: "sink_error option option" and s s' r
  show "ws_out s' = ws_out s \<and> ws_pend s' = ws_pend s \<and> (ws_ok s \<longrightarrow> ws_ok s')" if "ws_Flush None c s = (s', r)"
    using that by (auto simp: ws_Flush_def ws_fail_def count_error_def ws_ok_def ws_pend_def split: option.splits)
  show "ws_out s' = ws_out s \<and> ws_pend s' = ws_pend s \<and> (ws_ok s \<longrightarrow> ws_ok s')" if "ws_Close c s = (s', r)"
    using that by (auto simp: ws_Close_def count_error_def ws_ok_def ws_pend_def Let_def split: option.splits if_splits)
qed

lemma NewWriter_ok: "ws_ok NewWriter" "ws_pend NewWriter = None" "ws_ok NewOwnedWriter" "ws_pend NewOwnedWriter = None"
  by (simp_all add: NewWriter_def NewOwnedWriter_def ws_ok_def ws_pend_def zero_counters_def)

subsection \<open>Properties\<close>

lemma writeSequential_progress:
  "length (concat rs) \<le> length (filter (\<lambda>x. io_err x \<noteq> Some EINTR) script) \<Longrightarrow>
     writeSequential script rs acc \<noteq> None"
proof (induction script rs acc rule: writeSequential.induct)
  case (4 x script b bs rs acc)
  let ?r = "b # bs" and ?k = "nat (io_count x)"
  have less: "length (concat (drop ?k ?r # rs)) < length (concat (?r # rs))" if "0 < io_count x"
    using that by (simp add: less_Suc_eq_le)
  have le: "length (concat (drop ?k ?r # rs)) \<le> length (concat (?r # rs))" by simp
  show ?case
  proof (cases "io_ctx x \<noteq> None \<or> io_count x < 0 \<or> io_count x > int (length ?r)")
    case True
    then show ?thesis by (cases "io_ctx x") (auto simp: Let_def)
  next
    case False
    then have ctx: "io_ctx x = None" "\<not> (io_count x < 0 \<or> io_count x > int (length ?r))" by auto
    show ?thesis
    proof (cases "io_err x")
      case None
      have "writeSequential script (drop ?k ?r # rs) acc1 \<noteq> None" if "io_count x \<noteq> 0" and
        "acc1 = (if io_count x > 0 then
          acc\<lparr>wa_out := wa_out acc @ take ?k ?r, wa_written := wa_written acc + io_count x,
            wa_shorts := (if drop ?k ?r \<noteq> [] then wa_shorts acc + 1 else wa_shorts acc)\<rparr> else acc)" for acc1
        using "4.IH"(1) [OF refl refl refl ctx that(2) None that(1)] "4.prems" less that(1) ctx(2) None by force
      then show ?thesis using ctx None by (auto simp: Let_def simp del: concat.simps)
    next
      case (Some y)
      have "writeSequential script (drop ?k ?r # rs) acc1 \<noteq> None" if "y = EINTR" and
        "acc1 = (if io_count x > 0 then
          acc\<lparr>wa_out := wa_out acc @ take ?k ?r, wa_written := wa_written acc + io_count x,
            wa_shorts := (if drop ?k ?r \<noteq> [] then wa_shorts acc + 1 else wa_shorts acc)\<rparr> else acc)" for acc1
        using "4.IH"(2) [OF refl refl refl ctx that(2) Some that(1)] "4.prems" le Some that(1) by force
      then show ?thesis using ctx Some by (auto simp: Let_def simp del: concat.simps)
    qed
  qed
qed auto

text \<open>
  The loop of \<open>writeSequential\<close> ends: each answer other than an interrupted call makes
  progress or returns, so after as many of them as there are bytes left the call has returned, and
  it has written a prefix of the records, all of them when it reports no error.
\<close>

theorem writeSequential_returns:
  assumes "length (concat rs) \<le> length (filter (\<lambda>x. io_err x \<noteq> Some EINTR) script)"
  shows "\<exists>acc' e m. writeSequential script rs acc = Some (acc', e) \<and> m \<le> length (concat rs) \<and>
     wa_out acc' = wa_out acc @ take m (concat rs) \<and> wa_written acc' = wa_written acc + int m \<and>
     (e = None \<longrightarrow> m = length (concat rs))"
proof -
  obtain acc' e where w: "writeSequential script rs acc = Some (acc', e)"
    using writeSequential_progress [OF assms, of acc] by (cases "writeSequential script rs acc") auto
  then show ?thesis using writeSequential_spec [OF w] by blast
qed

text \<open>
  Exactly once: a writer sink to which batches are given one after the other, each retried
  with the same records until a call succeeds, has written the records of all batches, in order,
  without a byte lost or repeated, whatever short writes and errors the calls met; and its byte
  counter says so.
\<close>

theorem writer_sink_exactly_once:
  assumes "deliver_all ws_WriteBatch xs NewWriter = Some (s, True)"
  shows "ws_out s = concat (map (\<lambda>(envs, batch). concat batch) xs) \<and>
     ss_Bytes (ws_Stats s) = of_nat (length (concat (map (\<lambda>(envs, batch). concat batch) xs)))"
  using wsink.deliver_all_exact [OF NewWriter_ok(1,2) assms]
  by (simp add: NewWriter_def ws_Stats_def counters_snapshot_def ws_ok_def)

text \<open>
  While a batch is in progress the sink has written a prefix of it, the next call with the same
  batch continues behind that prefix, and a call with another batch is refused without writing.
\<close>

theorem writer_sink_resume:
  assumes ok: "ws_ok s" "ws_pend s = None" and run: "retry_batch ws_WriteBatch envs batch s = Some (s', False)"
  shows "\<exists>m. ws_out s' = ws_out s @ take m (concat batch) \<and> start_of ws_pend s' = m \<and>
    (\<forall>env s''. ws_WriteBatch env batch s' = Some (s'', None) \<longrightarrow> ws_out s'' = ws_out s @ concat batch) \<and>
    (\<forall>env other s'' r. ws_pend s' \<noteq> None \<longrightarrow> other \<noteq> batch \<longrightarrow> ws_WriteBatch env other s' = Some (s'', r) \<longrightarrow>
       r \<noteq> None \<and> ws_out s'' = ws_out s' \<and> ws_pend s'' = ws_pend s')"
proof -
  have acc: "accepts ws_pend s batch" "start_of ws_pend s = 0" using ok(2) by (simp_all add: accepts_def start_of_def)
  obtain m where m: "ws_ok s'" "ws_out s' = ws_out s @ take m (concat batch)" "accepts ws_pend s' batch"
    "start_of ws_pend s' = m"
    using wsink.retry_spec [OF ok(1) acc(1) run] acc(2) by auto
  have "\<not> accepts ws_pend s' other" if "ws_pend s' \<noteq> None" "other \<noteq> batch" for other
    using m(3) that by (auto simp: accepts_def split: option.splits)
  then have other: "r \<noteq> None \<and> ws_out s'' = ws_out s' \<and> ws_pend s'' = ws_pend s'"
    if "ws_pend s' \<noteq> None" "other \<noteq> batch" "ws_WriteBatch env other s' = Some (s'', r)" for env other s'' r
    using wsink.refuse [OF m(1) _ that(3)] that(1,2) by blast
  have same: "ws_out s'' = ws_out s @ concat batch" if "ws_WriteBatch env batch s' = Some (s'', None)" for env s''
    using wsink.finish [OF m(1,3) that] m(2,4) by simp
  show ?thesis using m(2,4) other same by blast
qed

subsection \<open>Concrete runs\<close>

text \<open>Two records; the first call writes one byte and fails, the second writes the rest.\<close>

definition demo_step :: "int \<Rightarrow> sink_error option \<Rightarrow> io_step" where
  "demo_step n e = \<lparr>io_ctx = None, io_count = n, io_err = e\<rparr>"

definition demo_calls :: "write_env list" where
  "demo_calls = [\<lparr>we_script = [demo_step 1 (Some (IOError 5))], we_nanos = 1\<rparr>,
     \<lparr>we_script = [demo_step 0 (Some EINTR), demo_step 1 None, demo_step 1 None], we_nanos = 1\<rparr>]"

lemmas sink_eval = ws_WriteBatch_def NewWriter_def zero_counters_def idle_cursor_def cursor_begin_def
  cursor_advance_def cursor_skip.simps advance_loop.simps cursor_remaining_def cursor_done_def
  cursor_reset_def ws_fail_def count_error_def demo_step_def demo_calls_def

lemma writeSequential_returns_witness:
  "\<exists>acc'. writeSequential [demo_step 0 (Some EINTR), demo_step 1 None, demo_step 1 None] [[7, 8]]
     \<lparr>wa_out = [], wa_written = 0, wa_shorts = 0\<rparr> = Some (acc', None) \<and> wa_out acc' = [7, 8]"
proof -
  have "\<exists>acc' e m. writeSequential [demo_step 0 (Some EINTR), demo_step 1 None, demo_step 1 None] [[7, 8]]
     \<lparr>wa_out = [], wa_written = 0, wa_shorts = 0\<rparr> = Some (acc', e) \<and> m \<le> length (concat [[7, 8 :: u8]]) \<and>
     wa_out acc' = [] @ take m (concat [[7, 8]])"
    using writeSequential_returns [of "[[7, 8]]" "[demo_step 0 (Some EINTR), demo_step 1 None, demo_step 1 None]"
        "\<lparr>wa_out = [], wa_written = 0, wa_shorts = 0\<rparr>"] by (force simp: demo_step_def)
  then show ?thesis by (simp add: demo_step_def)
qed

lemma demo_deliver: "deliver_all ws_WriteBatch [(demo_calls, [[7, 8], [9]])] NewWriter \<noteq> None \<and>
   snd (the (deliver_all ws_WriteBatch [(demo_calls, [[7, 8], [9]])] NewWriter))"
  by (simp add: sink_eval)

lemma writer_sink_exactly_once_witness:
  "\<exists>s. deliver_all ws_WriteBatch [(demo_calls, [[7, 8], [9]])] NewWriter = Some (s, True) \<and> ws_out s = [7, 8, 9]"
proof -
  obtain s where s: "deliver_all ws_WriteBatch [(demo_calls, [[7, 8], [9]])] NewWriter = Some (s, True)"
    using demo_deliver by (cases "deliver_all ws_WriteBatch [(demo_calls, [[7, 8], [9]])] NewWriter") auto
  then show ?thesis using writer_sink_exactly_once [OF s] by simp
qed

lemma writer_sink_resume_witness:
  "\<exists>s'. retry_batch ws_WriteBatch [hd demo_calls] [[7, 8], [9]] NewWriter = Some (s', False) \<and>
     (\<forall>env s''. ws_WriteBatch env [[7, 8], [9]] s' = Some (s'', None) \<longrightarrow> ws_out s'' = [7, 8, 9]) \<and>
     (\<exists>s''. ws_WriteBatch (demo_calls ! 1) [[7, 8], [9]] s' = Some (s'', None))"
proof -
  define s' where "s' = fst (the (retry_batch ws_WriteBatch [hd demo_calls] [[7, 8], [9]] NewWriter))"
  have r: "retry_batch ws_WriteBatch [hd demo_calls] [[7, 8], [9]] NewWriter = Some (s', False)"
    by (simp add: s'_def sink_eval)
  have out: "ws_out NewWriter = []" by (simp add: NewWriter_def)
  have "\<exists>s''. ws_WriteBatch (demo_calls ! 1) [[7, 8], [9]] s' = Some (s'', None)"
    by (simp add: s'_def sink_eval)
  then show ?thesis
    using writer_sink_resume [OF NewWriter_ok(1,2) r] r by (auto simp: out)
qed

end
