(* ===== verification/File_Sink.thy ===== *)
theory File_Sink
  imports Sink
begin

text \<open>
  The file sink of \<^verbatim>\<open>internal/sink/file.go\<close> with the vectored writer of \<^verbatim>\<open>writev_unix.go\<close>: chunks,
  rotation by size, the sync policies and the failure paths. The disk is the content of the file
  at the configured path and the contents of the files it was rotated to. What the system calls
  answer is part of the environment of a call.
\<close>

subsection \<open>Vectored writes\<close>

definition maxIOVectors :: nat where "maxIOVectors = 1024"

fun advanceRecords :: "bytes list \<Rightarrow> nat \<Rightarrow> bytes list" where
  "advanceRecords [] written = []"
| "advanceRecords (r # rs) written =
     (if written \<ge> length r then advanceRecords rs (written - length r)
      else if written > 0 then drop written r # rs else r # rs)"

text \<open>
  One \<open>writev\<close>: the buffers are the non-empty ones of the first \<open>maxIOVectors\<close> records. The kernel
  answers with an error or with a count that is at most the number of bytes requested, and that
  many bytes have then been appended to the file.
\<close>

definition iovecs :: "bytes list \<Rightarrow> bytes list" where
  "iovecs remaining = filter (\<lambda>r. r \<noteq> []) (take maxIOVectors remaining)"

definition writev_count :: "io_step \<Rightarrow> bytes list \<Rightarrow> nat" where
  "writev_count x vs = min (nat (io_count x)) (length (concat vs))"

fun writeFileBatch :: "io_step list \<Rightarrow> bytes list \<Rightarrow> write_acc \<Rightarrow> (write_acc \<times> sink_error option) option" where
  "writeFileBatch [] records acc = (if dropWhile (\<lambda>r. r = []) records = [] then Some (acc, None) else None)"
| "writeFileBatch (x # script) records acc =
     (let remaining = dropWhile (\<lambda>r. r = []) records
      in if remaining = [] then Some (acc, None)
         else case io_ctx x of
           Some e \<Rightarrow> Some (acc, Some e)
         | None \<Rightarrow>
             (case io_err x of
                Some e \<Rightarrow> if e = EINTR then writeFileBatch script remaining acc else Some (acc, Some e)
              | None \<Rightarrow>
                  (let vs = iovecs remaining; count = writev_count x vs
                   in if count = 0 then Some (acc, Some ErrNoProgress)
                      else writeFileBatch script (advanceRecords remaining count)
                        \<lparr>wa_out = wa_out acc @ take count (concat vs), wa_written = wa_written acc + int count,
                         wa_shorts = (if count < length (concat vs) then wa_shorts acc + 1 else wa_shorts acc)\<rparr>)))"

subsection \<open>The file sink\<close>

definition SyncManual :: string where "SyncManual = ''MANUAL''"
definition SyncEveryBatch :: string where "SyncEveryBatch = ''EVERY_BATCH''"

record FileConfig =
  fc_Path :: string
  fc_MaxBytes :: int
  fc_SyncPolicy :: string
  fc_FilePermission :: nat
  fc_DirPermission :: nat

text \<open>An \<open>os.File\<close> that the sink still holds may be open or already closed.\<close>

datatype file_handle = Open | Closed

record FileSink =
  fs_config :: FileConfig
  fs_file :: "file_handle option"
  fs_size :: int
  fs_sequence :: u64
  fs_pending :: batchCursor
  fs_counters :: counters
  fs_closed_once :: bool
  fs_closeErr :: "sink_error option"
  fs_disk :: "bytes option"
  fs_archives :: "bytes list"

text \<open>What the calls of one \<open>open\<close> and one \<open>rotate\<close> answer; \<open>None\<close> is success.\<close>

record rotate_env =
  re_sync :: "sink_error option"
  re_close :: "sink_error option"
  re_rename :: "sink_error option"
  re_open :: "sink_error option"
  re_stat :: "sink_error option"

definition file_sync :: "sink_error option \<Rightarrow> FileSink \<Rightarrow> sink_error option" where
  "file_sync answer s = (if fs_file s = Some Closed then Some ErrFileClosed else answer)"

definition file_close :: "sink_error option \<Rightarrow> FileSink \<Rightarrow> FileSink \<times> sink_error option" where
  "file_close answer s = (if fs_file s = Some Closed then (s, Some ErrFileClosed)
     else (s\<lparr>fs_file := Some Closed\<rparr>, answer))"

definition fs_open :: "rotate_env \<Rightarrow> FileSink \<Rightarrow> FileSink \<times> sink_error option" where
  "fs_open re s =
     (case re_open re of
        Some e \<Rightarrow> (s, Some e)
      | None \<Rightarrow>
          (let content = (case fs_disk s of None \<Rightarrow> [] | Some d \<Rightarrow> d); s1 = s\<lparr>fs_disk := Some content\<rparr>
           in case re_stat re of
                Some e \<Rightarrow> (s1, Some e)
              | None \<Rightarrow> (s1\<lparr>fs_file := Some Open, fs_size := int (length content)\<rparr>, None)))"

definition NewFile :: "FileConfig \<Rightarrow> bytes option \<Rightarrow> sink_error option \<Rightarrow> rotate_env \<Rightarrow> (sink_error, FileSink) result" where
  "NewFile config0 existing mkdirErr re =
     (if fc_Path config0 = [] then Inl ErrPathRequired
      else if fc_MaxBytes config0 < 0 then Inl ErrNegativeMaxBytes
      else let c1 = (if fc_SyncPolicy config0 = [] then config0\<lparr>fc_SyncPolicy := SyncManual\<rparr> else config0)
      in if fc_SyncPolicy c1 \<noteq> SyncManual \<and> fc_SyncPolicy c1 \<noteq> SyncEveryBatch
           then Inl (ErrUnknownSyncPolicy (fc_SyncPolicy c1))
      else let c2 = (if fc_FilePermission c1 = 0 then c1\<lparr>fc_FilePermission := 416\<rparr> else c1);
               c = (if fc_DirPermission c2 = 0 then c2\<lparr>fc_DirPermission := 488\<rparr> else c2)
      in case mkdirErr of Some e \<Rightarrow> Inl e
         | None \<Rightarrow>
             (case fs_open re \<lparr>fs_config = c, fs_file = None, fs_size = 0, fs_sequence = 0,
                 fs_pending = idle_cursor, fs_counters = zero_counters, fs_closed_once = False,
                 fs_closeErr = None, fs_disk = existing, fs_archives = []\<rparr> of
                (s, Some e) \<Rightarrow> Inl e
              | (s, None) \<Rightarrow> Inr s))"

definition shouldRotate :: "FileSink \<Rightarrow> nat \<Rightarrow> bool" where
  "shouldRotate s nextRecord \<longleftrightarrow>
     fc_MaxBytes (fs_config s) > 0 \<and> fs_size s > 0 \<and> fs_size s + int nextRecord > fc_MaxBytes (fs_config s)"

text \<open>The rotated name carries the time and a sequence number, so archives never collide.\<close>

definition rotate_file :: "rotate_env \<Rightarrow> FileSink \<Rightarrow> FileSink \<times> sink_error option" where
  "rotate_file re s =
     (case file_sync (re_sync re) s of
        Some e \<Rightarrow> (s, Some e)
      | None \<Rightarrow>
          (case file_close (re_close re) s of
             (s1, Some e) \<Rightarrow> (s1, Some e)
           | (s1, None) \<Rightarrow>
               (let s2 = s1\<lparr>fs_sequence := fs_sequence s1 + 1\<rparr>
                in case re_rename re of
                     Some e \<Rightarrow> (s2, Some e)
                   | None \<Rightarrow>
                       (case fs_open re (s2\<lparr>fs_archives := fs_archives s2 @ (case fs_disk s2 of None \<Rightarrow> [] | Some d \<Rightarrow> [d]),
                                           fs_disk := None\<rparr>) of
                          (s3, Some e) \<Rightarrow> (s3, Some e)
                        | (s3, None) \<Rightarrow>
                            (s3\<lparr>fs_counters := (fs_counters s3)\<lparr>c_rotations := c_rotations (fs_counters s3) + 1\<rparr>\<rparr>, None)))))"

text \<open>How many further records join the first one in a chunk.\<close>

fun chunk_more :: "int \<Rightarrow> int \<Rightarrow> int \<Rightarrow> bytes list \<Rightarrow> nat" where
  "chunk_more maxb sz chunkBytes [] = 0"
| "chunk_more maxb sz chunkBytes (r # rs) =
     (if maxb > 0 \<and> sz + chunkBytes > 0 \<and> sz + chunkBytes + int (length r) > maxb then 0
      else Suc (chunk_more maxb sz (chunkBytes + int (length r)) rs))"

definition fs_fail :: "sink_error \<Rightarrow> FileSink \<Rightarrow> FileSink \<times> sink_error option" where
  "fs_fail e s = (s\<lparr>fs_counters := count_error (fs_counters s)\<rparr>, Some e)"

text \<open>A \<open>writev\<close> on a closed file fails with the bad-descriptor error.\<close>

definition file_script :: "FileSink \<Rightarrow> io_step list \<Rightarrow> io_step list" where
  "file_script s script =
     (if fs_file s = Some Closed then map (\<lambda>x. x\<lparr>io_err := Some (IOError 9)\<rparr>) script else script)"

text \<open>The write of one chunk, the accounting and the advance of the cursor.\<close>

definition write_chunk :: "io_step list \<Rightarrow> FileSink \<Rightarrow> (FileSink \<times> sink_error option) option" where
  "write_chunk script s =
     (let remaining = cursor_remaining (fs_pending s);
          n = Suc (chunk_more (fc_MaxBytes (fs_config s)) (fs_size s) (int (length (remaining ! 0))) (tl remaining))
      in case writeFileBatch (file_script s script) (take n remaining)
            \<lparr>wa_out = (case fs_disk s of None \<Rightarrow> [] | Some d \<Rightarrow> d), wa_written = 0, wa_shorts = 0\<rparr> of
           None \<Rightarrow> None
         | Some (acc, err) \<Rightarrow>
             (let c = fs_counters s; (p, advanceErr) = cursor_advance (wa_written acc) (fs_pending s);
                  s1 = s\<lparr>fs_size := fs_size s + wa_written acc, fs_pending := p,
                    fs_counters := c\<lparr>c_bytes := c_bytes c + of_int (wa_written acc),
                                     c_shortWrites := c_shortWrites c + wa_shorts acc\<rparr>,
                    fs_disk := (case fs_disk s of None \<Rightarrow> None | Some d \<Rightarrow> Some (wa_out acc))\<rparr>
              in Some (s1, if advanceErr \<noteq> None then advanceErr else err)))"

record file_iter =
  fi_ctx :: "sink_error option"
  fi_rotate :: rotate_env
  fi_script :: "io_step list"

definition rotate_if_needed :: "rotate_env \<Rightarrow> FileSink \<Rightarrow> FileSink \<times> sink_error option" where
  "rotate_if_needed re s =
     (if bc_offset (fs_pending s) = 0 \<and> shouldRotate s (length (cursor_remaining (fs_pending s) ! 0))
      then rotate_file re s else (s, None))"

fun fs_loop :: "file_iter list \<Rightarrow> FileSink \<Rightarrow> (FileSink \<times> sink_error option) option" where
  "fs_loop [] s = (if cursor_done (fs_pending s) then Some (s, None) else None)"
| "fs_loop (it # its) s =
     (if cursor_done (fs_pending s) then Some (s, None)
      else case fi_ctx it of
        Some e \<Rightarrow> Some (fs_fail e s)
      | None \<Rightarrow>
          (case rotate_if_needed (fi_rotate it) s of
             (s1, Some e) \<Rightarrow> Some (fs_fail e s1)
           | (s1, None) \<Rightarrow>
               (case write_chunk (fi_script it) s1 of
                  None \<Rightarrow> None
                | Some (s2, Some e) \<Rightarrow> Some (fs_fail e s2)
                | Some (s2, None) \<Rightarrow> fs_loop its s2)))"

record file_env =
  fe_iters :: "file_iter list"
  fe_syncCtx :: "sink_error option"
  fe_sync :: "sink_error option"
  fe_nanos :: u64

text \<open>After the loop: the sync of the \<open>EVERY_BATCH\<close> policy, the counters and the reset.\<close>

definition fs_finish :: "file_env \<Rightarrow> bytes list \<Rightarrow> FileSink \<Rightarrow> FileSink \<times> sink_error option" where
  "fs_finish env records s =
     (let every = (fc_SyncPolicy (fs_config s) = SyncEveryBatch);
          syncErr = (case fe_syncCtx env of Some e \<Rightarrow> Some e | None \<Rightarrow> file_sync (fe_sync env) s)
      in if every \<and> syncErr \<noteq> None then fs_fail (the syncErr) s
         else let c = fs_counters s;
                  c1 = (if every then c\<lparr>c_flushes := c_flushes c + 1\<rparr> else c)
              in (s\<lparr>fs_counters := c1\<lparr>c_batches := c_batches c1 + 1, c_records := c_records c1 + of_nat (length records),
                        c_lastWriteNanos := fe_nanos env\<rparr>, fs_pending := cursor_reset (fs_pending s)\<rparr>, None))"

definition fs_WriteBatch :: "file_env \<Rightarrow> bytes list \<Rightarrow> FileSink \<Rightarrow> (FileSink \<times> sink_error option) option" where
  "fs_WriteBatch env records s =
     (if fs_file s = None \<or> c_closed (fs_counters s) then Some (s, Some ErrSinkClosed)
      else case cursor_begin records (fs_pending s) of
        (p, Some e) \<Rightarrow> Some (fs_fail e (s\<lparr>fs_pending := p\<rparr>))
      | (p, None) \<Rightarrow>
          (case fs_loop (fe_iters env) (s\<lparr>fs_pending := p\<rparr>) of
             None \<Rightarrow> None
           | Some (s1, Some e) \<Rightarrow> Some (s1, Some e)
           | Some (s1, None) \<Rightarrow> Some (fs_finish env records s1)))"

definition fs_Flush :: "sink_error option \<Rightarrow> sink_error option \<Rightarrow> FileSink \<Rightarrow> FileSink \<times> sink_error option" where
  "fs_Flush ctxErr syncAnswer s =
     (case ctxErr of Some e \<Rightarrow> (s, Some e)
      | None \<Rightarrow>
          if fs_file s = None then (s, None)
          else (case file_sync syncAnswer s of
             Some e \<Rightarrow> fs_fail e s
           | None \<Rightarrow> (s\<lparr>fs_counters := (fs_counters s)\<lparr>c_flushes := c_flushes (fs_counters s) + 1\<rparr>\<rparr>, None)))"

definition fs_Close :: "sink_error option \<Rightarrow> sink_error option \<Rightarrow> FileSink \<Rightarrow> FileSink \<times> sink_error option" where
  "fs_Close syncAnswer closeAnswer s =
     (if fs_closed_once s then (s, fs_closeErr s)
      else let s1 = s\<lparr>fs_closed_once := True, fs_counters := (fs_counters s)\<lparr>c_closed := True\<rparr>\<rparr>
      in if fs_file s1 = None then (s1, fs_closeErr s1)
      else let e1 = (case file_sync syncAnswer s1 of Some e \<Rightarrow> Some e | None \<Rightarrow> fs_closeErr s1);
               (s2, closeErr) = file_close closeAnswer s1;
               e2 = (if closeErr \<noteq> None \<and> e1 = None then closeErr else e1);
               s3 = s2\<lparr>fs_closeErr := e2, fs_file := None\<rparr>
           in (if e2 \<noteq> None then s3\<lparr>fs_counters := count_error (fs_counters s3)\<rparr> else s3, e2))"

definition fs_Stats :: "FileSink \<Rightarrow> sink_Stats" where
  "fs_Stats s = counters_snapshot (fs_counters s)"

definition fs_Capabilities :: Capabilities where
  "fs_Capabilities = \<lparr>cap_BatchMode = ''writev'', cap_CopyAvoiding = True, cap_DurableFlush = True,
     cap_Acknowledged = False\<rparr>"

subsection \<open>The vectored writer writes a prefix\<close>

lemma concat_advanceRecords: "concat (advanceRecords rs w) = drop w (concat rs)"
  by (induction rs w rule: advanceRecords.induct) simp_all

lemma concat_dropWhile_empty: "concat (dropWhile (\<lambda>r. r = []) rs) = concat rs"
  by (induction rs) simp_all

lemma concat_filter_nonempty: "concat (filter (\<lambda>r. r \<noteq> []) rs) = concat rs"
  by (induction rs) simp_all

lemma iovecs_prefix: "concat (iovecs rs) = take (length (concat (iovecs rs))) (concat rs)"
proof -
  have "concat rs = concat (take maxIOVectors rs) @ concat (drop maxIOVectors rs)"
    by (metis append_take_drop_id concat_append)
  then show ?thesis by (simp add: iovecs_def concat_filter_nonempty)
qed

lemma iovecs_length: "length (concat (iovecs rs)) \<le> length (concat rs)"
  by (metis iovecs_prefix length_take min.cobounded1)

lemma take_iovecs: "k \<le> length (concat (iovecs rs)) \<Longrightarrow> take k (concat (iovecs rs)) = take k (concat rs)"
  by (metis iovecs_prefix min.absorb1 take_take)

lemma writeFileBatch_spec:
  assumes "writeFileBatch script rs acc = Some (acc', e)"
  shows "\<exists>m \<le> length (concat rs). wa_out acc' = wa_out acc @ take m (concat rs) \<and>
     wa_written acc' = wa_written acc + int m \<and> (e = None \<longrightarrow> m = length (concat rs))"
  using assms
proof (induction script rs acc rule: writeFileBatch.induct)
  case (1 records acc)
  then have "concat records = []"
    using concat_dropWhile_empty [of records] by (auto split: if_splits)
  then show ?case using 1 by (auto split: if_splits)
next
  case (2 x script records acc)
  let ?rem = "dropWhile (\<lambda>r. r = []) records"
  let ?vs = "iovecs ?rem"
  let ?k = "writev_count x ?vs"
  have eq: "concat ?rem = concat records" by (rule concat_dropWhile_empty)
  show ?case
  proof (cases "?rem = [] \<or> io_ctx x \<noteq> None")
    case True
    have "wa_out acc' = wa_out acc \<and> wa_written acc' = wa_written acc \<and> (e = None \<longrightarrow> concat records = [])"
    proof (cases "?rem = []")
      case True
      then show ?thesis using 2(3) eq by (simp add: Let_def del: dropWhile_eq_Nil_conv)
    next
      case False
      then obtain y where "io_ctx x = Some y" using True by blast
      then have "(acc', e) = (acc, Some y)" using 2(3) False by (simp add: Let_def del: dropWhile_eq_Nil_conv)
      then show ?thesis by simp
    qed
    then show ?thesis by (intro exI [of _ 0]) simp
  next
    case False
    show ?thesis
    proof (cases "io_err x")
      case (Some y)
      show ?thesis
      proof (cases "y = EINTR")
        case True
        then show ?thesis using 2(2) [of ?rem] 2(3) False Some True by (simp add: Let_def eq del: dropWhile_eq_Nil_conv)
      next
        case diff: False
        have "(acc', e) = (acc, Some y)" using 2(3) False Some diff by (simp add: Let_def del: dropWhile_eq_Nil_conv)
        then show ?thesis by (intro exI [of _ 0]) simp
      qed
    next
      case None
      show ?thesis
      proof (cases "?k = 0")
        case True
        have "(acc', e) = (acc, Some ErrNoProgress)" using 2(3) False None True by (simp add: Let_def del: dropWhile_eq_Nil_conv)
        then show ?thesis by (intro exI [of _ 0]) simp
      next
        case pos: False
        define acc1 where "acc1 = \<lparr>wa_out = wa_out acc @ take ?k (concat ?vs), wa_written = wa_written acc + int ?k,
           wa_shorts = (if ?k < length (concat ?vs) then wa_shorts acc + 1 else wa_shorts acc)\<rparr>"
        have kv: "?k \<le> length (concat ?vs)" by (simp add: writev_count_def)
        then have k: "?k \<le> length (concat records)" using iovecs_length [of ?rem] eq by simp
        have "writeFileBatch script (advanceRecords ?rem ?k) acc1 = Some (acc', e)"
          using 2(3) False None pos by (simp add: Let_def acc1_def del: dropWhile_eq_Nil_conv)
        then have "\<exists>m \<le> length (concat (advanceRecords ?rem ?k)).
            wa_out acc' = wa_out acc1 @ take m (concat (advanceRecords ?rem ?k)) \<and>
            wa_written acc' = wa_written acc1 + int m \<and> (e = None \<longrightarrow> m = length (concat (advanceRecords ?rem ?k)))"
          using 2(1) [of ?rem ?vs ?k] False None pos by (simp add: acc1_def del: dropWhile_eq_Nil_conv)
        then obtain m where m: "m \<le> length (concat records) - ?k" "wa_out acc' = wa_out acc1 @ take m (drop ?k (concat records))"
            "wa_written acc' = wa_written acc1 + int m" "e = None \<longrightarrow> m = length (concat records) - ?k"
          unfolding concat_advanceRecords eq by auto
        have "wa_out acc' = wa_out acc @ take (?k + m) (concat records)"
          using take_iovecs [OF kv] by (simp add: m(2) acc1_def take_add eq)
        then show ?thesis using m k by (intro exI [of _ "?k + m"]) (auto simp: acc1_def)
      qed
    qed
  qed
qed

subsection \<open>The contract of the file sink\<close>

definition fs_total :: "FileSink \<Rightarrow> bytes" where
  "fs_total s = concat (fs_archives s) @ (case fs_disk s of None \<Rightarrow> [] | Some d \<Rightarrow> d)"

definition fs_pend :: "FileSink \<Rightarrow> (bytes list \<times> nat) option" where
  "fs_pend s = cursor_pend (fs_pending s)"

text \<open>An open handle is a handle on the file at the path, and its size is tracked.\<close>

definition handle_ok :: "FileSink \<Rightarrow> bool" where
  "handle_ok s \<longleftrightarrow> (fs_file s = Some Open \<longrightarrow> (\<exists>d. fs_disk s = Some d \<and> fs_size s = int (length d)))"

definition fs_ok :: "FileSink \<Rightarrow> bool" where
  "fs_ok s \<longleftrightarrow> cursor_inv (fs_pending s) \<and> handle_ok s"

lemma rotate_file_spec:
  assumes "handle_ok s" "fs_file s \<noteq> None" "rotate_file re s = (s', r)"
  shows "handle_ok s'" "fs_total s' = fs_total s" "fs_pending s' = fs_pending s" "fs_config s' = fs_config s"
    "fs_file s' \<noteq> None" "r = None \<Longrightarrow> fs_file s' = Some Open \<and> fs_size s' = 0"
    "r \<noteq> None \<Longrightarrow> fs_file s' = Some Closed \<or> s' = s" "c_closed (fs_counters s') = c_closed (fs_counters s)"
proof -
  obtain h where h: "fs_file s = Some h" using assms(2) by blast
  have "handle_ok s' \<and> fs_total s' = fs_total s \<and> fs_pending s' = fs_pending s \<and> fs_config s' = fs_config s \<and>
      fs_file s' \<noteq> None \<and> (r = None \<longrightarrow> fs_file s' = Some Open \<and> fs_size s' = 0) \<and>
      (r \<noteq> None \<longrightarrow> fs_file s' = Some Closed \<or> s' = s) \<and> c_closed (fs_counters s') = c_closed (fs_counters s)"
    using assms(1,3) h
    by (cases h) (auto simp: rotate_file_def file_sync_def file_close_def fs_open_def handle_ok_def fs_total_def Let_def
        split: option.splits)
  then show "handle_ok s'" "fs_total s' = fs_total s" "fs_pending s' = fs_pending s" "fs_config s' = fs_config s"
    "fs_file s' \<noteq> None" "r = None \<Longrightarrow> fs_file s' = Some Open \<and> fs_size s' = 0"
    "r \<noteq> None \<Longrightarrow> fs_file s' = Some Closed \<or> s' = s" "c_closed (fs_counters s') = c_closed (fs_counters s)"
    by blast+
qed

lemma rotate_if_needed_spec:
  assumes "handle_ok s" "fs_file s \<noteq> None" "rotate_if_needed re s = (s', r)"
  shows "handle_ok s'" "fs_total s' = fs_total s" "fs_pending s' = fs_pending s" "fs_config s' = fs_config s"
    "fs_file s' \<noteq> None" "c_closed (fs_counters s') = c_closed (fs_counters s)"
  using assms rotate_file_spec [OF assms(1,2), of re s' r]
  by (auto simp: rotate_if_needed_def split: if_splits)

lemma concat_take_drop_prefix: "concat xs = concat (take n xs) @ concat (drop n xs)"
  by (metis append_take_drop_id concat_append)

lemma file_script_closed:
  assumes "fs_file s = Some Closed" "writeFileBatch (file_script s script) rs acc = Some (acc', e)"
  shows "acc' = acc"
proof -
  have "writeFileBatch (map (\<lambda>x. x\<lparr>io_err := Some (IOError 9)\<rparr>) script) rs acc = Some (acc', e)"
    using assms by (simp add: file_script_def)
  then show ?thesis by (cases script) (auto simp: Let_def split: if_splits option.splits)
qed

lemma write_chunk_spec:
  assumes ok: "handle_ok s" "fs_file s \<noteq> None" and cur: "cursor_ok (fs_pending s)"
    and run: "write_chunk script s = Some (s', r)"
  defines "c \<equiv> fs_pending s"
  obtains m where "m \<le> length (drop (committed c) (concat (bc_records c)))"
    "fs_total s' = fs_total s @ take m (drop (committed c) (concat (bc_records c)))"
    "handle_ok s'" "cursor_ok (fs_pending s')" "settled (fs_pending s')" "committed (fs_pending s') = committed c + m"
    "bc_records (fs_pending s') = bc_records c" "bc_active (fs_pending s') = bc_active c"
    "fs_config s' = fs_config s" "fs_file s' = fs_file s" "fs_archives s' = fs_archives s"
    "c_closed (fs_counters s') = c_closed (fs_counters s)" "fs_disk s' = None \<longleftrightarrow> fs_disk s = None"
    "m \<le> length (concat (take (Suc (chunk_more (fc_MaxBytes (fs_config s)) (fs_size s)
        (int (length (cursor_remaining c ! 0))) (tl (cursor_remaining c)))) (cursor_remaining c)))"
proof -
  let ?rem = "cursor_remaining c"
  define n where "n = Suc (chunk_more (fc_MaxBytes (fs_config s)) (fs_size s) (int (length (?rem ! 0))) (tl ?rem))"
  define acc0 where "acc0 = \<lparr>wa_out = (case fs_disk s of None \<Rightarrow> [] | Some d \<Rightarrow> d), wa_written = 0, wa_shorts = 0\<rparr>"
  obtain acc err where w: "writeFileBatch (file_script s script) (take n ?rem) acc0 = Some (acc, err)"
    using run unfolding write_chunk_def c_def [symmetric] Let_def n_def [symmetric] acc0_def [symmetric]
    by (auto split: option.splits)
  have rest: "concat ?rem = drop (committed c) (concat (bc_records c))" using cursor_rest cur by (simp add: c_def)
  obtain m where m: "m \<le> length (concat (take n ?rem))" "wa_out acc = wa_out acc0 @ take m (concat (take n ?rem))"
      "wa_written acc = int m"
    using writeFileBatch_spec [OF w] by (auto simp: acc0_def)
  have pre: "take m (concat (take n ?rem)) = take m (concat ?rem)"
    using concat_take_drop_prefix [of ?rem n] m(1) by simp
  have ml: "m \<le> length (drop (committed c) (concat (bc_records c)))"
    using m(1) concat_take_drop_prefix [of ?rem n] unfolding rest [symmetric] by simp
  obtain p e2 where a: "cursor_advance (wa_written acc) c = (p, e2)" by fastforce
  have cle: "committed c \<le> length (concat (bc_records c))" using committed_le cur by (simp add: c_def)
  have "int (committed c) + wa_written acc \<le> int (length (concat (bc_records c)))"
    using ml cle m(3) by simp
  note ad = cursor_advance_spec [OF cur [folded c_def] _ this a]
  have s': "s' = s\<lparr>fs_size := fs_size s + wa_written acc, fs_pending := p,
                    fs_counters := (fs_counters s)\<lparr>c_bytes := c_bytes (fs_counters s) + of_int (wa_written acc),
                                     c_shortWrites := c_shortWrites (fs_counters s) + wa_shorts acc\<rparr>,
                    fs_disk := (case fs_disk s of None \<Rightarrow> None | Some d \<Rightarrow> Some (wa_out acc))\<rparr>"
    using run w a unfolding write_chunk_def c_def [symmetric] Let_def n_def [symmetric] acc0_def [symmetric] by simp
  have total: "fs_total s' = fs_total s @ take m (concat ?rem) \<and> handle_ok s'"
  proof (cases "fs_disk s")
    case None
    then have "fs_file s = Some Closed" using ok by (cases "fs_file s"; cases "the (fs_file s)") (auto simp: handle_ok_def)
    then have "acc = acc0" using file_script_closed w by blast
    then have "m = 0" using m(3) by (simp add: acc0_def)
    then show ?thesis using None \<open>fs_file s = Some Closed\<close> by (simp add: s' fs_total_def handle_ok_def)
  next
    case (Some d)
    then show ?thesis
      using m ok pre ml unfolding rest [symmetric] by (auto simp: s' fs_total_def handle_ok_def acc0_def)
  qed
  show thesis
    using ml total ad m(1,3) by (intro that [of m]) (simp_all add: rest s' n_def split: option.splits)
qed

definition file_running :: "bytes list \<Rightarrow> FileSink \<Rightarrow> bool" where
  "file_running rs s \<longleftrightarrow> handle_ok s \<and> fs_file s \<noteq> None \<and> cursor_ok (fs_pending s) \<and> settled (fs_pending s) \<and>
     bc_records (fs_pending s) = rs \<and> bc_active (fs_pending s)"

text \<open>How far a state is ahead of another within the batch \<open>rs\<close>.\<close>

definition ahead :: "bytes list \<Rightarrow> FileSink \<Rightarrow> FileSink \<Rightarrow> bool" where
  "ahead rs s s' \<longleftrightarrow> (\<exists>m \<le> length (drop (committed (fs_pending s)) (concat rs)).
     fs_total s' = fs_total s @ take m (drop (committed (fs_pending s)) (concat rs)) \<and>
     committed (fs_pending s') = committed (fs_pending s) + m) \<and> c_closed (fs_counters s') = c_closed (fs_counters s)"

lemma ahead_refl: "fs_total s' = fs_total s \<Longrightarrow> fs_pending s' = fs_pending s \<Longrightarrow>
    c_closed (fs_counters s') = c_closed (fs_counters s) \<Longrightarrow> ahead rs s s'"
  by (auto simp: ahead_def intro!: exI [of _ 0])

lemma ahead_trans:
  assumes "ahead rs s s1" "ahead rs s1 s2"
  shows "ahead rs s s2"
proof -
  let ?xs = "drop (committed (fs_pending s)) (concat rs)"
  obtain m where m: "m \<le> length ?xs" "fs_total s1 = fs_total s @ take m ?xs"
      "committed (fs_pending s1) = committed (fs_pending s) + m"
    using assms(1) by (auto simp: ahead_def)
  have dd: "drop (committed (fs_pending s1)) (concat rs) = drop m ?xs" by (simp add: m(3) add.commute)
  obtain k where k: "k \<le> length (drop m ?xs)" "fs_total s2 = fs_total s1 @ take k (drop m ?xs)"
      "committed (fs_pending s2) = committed (fs_pending s1) + k"
    using assms(2) unfolding ahead_def dd by blast
  have "fs_total s2 = fs_total s @ take (m + k) ?xs" unfolding k(2) m(2) take_add by simp
  moreover have "m + k \<le> length ?xs" "committed (fs_pending s2) = committed (fs_pending s) + (m + k)"
    using k(1,3) m(1,3) by simp_all
  ultimately show ?thesis using assms unfolding ahead_def by auto
qed

lemma ahead_fail: "ahead rs s (fst (fs_fail e s1)) = ahead rs s s1"
  by (simp add: ahead_def fs_fail_def fs_total_def count_error_def)

lemma running_fail: "file_running rs (fst (fs_fail e s)) = file_running rs s"
  by (simp add: file_running_def fs_fail_def handle_ok_def)

lemma fs_fail_eq: "fs_fail e s = (fst (fs_fail e s), Some e)"
  by (simp add: fs_fail_def)

lemma fs_loop_spec:
  assumes "file_running rs s" "fs_loop its s = Some (s', r)"
  shows "file_running rs s' \<and> ahead rs s s' \<and> (r = None \<longrightarrow> cursor_done (fs_pending s'))"
  using assms
proof (induction its arbitrary: s)
  case Nil
  then show ?case by (auto simp: ahead_refl split: if_splits)
next
  case (Cons it its)
  show ?case
  proof (cases "cursor_done (fs_pending s)")
    case True
    then show ?thesis using Cons.prems by (auto simp: ahead_refl)
  next
    case False
    show ?thesis
    proof (cases "fi_ctx it")
      case (Some e)
      then have "(s', r) = (fst (fs_fail e s), Some e)"
        using Cons.prems(2) False by (simp add: fs_fail_def)
      then show ?thesis using Cons.prems(1) by (simp add: running_fail ahead_fail ahead_refl)
    next
      case None
      obtain s1 r1 where rot: "rotate_if_needed (fi_rotate it) s = (s1, r1)" by fastforce
      note rs1 = rotate_if_needed_spec [OF _ _ rot]
      have run1: "file_running rs s1" "ahead rs s s1"
        using rs1 Cons.prems(1) by (simp_all add: file_running_def ahead_refl)
      show ?thesis
      proof (cases r1)
        case (Some e)
        then have "(s', r) = (fst (fs_fail e s1), Some e)"
          using Cons.prems(2) False None rot by (simp add: fs_fail_def)
        then show ?thesis using run1 by (simp add: running_fail ahead_fail)
      next
        case ok1: None
        obtain s2 r2 where wc: "write_chunk (fi_script it) s1 = Some (s2, r2)"
          using Cons.prems(2) False None rot ok1 by (auto split: option.splits)
        have run2: "file_running rs s2 \<and> ahead rs s1 s2"
          using run1(1) by (auto simp: file_running_def ahead_def intro: write_chunk_spec [OF _ _ _ wc])
        have a2: "ahead rs s s2" using ahead_trans run1(2) run2 by blast
        show ?thesis
        proof (cases r2)
          case (Some e)
          then have "(s', r) = (fst (fs_fail e s2), Some e)"
            using Cons.prems(2) False None rot ok1 wc by (simp add: fs_fail_def)
          then show ?thesis using run2 a2 by (simp add: running_fail ahead_fail)
        next
          case ok2: None
          have "fs_loop its s2 = Some (s', r)"
            using Cons.prems(2) False None rot ok1 wc ok2 by simp
          from Cons.IH [OF conjunct1 [OF run2] this] show ?thesis using ahead_trans [OF a2] by blast
        qed
      qed
    qed
  qed
qed

text \<open>One call on a file sink that accepts the batch.\<close>

lemma fs_WriteBatch_cases:
  assumes ok: "fs_ok s" and acc: "\<not> bc_active (fs_pending s) \<or> bc_records (fs_pending s) = rs"
    and run: "fs_WriteBatch env rs s = Some (s', r)"
  defines "n \<equiv> (if bc_active (fs_pending s) then committed (fs_pending s) else 0)"
  obtains "r = Some ErrSinkClosed" "s' = s"
  | m where "m \<le> length (drop n (concat rs))" "fs_total s' = fs_total s @ take m (drop n (concat rs))" "fs_ok s'" "r \<noteq> None"
      "bc_active (fs_pending s')" "bc_records (fs_pending s') = rs" "committed (fs_pending s') = n + m"
  | "fs_total s' = fs_total s @ drop n (concat rs)" "fs_ok s'" "r = None" "fs_pending s' = idle_cursor"
proof (cases "fs_file s = None \<or> c_closed (fs_counters s)")
  case True
  then show thesis using that(1) run by (simp add: fs_WriteBatch_def)
next
  case False
  have inv: "cursor_inv (fs_pending s)" and hok: "handle_ok s" using ok by (simp_all add: fs_ok_def)
  obtain p e1 where b: "cursor_begin rs (fs_pending s) = (p, e1)" by fastforce
  note bs = cursor_begin_spec(2) [OF inv b acc]
  let ?s0 = "s\<lparr>fs_pending := p\<rparr>"
  have run0: "file_running rs ?s0" "committed (fs_pending ?s0) = n" "fs_total ?s0 = fs_total s"
    using bs hok False by (auto simp: file_running_def handle_ok_def n_def fs_total_def)
  obtain s1 r1 where loop: "fs_loop (fe_iters env) ?s0 = Some (s1, r1)"
    using run False b bs by (auto simp: fs_WriteBatch_def split: option.splits)
  note ls = fs_loop_spec [OF run0(1) loop]
  obtain m where m: "m \<le> length (drop n (concat rs))" "fs_total s1 = fs_total s @ take m (drop n (concat rs))"
      "committed (fs_pending s1) = n + m"
    using ls run0 by (auto simp: ahead_def)
  have s1: "fs_ok s1" "bc_active (fs_pending s1)" "bc_records (fs_pending s1) = rs"
    "cursor_ok (fs_pending s1)" "settled (fs_pending s1)"
    using ls by (auto simp: fs_ok_def cursor_inv_def file_running_def)
  show thesis
  proof (cases r1)
    case (Some e)
    then have "s' = s1" "r = Some e" using run False b bs loop by (simp_all add: fs_WriteBatch_def)
    then show thesis using that(2) [OF m(1)] m s1 by simp
  next
    case None
    then have fin: "(s', r) = fs_finish env rs s1" using run False b bs loop by (simp add: fs_WriteBatch_def)
    have le: "n \<le> length (concat rs)" using committed_le [of p] bs by (simp add: n_def)
    have "committed (fs_pending s1) = length (concat rs)"
      using settled_done [OF s1(4,5)] ls None s1(3) by simp
    then have full: "m = length (drop n (concat rs))" using m(3) le by simp
    have "(r \<noteq> None \<longrightarrow> (\<exists>e. s' = fst (fs_fail e s1))) \<and> (r = None \<longrightarrow> fs_total s' = fs_total s1 \<and> fs_ok s' \<and> fs_pending s' = idle_cursor)"
      using fin s1(1) by (auto simp: fs_finish_def Let_def fs_fail_def fs_total_def fs_ok_def handle_ok_def cursor_reset_idle split: if_splits)
    then show thesis
      using that(2) [OF m(1)] that(3) m s1 full
      by (cases r) (auto simp: fs_fail_def fs_total_def fs_ok_def handle_ok_def)
  qed
qed

lemma fs_WriteBatch_refuse:
  assumes ok: "fs_ok s" and acc: "\<not> (\<not> bc_active (fs_pending s) \<or> bc_records (fs_pending s) = rs)"
    and run: "fs_WriteBatch env rs s = Some (s', r)"
  shows "r \<noteq> None \<and> fs_total s' = fs_total s \<and> fs_pending s' = fs_pending s \<and> fs_ok s'"
proof -
  have inv: "cursor_inv (fs_pending s)" using ok by (simp add: fs_ok_def)
  obtain p e1 where b: "cursor_begin rs (fs_pending s) = (p, e1)" by fastforce
  have "e1 = Some ErrBatchChanged \<and> p = fs_pending s" using cursor_begin_spec(1) [OF inv b] acc by blast
  then show ?thesis
    using run b ok by (auto simp: fs_WriteBatch_def fs_fail_def fs_ok_def handle_ok_def fs_total_def split: if_splits)
qed

lemma fs_pend_accepts:
  "accepts fs_pend s rs \<longleftrightarrow> (\<not> bc_active (fs_pending s) \<or> bc_records (fs_pending s) = rs)"
  "start_of fs_pend s = (if bc_active (fs_pending s) then committed (fs_pending s) else 0)"
  by (simp_all add: accepts_def start_of_def fs_pend_def cursor_pend_def)

interpretation fsink: resumable_sink fs_WriteBatch fs_total fs_pend fs_ok
proof unfold_locales
  fix s rs env s' r
  assume ok: "fs_ok s" and run: "fs_WriteBatch env rs s = Some (s', r)"
  show "fs_ok s'"
  proof (cases "\<not> bc_active (fs_pending s) \<or> bc_records (fs_pending s) = rs")
    case True
    show ?thesis by (rule fs_WriteBatch_cases [OF ok True run]) (use ok in simp_all)
  next
    case False
    show ?thesis using fs_WriteBatch_refuse [OF ok False run] by blast
  qed
  show "r \<noteq> None \<and> fs_total s' = fs_total s \<and> fs_pend s' = fs_pend s" if "\<not> accepts fs_pend s rs"
    using fs_WriteBatch_refuse [OF ok _ run] that
    unfolding fs_pend_accepts by (auto simp: fs_pend_def)
next
  fix s rs env s'
  assume ok: "fs_ok s" and acc: "accepts fs_pend s rs" and run: "fs_WriteBatch env rs s = Some (s', None)"
  have acc': "\<not> bc_active (fs_pending s) \<or> bc_records (fs_pending s) = rs"
    using acc unfolding fs_pend_accepts .
  show "fs_total s' = fs_total s @ drop (start_of fs_pend s) (concat rs) \<and> fs_pend s' = None"
    by (rule fs_WriteBatch_cases [OF ok acc' run])
      (auto simp: fs_pend_accepts fs_pend_def)
next
  fix s rs env s' x
  assume ok: "fs_ok s" and acc: "accepts fs_pend s rs" and run: "fs_WriteBatch env rs s = Some (s', Some x)"
  have acc': "\<not> bc_active (fs_pending s) \<or> bc_records (fs_pending s) = rs"
    using acc unfolding fs_pend_accepts .
  show "\<exists>m. fs_total s' = fs_total s @ take m (drop (start_of fs_pend s) (concat rs)) \<and>
      (fs_pend s' = Some (rs, start_of fs_pend s + m) \<or> m = 0 \<and> fs_pend s' = fs_pend s)"
    by (rule fs_WriteBatch_cases [OF ok acc' run])
      (auto simp: fs_pend_accepts, auto simp: fs_pend_def cursor_pend_def)
qed

definition file_batch_sink where
  "file_batch_sink = \<lparr>bs_WriteBatch = fs_WriteBatch, bs_Flush = (\<lambda>c. fs_Flush None (fst c)), bs_Close = (\<lambda>c. fs_Close (fst c) (snd c))\<rparr>"

lemma fs_quiet_simps [simp]:
  "fs_total (s\<lparr>fs_counters := k\<rparr>) = fs_total s" "fs_pend (s\<lparr>fs_counters := k\<rparr>) = fs_pend s"
  "fs_ok (s\<lparr>fs_counters := k\<rparr>) = fs_ok s"
  by (simp_all add: fs_total_def fs_pend_def fs_ok_def handle_ok_def)

interpretation fbatch: batch_sink fs_WriteBatch fs_total fs_pend fs_ok "\<lambda>c. fs_Flush None (fst c)" "\<lambda>c. fs_Close (fst c) (snd c)"
proof unfold_locales
  fix c :: "sink_error option \<times> sink_error option" and s s' r
  show "fs_total s' = fs_total s \<and> fs_pend s' = fs_pend s \<and> (fs_ok s \<longrightarrow> fs_ok s')" if "fs_Flush None (fst c) s = (s', r)"
    using that by (auto simp: fs_Flush_def fs_fail_def split: option.splits if_splits)
  show "fs_total s' = fs_total s \<and> fs_pend s' = fs_pend s \<and> (fs_ok s \<longrightarrow> fs_ok s')" if "fs_Close (fst c) (snd c) s = (s', r)"
    using that
    by (auto simp: fs_Close_def file_close_def Let_def fs_total_def fs_pend_def fs_ok_def handle_ok_def split: option.splits if_splits prod.splits)
qed

lemma NewFile_ok:
  assumes "NewFile config existing mkdirErr re = Inr s"
  shows "fs_ok s" "fs_pend s = None" "fs_total s = (case existing of None \<Rightarrow> [] | Some d \<Rightarrow> d)" "fs_file s = Some Open"
    "fs_archives s = []" "fs_pending s = idle_cursor" "fc_MaxBytes (fs_config s) = fc_MaxBytes config"
  using assms by (auto simp: NewFile_def Let_def fs_open_def fs_ok_def handle_ok_def fs_pend_def fs_total_def
      split: if_splits option.splits)

subsection \<open>No file grows past the limit\<close>

lemma chunk_more_fits:
  assumes "sz + ch \<le> B" "maxb \<le> B" "\<forall>r \<in> set rs. int (length r) \<le> B" "0 < maxb" "k \<le> chunk_more maxb sz ch rs"
  shows "sz + ch + int (length (concat (take k rs))) \<le> B"
  using assms
proof (induction rs arbitrary: ch k)
  case (Cons r rs)
  show ?case
  proof (cases k)
    case (Suc k')
    then have fit: "\<not> (sz + ch > 0 \<and> sz + ch + int (length r) > maxb)"
      and k': "k' \<le> chunk_more maxb sz (ch + int (length r)) rs"
      using Cons.prems(4,5) by (auto split: if_splits)
    have "int (length r) \<le> B" using Cons.prems(3) by simp
    then have "sz + (ch + int (length r)) \<le> B" using fit Cons.prems(2) by linarith
    from Cons.IH [OF this Cons.prems(2) _ Cons.prems(4) k'] Cons.prems(3) show ?thesis by (simp add: Suc)
  qed (use Cons.prems in simp)
qed simp

text \<open>The byte positions of the record boundaries.\<close>

definition bound_at :: "batchCursor \<Rightarrow> nat \<Rightarrow> nat" where
  "bound_at c k = length (concat (take k (bc_records c)))"

lemma bound_at_mono: "j \<le> k \<Longrightarrow> bound_at c j \<le> bound_at c k"
proof -
  assume "j \<le> k"
  then have "take k (bc_records c) = take j (bc_records c) @ take (k - j) (drop j (bc_records c))"
    by (metis le_add_diff_inverse take_add)
  then show ?thesis by (simp add: bound_at_def)
qed

lemma remaining_bound:
  assumes ok: "cursor_ok c" and k: "bc_record c < length (bc_records c)"
  shows "committed c + length (concat (take (Suc j) (cursor_remaining c))) = bound_at c (bc_record c + Suc j)"
    "cursor_remaining c \<noteq> []"
    "committed c + length (cursor_remaining c ! 0) = bound_at c (Suc (bc_record c))"
proof -
  let ?k = "bc_record c" and ?rs = "bc_records c"
  have d: "drop ?k ?rs = ?rs ! ?k # drop (Suc ?k) ?rs" using k by (simp add: Cons_nth_drop_Suc)
  have rem: "cursor_remaining c = drop (bc_offset c) (?rs ! ?k) # drop (Suc ?k) ?rs"
    using k by (simp add: cursor_remaining_def Let_def d)
  have off: "bc_offset c \<le> length (?rs ! ?k)" using ok k by (simp add: cursor_ok_def)
  have "take (?k + Suc j) ?rs = take ?k ?rs @ take (Suc j) (drop ?k ?rs)" by (rule take_add)
  then show "committed c + length (concat (take (Suc j) (cursor_remaining c))) = bound_at c (?k + Suc j)"
    using off by (simp add: rem d committed_def bound_at_def)
  show "cursor_remaining c \<noteq> []" by (simp add: rem)
  show "committed c + length (cursor_remaining c ! 0) = bound_at c (Suc ?k)"
    using off k by (simp add: rem committed_def bound_at_def concat_take_Suc)
qed

text \<open>After \<open>m\<close> bytes of the first \<open>n\<close> remaining records, a record begun lies among them.\<close>

lemma begun_record_in_chunk:
  assumes c: "cursor_ok c" "bc_record c < length (bc_records c)"
    and p: "cursor_ok p" "settled p" "bc_records p = bc_records c" "committed p = committed c + m" "bc_offset p > 0"
    and m: "m \<le> length (concat (take (Suc n) (cursor_remaining c)))"
  shows "\<exists>j \<le> n. m + length (cursor_remaining p ! 0) = length (concat (take (Suc j) (cursor_remaining c)))"
proof -
  have b: "bound_at p = bound_at c" by (simp add: bound_at_def p(3) fun_eq_iff)
  have kp: "bc_record p < length (bc_records p)" using p(1,5) by (auto simp: cursor_ok_def split: if_splits)
  note rc = remaining_bound [OF c] and rp = remaining_bound [OF p(1) kp, unfolded b]
  have lo: "bound_at c (bc_record p) < committed p" using p(5) by (simp add: committed_def bound_at_def p(3))
  have hi: "committed p < bound_at c (Suc (bc_record p))"
    using p(2) kp by (simp add: committed_def bound_at_def p(3) settled_def concat_take_Suc)
  have "committed p \<le> bound_at c (bc_record c + Suc n)" using rc(1) [of n] m p(4) by simp
  then have le1: "bc_record p < bc_record c + Suc n"
    using lo bound_at_mono [of "bc_record c + Suc n" "bc_record p" c] by (meson leI le_less_trans not_le order.strict_trans2)
  have "bound_at c (bc_record c) \<le> committed c" by (simp add: committed_def bound_at_def)
  then have le2: "bc_record c \<le> bc_record p"
    using hi p(4) bound_at_mono [of "Suc (bc_record p)" "bc_record c" c] by (metis (no_types, lifting) le_add1 not_less_eq_eq order.strict_trans2 order_trans not_less)
  let ?j = "bc_record p - bc_record c"
  have "m + length (cursor_remaining p ! 0) = length (concat (take (Suc ?j) (cursor_remaining c)))"
    using rc(1) [of ?j] rp(3) p(4) le2 by simp
  then show ?thesis using le1 by (intro exI [of _ ?j]) simp
qed

definition fits :: "int \<Rightarrow> FileSink \<Rightarrow> bool" where
  "fits B s \<longleftrightarrow> (\<forall>a \<in> set (fs_archives s). int (length a) \<le> B) \<and>
     (case fs_disk s of None \<Rightarrow> True | Some d \<Rightarrow> int (length d) \<le> B) \<and>
     (\<forall>r \<in> set (bc_records (fs_pending s)). int (length r) \<le> B) \<and>
     0 < fc_MaxBytes (fs_config s) \<and> fc_MaxBytes (fs_config s) \<le> B \<and>
     (fs_file s = Some Open \<and> bc_offset (fs_pending s) > 0 \<longrightarrow>
        fs_size s + int (length (cursor_remaining (fs_pending s) ! 0)) \<le> B)"

lemma rotate_file_fits:
  assumes "fits B s" "handle_ok s" "fs_file s \<noteq> None" "rotate_file re s = (s', r)" "bc_offset (fs_pending s) = 0"
  shows "fits B s'"
proof -
  obtain h where h: "fs_file s = Some h" using assms(3) by blast
  show ?thesis
    using assms(1,2,4,5) h
    by (cases h) (auto simp: rotate_file_def file_sync_def file_close_def fs_open_def handle_ok_def fits_def Let_def
        split: option.splits)
qed

lemma first_record_fits:
  assumes fit: "fits B s" and run: "file_running rs s" and nd: "\<not> cursor_done (fs_pending s)"
    and rot: "rotate_if_needed re s = (s', None)"
  shows "fits B s' \<and> (fs_file s' = Some Open \<longrightarrow> fs_size s' + int (length (cursor_remaining (fs_pending s') ! 0)) \<le> B)"
proof -
  have hok: "handle_ok s" "fs_file s \<noteq> None" and cok: "cursor_ok (fs_pending s)"
    using run by (simp_all add: file_running_def)
  have k: "bc_record (fs_pending s) < length (bc_records (fs_pending s))"
    using nd cok by (auto simp: cursor_ok_def cursor_done_def)
  have "bc_offset (fs_pending s) = 0 \<Longrightarrow> cursor_remaining (fs_pending s) ! 0 \<in> set (bc_records (fs_pending s))"
    using k by (simp add: cursor_remaining_def Let_def)
  then have first: "bc_offset (fs_pending s) = 0 \<Longrightarrow> int (length (cursor_remaining (fs_pending s) ! 0)) \<le> B"
    using fit by (simp add: fits_def)
  show ?thesis
  proof (cases "bc_offset (fs_pending s) = 0 \<and> shouldRotate s (length (cursor_remaining (fs_pending s) ! 0))")
    case True
    then have rf: "rotate_file re s = (s', None)" using rot by (simp add: rotate_if_needed_def)
    show ?thesis
      using rotate_file_spec [OF hok rf] rotate_file_fits [OF fit hok rf] first True by simp
  next
    case False
    then have "s' = s" using rot by (auto simp: rotate_if_needed_def split: if_splits)
    moreover have "fs_size s + int (length (cursor_remaining (fs_pending s) ! 0)) \<le> B"
      if "fs_file s = Some Open" "bc_offset (fs_pending s) = 0"
    proof -
      have "\<not> shouldRotate s (length (cursor_remaining (fs_pending s) ! 0))" using False that by simp
      then show ?thesis using first that fit hok by (auto simp: shouldRotate_def fits_def handle_ok_def)
    qed
    ultimately show ?thesis using fit by (auto simp: fits_def)
  qed
qed

lemma write_chunk_fits:
  assumes fit: "fits B s" and run: "file_running rs s" and nd: "\<not> cursor_done (fs_pending s)"
    and first: "fs_file s = Some Open \<Longrightarrow> fs_size s + int (length (cursor_remaining (fs_pending s) ! 0)) \<le> B"
    and wc: "write_chunk script s = Some (s', r)"
  shows "fits B s'"
proof -
  let ?c = "fs_pending s" and ?rem = "cursor_remaining (fs_pending s)"
  let ?n = "chunk_more (fc_MaxBytes (fs_config s)) (fs_size s) (int (length (?rem ! 0))) (tl ?rem)"
  have hok: "handle_ok s" "fs_file s \<noteq> None" and cok: "cursor_ok ?c" using run by (simp_all add: file_running_def)
  have k: "bc_record ?c < length (bc_records ?c)" using nd cok by (auto simp: cursor_ok_def cursor_done_def)
  obtain m where m: "fs_total s' = fs_total s @ take m (drop (committed ?c) (concat (bc_records ?c)))"
    "m \<le> length (drop (committed ?c) (concat (bc_records ?c)))"
    "handle_ok s'" "cursor_ok (fs_pending s')" "settled (fs_pending s')" "committed (fs_pending s') = committed ?c + m"
    "bc_records (fs_pending s') = bc_records ?c" "fs_config s' = fs_config s" "fs_file s' = fs_file s"
    "fs_archives s' = fs_archives s" "fs_disk s' = None \<longleftrightarrow> fs_disk s = None"
    "m \<le> length (concat (take (Suc ?n) ?rem))"
    by (rule write_chunk_spec [OF hok cok wc])
  have rem: "?rem = ?rem ! 0 # tl ?rem" using remaining_bound(2) [OF cok k] by (cases ?rem) simp_all
  have tl: "\<forall>r \<in> set (tl ?rem). int (length r) \<le> B"
  proof -
    have "set (tl ?rem) \<subseteq> set (bc_records ?c)"
      using k by (auto simp: cursor_remaining_def Let_def Cons_nth_drop_Suc [symmetric] dest: in_set_dropD)
    then show ?thesis using fit by (auto simp: fits_def)
  qed
  have chunk: "fs_size s + int (length (concat (take (Suc j) ?rem))) \<le> B" if "fs_file s = Some Open" "j \<le> ?n" for j
  proof -
    have "fs_size s + int (length (?rem ! 0)) + int (length (concat (take j (tl ?rem)))) \<le> B"
      using fit first that tl by (intro chunk_more_fits) (simp_all add: fits_def)
    moreover have "concat (take (Suc j) ?rem) = ?rem ! 0 @ concat (take j (tl ?rem))"
      by (subst rem) simp
    ultimately show ?thesis by simp
  qed
  show ?thesis
  proof (cases "fs_file s = Some Open")
    case True
    obtain d where d: "fs_disk s = Some d" "fs_size s = int (length d)" using hok True by (auto simp: handle_ok_def)
    obtain d' where d': "fs_disk s' = Some d'" "fs_size s' = int (length d')"
      using m(3,9) True by (auto simp: handle_ok_def)
    have "d' = d @ take m (drop (committed ?c) (concat (bc_records ?c)))"
      using m(1,10) d d' by (simp add: fs_total_def)
    then have size: "fs_size s' = fs_size s + int m" using m(2) d d' by simp
    have "int (length d') \<le> B" using chunk [OF True order_refl] m(12) size d' by simp
    moreover have "fs_size s' + int (length (cursor_remaining (fs_pending s') ! 0)) \<le> B" if off: "bc_offset (fs_pending s') > 0"
    proof -
      obtain j where "j \<le> ?n" "m + length (cursor_remaining (fs_pending s') ! 0) = length (concat (take (Suc j) ?rem))"
        using begun_record_in_chunk [OF cok k m(4,5,7,6) off m(12)] by blast
      then show ?thesis using chunk [OF True, of j] size by simp
    qed
    ultimately show ?thesis using fit d' m(7,8,10) by (simp add: fits_def)
  next
    case False
    then have "fs_file s = Some Closed" using hok by (cases "fs_file s"; cases "the (fs_file s)") auto
    then have "fs_disk s' = fs_disk s"
      using wc file_script_closed by (auto simp: write_chunk_def Let_def split: option.splits prod.splits) fastforce+
    then show ?thesis using fit m(7,8,9,10) False by (simp add: fits_def)
  qed
qed

lemma fits_fail: "fits B (fst (fs_fail e s)) = fits B s"
  by (simp add: fits_def fs_fail_def)

lemma fs_loop_fits:
  assumes "fits B s" "file_running rs s" "fs_loop its s = Some (s', r)"
  shows "fits B s'"
  using assms
proof (induction its arbitrary: s)
  case (Cons it its)
  show ?case
  proof (cases "cursor_done (fs_pending s) \<or> fi_ctx it \<noteq> None")
    case True
    then have "fits B s' = fits B s" using Cons.prems(3) fits_fail [of B _ s] by (auto simp: fs_fail_def split: if_splits)
    then show ?thesis using Cons.prems(1) by simp
  next
    case False
    then have nd: "\<not> cursor_done (fs_pending s)" and ctx: "fi_ctx it = None" by auto
    have hok: "handle_ok s" "fs_file s \<noteq> None" using Cons.prems(2) by (simp_all add: file_running_def)
    obtain s1 r1 where rot: "rotate_if_needed (fi_rotate it) s = (s1, r1)" by fastforce
    have run1: "file_running rs s1"
      using rotate_if_needed_spec [OF hok rot] Cons.prems(2) by (simp add: file_running_def)
    show ?thesis
    proof (cases r1)
      case (Some e)
      have "fits B s1"
        using rot Cons.prems(1) rotate_file_fits [OF Cons.prems(1) hok] by (auto simp: rotate_if_needed_def split: if_splits)
      then show ?thesis using Cons.prems(3) nd ctx rot Some fits_fail [of B e s1] by (simp add: fs_fail_def)
    next
      case None
      note f1 = first_record_fits [OF Cons.prems(1,2) nd rot [unfolded None]]
      have nd1: "\<not> cursor_done (fs_pending s1)" using nd rotate_if_needed_spec(3) [OF hok rot] by simp
      obtain s2 r2 where wc: "write_chunk (fi_script it) s1 = Some (s2, r2)"
        using Cons.prems(3) nd ctx rot None by (auto split: option.splits)
      have f2: "fits B s2" using write_chunk_fits [OF _ run1 nd1 _ wc] f1 by blast
      have run2: "file_running rs s2"
        using run1 by (auto simp: file_running_def intro: write_chunk_spec [OF _ _ _ wc])
      show ?thesis
      proof (cases r2)
        case (Some e)
        then show ?thesis using Cons.prems(3) nd ctx rot None wc f2 fits_fail [of B e s2] by (simp add: fs_fail_def)
      next
        case ok2: None
        then have "fs_loop its s2 = Some (s', r)" using Cons.prems(3) nd ctx rot None wc by simp
        from Cons.IH [OF f2 run2 this] show ?thesis .
      qed
    qed
  qed
qed (auto split: if_splits)

lemma fs_WriteBatch_fits:
  assumes fit: "fits B s" and ok: "fs_ok s" and len: "\<forall>r \<in> set rs. int (length r) \<le> B"
    and run: "fs_WriteBatch env rs s = Some (s', r)"
  shows "fits B s'"
proof (cases "fs_file s = None \<or> c_closed (fs_counters s)")
  case True
  then show ?thesis using run fit by (auto simp: fs_WriteBatch_def)
next
  case False
  have inv: "cursor_inv (fs_pending s)" and hok: "handle_ok s" using ok by (simp_all add: fs_ok_def)
  obtain p e1 where b: "cursor_begin rs (fs_pending s) = (p, e1)" by fastforce
  show ?thesis
  proof (cases "bc_active (fs_pending s) \<and> bc_records (fs_pending s) \<noteq> rs")
    case True
    then have "e1 = Some ErrBatchChanged" "p = fs_pending s" using cursor_begin_spec(1) [OF inv b] by auto
    then show ?thesis using run fit b False fits_fail [of B _ s] by (auto simp: fs_WriteBatch_def fs_fail_def split: if_splits)
  next
    case acc: False
    then have bs: "e1 = None" "cursor_ok p" "settled p" "bc_active p" "bc_records p = rs"
        "committed p = (if bc_active (fs_pending s) then committed (fs_pending s) else 0)"
      using cursor_begin_spec(2) [OF inv b] by auto
    let ?s0 = "s\<lparr>fs_pending := p\<rparr>"
    have run0: "file_running rs ?s0"
      using bs hok False by (auto simp: file_running_def handle_ok_def)
    have pos: "bc_offset p > 0 \<longrightarrow> bc_active (fs_pending s) \<and> p = fs_pending s"
    proof (cases "bc_active (fs_pending s)")
      case True
      then have st: "settled (fs_pending s)" "bc_records (fs_pending s) = rs" using inv acc by (auto simp: cursor_inv_def)
      then have "cursor_skip (fs_pending s) = fs_pending s"
        by (subst cursor_skip.simps) (auto simp: settled_def)
      then have "cursor_advance 0 (fs_pending s) = (fs_pending s, None)"
        by (simp add: cursor_advance_def advance_loop.simps)
      then show ?thesis using b True st(2) by (auto simp: cursor_begin_def split: if_splits)
    next
      case idle: False
      then have "committed p = 0" using bs(6) by simp
      then show ?thesis by (simp add: committed_def)
    qed
    have fit0: "fits B ?s0" using fit len pos bs(5) by (auto simp: fits_def)
    obtain s1 r1 where loop: "fs_loop (fe_iters env) ?s0 = Some (s1, r1)"
      using run False b bs by (auto simp: fs_WriteBatch_def split: option.splits)
    have fit1: "fits B s1" using fs_loop_fits [OF fit0 run0 loop] .
    show ?thesis
    proof (cases r1)
      case (Some e)
      then show ?thesis using run False b bs loop fit1 by (simp add: fs_WriteBatch_def)
    next
      case None
      have "fits B (fst (fs_finish env rs s1))"
        using fit1 by (auto simp: fs_finish_def Let_def fs_fail_def fits_def cursor_reset_def)
      then show ?thesis using None run False b bs loop by (cases "fs_finish env rs s1") (simp add: fs_WriteBatch_def)
    qed
  qed
qed

text \<open>A sequence of calls with any batches; a call that has not returned ends it.\<close>

fun run_file :: "(file_env \<times> bytes list) list \<Rightarrow> FileSink \<Rightarrow> FileSink option" where
  "run_file [] s = Some s"
| "run_file ((env, rs) # calls) s =
     (case fs_WriteBatch env rs s of None \<Rightarrow> None | Some (s', r) \<Rightarrow> run_file calls s')"

lemma run_file_fits:
  "fits B s \<Longrightarrow> fs_ok s \<Longrightarrow> \<forall>(env, rs) \<in> set calls. \<forall>r \<in> set rs. int (length r) \<le> B \<Longrightarrow>
     run_file calls s = Some s' \<Longrightarrow> fits B s' \<and> fs_ok s'"
proof (induction calls arbitrary: s)
  case (Cons x calls)
  obtain env rs where x: "x = (env, rs)" by fastforce
  obtain s1 r where w: "fs_WriteBatch env rs s = Some (s1, r)" "run_file calls s1 = Some s'"
    using Cons.prems(4) x by (auto split: option.splits)
  have "fits B s1" "fs_ok s1"
    using fs_WriteBatch_fits [OF Cons.prems(1,2) _ w(1)] Cons.prems(3) fsink.keeps [OF Cons.prems(2) w(1)] x by auto
  then show ?case using Cons.IH [OF _ _ _ w(2)] Cons.prems(3) by simp
qed auto

subsection \<open>Properties\<close>

text \<open>
  C18. Exactly once across rotations: batches given to a new file sink one after the other, each
  retried until it succeeds, appear in the rotated files followed by the current file behind what
  the file held before, in order, each byte once, whatever writes, syncs and rotations failed.
\<close>

theorem file_sink_exactly_once:
  assumes "NewFile config existing mkdirErr re = Inr s0" "deliver_all fs_WriteBatch xs s0 = Some (s, True)"
  shows "concat (fs_archives s) @ (case fs_disk s of None \<Rightarrow> [] | Some d \<Rightarrow> d) =
     (case existing of None \<Rightarrow> [] | Some d \<Rightarrow> d) @ concat (map (\<lambda>(envs, batch). concat batch) xs)"
  using fsink.deliver_all_exact [OF NewFile_ok(1,2) [OF assms(1)] assms(2)] NewFile_ok(3) [OF assms(1)]
  by (simp add: fs_total_def)

text \<open>
  C19. The rotation limit holds: with a positive limit, no file that a sequence of calls leaves
  behind, rotated or current, is longer than the limit or the longest single record, whichever is
  larger, also after partial writes and failed rotations.
\<close>

theorem file_rotation_bound:
  assumes new: "NewFile config existing mkdirErr re = Inr s0" and pos: "0 < fc_MaxBytes config"
    and old: "int (length (case existing of None \<Rightarrow> [] | Some d \<Rightarrow> d)) \<le> B" and B: "fc_MaxBytes config \<le> B"
    and len: "\<forall>(env, batch) \<in> set calls. \<forall>r \<in> set batch. int (length r) \<le> B"
    and run: "run_file calls s0 = Some s"
  shows "(\<forall>a \<in> set (fs_archives s). int (length a) \<le> B) \<and> (\<forall>d. fs_disk s = Some d \<longrightarrow> int (length d) \<le> B)"
proof -
  have "fits B s0"
    using NewFile_ok(3-7) [OF new] old pos B by (simp add: fits_def fs_total_def idle_cursor_def split: option.splits)
  then have "fits B s" using run_file_fits [OF _ NewFile_ok(1) [OF new] len run] by blast
  then show ?thesis by (auto simp: fits_def)
qed

text \<open>A batch of which something is left to write never succeeds on a closed handle.\<close>

lemma write_chunk_closed:
  assumes run: "file_running rs s" and cl: "fs_file s = Some Closed" and nd: "\<not> cursor_done (fs_pending s)"
    and wc: "write_chunk script s = Some (s', r)"
  shows "r \<noteq> None \<and> fs_file s' = Some Closed \<and> fs_total s' = fs_total s"
proof -
  let ?c = "fs_pending s" and ?rem = "cursor_remaining (fs_pending s)"
  have cok: "cursor_ok ?c" "settled ?c" using run by (simp_all add: file_running_def)
  have k: "bc_record ?c < length (bc_records ?c)" using nd cok by (auto simp: cursor_ok_def cursor_done_def)
  have "?rem ! 0 \<noteq> []"
    using remaining_bound(3) [OF cok(1) k] cok(2) k by (auto simp: settled_def committed_def bound_at_def concat_take_Suc)
  then have ne: "concat (take (Suc n) ?rem) \<noteq> []" for n
    using remaining_bound(2) [OF cok(1) k] by (cases ?rem) auto
  let ?n = "Suc (chunk_more (fc_MaxBytes (fs_config s)) (fs_size s) (int (length (?rem ! 0))) (tl ?rem))"
  let ?acc = "\<lparr>wa_out = (case fs_disk s of None \<Rightarrow> [] | Some d \<Rightarrow> d), wa_written = 0, wa_shorts = 0\<rparr>"
  obtain acc err where w: "writeFileBatch (file_script s script) (take ?n ?rem) ?acc = Some (acc, err)"
    using wc by (auto simp: write_chunk_def Let_def split: option.splits)
  have same: "acc = ?acc" using file_script_closed [OF cl w] .
  then have "err \<noteq> None" using writeFileBatch_spec [OF w] ne by auto
  then show ?thesis
    using wc w same cl by (auto simp: write_chunk_def Let_def fs_total_def split: option.splits prod.splits if_splits)
qed

lemma closed_loop_fails:
  assumes run: "file_running rs s" and cl: "fs_file s = Some Closed" and nd: "\<not> cursor_done (fs_pending s)"
    and loop: "fs_loop its s = Some (s', r)"
  shows "r \<noteq> None \<and> fs_file s' = Some Closed \<and> fs_total s' = fs_total s"
proof -
  obtain it its' where its: "its = it # its'" using loop nd by (cases its) auto
  show ?thesis
  proof (cases "fi_ctx it")
    case (Some e)
    then have "(s', r) = fs_fail e s" using loop nd its by simp
    then show ?thesis using cl by (simp add: fs_fail_def fs_total_def)
  next
    case None
    obtain s1 r1 where rot: "rotate_if_needed (fi_rotate it) s = (s1, r1)" by fastforce
    have s1: "s1 = s" using rot cl
      by (auto simp: rotate_if_needed_def rotate_file_def file_sync_def split: if_splits)
    show ?thesis
    proof (cases r1)
      case (Some e)
      then have "(s', r) = fs_fail e s" using loop nd its None rot s1 by simp
      then show ?thesis using cl by (simp add: fs_fail_def fs_total_def)
    next
      case ok1: None
      obtain s2 r2 where wc: "write_chunk (fi_script it) s = Some (s2, r2)"
        using loop nd its None rot ok1 s1 by (auto split: option.splits)
      have "r2 \<noteq> None \<and> fs_file s2 = Some Closed \<and> fs_total s2 = fs_total s"
        using write_chunk_closed [OF run cl nd wc] .
      then show ?thesis
        using loop nd its None rot ok1 s1 wc by (auto simp: fs_fail_def fs_total_def)
    qed
  qed
qed

text \<open>A batch of which something is left to write never succeeds on a closed handle.\<close>

lemma closed_handle_stuck:
  assumes ok: "fs_ok s" and cl: "fs_file s = Some Closed" and acc: "accepts fs_pend s rs"
    and left: "start_of fs_pend s < length (concat rs)" and run: "fs_WriteBatch env rs s = Some (s', r)"
  shows "r \<noteq> None \<and> fs_file s' = Some Closed \<and> accepts fs_pend s' rs \<and> start_of fs_pend s' < length (concat rs) \<and>
     fs_total s' = fs_total s \<and> fs_ok s'"
proof (cases "c_closed (fs_counters s)")
  case True
  then show ?thesis using assms by (auto simp: fs_WriteBatch_def)
next
  case False
  have inv: "cursor_inv (fs_pending s)" and hok: "handle_ok s" using ok by (simp_all add: fs_ok_def)
  obtain p e1 where b: "cursor_begin rs (fs_pending s) = (p, e1)" by fastforce
  note bs = cursor_begin_spec(2) [OF inv b acc [unfolded fs_pend_accepts]]
  let ?s0 = "s\<lparr>fs_pending := p\<rparr>"
  have run0: "file_running rs ?s0" "fs_total ?s0 = fs_total s" "fs_file ?s0 = Some Closed"
    using bs hok cl by (auto simp: file_running_def handle_ok_def fs_total_def)
  have nd: "\<not> cursor_done (fs_pending ?s0)"
    using settled_done [of p] bs left by (auto simp: fs_pend_accepts split: if_splits)
  obtain s1 r1 where loop: "fs_loop (fe_iters env) ?s0 = Some (s1, r1)"
    using run False b bs cl by (auto simp: fs_WriteBatch_def split: option.splits)
  have l: "r1 \<noteq> None \<and> fs_file s1 = Some Closed \<and> fs_total s1 = fs_total s"
    using closed_loop_fails [OF run0(1,3) nd loop] run0(2) by simp
  then have s': "s' = s1" "r = r1" using run False b bs loop cl by (auto simp: fs_WriteBatch_def)
  then obtain x where x: "r = Some x" using l by blast
  obtain m where m: "fs_total s' = fs_total s @ take m (drop (start_of fs_pend s) (concat rs))"
    "fs_pend s' = Some (rs, start_of fs_pend s + m) \<or> m = 0 \<and> fs_pend s' = fs_pend s"
    using fsink.partial [OF ok acc run [unfolded x]] by blast
  have "m = 0" using m(1) l s'(1) left by simp
  then have "accepts fs_pend s' rs" "start_of fs_pend s' = start_of fs_pend s"
    using m(2) acc by (auto simp: accepts_def start_of_def)
  then show ?thesis using l s' left fsink.keeps [OF ok run] by simp
qed

lemma closed_retry_stuck:
  "fs_ok s \<Longrightarrow> fs_file s = Some Closed \<Longrightarrow> accepts fs_pend s rs \<Longrightarrow> start_of fs_pend s < length (concat rs) \<Longrightarrow>
     retry_batch fs_WriteBatch envs rs s = Some (s', d) \<Longrightarrow> \<not> d \<and> fs_total s' = fs_total s"
proof (induction envs arbitrary: s)
  case (Cons env envs)
  obtain s1 r where w: "fs_WriteBatch env rs s = Some (s1, r)"
    using Cons.prems(5) by (cases "fs_WriteBatch env rs s") auto
  note st = closed_handle_stuck [OF Cons.prems(1-4) w]
  then have "retry_batch fs_WriteBatch envs rs s1 = Some (s', d)" using Cons.prems(5) w by auto
  then show ?case using Cons.IH [of s1] st by simp
qed simp

text \<open>
  C20. A failed rotation is permanent: once the close, the rename or the reopening of a rotation
  has failed, the sink keeps a closed file, and no number of retries of a batch with bytes left
  ever succeeds or writes a byte, whatever the system answers afterwards.
\<close>

theorem failed_rotation_is_permanent:
  assumes ok: "fs_ok s" "fs_file s = Some Open" and rot: "rotate_file re s = (s1, Some e)" and sync: "re_sync re = None"
    and batch: "accepts fs_pend s1 batch" "start_of fs_pend s1 < length (concat batch)"
    and retry: "retry_batch fs_WriteBatch envs batch s1 = Some (s2, d)"
  shows "fs_file s1 = Some Closed \<and> \<not> d \<and> fs_total s2 = fs_total s"
proof -
  have hok: "handle_ok s" "fs_file s \<noteq> None" using ok by (simp_all add: fs_ok_def)
  note r = rotate_file_spec [OF hok rot]
  have "fs_file s1 = Some Closed"
    using rot sync ok(2) by (auto simp: rotate_file_def file_sync_def file_close_def fs_open_def Let_def split: option.splits)
  moreover have "fs_ok s1" using r(1,3) ok(1) by (simp add: fs_ok_def)
  ultimately show ?thesis using closed_retry_stuck [OF _ _ batch retry] r(2) by simp
qed

subsection \<open>Concrete runs\<close>

text \<open>A limit of four bytes and two records of three: the second one goes to a new file.\<close>

definition demo_file_config :: FileConfig where
  "demo_file_config = \<lparr>fc_Path = ''log'', fc_MaxBytes = 4, fc_SyncPolicy = [], fc_FilePermission = 0,
     fc_DirPermission = 0\<rparr>"

definition all_well :: rotate_env where
  "all_well = \<lparr>re_sync = None, re_close = None, re_rename = None, re_open = None, re_stat = None\<rparr>"

definition demo_file :: FileSink where
  "demo_file = \<lparr>fs_config = demo_file_config\<lparr>fc_SyncPolicy := SyncManual, fc_FilePermission := 416, fc_DirPermission := 488\<rparr>,
     fs_file = Some Open, fs_size = 1, fs_sequence = 0, fs_pending = idle_cursor, fs_counters = zero_counters,
     fs_closed_once = False, fs_closeErr = None, fs_disk = Some [9], fs_archives = []\<rparr>"

lemma demo_file_new: "NewFile demo_file_config (Some [9]) None all_well = Inr demo_file"
  by (simp add: NewFile_def demo_file_config_def demo_file_def all_well_def fs_open_def SyncManual_def
      SyncEveryBatch_def Let_def)

text \<open>The first attempt writes one byte and fails; the second writes the rest.\<close>

definition demo_iter :: "io_step list \<Rightarrow> file_iter" where
  "demo_iter script = \<lparr>fi_ctx = None, fi_rotate = all_well, fi_script = script\<rparr>"

definition demo_file_envs :: "file_env list" where
  "demo_file_envs = map (\<lambda>its. \<lparr>fe_iters = its, fe_syncCtx = None, fe_sync = None, fe_nanos = 1\<rparr>)
     [[demo_iter [demo_step 1 None, demo_step 0 (Some (IOError 5))]],
      [demo_iter [demo_step 2 None], demo_iter [demo_step 3 None]]]"

definition demo_batch :: "bytes list" where "demo_batch = [[1, 2, 3], [4, 5, 6]]"

lemmas file_eval = fs_WriteBatch_def demo_file_def demo_file_config_def demo_file_envs_def demo_iter_def
  demo_batch_def all_well_def rotate_if_needed_def shouldRotate_def rotate_file_def file_sync_def
  file_close_def fs_open_def write_chunk_def file_script_def iovecs_def writev_count_def maxIOVectors_def
  fs_finish_def fs_fail_def Let_def SyncManual_def SyncEveryBatch_def

lemma demo_file_deliver:
  "deliver_all fs_WriteBatch [(demo_file_envs, demo_batch)] demo_file \<noteq> None \<and>
   snd (the (deliver_all fs_WriteBatch [(demo_file_envs, demo_batch)] demo_file)) \<and>
   fs_archives (fst (the (deliver_all fs_WriteBatch [(demo_file_envs, demo_batch)] demo_file))) = [[9, 1, 2, 3]]"
  by (simp add: file_eval sink_eval)

lemma file_sink_exactly_once_witness:
  "\<exists>s. deliver_all fs_WriteBatch [(demo_file_envs, demo_batch)] demo_file = Some (s, True) \<and>
     fs_archives s = [[9, 1, 2, 3]] \<and> fs_disk s = Some [4, 5, 6]"
proof -
  obtain s where s: "deliver_all fs_WriteBatch [(demo_file_envs, demo_batch)] demo_file = Some (s, True)"
      "fs_archives s = [[9, 1, 2, 3]]"
    using demo_file_deliver by (cases "deliver_all fs_WriteBatch [(demo_file_envs, demo_batch)] demo_file") auto
  then show ?thesis
    using file_sink_exactly_once [OF demo_file_new s(1)] by (cases "fs_disk s") (auto simp: demo_batch_def)
qed

lemma file_rotation_bound_witness:
  "\<exists>s. run_file (map (\<lambda>env. (env, demo_batch)) demo_file_envs) demo_file = Some s \<and>
     (\<forall>a \<in> set (fs_archives s). length a \<le> 4)"
proof -
  obtain s where s: "run_file (map (\<lambda>env. (env, demo_batch)) demo_file_envs) demo_file = Some s"
    by (cases "run_file (map (\<lambda>env. (env, demo_batch)) demo_file_envs) demo_file") (simp_all add: file_eval sink_eval)
  have "\<forall>a \<in> set (fs_archives s). int (length a) \<le> 4"
    using file_rotation_bound [OF demo_file_new _ _ _ _ s, of 4] by (simp add: demo_file_config_def demo_batch_def)
  then show ?thesis using s by auto
qed

lemma failed_rotation_is_permanent_witness:
  "\<exists>s1 s2 d. rotate_file (all_well\<lparr>re_rename := Some (IOError 28)\<rparr>) demo_file = (s1, Some (IOError 28)) \<and>
     retry_batch fs_WriteBatch demo_file_envs demo_batch s1 = Some (s2, d) \<and> \<not> d \<and> fs_total s2 = [9]"
proof -
  define s1 where "s1 = fst (rotate_file (all_well\<lparr>re_rename := Some (IOError 28)\<rparr>) demo_file)"
  have rot: "rotate_file (all_well\<lparr>re_rename := Some (IOError 28)\<rparr>) demo_file = (s1, Some (IOError 28))"
    by (simp add: s1_def file_eval)
  have ok: "fs_ok demo_file" "fs_file demo_file = Some Open" "fs_total demo_file = [9]"
    using NewFile_ok [OF demo_file_new] by simp_all
  have pend: "fs_pend s1 = None" by (simp add: s1_def file_eval fs_pend_def)
  have "retry_batch fs_WriteBatch demo_file_envs demo_batch s1 \<noteq> None"
    by (simp add: s1_def file_eval sink_eval)
  then obtain s2 d where r: "retry_batch fs_WriteBatch demo_file_envs demo_batch s1 = Some (s2, d)" by auto
  show ?thesis
    using failed_rotation_is_permanent [OF ok(1,2) rot _ _ _ r] rot r pend ok(3)
    by (auto simp: all_well_def accepts_def start_of_def demo_batch_def)
qed

end
