(* ===== verification/Endian.thy ===== *)
theory Endian
  imports Prelude
begin

text \<open>
  The big-endian encoding of machine words that the wire format uses (\<open>encoding/binary\<close>), with
  both round trips.
\<close>

fun be_put :: "nat \<Rightarrow> 'a::len word \<Rightarrow> bytes" where
  "be_put 0 v = []"
| "be_put (Suc n) v = ucast (drop_bit (8 * n) v) # be_put n v"

definition be_step :: "'a::len word \<Rightarrow> u8 \<Rightarrow> 'a word" where
  "be_step acc b = push_bit 8 acc OR ucast b"

definition be_get :: "bytes \<Rightarrow> 'a::len word" where
  "be_get bs = foldl be_step 0 bs"

definition PutUint16 :: "u16 \<Rightarrow> bytes" where "PutUint16 v = be_put 2 v"
definition PutUint32 :: "u32 \<Rightarrow> bytes" where "PutUint32 v = be_put 4 v"
definition PutUint64 :: "u64 \<Rightarrow> bytes" where "PutUint64 v = be_put 8 v"
definition Uint16 :: "bytes \<Rightarrow> u16" where "Uint16 bs = be_get bs"
definition Uint32 :: "bytes \<Rightarrow> u32" where "Uint32 bs = be_get bs"
definition Uint64 :: "bytes \<Rightarrow> u64" where "Uint64 bs = be_get bs"

lemma length_be_put [simp]: "length (be_put n v) = n"
  by (induction n) simp_all

lemma be_put_numeral:
  "be_put (numeral k) v = ucast (drop_bit (8 * pred_numeral k) v) # be_put (pred_numeral k) v"
  by (simp add: numeral_eq_Suc)

lemma foldl_be_put:
  fixes v acc :: "'a::len word"
  shows "foldl be_step acc (be_put n v) = push_bit (8 * n) acc OR take_bit (8 * n) v"
proof (induction n arbitrary: acc)
  case (Suc n)
  have "push_bit (8 * n) (be_step acc (ucast (drop_bit (8 * n) v))) OR take_bit (8 * n) v =
      push_bit (8 * Suc n) acc OR take_bit (8 * Suc n) v"
    by (rule bit_word_eqI) (auto simp: be_step_def bit_simps add.commute [of 8])
  then show ?case by (simp add: Suc.IH)
qed simp

lemma be_get_put: "LENGTH('a) \<le> 8 * n \<Longrightarrow> be_get (be_put n v) = (v :: 'a::len word)"
  by (simp add: be_get_def foldl_be_put take_bit_word_eq_self)

lemma foldl_be_step_shift:
  fixes acc :: "'a::len word"
  shows "\<exists>low. foldl be_step acc bs = push_bit (8 * length bs) acc OR take_bit (8 * length bs) low"
proof (induction bs arbitrary: acc)
  case Nil
  then show ?case by simp
next
  case (Cons b bs)
  obtain low where low: "foldl be_step (be_step acc b) bs =
      push_bit (8 * length bs) (be_step acc b) OR take_bit (8 * length bs) low"
    using Cons.IH by blast
  have "push_bit (8 * length bs) (be_step acc b) OR take_bit (8 * length bs) low =
      push_bit (8 * Suc (length bs)) acc OR
        take_bit (8 * Suc (length bs)) (push_bit (8 * length bs) (ucast b) OR take_bit (8 * length bs) low)"
    by (rule bit_word_eqI) (auto simp: be_step_def bit_simps add.commute [of 8] dest: bit_imp_le_length)
  then show ?case using low by (metis foldl_Cons length_Cons)
qed

lemma be_put_foldl:
  fixes acc :: "'a::len word"
  assumes "8 * length bs \<le> LENGTH('a)"
  shows "be_put (length bs) (foldl be_step acc bs) = bs"
  using assms
proof (induction bs arbitrary: acc)
  case (Cons b bs)
  obtain low where low: "foldl be_step (be_step acc b) bs =
      push_bit (8 * length bs) (be_step acc b) OR take_bit (8 * length bs) low"
    using foldl_be_step_shift by blast
  have "ucast (drop_bit (8 * length bs) (push_bit (8 * length bs) (be_step acc b) OR take_bit (8 * length bs) low)) = b"
    using Cons.prems by (intro bit_word_eqI) (auto simp: be_step_def bit_simps)
  then show ?case using Cons.IH [of "be_step acc b"] Cons.prems by (simp add: low)
qed simp

lemma be_put_get:
  "8 * length bs \<le> LENGTH('a) \<Longrightarrow> be_put (length bs) (be_get bs :: 'a::len word) = bs"
  by (simp add: be_get_def be_put_foldl)

lemma endian_length [simp]:
  "length (PutUint16 a) = 2" "length (PutUint32 b) = 4" "length (PutUint64 c) = 8"
  by (simp_all add: PutUint16_def PutUint32_def PutUint64_def)

lemma endian_get_put [simp]:
  "Uint16 (PutUint16 a) = a" "Uint32 (PutUint32 b) = b" "Uint64 (PutUint64 c) = c"
  by (simp_all add: PutUint16_def PutUint32_def PutUint64_def Uint16_def Uint32_def Uint64_def be_get_put)

lemma endian_put_get:
  "length bs = 2 \<Longrightarrow> PutUint16 (Uint16 bs) = bs" "length bs = 4 \<Longrightarrow> PutUint32 (Uint32 bs) = bs"
  "length bs = 8 \<Longrightarrow> PutUint64 (Uint64 bs) = bs"
  using be_put_get [of bs, where 'a = 16] be_put_get [of bs, where 'a = 32] be_put_get [of bs, where 'a = 64]
  by (simp_all add: PutUint16_def PutUint32_def PutUint64_def Uint16_def Uint32_def Uint64_def)

end
