(* ===== verification/Protocol.thy ===== *)
theory Protocol
  imports Endian Crc32
begin

text \<open>
  The wire protocol of \<^verbatim>\<open>internal/protocol/protocol.go\<close>: limits, batch frames and acknowledgement
  frames, their encoders, decoders and writers. A connection to read from is the bytes that will
  arrive and how the stream ends; the answers of a writer are a script.
\<close>

subsection \<open>Constants, errors and limits\<close>

datatype proto_error =
    ErrInvalidFrame | ErrTruncated | ProtoEOF | ErrWriterCount int | ErrProtoShortWrite | WriterError nat

definition Version :: u8 where "Version = 1"
definition BatchHeaderSize :: nat where "BatchHeaderSize = 48"
definition AckSize :: nat where "AckSize = 24"
definition batchMagic :: bytes where "batchMagic = [0x4D, 0x4C, 0x42, 0x4B]"
definition ackMagic :: bytes where "ackMagic = [0x4D, 0x4C, 0x41, 0x4B]"

type_synonym AckStatus = u8

definition StatusAccepted :: AckStatus where "StatusAccepted = 0"
definition StatusDuplicate :: AckStatus where "StatusDuplicate = 1"
definition StatusInvalid :: AckStatus where "StatusInvalid = 2"
definition StatusOverloaded :: AckStatus where "StatusOverloaded = 3"
definition StatusSinkError :: AckStatus where "StatusSinkError = 4"

definition AckStatus_Valid :: "AckStatus \<Rightarrow> bool" where
  "AckStatus_Valid s \<longleftrightarrow> s \<le> StatusSinkError"

record Limits =
  MaxRecords :: u32
  MaxPayload :: u32
  MaxEventBytes :: u32

definition DefaultLimits :: Limits where
  "DefaultLimits = \<lparr>MaxRecords = 1024, MaxPayload = 16777216, MaxEventBytes = 1048576\<rparr>"

definition Limits_Validate :: "Limits \<Rightarrow> proto_error option" where
  "Limits_Validate l =
     (if MaxRecords l = 0 \<or> MaxPayload l = 0 \<or> MaxEventBytes l = 0 then Some ErrInvalidFrame
      else if MaxRecords l > 65536 \<or> MaxPayload l > 67108864 \<or> MaxEventBytes l > 16777216 \<or>
              MaxEventBytes l > MaxPayload l then Some ErrInvalidFrame
      else None)"

record BatchHeader =
  bh_ClientID :: u64
  bh_BatchID :: u64
  bh_RecordCount :: u32
  bh_PayloadBytes :: u32
  bh_PayloadCRC32 :: u32
  bh_SentUnixNano :: u64

record Batch =
  b_Header :: BatchHeader
  b_Records :: "bytes list"
  b_payload :: bytes

record EncodedBatch =
  eb_Header :: bytes
  eb_Prefixes :: "bytes list"
  eb_Records :: "bytes list"

definition slice :: "nat \<Rightarrow> nat \<Rightarrow> bytes \<Rightarrow> bytes" where
  "slice i j bs = take (j - i) (drop i bs)"

definition EncodedBatch_ClientID :: "EncodedBatch \<Rightarrow> u64" where
  "EncodedBatch_ClientID b = Uint64 (slice 8 16 (eb_Header b))"

definition EncodedBatch_BatchID :: "EncodedBatch \<Rightarrow> u64" where
  "EncodedBatch_BatchID b = Uint64 (slice 16 24 (eb_Header b))"

subsection \<open>Encoding\<close>

text \<open>The loop of \<open>Matches\<close>: same lengths, and the running byte count and checksum.\<close>

fun matches_loop :: "bytes list \<Rightarrow> bytes list \<Rightarrow> u64 \<Rightarrow> u32 \<Rightarrow> (u64 \<times> u32) option" where
  "matches_loop [] olds payloadBytes hash = Some (payloadBytes, hash)"
| "matches_loop (r # rs) [] payloadBytes hash = None"
| "matches_loop (r # rs) (old # olds) payloadBytes hash =
     (if length r \<noteq> length old then None
      else matches_loop rs olds (payloadBytes + 4 + of_nat (length r))
             (crc_write (crc_write hash (PutUint32 (of_nat (length r)))) r))"

definition Matches :: "EncodedBatch option \<Rightarrow> bytes list \<Rightarrow> bool" where
  "Matches b records = (case b of None \<Rightarrow> False | Some eb \<Rightarrow>
     if length records \<noteq> length (eb_Records eb) then False
     else case matches_loop records (eb_Records eb) 0 crc_init of
        None \<Rightarrow> False
      | Some (payloadBytes, hash) \<Rightarrow>
          payloadBytes = ucast (Uint32 (slice 28 32 (eb_Header eb))) \<and>
          crc_sum hash = Uint32 (slice 32 36 (eb_Header eb)))"

fun encode_records :: "Limits \<Rightarrow> bytes list \<Rightarrow> u64 \<Rightarrow> u32 \<Rightarrow> (proto_error, bytes list \<times> u64 \<times> u32) result" where
  "encode_records l [] payloadBytes hash = Inr ([], payloadBytes, hash)"
| "encode_records l (r # rs) payloadBytes hash =
     (if length r = 0 \<or> (of_nat (length r) :: u64) > ucast (MaxEventBytes l) then Inl ErrInvalidFrame
      else let sum = payloadBytes + 4 + of_nat (length r)
      in if sum > ucast (MaxPayload l) then Inl ErrInvalidFrame
      else let prefix = PutUint32 (of_nat (length r))
      in case encode_records l rs sum (crc_write (crc_write hash prefix) r) of
           Inl e \<Rightarrow> Inl e
         | Inr (prefixes, n, h) \<Rightarrow> Inr (prefix # prefixes, n, h))"

definition encode_header :: "BatchHeader \<Rightarrow> bytes" where
  "encode_header h = batchMagic @ [Version, 0] @ PutUint16 (of_nat BatchHeaderSize) @
     PutUint64 (bh_ClientID h) @ PutUint64 (bh_BatchID h) @ PutUint32 (bh_RecordCount h) @
     PutUint32 (bh_PayloadBytes h) @ PutUint32 (bh_PayloadCRC32 h) @ PutUint32 0 @ PutUint64 (bh_SentUnixNano h)"

text \<open>\<open>sentAt\<close> is the value of \<open>UnixNano\<close>, a signed 64-bit number, or \<open>None\<close> for the zero time.\<close>

definition NewEncodedBatch :: "u64 \<Rightarrow> u64 \<Rightarrow> u64 option \<Rightarrow> bytes list \<Rightarrow> Limits \<Rightarrow> (proto_error, EncodedBatch) result" where
  "NewEncodedBatch clientID batchID sentAt records l =
     (case Limits_Validate l of Some e \<Rightarrow> Inl e | None \<Rightarrow>
        if clientID = 0 \<or> batchID = 0 then Inl ErrInvalidFrame
        else if length records = 0 \<or> (of_nat (length records) :: u64) > ucast (MaxRecords l) then Inl ErrInvalidFrame
        else case sentAt of None \<Rightarrow> Inl ErrInvalidFrame | Some nanos \<Rightarrow>
          if sint nanos \<le> 0 then Inl ErrInvalidFrame
          else case encode_records l records 0 crc_init of
              Inl e \<Rightarrow> Inl e
            | Inr (prefixes, payloadBytes, hash) \<Rightarrow>
                Inr \<lparr>eb_Header = encode_header \<lparr>bh_ClientID = clientID, bh_BatchID = batchID,
                        bh_RecordCount = of_nat (length records), bh_PayloadBytes = ucast payloadBytes,
                        bh_PayloadCRC32 = crc_sum hash, bh_SentUnixNano = nanos\<rparr>,
                     eb_Prefixes = prefixes, eb_Records = records\<rparr>)"

definition Buffers :: "EncodedBatch \<Rightarrow> bytes list" where
  "Buffers b = eb_Header b # concat (map (\<lambda>(p, r). [p, r]) (zip (eb_Prefixes b) (eb_Records b)))"

definition EncodedBatch_Size :: "EncodedBatch \<Rightarrow> int" where
  "EncodedBatch_Size b = foldl (\<lambda>sz r. sz + (4 + int (length r))) (int BatchHeaderSize) (eb_Records b)"

subsection \<open>Writing\<close>

text \<open>One writer answer is a count and an error; the bytes reported as written are on the output.\<close>

fun write_all :: "(int \<times> proto_error option) list \<Rightarrow> bytes \<Rightarrow> bytes \<Rightarrow> int \<Rightarrow>
    ((int \<times> proto_error option) list \<times> bytes \<times> int \<times> proto_error option) option" where
  "write_all script [] out tot = Some (script, out, tot, None)"
| "write_all [] (b # bs) out tot = None"
| "write_all ((n, err) # script) (b # bs) out tot =
     (let buffer = b # bs
      in if n < 0 \<or> n > int (length buffer) then Some (script, out, tot, Some (ErrWriterCount n))
         else let out1 = out @ take (nat n) buffer; tot1 = tot + n
         in case err of
              Some e \<Rightarrow> Some (script, out1, tot1, Some e)
            | None \<Rightarrow> if n = 0 then Some (script, out1, tot1, Some ErrProtoShortWrite)
                      else write_all script (drop (nat n) buffer) out1 tot1)"

fun write_buffers :: "(int \<times> proto_error option) list \<Rightarrow> bytes list \<Rightarrow> bytes \<Rightarrow> int \<Rightarrow>
    (bytes \<times> int \<times> proto_error option) option" where
  "write_buffers script [] out tot = Some (out, tot, None)"
| "write_buffers script (b # bs) out tot =
     (case write_all script b out tot of
        None \<Rightarrow> None
      | Some (script1, out1, tot1, Some e) \<Rightarrow> Some (out1, tot1, Some e)
      | Some (script1, out1, tot1, None) \<Rightarrow> write_buffers script1 bs out1 tot1)"

definition EncodedBatch_WriteTo :: "(int \<times> proto_error option) list \<Rightarrow> EncodedBatch \<Rightarrow> (bytes \<times> int \<times> proto_error option) option" where
  "EncodedBatch_WriteTo script b = write_buffers script (Buffers b) [] 0"

text \<open>\<open>net.Buffers.WriteTo\<close> answers a count and an error.\<close>

definition WriteVectoredTo :: "int \<times> proto_error option \<Rightarrow> EncodedBatch \<Rightarrow> int \<times> proto_error option" where
  "WriteVectoredTo answer b = (case answer of (written, err) \<Rightarrow>
     if err = None \<and> written \<noteq> EncodedBatch_Size b then (written, Some ErrProtoShortWrite) else (written, err))"

subsection \<open>Reading\<close>

datatype read_end = EndEOF | EndError nat

record reader =
  rd_bytes :: bytes
  rd_end :: read_end

datatype read_error = ReadEOF | ReadUnexpectedEOF | ReadError nat

text \<open>\<open>io.ReadFull\<close>: all bytes asked for, or the reason why not; \<open>EOF\<close> only when nothing was read.\<close>

definition ReadFull :: "nat \<Rightarrow> reader \<Rightarrow> (read_error, bytes) result \<times> reader" where
  "ReadFull n r =
     (if n \<le> length (rd_bytes r) then (Inr (take n (rd_bytes r)), r\<lparr>rd_bytes := drop n (rd_bytes r)\<rparr>)
      else (Inl (case rd_end r of
              EndEOF \<Rightarrow> if rd_bytes r = [] then ReadEOF else ReadUnexpectedEOF
            | EndError k \<Rightarrow> ReadError k), r\<lparr>rd_bytes := []\<rparr>))"

definition parseBatchHeader :: "bytes \<Rightarrow> Limits \<Rightarrow> (proto_error, BatchHeader) result" where
  "parseBatchHeader raw l =
     (if length raw \<noteq> BatchHeaderSize \<or> slice 0 4 raw \<noteq> batchMagic then Inl ErrInvalidFrame
      else if raw ! 4 \<noteq> Version \<or> raw ! 5 \<noteq> 0 \<or> Uint16 (slice 6 8 raw) \<noteq> of_nat BatchHeaderSize then Inl ErrInvalidFrame
      else let h = \<lparr>bh_ClientID = Uint64 (slice 8 16 raw), bh_BatchID = Uint64 (slice 16 24 raw),
                    bh_RecordCount = Uint32 (slice 24 28 raw), bh_PayloadBytes = Uint32 (slice 28 32 raw),
                    bh_PayloadCRC32 = Uint32 (slice 32 36 raw), bh_SentUnixNano = Uint64 (slice 40 48 raw)\<rparr>
      in if bh_ClientID h = 0 \<or> bh_BatchID h = 0 \<or> bh_SentUnixNano h = 0 \<or> Uint32 (slice 36 40 raw) \<noteq> 0
           then Inl ErrInvalidFrame
         else if bh_RecordCount h = 0 \<or> bh_RecordCount h > MaxRecords l then Inl ErrInvalidFrame
         else if bh_PayloadBytes h > MaxPayload l \<or>
                 (ucast (bh_PayloadBytes h) :: u64) < ucast (bh_RecordCount h) * 4 then Inl ErrInvalidFrame
         else Inr h)"

fun read_records :: "Limits \<Rightarrow> nat \<Rightarrow> bytes \<Rightarrow> nat \<Rightarrow> (proto_error, bytes list \<times> nat) result" where
  "read_records l 0 payload offset = Inr ([], offset)"
| "read_records l (Suc k) payload offset =
     (if int (length payload) - int offset < 4 then Inl ErrInvalidFrame
      else let len = Uint32 (slice offset (offset + 4) payload); start = offset + 4
      in if len = 0 \<or> len > MaxEventBytes l \<or> unat len > length payload - start
           then Inl ErrInvalidFrame
         else let stop = start + unat len
              in case read_records l k payload stop of
                   Inl e \<Rightarrow> Inl e
                 | Inr (records, fin) \<Rightarrow> Inr (slice start stop payload # records, fin))"

definition ReadBatch :: "reader \<Rightarrow> Limits \<Rightarrow> (proto_error, Batch) result \<times> reader" where
  "ReadBatch r l =
     (case Limits_Validate l of Some e \<Rightarrow> (Inl e, r) | None \<Rightarrow>
        (case ReadFull BatchHeaderSize r of
           (Inl e, r1) \<Rightarrow> (Inl (if e = ReadEOF then ProtoEOF else ErrTruncated), r1)
         | (Inr raw, r1) \<Rightarrow>
             (case parseBatchHeader raw l of
                Inl e \<Rightarrow> (Inl e, r1)
              | Inr h \<Rightarrow>
                  (case ReadFull (unat (bh_PayloadBytes h)) r1 of
                     (Inl e, r2) \<Rightarrow> (Inl ErrTruncated, r2)
                   | (Inr payload, r2) \<Rightarrow>
                       if ChecksumIEEE payload \<noteq> bh_PayloadCRC32 h then (Inl ErrInvalidFrame, r2)
                       else (case read_records l (unat (bh_RecordCount h)) payload 0 of
                               Inl e \<Rightarrow> (Inl e, r2)
                             | Inr (records, fin) \<Rightarrow>
                                 if fin \<noteq> length payload then (Inl ErrInvalidFrame, r2)
                                 else (Inr \<lparr>b_Header = h, b_Records = records, b_payload = payload\<rparr>, r2))))))"

subsection \<open>Acknowledgements\<close>

record Ack =
  ack_Status :: AckStatus
  ack_ClientID :: u64
  ack_BatchID :: u64

definition Ack_MarshalBinary :: "Ack \<Rightarrow> (proto_error, bytes) result" where
  "Ack_MarshalBinary a =
     (if \<not> AckStatus_Valid (ack_Status a) \<or> ack_ClientID a = 0 \<or> ack_BatchID a = 0 then Inl ErrInvalidFrame
      else Inr (ackMagic @ [Version, ack_Status a] @ PutUint16 (of_nat AckSize) @
                PutUint64 (ack_ClientID a) @ PutUint64 (ack_BatchID a)))"

definition ReadAck :: "reader \<Rightarrow> (proto_error, Ack) result \<times> reader" where
  "ReadAck r =
     (case ReadFull AckSize r of
        (Inl e, r1) \<Rightarrow> (Inl ErrTruncated, r1)
      | (Inr raw, r1) \<Rightarrow>
          if slice 0 4 raw \<noteq> ackMagic \<or> raw ! 4 \<noteq> Version \<or> Uint16 (slice 6 8 raw) \<noteq> of_nat AckSize
            then (Inl ErrInvalidFrame, r1)
          else let a = \<lparr>ack_Status = raw ! 5, ack_ClientID = Uint64 (slice 8 16 raw), ack_BatchID = Uint64 (slice 16 24 raw)\<rparr>
          in if \<not> AckStatus_Valid (ack_Status a) \<or> ack_ClientID a = 0 \<or> ack_BatchID a = 0
               then (Inl ErrInvalidFrame, r1) else (Inr a, r1))"

definition WriteAck :: "(int \<times> proto_error option) list \<Rightarrow> Ack \<Rightarrow> (bytes \<times> proto_error option) option" where
  "WriteAck script a = (case Ack_MarshalBinary a of
     Inl e \<Rightarrow> Some ([], Some e)
   | Inr raw \<Rightarrow> (case write_all script raw [] 0 of
        None \<Rightarrow> None
      | Some (script1, out, written, err) \<Rightarrow> Some (out, err)))"

end
