(* ===== verification/Protocol_Codec.thy ===== *)
theory Protocol_Codec
  imports Protocol
begin

text \<open>
  Encoder and decoder of the wire protocol against each other: a batch is framed by
  \<open>frame_bytes\<close>, the encoder writes exactly that frame, the decoder accepts exactly the frames the
  encoder can write (and leaves the rest of the stream alone), and damage is noticed.
\<close>

subsection \<open>The frame as one byte string\<close>

definition go_len :: "'a list \<Rightarrow> bool" where
  "go_len xs \<longleftrightarrow> length xs < 2 ^ 63"

definition record_prefix :: "bytes \<Rightarrow> bytes" where
  "record_prefix r = PutUint32 (of_nat (length r))"

definition payload_of :: "bytes list \<Rightarrow> bytes" where
  "payload_of rs = concat (map (\<lambda>r. record_prefix r @ r) rs)"

definition records_ok :: "Limits \<Rightarrow> bytes list \<Rightarrow> bool" where
  "records_ok l rs \<longleftrightarrow> (\<forall>r\<in>set rs. r \<noteq> [] \<and> length r \<le> unat (MaxEventBytes l)) \<and>
     length (payload_of rs) \<le> unat (MaxPayload l)"

definition header_for :: "u64 \<Rightarrow> u64 \<Rightarrow> u64 \<Rightarrow> bytes list \<Rightarrow> BatchHeader" where
  "header_for c b nanos rs = \<lparr>bh_ClientID = c, bh_BatchID = b, bh_RecordCount = of_nat (length rs),
     bh_PayloadBytes = of_nat (length (payload_of rs)), bh_PayloadCRC32 = ChecksumIEEE (payload_of rs),
     bh_SentUnixNano = nanos\<rparr>"

definition encoded_for :: "u64 \<Rightarrow> u64 \<Rightarrow> u64 \<Rightarrow> bytes list \<Rightarrow> EncodedBatch" where
  "encoded_for c b nanos rs = \<lparr>eb_Header = encode_header (header_for c b nanos rs),
     eb_Prefixes = map record_prefix rs, eb_Records = rs\<rparr>"

definition frame_ok :: "Limits \<Rightarrow> u64 \<Rightarrow> u64 \<Rightarrow> u64 \<Rightarrow> bytes list \<Rightarrow> bool" where
  "frame_ok l c b nanos rs \<longleftrightarrow> c \<noteq> 0 \<and> b \<noteq> 0 \<and> nanos \<noteq> 0 \<and> rs \<noteq> [] \<and>
     length rs \<le> unat (MaxRecords l) \<and> records_ok l rs"

definition frame_bytes :: "u64 \<Rightarrow> u64 \<Rightarrow> u64 \<Rightarrow> bytes list \<Rightarrow> bytes" where
  "frame_bytes c b nanos rs = encode_header (header_for c b nanos rs) @ payload_of rs"

lemma length_record_prefix [simp]: "length (record_prefix r) = 4"
  by (simp add: record_prefix_def)

lemma payload_of_simps [simp]:
  "payload_of [] = []" "payload_of (r # rs) = record_prefix r @ r @ payload_of rs"
  by (simp_all add: payload_of_def)

lemma records_ok_Nil [simp]: "records_ok l []"
  by (simp add: records_ok_def)

lemma limits_bounds:
  assumes "Limits_Validate l = None"
  shows "unat (MaxRecords l) \<le> 65536" "unat (MaxPayload l) \<le> 67108864" "unat (MaxEventBytes l) \<le> 16777216"
    "0 < unat (MaxRecords l)"
proof -
  have "MaxRecords l \<le> 65536" "MaxPayload l \<le> 67108864" "MaxEventBytes l \<le> 16777216" "MaxRecords l \<noteq> 0"
    using assms by (auto simp: Limits_Validate_def not_less split: if_splits)
  then show "unat (MaxRecords l) \<le> 65536" "unat (MaxPayload l) \<le> 67108864" "unat (MaxEventBytes l) \<le> 16777216"
    "0 < unat (MaxRecords l)"
    by (simp_all add: word_le_nat_alt unat_gt_0)
qed

lemma unat_ucast_u64 [simp]: "unat (ucast (w :: u32) :: u64) = unat w"
proof -
  have "unat w < 2 ^ 32" using unsigned_less [of w, where ?'a = nat] by simp
  then show ?thesis by (simp add: unsigned_ucast_eq take_bit_nat_eq_self)
qed

lemma of_nat_u64_le:
  fixes w :: u32
  assumes "n < 2 ^ 63"
  shows "(of_nat n :: u64) > ucast w \<longleftrightarrow> n > unat w"
  using assms by (simp add: word_less_nat_alt unat_of_nat)

subsection \<open>Header fields\<close>

lemma length_encode_header [simp]: "length (encode_header h) = BatchHeaderSize"
  by (simp add: encode_header_def batchMagic_def BatchHeaderSize_def)

lemma encode_header_nonempty [simp]: "encode_header h \<noteq> []"
  by (simp add: encode_header_def batchMagic_def)

lemma slice_append_left: "length xs = i \<Longrightarrow> slice i j (xs @ ys) = take (j - i) ys"
  by (simp add: slice_def)

lemma slice_mid: "length xs = i \<Longrightarrow> length ys = j - i \<Longrightarrow> slice i j (xs @ ys @ zs) = ys"
  by (simp add: slice_def)

lemma header_slices [simp]:
  "slice 0 4 (encode_header h) = batchMagic"
  "slice 6 8 (encode_header h) = PutUint16 (of_nat BatchHeaderSize)"
  "slice 8 16 (encode_header h) = PutUint64 (bh_ClientID h)"
  "slice 16 24 (encode_header h) = PutUint64 (bh_BatchID h)"
  "slice 24 28 (encode_header h) = PutUint32 (bh_RecordCount h)"
  "slice 28 32 (encode_header h) = PutUint32 (bh_PayloadBytes h)"
  "slice 32 36 (encode_header h) = PutUint32 (bh_PayloadCRC32 h)"
  "slice 36 40 (encode_header h) = PutUint32 0"
  "slice 40 48 (encode_header h) = PutUint64 (bh_SentUnixNano h)"
  by (simp_all add: slice_def encode_header_def batchMagic_def take_Cons' drop_Cons')

lemma header_bytes [simp]: "encode_header h ! 4 = Version" "encode_header h ! 5 = 0"
  by (simp_all add: encode_header_def batchMagic_def nth_Cons')

lemma bytes_split:
  assumes "length raw = 48"
  shows "raw = slice 0 4 raw @ [raw ! 4, raw ! 5] @ slice 6 8 raw @ slice 8 16 raw @ slice 16 24 raw @
    slice 24 28 raw @ slice 28 32 raw @ slice 32 36 raw @ slice 36 40 raw @ slice 40 48 raw"
proof -
  have step: "drop i raw = slice i j raw @ drop j raw" if "i \<le> j" for i j
    using that by (metis append_take_drop_id drop_drop le_add_diff_inverse2 slice_def)
  have one: "drop 4 raw = [raw ! 4, raw ! 5] @ drop 6 raw"
    using assms Cons_nth_drop_Suc [of 4 raw] Cons_nth_drop_Suc [of 5 raw] by simp
  have "raw = drop 0 raw" by simp
  also have "\<dots> = slice 0 4 raw @ drop 4 raw" by (rule step) simp
  also have "\<dots> = slice 0 4 raw @ [raw ! 4, raw ! 5] @ drop 6 raw" by (simp add: one)
  finally show ?thesis
    using step [of 6 8] step [of 8 16] step [of 16 24] step [of 24 28] step [of 28 32] step [of 32 36]
      step [of 36 40] step [of 40 48] assms by simp
qed

lemma length_slice: "j \<le> length bs \<Longrightarrow> length (slice i j bs) = j - i"
  by (simp add: slice_def)

lemma of_nat_header_size: "Uint16 (PutUint16 (of_nat BatchHeaderSize)) = 48"
  by (simp add: BatchHeaderSize_def)

lemma parseBatchHeader_encode:
  "parseBatchHeader (encode_header h) l =
     (if bh_ClientID h = 0 \<or> bh_BatchID h = 0 \<or> bh_SentUnixNano h = 0 then Inl ErrInvalidFrame
      else if bh_RecordCount h = 0 \<or> bh_RecordCount h > MaxRecords l then Inl ErrInvalidFrame
      else if bh_PayloadBytes h > MaxPayload l \<or>
              (ucast (bh_PayloadBytes h) :: u64) < ucast (bh_RecordCount h) * 4 then Inl ErrInvalidFrame
      else Inr h)"
  by (simp add: parseBatchHeader_def Let_def)

lemma parseBatchHeader_canonical:
  assumes "parseBatchHeader raw l = Inr h"
  shows "raw = encode_header h"
proof -
  have len: "length raw = 48" and magic: "slice 0 4 raw = batchMagic"
    and bytes: "raw ! 4 = Version" "raw ! 5 = 0" and u16: "Uint16 (slice 6 8 raw) = of_nat BatchHeaderSize"
    and res: "Uint32 (slice 36 40 raw) = 0"
    and h: "h = \<lparr>bh_ClientID = Uint64 (slice 8 16 raw), bh_BatchID = Uint64 (slice 16 24 raw),
          bh_RecordCount = Uint32 (slice 24 28 raw), bh_PayloadBytes = Uint32 (slice 28 32 raw),
          bh_PayloadCRC32 = Uint32 (slice 32 36 raw), bh_SentUnixNano = Uint64 (slice 40 48 raw)\<rparr>"
    using assms by (auto simp: parseBatchHeader_def Let_def BatchHeaderSize_def split: if_splits)
  have "slice 6 8 raw = PutUint16 (of_nat BatchHeaderSize)" "slice 36 40 raw = PutUint32 0"
    using endian_put_get(1) [of "slice 6 8 raw"] endian_put_get(2) [of "slice 36 40 raw"] len u16 res
    by (simp_all add: length_slice)
  with bytes_split [OF len] show ?thesis
    using len by (simp add: encode_header_def h magic bytes endian_put_get length_slice)
qed

subsection \<open>The record loop of the encoder\<close>

lemma encode_records_spec:
  assumes "\<forall>r\<in>set rs. go_len r" "unat (MaxPayload l) \<le> 67108864" "unat (MaxEventBytes l) \<le> 16777216"
    "n \<le> unat (MaxPayload l)"
  shows "encode_records l rs (of_nat n) h =
    (if (\<forall>r\<in>set rs. r \<noteq> [] \<and> length r \<le> unat (MaxEventBytes l)) \<and> n + length (payload_of rs) \<le> unat (MaxPayload l)
     then Inr (map record_prefix rs, of_nat (n + length (payload_of rs)), crc_write h (payload_of rs))
     else Inl ErrInvalidFrame)"
  using assms
proof (induction rs arbitrary: n h)
  case (Cons r rs)
  have len: "length r < 2 ^ 63" using Cons.prems(1) by (simp add: go_len_def)
  have big: "(of_nat (length r) :: u64) > ucast (MaxEventBytes l) \<longleftrightarrow> length r > unat (MaxEventBytes l)"
    by (rule of_nat_u64_le [OF len])
  have sum: "(of_nat n + 4 + of_nat (length r) :: u64) = of_nat (n + 4 + length r)" by simp
  show ?case
  proof (cases "r \<noteq> [] \<and> length r \<le> unat (MaxEventBytes l)")
    case False
    then show ?thesis using big by auto
  next
    case True
    then have small: "n + 4 + length r < 2 ^ 63" using Cons.prems(2-4) by simp
    have over: "(of_nat (n + 4 + length r) :: u64) > ucast (MaxPayload l) \<longleftrightarrow> n + 4 + length r > unat (MaxPayload l)"
      by (rule of_nat_u64_le [OF small])
    show ?thesis
    proof (cases "n + 4 + length r \<le> unat (MaxPayload l)")
      case False
      then have "encode_records l (r # rs) (of_nat n) h = Inl ErrInvalidFrame"
        using True over unfolding encode_records.simps Let_def sum by simp
      then show ?thesis using False by simp
    next
      case fits: True
      have "encode_records l (r # rs) (of_nat n) h =
          (case encode_records l rs (of_nat (n + 4 + length r)) (crc_write (crc_write h (record_prefix r)) r) of
             Inl e \<Rightarrow> Inl e | Inr (prefixes, n, h) \<Rightarrow> Inr (record_prefix r # prefixes, n, h))"
        using True fits over big unfolding encode_records.simps Let_def sum record_prefix_def [symmetric]
        by (simp add: record_prefix_def split: sum.split)
      then show ?thesis
        using Cons.IH [of "n + 4 + length r" "crc_write (crc_write h (record_prefix r)) r"] Cons.prems True fits
        by (auto simp: add.assoc)
    qed
  qed
qed simp

lemma payload_length: "4 * length rs \<le> length (payload_of rs)"
  by (induction rs) simp_all

lemma NewEncodedBatch_eq:
  assumes "\<forall>r\<in>set rs. go_len r" "go_len rs" "Limits_Validate l = None"
  shows "NewEncodedBatch c b (Some nanos) rs l =
    (if frame_ok l c b nanos rs \<and> 0 < sint nanos then Inr (encoded_for c b nanos rs) else Inl ErrInvalidFrame)"
proof -
  have count: "(of_nat (length rs) :: u64) > ucast (MaxRecords l) \<longleftrightarrow> length rs > unat (MaxRecords l)"
    using assms(2) by (simp add: of_nat_u64_le go_len_def)
  have nz: "nanos \<noteq> 0" if "0 < sint nanos" using that by auto
  have loop: "encode_records l rs 0 crc_init =
      (if records_ok l rs then Inr (map record_prefix rs, of_nat (length (payload_of rs)), crc_write crc_init (payload_of rs))
       else Inl ErrInvalidFrame)"
    using encode_records_spec [of rs l 0 crc_init] limits_bounds [OF assms(3)] assms(1)
    by (simp add: records_ok_def)
  have cast: "(ucast (of_nat k :: u64) :: u32) = of_nat k" for k
    by transfer simp
  show ?thesis
    using nz assms(3) count
    by (auto simp: NewEncodedBatch_def loop frame_ok_def encoded_for_def header_for_def cast ChecksumIEEE_def not_le)
qed

lemma Buffers_concat: "concat (Buffers (encoded_for c b nanos rs)) = frame_bytes c b nanos rs"
proof -
  have "concat (concat (map (\<lambda>(p, r). [p, r]) (zip (map record_prefix rs) rs))) = payload_of rs"
    by (induction rs) simp_all
  then show ?thesis by (simp add: Buffers_def encoded_for_def frame_bytes_def)
qed

lemma EncodedBatch_Size_frame: "EncodedBatch_Size (encoded_for c b nanos rs) = int (length (frame_bytes c b nanos rs))"
proof -
  have "foldl (\<lambda>sz r. sz + (4 + int (length r))) z rs = z + int (length (payload_of rs))" for z
    by (induction rs arbitrary: z) simp_all
  then show ?thesis by (simp add: EncodedBatch_Size_def encoded_for_def frame_bytes_def)
qed

subsection \<open>The record loop of the decoder\<close>

lemma slice_append: "slice (length pre) (length pre + k) (pre @ xs) = take k xs"
  by (simp add: slice_def)

lemma unat_prefix: "length r < 2 ^ 32 \<Longrightarrow> unat (Uint32 (record_prefix r)) = length r"
  by (simp add: record_prefix_def unat_of_nat)

lemma read_records_payload:
  assumes "\<forall>r\<in>set rs. r \<noteq> [] \<and> length r \<le> unat (MaxEventBytes l)" "unat (MaxEventBytes l) \<le> 16777216"
  shows "read_records l (length rs) (pre @ payload_of rs @ post) (length pre) =
    Inr (rs, length pre + length (payload_of rs))"
  using assms
proof (induction rs arbitrary: pre)
  case (Cons r rs)
  let ?all = "pre @ payload_of (r # rs) @ post"
  have len: "length r < 2 ^ 32" using Cons.prems by simp
  have prefix: "slice (length pre) (length pre + 4) ?all = record_prefix r"
    unfolding slice_append by simp
  have val: "unat (Uint32 (record_prefix r)) = length r" by (rule unat_prefix [OF len])
  have nz: "Uint32 (record_prefix r) \<noteq> 0" using val Cons.prems(1) by (auto simp: unat_eq_zero)
  have le: "Uint32 (record_prefix r) \<le> MaxEventBytes l"
    using val Cons.prems(1) by (simp add: word_le_nat_alt)
  have body: "slice (length pre + 4) (length pre + 4 + length r) ?all = r"
    using slice_append [of "pre @ record_prefix r" "length r" "r @ payload_of rs @ post"] by simp
  have IH: "read_records l (length rs) ?all (length pre + 4 + length r) =
      Inr (rs, length pre + 4 + length r + length (payload_of rs))"
    using Cons.IH [of "pre @ record_prefix r @ r"] Cons.prems by (simp add: add.assoc)
  show ?case
    unfolding length_Cons read_records.simps prefix Let_def val body IH
    using nz le by (simp add: not_less)
qed simp

lemma read_records_canonical:
  assumes "read_records l k payload offset = Inr (rs, fin)" "offset \<le> length payload"
  shows "length rs = k \<and> fin \<le> length payload \<and> drop offset payload = payload_of rs @ drop fin payload \<and>
    (\<forall>r\<in>set rs. r \<noteq> [] \<and> length r \<le> unat (MaxEventBytes l))"
  using assms
proof (induction k arbitrary: offset rs)
  case (Suc k)
  define len where "len = Uint32 (slice offset (offset + 4) payload)"
  let ?stop = "offset + 4 + unat len"
  have room: "offset + 4 \<le> length payload" and fit: "len \<noteq> 0" "len \<le> MaxEventBytes l" "?stop \<le> length payload"
    using Suc.prems unfolding read_records.simps Let_def len_def [symmetric] by (auto split: if_splits)
  from Suc.prems(1) room fit obtain rs' where rec: "read_records l k payload ?stop = Inr (rs', fin)"
    and rs: "rs = slice (offset + 4) ?stop payload # rs'"
    unfolding read_records.simps Let_def len_def [symmetric] by (auto split: sum.splits if_splits)
  let ?r = "slice (offset + 4) ?stop payload"
  have IH: "length rs' = k" "fin \<le> length payload" "drop ?stop payload = payload_of rs' @ drop fin payload"
    "\<forall>r\<in>set rs'. r \<noteq> [] \<and> length r \<le> unat (MaxEventBytes l)"
    using Suc.IH [OF rec] fit(3) by blast+
  have lr: "length ?r = unat len" using fit(3) by (simp add: length_slice)
  have pre: "record_prefix ?r = slice offset (offset + 4) payload"
    unfolding record_prefix_def lr using room by (simp add: len_def endian_put_get length_slice)
  have "drop offset payload = slice offset (offset + 4) payload @ ?r @ drop ?stop payload"
    unfolding slice_def by (simp add: add.assoc) (metis add.commute append_take_drop_id drop_drop)
  with pre IH have "drop offset payload = payload_of rs @ drop fin payload" by (simp add: rs)
  moreover have "?r \<noteq> []" using lr fit(1) by (metis list.size(3) unat_eq_zero)
  moreover have "length ?r \<le> unat (MaxEventBytes l)" using lr fit(2) by (simp add: word_le_nat_alt)
  ultimately show ?case using IH by (simp add: rs)
qed simp

subsection \<open>The decoder on a frame, and every accepted input is a frame\<close>

lemma unat_of_nat_u32: "n < 2 ^ 32 \<Longrightarrow> unat (of_nat n :: u32) = n"
  by (simp add: unat_of_nat)

lemma ReadFull_exact [simp]:
  "length xs = n \<Longrightarrow> ReadFull n \<lparr>rd_bytes = xs @ ys, rd_end = e\<rparr> = (Inr xs, \<lparr>rd_bytes = ys, rd_end = e\<rparr>)"
  by (simp add: ReadFull_def)

lemma ReadFull_Inr:
  assumes "ReadFull n r = (Inr xs, r')"
  shows "rd_bytes r = xs @ rd_bytes r' \<and> length xs = n \<and> rd_end r' = rd_end r"
  using assms by (auto simp: ReadFull_def split: if_splits)

lemma header_for_bounds:
  assumes "Limits_Validate l = None" "frame_ok l c b nanos rs"
  shows "parseBatchHeader (encode_header (header_for c b nanos rs)) l = Inr (header_for c b nanos rs)"
    "unat (of_nat (length rs) :: u32) = length rs"
    "unat (of_nat (length (payload_of rs)) :: u32) = length (payload_of rs)"
proof -
  have n: "length rs \<le> 65536" "length (payload_of rs) \<le> 67108864" "0 < length rs"
    using assms limits_bounds [OF assms(1)] by (auto simp: frame_ok_def records_ok_def)
  show u: "unat (of_nat (length rs) :: u32) = length rs"
    "unat (of_nat (length (payload_of rs)) :: u32) = length (payload_of rs)"
    using n by (auto intro: unat_of_nat_u32)
  have nz: "(of_nat (length rs) :: u32) \<noteq> 0" using u(1) n(3) by (metis less_irrefl unat_0)
  have count: "\<not> (of_nat (length rs) :: u32) > MaxRecords l"
    using assms(2) u by (simp add: word_less_nat_alt frame_ok_def)
  have size: "\<not> (of_nat (length (payload_of rs)) :: u32) > MaxPayload l"
    using assms(2) u by (simp add: word_less_nat_alt frame_ok_def records_ok_def)
  have "unat ((ucast (of_nat (length rs) :: u32) :: u64) * 4) = length rs * 4"
    using n u(1) by (simp add: unat_word_ariths)
  then have four: "\<not> (ucast (of_nat (length (payload_of rs)) :: u32) :: u64) < ucast (of_nat (length rs) :: u32) * 4"
    using u(2) payload_length [of rs] unfolding word_less_nat_alt unat_ucast_u64 by simp
  show "parseBatchHeader (encode_header (header_for c b nanos rs)) l = Inr (header_for c b nanos rs)"
    using assms(2) nz count size four by (simp add: parseBatchHeader_encode header_for_def frame_ok_def)
qed

definition batch_for :: "u64 \<Rightarrow> u64 \<Rightarrow> u64 \<Rightarrow> bytes list \<Rightarrow> Batch" where
  "batch_for c b nanos rs = \<lparr>b_Header = header_for c b nanos rs, b_Records = rs, b_payload = payload_of rs\<rparr>"

lemma ReadBatch_frame:
  assumes "Limits_Validate l = None" "frame_ok l c b nanos rs"
  shows "ReadBatch \<lparr>rd_bytes = frame_bytes c b nanos rs @ rest, rd_end = e\<rparr> l =
    (Inr (batch_for c b nanos rs), \<lparr>rd_bytes = rest, rd_end = e\<rparr>)"
proof -
  note hb = header_for_bounds [OF assms]
  have rec: "read_records l (length rs) (payload_of rs) 0 = Inr (rs, length (payload_of rs))"
    using read_records_payload [of rs l "[]" "[]"] assms limits_bounds [OF assms(1)]
    by (simp add: frame_ok_def records_ok_def)
  show ?thesis
    using hb rec
    by (simp add: ReadBatch_def assms(1) frame_bytes_def batch_for_def header_for_def)
qed

lemma ReadBatch_Inr:
  assumes "ReadBatch r l = (Inr bt, r')"
  obtains raw r1 where "Limits_Validate l = None" "ReadFull BatchHeaderSize r = (Inr raw, r1)"
    "parseBatchHeader raw l = Inr (b_Header bt)"
    "ReadFull (unat (bh_PayloadBytes (b_Header bt))) r1 = (Inr (b_payload bt), r')"
    "ChecksumIEEE (b_payload bt) = bh_PayloadCRC32 (b_Header bt)"
    "read_records l (unat (bh_RecordCount (b_Header bt))) (b_payload bt) 0 = Inr (b_Records bt, length (b_payload bt))"
  using assms by (auto simp: ReadBatch_def split: option.splits prod.splits sum.splits if_splits)

lemma ReadBatch_canonical:
  assumes "ReadBatch r l = (Inr bt, r')"
  defines "h \<equiv> b_Header bt"
  shows "frame_ok l (bh_ClientID h) (bh_BatchID h) (bh_SentUnixNano h) (b_Records bt) \<and>
    rd_bytes r = frame_bytes (bh_ClientID h) (bh_BatchID h) (bh_SentUnixNano h) (b_Records bt) @ rd_bytes r' \<and>
    bt = batch_for (bh_ClientID h) (bh_BatchID h) (bh_SentUnixNano h) (b_Records bt)"
proof -
  obtain raw r1 where lim: "Limits_Validate l = None" and rf1: "ReadFull BatchHeaderSize r = (Inr raw, r1)"
    and ph: "parseBatchHeader raw l = Inr h"
    and rf2: "ReadFull (unat (bh_PayloadBytes h)) r1 = (Inr (b_payload bt), r')"
    and crc: "ChecksumIEEE (b_payload bt) = bh_PayloadCRC32 h"
    and rr: "read_records l (unat (bh_RecordCount h)) (b_payload bt) 0 = Inr (b_Records bt, length (b_payload bt))"
    using assms(1) unfolding h_def by (rule ReadBatch_Inr)
  note [simp] = ReadFull_Inr [OF rf1] ReadFull_Inr [OF rf2]
  have raw: "raw = encode_header h" by (rule parseBatchHeader_canonical [OF ph])
  have rs: "length (b_Records bt) = unat (bh_RecordCount h)" "b_payload bt = payload_of (b_Records bt)"
    "\<forall>r\<in>set (b_Records bt). r \<noteq> [] \<and> length r \<le> unat (MaxEventBytes l)"
    using read_records_canonical [OF rr] by auto
  have fields: "bh_ClientID h \<noteq> 0" "bh_BatchID h \<noteq> 0" "bh_SentUnixNano h \<noteq> 0" "bh_RecordCount h \<noteq> 0"
    "bh_RecordCount h \<le> MaxRecords l" "bh_PayloadBytes h \<le> MaxPayload l"
    using ph unfolding raw parseBatchHeader_encode by (auto simp: not_less split: if_splits)
  have "length (payload_of (b_Records bt)) = unat (bh_PayloadBytes h)" using rs(2) ReadFull_Inr [OF rf2] by simp
  then have h: "h = header_for (bh_ClientID h) (bh_BatchID h) (bh_SentUnixNano h) (b_Records bt)"
    using rs crc by (simp add: header_for_def)
  have "b_Records bt \<noteq> []" using rs(1) fields(4) by (metis list.size(3) unat_eq_zero)
  then have "frame_ok l (bh_ClientID h) (bh_BatchID h) (bh_SentUnixNano h) (b_Records bt)"
    using fields rs \<open>length (payload_of (b_Records bt)) = unat (bh_PayloadBytes h)\<close>
    by (simp add: frame_ok_def records_ok_def word_le_nat_alt)
  moreover have "rd_bytes r = frame_bytes (bh_ClientID h) (bh_BatchID h) (bh_SentUnixNano h) (b_Records bt) @ rd_bytes r'"
    using h rs(2) by (simp add: frame_bytes_def raw)
  moreover have "bt = batch_for (bh_ClientID h) (bh_BatchID h) (bh_SentUnixNano h) (b_Records bt)"
    using h rs(2) by (simp add: batch_for_def h_def)
  ultimately show ?thesis by blast
qed

subsection \<open>Retained batches\<close>

lemma matches_loop_spec:
  "length rs = length olds \<Longrightarrow> matches_loop rs olds n h =
     (if map length rs = map length olds
      then Some (n + of_nat (length (payload_of rs)), crc_write h (payload_of rs)) else None)"
  by (induction rs olds n h rule: matches_loop.induct) (simp_all add: record_prefix_def add.assoc)

lemma length_payload: "length (payload_of rs) = sum_list (map ((+) 4) (map length rs))"
  by (induction rs) simp_all

lemma payload_length_eq: "map length rs = map length olds \<Longrightarrow> length (payload_of rs) = length (payload_of olds)"
  unfolding length_payload by simp

lemma Matches_encoded:
  assumes "length (payload_of olds) < 2 ^ 32"
  shows "Matches (Some (encoded_for c b nanos olds)) rs \<longleftrightarrow>
    map length rs = map length olds \<and> ChecksumIEEE (payload_of rs) = ChecksumIEEE (payload_of olds)"
proof (cases "map length rs = map length olds")
  case True
  have cast: "(ucast (of_nat (length (payload_of olds)) :: u32) :: u64) = of_nat (length (payload_of olds))"
    using assms by (simp add: word_unat_eq_iff unat_of_nat)
  have loop: "matches_loop rs olds 0 crc_init = Some (of_nat (length (payload_of olds)), crc_write crc_init (payload_of rs))"
    using True payload_length_eq [OF True] map_eq_imp_length_eq [OF True] by (simp add: matches_loop_spec)
  show ?thesis
    using True map_eq_imp_length_eq [OF True]
    by (simp add: Matches_def encoded_for_def loop header_for_def ChecksumIEEE_def cast del: crc_sum_inj)
next
  case False
  then show ?thesis
    by (auto simp: Matches_def encoded_for_def matches_loop_spec)
qed

subsection \<open>Properties\<close>

text \<open>
  C21. Round trip: what \<open>NewEncodedBatch\<close> accepts, \<open>ReadBatch\<close> under the same limits reads back from
  the written buffers: the same client and batch number, time and records, and the bytes that follow
  the frame stay in the stream.
\<close>

theorem batch_roundtrip:
  assumes "NewEncodedBatch c b (Some nanos) rs l = Inr eb" "go_len rs" "\<forall>r\<in>set rs. go_len r"
  shows "ReadBatch \<lparr>rd_bytes = concat (Buffers eb) @ rest, rd_end = e\<rparr> l =
      (Inr \<lparr>b_Header = \<lparr>bh_ClientID = c, bh_BatchID = b, bh_RecordCount = of_nat (length rs),
                       bh_PayloadBytes = of_nat (length (payload_of rs)),
                       bh_PayloadCRC32 = ChecksumIEEE (payload_of rs), bh_SentUnixNano = nanos\<rparr>,
            b_Records = rs, b_payload = payload_of rs\<rparr>, \<lparr>rd_bytes = rest, rd_end = e\<rparr>) \<and>
      EncodedBatch_ClientID eb = c \<and> EncodedBatch_BatchID eb = b \<and>
      EncodedBatch_Size eb = int (length (concat (Buffers eb)))"
proof -
  have lim: "Limits_Validate l = None"
    using assms(1) by (auto simp: NewEncodedBatch_def split: option.splits)
  have eb: "frame_ok l c b nanos rs" "eb = encoded_for c b nanos rs"
    using assms(1) NewEncodedBatch_eq [OF assms(3,2) lim] by (auto split: if_splits)
  have "EncodedBatch_ClientID eb = c" "EncodedBatch_BatchID eb = b"
    by (simp_all add: eb(2) encoded_for_def EncodedBatch_ClientID_def EncodedBatch_BatchID_def header_for_def)
  then show ?thesis
    using ReadBatch_frame [OF lim eb(1)] unfolding eb(2) Buffers_concat EncodedBatch_Size_frame
    by (simp add: batch_for_def header_for_def)
qed

lemma new_encoded_example:
  "NewEncodedBatch 7 3 (Some 5) [[65, 66], [67]] DefaultLimits = Inr (encoded_for 7 3 5 [[65, 66], [67]])"
proof -
  have "Limits_Validate DefaultLimits = None" by (simp add: Limits_Validate_def DefaultLimits_def)
  then show ?thesis
    by (subst NewEncodedBatch_eq) (simp_all add: go_len_def frame_ok_def records_ok_def DefaultLimits_def)
qed

lemma batch_roundtrip_witness:
  "ReadBatch \<lparr>rd_bytes = concat (Buffers (encoded_for 7 3 5 [[65, 66], [67]])) @ [1, 2], rd_end = EndEOF\<rparr> DefaultLimits =
      (Inr \<lparr>b_Header = \<lparr>bh_ClientID = 7, bh_BatchID = 3, bh_RecordCount = of_nat (length [[65, 66], [67 :: u8]]),
                       bh_PayloadBytes = of_nat (length (payload_of [[65, 66], [67]])),
                       bh_PayloadCRC32 = ChecksumIEEE (payload_of [[65, 66], [67]]), bh_SentUnixNano = 5\<rparr>,
            b_Records = [[65, 66], [67]], b_payload = payload_of [[65, 66], [67]]\<rparr>,
       \<lparr>rd_bytes = [1, 2], rd_end = EndEOF\<rparr>) \<and>
      EncodedBatch_ClientID (encoded_for 7 3 5 [[65, 66], [67]]) = 7 \<and>
      EncodedBatch_BatchID (encoded_for 7 3 5 [[65, 66], [67]]) = 3 \<and>
      EncodedBatch_Size (encoded_for 7 3 5 [[65, 66], [67]]) =
        int (length (concat (Buffers (encoded_for 7 3 5 [[65, 66], [67]]))))"
  by (rule batch_roundtrip [OF new_encoded_example]) (simp_all add: go_len_def)




lemma short_frame_error:
  assumes "Limits_Validate l = None" "frame_ok l c b nanos rs" "k < length (frame_bytes c b nanos rs)"
  shows "fst (ReadBatch \<lparr>rd_bytes = take k (frame_bytes c b nanos rs), rd_end = EndEOF\<rparr> l) =
    Inl (if k = 0 then ProtoEOF else ErrTruncated)"
proof (cases "k < BatchHeaderSize")
  case True
  then show ?thesis
    using assms(1) by (simp add: ReadBatch_def ReadFull_def frame_bytes_def BatchHeaderSize_def split: if_splits)
next
  case False
  let ?part = "take (k - BatchHeaderSize) (payload_of rs)"
  note hb = header_for_bounds [OF assms(1,2)]
  have "take k (frame_bytes c b nanos rs) = encode_header (header_for c b nanos rs) @ ?part"
    using False by (simp add: frame_bytes_def)
  moreover have "k - BatchHeaderSize < length (payload_of rs)"
    using assms(3) False by (simp add: frame_bytes_def)
  then have "ReadFull (length (payload_of rs)) \<lparr>rd_bytes = ?part, rd_end = EndEOF\<rparr> =
      (Inl (if ?part = [] then ReadEOF else ReadUnexpectedEOF), \<lparr>rd_bytes = [], rd_end = EndEOF\<rparr>)"
    by (simp add: ReadFull_def)
  moreover have "k \<noteq> 0" using False by (simp add: BatchHeaderSize_def)
  ultimately show ?thesis
    using hb by (simp add: ReadBatch_def assms(1) header_for_def)
qed

text \<open>
  Truncation: when the stream ends inside a frame, \<open>ReadBatch\<close> reports \<open>io.EOF\<close> if not one byte
  of it arrived and \<open>ErrTruncated\<close> otherwise; a partial batch is never returned.
\<close>

theorem truncated_frame_rejected:
  assumes "Limits_Validate l = None" "frame_ok l c b nanos rs" "k < length (frame_bytes c b nanos rs)"
  shows "fst (ReadBatch \<lparr>rd_bytes = take k (frame_bytes c b nanos rs), rd_end = EndEOF\<rparr> l) =
    Inl (if k = 0 then ProtoEOF else ErrTruncated)"
  using assms by (rule short_frame_error)

lemma truncated_frame_rejected_witness:
  "fst (ReadBatch \<lparr>rd_bytes = take 50 (frame_bytes 7 3 5 [[65, 66], [67]]), rd_end = EndEOF\<rparr> DefaultLimits) =
    Inl (if 50 = (0 :: nat) then ProtoEOF else ErrTruncated)"
  by (rule truncated_frame_rejected)
    (simp_all add: Limits_Validate_def DefaultLimits_def frame_ok_def records_ok_def frame_bytes_def BatchHeaderSize_def)

text \<open>
  Damage to the payload: when any one byte behind the header differs from what was sent,
  length prefixes included, the frame is refused with \<open>ErrInvalidFrame\<close>, the damaged frame is consumed whole, and
  the bytes behind it are untouched.
\<close>

theorem corrupted_payload_rejected:
  assumes "Limits_Validate l = None" "frame_ok l c b nanos rs"
    "payload_of rs = xs @ x # ys" "x' \<noteq> x"
  shows "ReadBatch \<lparr>rd_bytes = encode_header (header_for c b nanos rs) @ (xs @ x' # ys) @ rest, rd_end = e\<rparr> l =
    (Inl ErrInvalidFrame, \<lparr>rd_bytes = rest, rd_end = e\<rparr>)"
proof -
  note hb = header_for_bounds [OF assms(1,2)]
  have crc: "ChecksumIEEE (xs @ x' # ys) \<noteq> ChecksumIEEE (payload_of rs)"
    unfolding assms(3) by (rule ChecksumIEEE_single_byte [OF assms(4)])
  have rf: "ReadFull (length (payload_of rs)) \<lparr>rd_bytes = (xs @ x' # ys) @ rest, rd_end = e\<rparr> =
      (Inr (xs @ x' # ys), \<lparr>rd_bytes = rest, rd_end = e\<rparr>)"
    by (rule ReadFull_exact) (simp add: assms(3))
  show ?thesis
    unfolding ReadBatch_def assms(1) using hb crc rf by (simp add: header_for_def)
qed

lemma corrupted_payload_rejected_witness:
  "ReadBatch \<lparr>rd_bytes = encode_header (header_for 7 3 5 [[65, 66], [67]]) @
       (([0, 0, 0, 2] @ [65]) @ 98 # [0, 0, 0, 1, 67]) @ [], rd_end = EndEOF\<rparr> DefaultLimits =
    (Inl ErrInvalidFrame, \<lparr>rd_bytes = [], rd_end = EndEOF\<rparr>)"
proof -
  have "payload_of [[65, 66], [67]] = ([0, 0, 0, 2] @ [65]) @ 66 # [0, 0, 0, 1, 67]"
    by (simp add: record_prefix_def PutUint32_def be_put_numeral)
  then show ?thesis
    by (rule corrupted_payload_rejected [rotated 2])
      (simp_all add: Limits_Validate_def DefaultLimits_def frame_ok_def records_ok_def)
qed

text \<open>
  \<open>Matches\<close>, the guard of a retained batch: on the batch the encoder made of \<open>olds\<close> it accepts
  \<open>olds\<close>, and refuses any list of another shape and any list in which one byte of one record was
  overwritten since.
\<close>

theorem matches_detects_change:
  assumes "NewEncodedBatch c b (Some nanos) olds l = Inr eb" "go_len olds" "\<forall>r\<in>set olds. go_len r"
  shows "Matches (Some eb) olds \<and> (map length rs \<noteq> map length olds \<longrightarrow> \<not> Matches (Some eb) rs) \<and>
    (olds = before @ (p @ x # q) # after \<and> x' \<noteq> x \<longrightarrow> \<not> Matches (Some eb) (before @ (p @ x' # q) # after))"
proof -
  have lim: "Limits_Validate l = None"
    using assms(1) by (auto simp: NewEncodedBatch_def split: option.splits)
  have eb: "frame_ok l c b nanos olds" "eb = encoded_for c b nanos olds"
    using assms(1) NewEncodedBatch_eq [OF assms(3,2) lim] by (auto split: if_splits)
  have small: "length (payload_of olds) < 2 ^ 32"
    using eb(1) limits_bounds [OF lim] by (simp add: frame_ok_def records_ok_def)
  have split: "payload_of (before @ (p @ y # q) # after) =
      (payload_of before @ record_prefix (p @ y # q) @ p) @ y # (q @ payload_of after)" for y
    by (simp add: payload_of_def)
  have prefix: "record_prefix (p @ x' # q) = record_prefix (p @ x # q)" by (simp add: record_prefix_def)
  have "x' \<noteq> x \<Longrightarrow> ChecksumIEEE (payload_of (before @ (p @ x' # q) # after)) \<noteq>
      ChecksumIEEE (payload_of (before @ (p @ x # q) # after))"
    unfolding split prefix by (rule ChecksumIEEE_single_byte)
  then show ?thesis unfolding eb(2) Matches_encoded [OF small] by blast
qed

lemma matches_detects_change_witness:
  "Matches (Some (encoded_for 7 3 5 [[65, 66], [67]])) [[65, 66], [67]] \<and>
   \<not> Matches (Some (encoded_for 7 3 5 [[65, 66], [67]])) [[65, 66]] \<and>
   \<not> Matches (Some (encoded_for 7 3 5 [[65, 66], [67]])) [[65, 98], [67]]"
  using matches_detects_change [OF new_encoded_example, of "[[65, 66]]" "[]" "[65]" 66 "[]" "[[67]]" 98]
  by (simp add: go_len_def)

subsection \<open>Acknowledgement frames\<close>

definition ack_ok :: "Ack \<Rightarrow> bool" where
  "ack_ok a \<longleftrightarrow> AckStatus_Valid (ack_Status a) \<and> ack_ClientID a \<noteq> 0 \<and> ack_BatchID a \<noteq> 0"

definition ack_bytes :: "Ack \<Rightarrow> bytes" where
  "ack_bytes a = ackMagic @ [Version, ack_Status a] @ PutUint16 (of_nat AckSize) @
     PutUint64 (ack_ClientID a) @ PutUint64 (ack_BatchID a)"

lemma length_ack_bytes [simp]: "length (ack_bytes a) = AckSize"
  by (simp add: ack_bytes_def ackMagic_def AckSize_def)

lemma Ack_MarshalBinary_eq:
  "Ack_MarshalBinary a = (if ack_ok a then Inr (ack_bytes a) else Inl ErrInvalidFrame)"
  by (auto simp: Ack_MarshalBinary_def ack_ok_def ack_bytes_def)

lemma ack_slices [simp]:
  "slice 0 4 (ack_bytes a) = ackMagic" "slice 6 8 (ack_bytes a) = PutUint16 (of_nat AckSize)"
  "slice 8 16 (ack_bytes a) = PutUint64 (ack_ClientID a)" "slice 16 24 (ack_bytes a) = PutUint64 (ack_BatchID a)"
  "ack_bytes a ! 4 = Version" "ack_bytes a ! 5 = ack_Status a"
  by (simp_all add: slice_def ack_bytes_def ackMagic_def take_Cons' drop_Cons' nth_Cons')

lemma ack_split:
  assumes "length raw = 24"
  shows "raw = slice 0 4 raw @ [raw ! 4, raw ! 5] @ slice 6 8 raw @ slice 8 16 raw @ slice 16 24 raw"
proof -
  have step: "drop i raw = slice i j raw @ drop j raw" if "i \<le> j" for i j
    using that by (metis append_take_drop_id drop_drop le_add_diff_inverse2 slice_def)
  have one: "drop 4 raw = [raw ! 4, raw ! 5] @ drop 6 raw"
    using assms Cons_nth_drop_Suc [of 4 raw] Cons_nth_drop_Suc [of 5 raw] by simp
  have "raw = slice 0 4 raw @ drop 4 raw" using step [of 0 4] by simp
  then show ?thesis using one step [of 6 8] step [of 8 16] step [of 16 24] assms by simp
qed

lemma ReadAck_bytes:
  assumes "ack_ok a"
  shows "ReadAck \<lparr>rd_bytes = ack_bytes a @ rest, rd_end = e\<rparr> = (Inr a, \<lparr>rd_bytes = rest, rd_end = e\<rparr>)"
proof -
  have "ReadFull AckSize \<lparr>rd_bytes = ack_bytes a @ rest, rd_end = e\<rparr> = (Inr (ack_bytes a), \<lparr>rd_bytes = rest, rd_end = e\<rparr>)"
    by (rule ReadFull_exact) simp
  then show ?thesis using assms by (simp add: ReadAck_def Let_def ack_ok_def)
qed

text \<open>
  Acknowledgements: \<open>MarshalBinary\<close> accepts exactly the acknowledgements with a known status and
  two non-zero numbers; \<open>ReadAck\<close> reads back what it wrote and leaves the rest of the stream; and
  every 24 bytes \<open>ReadAck\<close> accepts are those \<open>MarshalBinary\<close> writes for its result.
\<close>

theorem ack_roundtrip:
  "(\<forall>a raw rest e. Ack_MarshalBinary a = Inr raw \<longrightarrow>
       ReadAck \<lparr>rd_bytes = raw @ rest, rd_end = e\<rparr> = (Inr a, \<lparr>rd_bytes = rest, rd_end = e\<rparr>)) \<and>
   (\<forall>r a r'. ReadAck r = (Inr a, r') \<longrightarrow>
       (\<exists>raw. Ack_MarshalBinary a = Inr raw \<and> rd_bytes r = raw @ rd_bytes r' \<and> rd_end r' = rd_end r)) \<and>
   (\<forall>a. (\<exists>raw. Ack_MarshalBinary a = Inr raw) = (ack_Status a \<le> 4 \<and> ack_ClientID a \<noteq> 0 \<and> ack_BatchID a \<noteq> 0))"
proof (intro conjI allI impI)
  fix a raw rest e
  assume "Ack_MarshalBinary a = Inr raw"
  then have raw: "ack_ok a" "raw = ack_bytes a" by (auto simp: Ack_MarshalBinary_eq split: if_splits)
  then show "ReadAck \<lparr>rd_bytes = raw @ rest, rd_end = e\<rparr> = (Inr a, \<lparr>rd_bytes = rest, rd_end = e\<rparr>)"
    by (simp add: ReadAck_bytes)
next
  fix r a r'
  assume read: "ReadAck r = (Inr a, r')"
  then obtain raw where rf: "ReadFull AckSize r = (Inr raw, r')" and ok: "ack_ok a"
    and f: "slice 0 4 raw = ackMagic" "raw ! 4 = Version" "Uint16 (slice 6 8 raw) = of_nat AckSize"
      "a = \<lparr>ack_Status = raw ! 5, ack_ClientID = Uint64 (slice 8 16 raw), ack_BatchID = Uint64 (slice 16 24 raw)\<rparr>"
    by (auto simp: ReadAck_def Let_def ack_ok_def split: prod.splits sum.splits if_splits)
  have len: "length raw = 24" using ReadFull_Inr [OF rf] by (simp add: AckSize_def)
  have "slice 6 8 raw = PutUint16 (of_nat AckSize)"
    using endian_put_get(1) [of "slice 6 8 raw"] len f(3) by (simp add: length_slice)
  then have "raw = ack_bytes a"
    using ack_split [OF len] len f by (simp add: ack_bytes_def endian_put_get length_slice)
  then show "\<exists>raw. Ack_MarshalBinary a = Inr raw \<and> rd_bytes r = raw @ rd_bytes r' \<and> rd_end r' = rd_end r"
    using ok ReadFull_Inr [OF rf] by (simp add: Ack_MarshalBinary_eq)
next
  fix a
  show "(\<exists>raw. Ack_MarshalBinary a = Inr raw) = (ack_Status a \<le> 4 \<and> ack_ClientID a \<noteq> 0 \<and> ack_BatchID a \<noteq> 0)"
    by (auto simp: Ack_MarshalBinary_eq ack_ok_def AckStatus_Valid_def StatusSinkError_def)
qed

lemma ack_roundtrip_witness:
  "ReadAck \<lparr>rd_bytes = ack_bytes \<lparr>ack_Status = 1, ack_ClientID = 7, ack_BatchID = 3\<rparr> @ [9], rd_end = EndEOF\<rparr> =
     (Inr \<lparr>ack_Status = 1, ack_ClientID = 7, ack_BatchID = 3\<rparr>, \<lparr>rd_bytes = [9], rd_end = EndEOF\<rparr>)"
proof -
  have "Ack_MarshalBinary \<lparr>ack_Status = 1, ack_ClientID = 7, ack_BatchID = 3\<rparr> =
      Inr (ack_bytes \<lparr>ack_Status = 1, ack_ClientID = 7, ack_BatchID = 3\<rparr>)"
    by (simp add: Ack_MarshalBinary_eq ack_ok_def AckStatus_Valid_def StatusSinkError_def)
  then show ?thesis by (rule ack_roundtrip [THEN conjunct1, rule_format])
qed

subsection \<open>Writers that write short or fail\<close>

lemma write_all_spec:
  "write_all script bs out tot = Some (script', out', tot', err) \<Longrightarrow>
   \<exists>k \<le> length bs. out' = out @ take k bs \<and> tot' = tot + int k \<and> (err = None \<longrightarrow> k = length bs)"
proof (induction script bs out tot rule: write_all.induct)
  case (3 n err0 script b bs out tot)
  let ?buffer = "b # bs"
  show ?case
  proof (cases "n < 0 \<or> n > int (length ?buffer) \<or> err0 \<noteq> None \<or> n = 0")
    case True
    then show ?thesis
      using "3.prems" by (auto simp: Let_def split: if_splits option.splits intro: exI [of _ 0] exI [of _ "nat n"])
  next
    case False
    then have rec: "write_all script (drop (nat n) ?buffer) (out @ take (nat n) ?buffer) (tot + n) = Some (script', out', tot', err)"
      using "3.prems" by (simp add: Let_def)
    obtain k where k: "k \<le> length (drop (nat n) ?buffer)"
      "out' = (out @ take (nat n) ?buffer) @ take k (drop (nat n) ?buffer)" "tot' = tot + n + int k"
      "err = None \<longrightarrow> k = length (drop (nat n) ?buffer)"
      using "3.IH" [OF refl _ refl refl _ _ rec] False by auto
    have "nat n \<le> length ?buffer" "0 \<le> n" using False by auto
    with k show ?thesis
      by (intro exI [of _ "nat n + k"]) (auto simp: take_add)
  qed
qed auto

lemma write_buffers_spec:
  "write_buffers script bufs out tot = Some (out', tot', err) \<Longrightarrow>
   \<exists>k \<le> length (concat bufs). out' = out @ take k (concat bufs) \<and> tot' = tot + int k \<and>
     (err = None \<longrightarrow> k = length (concat bufs))"
proof (induction bufs arbitrary: script out tot)
  case (Cons b bufs)
  obtain script1 out1 tot1 err1 where wa: "write_all script b out tot = Some (script1, out1, tot1, err1)"
    using Cons.prems by (auto split: option.splits)
  obtain k where k: "k \<le> length b" "out1 = out @ take k b" "tot1 = tot + int k" "err1 = None \<longrightarrow> k = length b"
    using write_all_spec [OF wa] by blast
  show ?case
  proof (cases err1)
    case None
    with Cons.prems wa have "write_buffers script1 bufs out1 tot1 = Some (out', tot', err)" by simp
    from Cons.IH [OF this] obtain j where j: "j \<le> length (concat bufs)" "out' = out1 @ take j (concat bufs)"
      "tot' = tot1 + int j" "err = None \<longrightarrow> j = length (concat bufs)" by blast
    with k None show ?thesis by (intro exI [of _ "length b + j"]) auto
  next
    case (Some e)
    with Cons.prems wa k show ?thesis by (intro exI [of _ k]) auto
  qed
qed simp

text \<open>Every answer ends the write or moves it on, so as many answers as bytes suffice.\<close>

lemma write_all_returns:
  "length bs \<le> length script \<Longrightarrow>
   \<exists>script' out' tot' err. write_all script bs out tot = Some (script', out', tot', err) \<and>
     length script \<le> length script' + length bs"
proof (induction script bs out tot rule: write_all.induct)
  case (3 n err0 script b bs out tot)
  show ?case
  proof (cases "n < 0 \<or> n > int (length (b # bs)) \<or> err0 \<noteq> None \<or> n = 0")
    case True
    then show ?thesis by (auto simp: Let_def split: option.splits)
  next
    case False
    have "length (drop (nat n) (b # bs)) \<le> length bs" using False by (cases "nat n") auto
    then show ?thesis
      using "3.IH" [OF refl _ refl refl _ _] False "3.prems" by (fastforce simp: Let_def)
  qed
qed auto

lemma write_buffers_returns:
  "length (concat bufs) \<le> length script \<Longrightarrow> \<exists>result. write_buffers script bufs out tot = Some result"
proof (induction bufs arbitrary: script out tot)
  case (Cons b bufs)
  then obtain script1 out1 tot1 err where "write_all script b out tot = Some (script1, out1, tot1, err)"
    "length script \<le> length script1 + length b"
    using write_all_returns [of b script out tot] by auto
  with Cons show ?case by (cases err) auto
qed simp

text \<open>
  Writing to a writer that answers anything at all (short counts, counts out of range, zero
  counts, errors): \<open>WriteTo\<close> returns after at most as many calls as the frame has bytes; what is on the wire is
  always a prefix of the frame, the count it returns is the length of that prefix, and when it
  reports no error the wire holds the whole frame, whose decoding under the encoder's limits gives
  the records back.
\<close>

theorem write_to_prefix:
  assumes "NewEncodedBatch c b (Some nanos) rs l = Inr eb" "go_len rs" "\<forall>r\<in>set rs. go_len r"
    "EncodedBatch_Size eb \<le> int (length script)"
  shows "\<exists>out n err. EncodedBatch_WriteTo script eb = Some (out, n, err) \<and> n = int (length out) \<and>
    out = take (nat n) (concat (Buffers eb)) \<and>
    (err = None \<longrightarrow> n = EncodedBatch_Size eb \<and>
       (\<exists>bt. ReadBatch \<lparr>rd_bytes = out, rd_end = e\<rparr> l = (Inr bt, \<lparr>rd_bytes = [], rd_end = e\<rparr>) \<and> b_Records bt = rs))"
proof -
  have lim: "Limits_Validate l = None"
    using assms(1) by (auto simp: NewEncodedBatch_def split: option.splits)
  have eb: "frame_ok l c b nanos rs" "eb = encoded_for c b nanos rs"
    using assms(1) NewEncodedBatch_eq [OF assms(3,2) lim] by (auto split: if_splits)
  have size: "EncodedBatch_Size eb = int (length (concat (Buffers eb)))"
    unfolding eb(2) Buffers_concat by (rule EncodedBatch_Size_frame)
  then obtain out n err where w: "EncodedBatch_WriteTo script eb = Some (out, n, err)"
    using write_buffers_returns [of "Buffers eb" script "[]" 0] assms(4) by (auto simp: EncodedBatch_WriteTo_def)
  then obtain k where k: "k \<le> length (concat (Buffers eb))" "out = take k (concat (Buffers eb))" "n = int k"
    "err = None \<longrightarrow> k = length (concat (Buffers eb))"
    using write_buffers_spec unfolding EncodedBatch_WriteTo_def by fastforce
  have "ReadBatch \<lparr>rd_bytes = concat (Buffers eb), rd_end = e\<rparr> l = (Inr (batch_for c b nanos rs), \<lparr>rd_bytes = [], rd_end = e\<rparr>)"
    using ReadBatch_frame [OF lim eb(1), of "[]" e] unfolding eb(2) Buffers_concat by simp
  then show ?thesis
    using w k size by (auto simp: batch_for_def)
qed

lemma write_to_prefix_witness:
  "\<exists>out n err. EncodedBatch_WriteTo (replicate 59 (3, None)) (encoded_for 7 3 5 [[65, 66], [67]]) = Some (out, n, err) \<and>
    n = int (length out) \<and> out = take (nat n) (concat (Buffers (encoded_for 7 3 5 [[65, 66], [67]]))) \<and>
    (err = None \<longrightarrow> n = EncodedBatch_Size (encoded_for 7 3 5 [[65, 66], [67]]) \<and>
       (\<exists>bt. ReadBatch \<lparr>rd_bytes = out, rd_end = EndEOF\<rparr> DefaultLimits = (Inr bt, \<lparr>rd_bytes = [], rd_end = EndEOF\<rparr>) \<and>
         b_Records bt = [[65, 66], [67]]))"
  by (rule write_to_prefix [OF new_encoded_example])
    (simp_all add: go_len_def EncodedBatch_Size_def encoded_for_def BatchHeaderSize_def)

end
