(* ===== verification/Protocol_Client.thy ===== *)
theory Protocol_Client
  imports Protocol_Codec "HOL-Library.Signed_Division"
begin

text \<open>
  The network client of \<^verbatim>\<open>internal/protocol/client.go\<close>: \<open>Send\<close> with its retry loop, the exchange of a
  frame for an acknowledgement, and \<open>Close\<close>. What the network, the context and the clock
  answer to attempt number \<open>k\<close> is \<open>env k\<close>; what the client does to the outside is a list of events.
\<close>

subsection \<open>Configuration\<close>

record ClientConfig =
  cc_Address :: string
  cc_ClientID :: u64
  cc_DialTimeout :: duration
  cc_IOTimeout :: duration
  cc_RetryInitial :: duration
  cc_RetryMaximum :: duration
  cc_MaxAttempts :: int
  cc_Limits :: Limits

datatype client_error =
    AddressRequired | SecureIDError nat | RetryOrder | BadLimits proto_error
  | ClientClosed | PayloadChanged | EncodeError proto_error | ContextError nat
  | DialError nat | DeadlineError nat | WriteError proto_error | AckError proto_error
  | AckMismatch | AckUnknown | RemoteError AckStatus | SendFailed int "client_error option"

text \<open>\<open>conn\<close> holds the bytes that have arrived on the open connection and were not read yet.\<close>

record Client =
  cl_config :: ClientConfig
  cl_conn :: "bytes option"
  cl_batchID :: u64
  cl_pending :: "EncodedBatch option"
  cl_closed :: bool

definition zero_limits :: Limits where
  "zero_limits = \<lparr>MaxRecords = 0, MaxPayload = 0, MaxEventBytes = 0\<rparr>"

text \<open>\<open>secureID\<close>: eight bytes of \<open>crypto/rand\<close>, or its failure.\<close>

definition secureID :: "(nat, bytes) result \<Rightarrow> (client_error, u64) result" where
  "secureID random = (case random of Inl e \<Rightarrow> Inl (SecureIDError e)
     | Inr raw \<Rightarrow> (let n = Uint64 raw in if n = 0 then Inr 1 else Inr n))"

definition positive_or :: "duration \<Rightarrow> duration \<Rightarrow> duration" where
  "positive_or d v = (if sint v \<le> 0 then d else v)"

definition NewClient :: "(nat, bytes) result \<Rightarrow> ClientConfig \<Rightarrow> (client_error, Client) result" where
  "NewClient random config =
     (if cc_Address config = [] then Inl AddressRequired
      else (case (if cc_ClientID config = 0 then secureID random else Inr (cc_ClientID config)) of
        Inl e \<Rightarrow> Inl e
      | Inr cid \<Rightarrow>
          (let config1 = config\<lparr>cc_ClientID := cid,
                cc_DialTimeout := positive_or (2 * Second) (cc_DialTimeout config),
                cc_IOTimeout := positive_or (5 * Second) (cc_IOTimeout config),
                cc_RetryInitial := positive_or (50 * Millisecond) (cc_RetryInitial config),
                cc_RetryMaximum := positive_or (2 * Second) (cc_RetryMaximum config),
                cc_MaxAttempts := (if cc_MaxAttempts config \<le> 0 then 8 else cc_MaxAttempts config)\<rparr>
           in if sint (cc_RetryMaximum config1) < sint (cc_RetryInitial config1) then Inl RetryOrder
              else (let config2 = (if cc_Limits config1 = zero_limits then config1\<lparr>cc_Limits := DefaultLimits\<rparr> else config1)
                    in (case Limits_Validate (cc_Limits config2) of
                          Some e \<Rightarrow> Inl (BadLimits e)
                        | None \<Rightarrow> Inr \<lparr>cl_config = config2, cl_conn = None, cl_batchID = 0, cl_pending = None,
                                       cl_closed = False\<rparr>)))))"

definition jitter :: "duration \<Rightarrow> nat \<Rightarrow> duration" where
  "jitter base attempt =
     (let percent = 90 + (int attempt * 17) mod 21
      in word_of_int (sint (base * word_of_int percent) sdiv 100))"

subsection \<open>One exchange\<close>

text \<open>
  The answers of one attempt: the context's error before it, the dial, \<open>SetDeadline\<close>, the vectored
  write, the bytes that arrive and how the stream ends, and the wait afterwards.
\<close>

record attempt_env =
  ae_ctx :: "nat option"
  ae_dial :: "nat option"
  ae_deadline :: "nat option"
  ae_write :: "int \<times> proto_error option"
  ae_arrived :: bytes
  ae_end :: read_end
  ae_wait :: "nat option"

datatype client_event = Dialled | Wrote bytes int | GotAck Ack | Dropped_conn | Waited duration

definition ensureConnection :: "attempt_env \<Rightarrow> Client \<Rightarrow> Client \<times> client_event list \<times> client_error option" where
  "ensureConnection e c =
     (if cl_conn c \<noteq> None then (c, [], None)
      else case ae_dial e of
        Some k \<Rightarrow> (c, [], Some (DialError k))
      | None \<Rightarrow> (c\<lparr>cl_conn := Some []\<rparr>, [Dialled], None))"

definition dropConnection :: "Client \<Rightarrow> Client \<times> client_event list" where
  "dropConnection c = (if cl_conn c \<noteq> None then (c\<lparr>cl_conn := None\<rparr>, [Dropped_conn]) else (c, []))"

definition exchange :: "attempt_env \<Rightarrow> EncodedBatch \<Rightarrow> Client \<Rightarrow> Client \<times> client_event list \<times> client_error option" where
  "exchange e batch c =
     (case ae_deadline e of Some k \<Rightarrow> (c, [], Some (DeadlineError k)) | None \<Rightarrow>
        (case WriteVectoredTo (ae_write e) batch of
           (n, Some err) \<Rightarrow> (c, [Wrote (take (nat n) (concat (Buffers batch))) n], Some (WriteError err))
         | (n, None) \<Rightarrow>
             (let sent = Wrote (take (nat n) (concat (Buffers batch))) n;
                  unread = (case cl_conn c of None \<Rightarrow> [] | Some bs \<Rightarrow> bs);
                  (answer, left) = ReadAck \<lparr>rd_bytes = unread @ ae_arrived e, rd_end = ae_end e\<rparr>;
                  c1 = c\<lparr>cl_conn := Some (rd_bytes left)\<rparr>
              in case answer of
                   Inl err \<Rightarrow> (c1, [sent], Some (AckError err))
                 | Inr ack \<Rightarrow>
                     (c1, [sent, GotAck ack],
                      if ack_ClientID ack \<noteq> EncodedBatch_ClientID batch \<or> ack_BatchID ack \<noteq> EncodedBatch_BatchID batch
                        then Some AckMismatch
                      else if ack_Status ack = StatusAccepted \<or> ack_Status ack = StatusDuplicate then None
                      else if ack_Status ack = StatusInvalid \<or> ack_Status ack = StatusOverloaded \<or>
                              ack_Status ack = StatusSinkError then Some (RemoteError (ack_Status ack))
                      else Some AckUnknown))))"

subsection \<open>Send and Close\<close>

text \<open>
  The retry loop: \<open>left\<close> is the number of attempts that remain, \<open>cc_MaxAttempts - attempt + 1\<close>.
\<close>

definition next_backoff :: "duration \<Rightarrow> duration \<Rightarrow> duration" where
  "next_backoff maximum backoff = (let b = backoff * 2 in if sint b > sint maximum then maximum else b)"

datatype attempt_outcome = Delivered | Fatal client_error | Retry client_error

definition attempt_once :: "attempt_env \<Rightarrow> EncodedBatch \<Rightarrow> Client \<Rightarrow> Client \<times> client_event list \<times> attempt_outcome" where
  "attempt_once e batch c =
     (case ensureConnection e c of
        (c1, ev1, Some err) \<Rightarrow> (c1, ev1, Retry err)
      | (c1, ev1, None) \<Rightarrow>
          (case exchange e batch c1 of
             (c2, ev2, None) \<Rightarrow> (c2\<lparr>cl_pending := None\<rparr>, ev1 @ ev2, Delivered)
           | (c2, ev2, Some err) \<Rightarrow>
               if err = RemoteError StatusInvalid then (c2, ev1 @ ev2, Fatal err)
               else (case dropConnection c2 of (c3, ev3) \<Rightarrow> (c3, ev1 @ ev2 @ ev3, Retry err))))"

definition log_events :: "client_event list \<Rightarrow> Client \<times> client_event list \<times> client_error option \<Rightarrow>
    Client \<times> client_event list \<times> client_error option" where
  "log_events evs r = (case r of (c, evs', res) \<Rightarrow> (c, evs @ evs', res))"

fun send_loop :: "(nat \<Rightarrow> attempt_env) \<Rightarrow> EncodedBatch \<Rightarrow> nat \<Rightarrow> nat \<Rightarrow> duration \<Rightarrow> client_error option \<Rightarrow> Client \<Rightarrow>
    Client \<times> client_event list \<times> client_error option" where
  "send_loop env batch 0 attempt backoff lastErr c =
     (c, [], Some (SendFailed (cc_MaxAttempts (cl_config c)) lastErr))"
| "send_loop env batch (Suc left) attempt backoff lastErr c =
     (case ae_ctx (env attempt) of Some k \<Rightarrow> (c, [], Some (ContextError k)) | None \<Rightarrow>
        (case attempt_once (env attempt) batch c of
           (c1, evs, Delivered) \<Rightarrow> (c1, evs, None)
         | (c1, evs, Fatal err) \<Rightarrow> (c1, evs, Some err)
         | (c1, evs, Retry err) \<Rightarrow>
             if left > 0 then
               (let pause = jitter backoff attempt in
                case ae_wait (env attempt) of
                  Some k \<Rightarrow> (c1, evs @ [Waited pause], Some (ContextError k))
                | None \<Rightarrow> log_events (evs @ [Waited pause])
                    (send_loop env batch left (Suc attempt)
                      (next_backoff (cc_RetryMaximum (cl_config c1)) backoff) (Some err) c1))
             else log_events evs (send_loop env batch left (Suc attempt) backoff (Some err) c1)))"

definition next_batchID :: "u64 \<Rightarrow> u64" where
  "next_batchID b = (let b1 = b + 1 in if b1 = 0 then b1 + 1 else b1)"

definition Send :: "(nat \<Rightarrow> attempt_env) \<Rightarrow> u64 option \<Rightarrow> bytes list \<Rightarrow> Client \<Rightarrow>
    Client \<times> client_event list \<times> client_error option" where
  "Send env now records c =
     (if cl_closed c then (c, [], Some ClientClosed)
      else case cl_pending c of
        None \<Rightarrow>
          (let c1 = c\<lparr>cl_batchID := next_batchID (cl_batchID c)\<rparr>
           in case NewEncodedBatch (cc_ClientID (cl_config c1)) (cl_batchID c1) now records (cc_Limits (cl_config c1)) of
                Inl e \<Rightarrow> (c1, [], Some (EncodeError e))
              | Inr batch \<Rightarrow>
                  send_loop env batch (nat (cc_MaxAttempts (cl_config c1))) 1 (cc_RetryInitial (cl_config c1)) None
                    (c1\<lparr>cl_pending := Some batch\<rparr>))
      | Some batch \<Rightarrow>
          if \<not> Matches (Some batch) records then (c, [], Some PayloadChanged)
          else send_loop env batch (nat (cc_MaxAttempts (cl_config c))) 1 (cc_RetryInitial (cl_config c)) None c)"

text \<open>\<open>closeErr\<close> is what closing the connection answers.\<close>

definition Client_Close :: "nat option \<Rightarrow> Client \<Rightarrow> Client \<times> nat option" where
  "Client_Close closeErr c =
     (let c1 = c\<lparr>cl_closed := True, cl_pending := None\<rparr>
      in case cl_conn c1 of None \<Rightarrow> (c1, None) | Some bs \<Rightarrow> (c1\<lparr>cl_conn := None\<rparr>, closeErr))"

subsection \<open>The client's state between calls\<close>

text \<open>The retained batch is one the encoder made for the current batch number.\<close>

definition client_inv :: "Client \<Rightarrow> bool" where
  "client_inv c \<longleftrightarrow> Limits_Validate (cc_Limits (cl_config c)) = None \<and> cc_ClientID (cl_config c) \<noteq> 0 \<and>
     (\<forall>eb. cl_pending c = Some eb \<longrightarrow>
        (\<exists>nanos rs. eb = encoded_for (cc_ClientID (cl_config c)) (cl_batchID c) nanos rs \<and> 0 < sint nanos \<and>
           frame_ok (cc_Limits (cl_config c)) (cc_ClientID (cl_config c)) (cl_batchID c) nanos rs))"

lemma secureID_nonzero: "secureID random = Inr n \<Longrightarrow> n \<noteq> 0"
  by (auto simp: secureID_def Let_def split: sum.splits if_splits)

definition fresh_client :: "Client \<Rightarrow> bool" where
  "fresh_client c \<longleftrightarrow> client_inv c \<and> cl_conn c = None \<and> cl_pending c = None \<and> cl_batchID c = 0 \<and> \<not> cl_closed c \<and>
     0 < cc_MaxAttempts (cl_config c) \<and> 0 < sint (cc_RetryInitial (cl_config c)) \<and>
     sint (cc_RetryInitial (cl_config c)) \<le> sint (cc_RetryMaximum (cl_config c))"

lemma positive_or_pos: "0 < sint d \<Longrightarrow> 0 < sint (positive_or d v)"
  by (simp add: positive_or_def)

lemma NewClient_fresh:
  assumes "NewClient random config = Inr c"
  shows "fresh_client c"
proof -
  have pos: "0 < sint (50 * Millisecond)" by (simp add: Millisecond_def)
  obtain cid where "cid \<noteq> 0" "(if cc_ClientID config = 0 then secureID random else Inr (cc_ClientID config)) = Inr cid"
    using assms secureID_nonzero by (auto simp: NewClient_def split: if_splits sum.splits)
  then show ?thesis
    using assms positive_or_pos [OF pos]
    by (auto simp: NewClient_def Let_def fresh_client_def client_inv_def not_less split: if_splits option.splits)
qed

lemma next_batchID_nonzero [simp]: "next_batchID b \<noteq> 0"
  by (auto simp: next_batchID_def Let_def)

lemma next_batchID_Suc: "unat b < 2 ^ 64 - 1 \<Longrightarrow> unat (next_batchID b) = Suc (unat b)"
proof -
  assume lt: "unat b < 2 ^ 64 - 1"
  then have s: "unat (b + 1) = Suc (unat b)" by (simp add: unat_word_ariths)
  then have "b + 1 \<noteq> 0" by (metis nat.distinct(1) unat_0)
  with s show ?thesis by (simp add: next_batchID_def Let_def)
qed

subsection \<open>What one attempt and the retry loop do\<close>

lemma WriteVectoredTo_ok:
  "WriteVectoredTo answer batch = (n, None) \<Longrightarrow> n = EncodedBatch_Size batch"
  by (auto simp: WriteVectoredTo_def split: prod.splits if_splits)

lemma ensureConnection_frame:
  "ensureConnection e c = (c1, evs, res) \<Longrightarrow>
     (\<exists>k. c1 = c\<lparr>cl_conn := k\<rparr>) \<and> (\<forall>ev\<in>set evs. ev = Dialled) \<and> (res = None \<longleftrightarrow> cl_conn c1 \<noteq> None)"
  by (auto simp: ensureConnection_def split: if_splits option.splits intro: exI [of _ "cl_conn c"])

lemma exchange_frame:
  assumes "exchange e batch c = (c1, evs, res)"
  shows "(\<exists>k. c1 = c\<lparr>cl_conn := k\<rparr>) \<and>
    (\<forall>f n. Wrote f n \<in> set evs \<longrightarrow> f = take (nat n) (concat (Buffers batch))) \<and> (\<forall>d. Waited d \<notin> set evs)"
  using assms
  by (auto simp: exchange_def Let_def split: option.splits prod.splits sum.splits if_splits intro: exI [of _ "cl_conn c"])

text \<open>Acknowledged: the whole frame went out, and an accepting acknowledgement for it came back.\<close>

definition acknowledged :: "EncodedBatch \<Rightarrow> client_event list \<Rightarrow> bool" where
  "acknowledged batch evs \<longleftrightarrow> (\<exists>before n ack.
     evs = before @ [Wrote (take (nat n) (concat (Buffers batch))) n, GotAck ack] \<and> n = EncodedBatch_Size batch \<and>
     ack_ClientID ack = EncodedBatch_ClientID batch \<and> ack_BatchID ack = EncodedBatch_BatchID batch \<and>
     (ack_Status ack = StatusAccepted \<or> ack_Status ack = StatusDuplicate))"

lemma acknowledged_append: "acknowledged batch evs \<Longrightarrow> acknowledged batch (evs0 @ evs)"
  unfolding acknowledged_def by (metis append.assoc)

lemma exchange_success:
  assumes "exchange e batch c = (c1, evs, None)"
  shows "acknowledged batch evs"
proof -
  obtain n where w: "WriteVectoredTo (ae_write e) batch = (n, None)"
    using assms by (auto simp: exchange_def split: option.splits prod.splits)
  then obtain ack where "evs = [] @ [Wrote (take (nat n) (concat (Buffers batch))) n, GotAck ack]"
    "ack_ClientID ack = EncodedBatch_ClientID batch" "ack_BatchID ack = EncodedBatch_BatchID batch"
    "ack_Status ack = StatusAccepted \<or> ack_Status ack = StatusDuplicate"
    using assms by (auto simp: exchange_def Let_def split: option.splits prod.splits sum.splits if_splits)
  with WriteVectoredTo_ok [OF w] show ?thesis unfolding acknowledged_def by blast
qed

lemma dropConnection_frame:
  "dropConnection c = (c1, evs) \<Longrightarrow> c1 = c\<lparr>cl_conn := None\<rparr> \<and> (\<forall>ev\<in>set evs. ev = Dropped_conn)"
  by (auto simp: dropConnection_def split: if_splits)

definition attempt_events_ok :: "EncodedBatch \<Rightarrow> client_event list \<Rightarrow> bool" where
  "attempt_events_ok batch evs \<longleftrightarrow>
     (\<forall>f n. Wrote f n \<in> set evs \<longrightarrow> f = take (nat n) (concat (Buffers batch))) \<and> (\<forall>d. Waited d \<notin> set evs)"

lemma attempt_once_cases:
  assumes "attempt_once e batch c = (c1, evs, res)"
  shows "attempt_events_ok batch evs \<and>
    (case res of
       Delivered \<Rightarrow> acknowledged batch evs \<and> (\<exists>k. c1 = c\<lparr>cl_conn := k, cl_pending := None\<rparr>)
     | Fatal err \<Rightarrow> err = RemoteError StatusInvalid \<and> (\<exists>k. c1 = c\<lparr>cl_conn := k\<rparr>)
     | Retry err \<Rightarrow> c1 = c\<lparr>cl_conn := None\<rparr>)"
proof -
  obtain ca ev1 r1 where en: "ensureConnection e c = (ca, ev1, r1)" by (metis prod_cases3)
  note ef = ensureConnection_frame [OF en]
  show ?thesis
  proof (cases r1)
    case (Some err)
    then have "c1 = ca" "evs = ev1" "res = Retry err"
      using assms en by (simp_all add: attempt_once_def)
    moreover from Some ef have "ca = c\<lparr>cl_conn := None\<rparr>" by auto
    ultimately show ?thesis using ef by (auto simp: attempt_events_ok_def)
  next
    case None
    obtain cb ev2 r2 where ex: "exchange e batch ca = (cb, ev2, r2)" by (metis prod_cases3)
    note xf = exchange_frame [OF ex]
    obtain cd ev3 where dr: "dropConnection cb = (cd, ev3)" by fastforce
    have ok: "attempt_events_ok batch (ev1 @ ev2)" "attempt_events_ok batch (ev1 @ ev2 @ ev3)"
      using ef xf dropConnection_frame [OF dr] by (auto simp: attempt_events_ok_def)
    show ?thesis
    proof (cases r2)
      case None
      then have "acknowledged batch (ev1 @ ev2)"
        using exchange_success ex acknowledged_append by blast
      then show ?thesis
        using assms en ex None \<open>r1 = None\<close> ok(1) ef xf by (auto simp: attempt_once_def)
    next
      case (Some err)
      then show ?thesis
        using assms en ex \<open>r1 = None\<close> ok ef xf dr dropConnection_frame [OF dr]
        by (auto simp: attempt_once_def split: if_splits)
    qed
  qed
qed

lemma log_events_eq: "log_events pre r = (c', evs, res) \<longleftrightarrow> (\<exists>ev'. r = (c', ev', res) \<and> evs = pre @ ev')"
  by (auto simp: log_events_def split: prod.splits)

text \<open>
  The loop as a whole, for a batch kept in the client: the client's identity never changes; the batch is
  given up only after an acknowledgement; every write carries a prefix of its frame.
\<close>

lemma send_loop_spec:
  assumes "send_loop env batch left attempt backoff lastErr c = (c', evs, res)"
  shows "(\<forall>f n. Wrote f n \<in> set evs \<longrightarrow> f = take (nat n) (concat (Buffers batch))) \<and>
    (if res = None then acknowledged batch evs \<and> (\<exists>k. c' = c\<lparr>cl_conn := k, cl_pending := None\<rparr>)
     else (\<exists>k. c' = c\<lparr>cl_conn := k\<rparr>))"
  using assms
proof (induction env batch left attempt backoff lastErr c arbitrary: c' evs res rule: send_loop.induct)
  case (1 env batch attempt backoff lastErr c)
  then show ?case by (auto intro: exI [of _ "cl_conn c"])
next
  case (2 env batch left attempt backoff lastErr c)
  show ?case
  proof (cases "ae_ctx (env attempt)")
    case (Some k)
    then show ?thesis using "2.prems" by (auto intro: exI [of _ "cl_conn c"])
  next
    case ctx: None
    obtain c1 ev out where at: "attempt_once (env attempt) batch c = (c1, ev, out)" by (metis prod_cases3)
    note ac = attempt_once_cases [OF at]
    show ?thesis
    proof (cases out)
      case (Retry err)
      then have c1: "c1 = c\<lparr>cl_conn := None\<rparr>" and ok: "attempt_events_ok batch ev" using ac by auto
      show ?thesis
      proof (cases "left > 0 \<and> ae_wait (env attempt) \<noteq> None")
        case True
        then show ?thesis
          using "2.prems" ctx at Retry c1 ok by (auto simp: attempt_events_ok_def Let_def)
      next
        case False
        obtain b pre ev' where rec: "send_loop env batch left (Suc attempt) b (Some err) c1 = (c', ev', res)"
          and evs: "evs = pre @ ev'" and pre: "\<forall>f n. Wrote f n \<in> set pre \<longrightarrow> f = take (nat n) (concat (Buffers batch))"
          and b: "b = (if left > 0 then next_backoff (cc_RetryMaximum (cl_config c1)) backoff else backoff)"
        proof (cases "left > 0")
          case l: True
          then obtain ev' where r1: "send_loop env batch left (Suc attempt)
              (next_backoff (cc_RetryMaximum (cl_config c1)) backoff) (Some err) c1 = (c', ev', res)"
            and r2: "evs = (ev @ [Waited (jitter backoff attempt)]) @ ev'"
            using "2.prems" ctx at Retry False by (auto simp: log_events_eq Let_def)
          show thesis
            by (rule that [OF r1 r2]) (use l ok in \<open>auto simp: attempt_events_ok_def\<close>)
        next
          case l: False
          then obtain ev' where r1: "send_loop env batch left (Suc attempt) backoff (Some err) c1 = (c', ev', res)"
            and r2: "evs = ev @ ev'"
            using "2.prems" ctx at Retry by (auto simp: log_events_eq)
          show thesis
            by (rule that [OF r1 r2]) (use l ok in \<open>auto simp: attempt_events_ok_def\<close>)
        qed
        have IH: "(\<forall>f n. Wrote f n \<in> set ev' \<longrightarrow> f = take (nat n) (concat (Buffers batch))) \<and>
          (if res = None then acknowledged batch ev' \<and> (\<exists>k. c' = c1\<lparr>cl_conn := k, cl_pending := None\<rparr>)
           else (\<exists>k. c' = c1\<lparr>cl_conn := k\<rparr>))"
          using "2.IH" ctx at Retry False rec b by (cases "left > 0") auto
        then show ?thesis
          using pre unfolding evs by (auto simp: c1 acknowledged_append split: if_splits)
      qed
    qed (use "2.prems" ctx at ac in \<open>auto simp: attempt_events_ok_def\<close>)
  qed
qed

subsection \<open>Calls of \<open>Send\<close>\<close>

text \<open>The batch a call works on, if it gets as far as an attempt, and the state it starts from.\<close>

definition send_batch :: "u64 option \<Rightarrow> bytes list \<Rightarrow> Client \<Rightarrow> EncodedBatch option" where
  "send_batch now records c = (case cl_pending c of
     None \<Rightarrow> (case NewEncodedBatch (cc_ClientID (cl_config c)) (next_batchID (cl_batchID c)) now records (cc_Limits (cl_config c)) of
               Inl e \<Rightarrow> None | Inr batch \<Rightarrow> Some batch)
   | Some batch \<Rightarrow> if Matches (Some batch) records then Some batch else None)"

definition send_start :: "EncodedBatch \<Rightarrow> Client \<Rightarrow> Client" where
  "send_start batch c = c\<lparr>cl_batchID := (if cl_pending c = None then next_batchID (cl_batchID c) else cl_batchID c),
     cl_pending := Some batch\<rparr>"

lemma Send_started:
  assumes "\<not> cl_closed c" "send_batch now records c = Some batch"
  shows "Send env now records c = send_loop env batch (nat (cc_MaxAttempts (cl_config c))) 1
     (cc_RetryInitial (cl_config c)) None (send_start batch c)"
proof (cases "cl_pending c")
  case None
  then show ?thesis
    using assms by (auto simp: Send_def send_batch_def send_start_def Let_def split: sum.splits)
next
  case (Some b)
  then have "send_start batch c = c" "b = batch"
    using assms(2) by (auto simp: send_start_def send_batch_def split: if_splits)
  then show ?thesis
    using assms Some by (simp add: Send_def send_batch_def split: if_splits)
qed

lemma Send_refused:
  assumes "cl_closed c \<or> send_batch now records c = None" "Send env now records c = (c', evs, res)"
  shows "evs = [] \<and> res \<noteq> None \<and>
    c' = (if cl_closed c \<or> cl_pending c \<noteq> None then c else c\<lparr>cl_batchID := next_batchID (cl_batchID c)\<rparr>) \<and>
    (cl_closed c \<longrightarrow> res = Some ClientClosed) \<and> (\<not> cl_closed c \<and> cl_pending c \<noteq> None \<longrightarrow> res = Some PayloadChanged)"
  using assms by (auto simp: Send_def send_batch_def Let_def split: option.splits sum.splits if_splits)

lemma send_batch_encoded:
  assumes "client_inv c" "go_len records" "\<forall>r\<in>set records. go_len r" "send_batch now records c = Some batch"
  shows "client_inv (send_start batch c) \<and> Matches (Some batch) records"
proof (cases "cl_pending c")
  case None
  let ?b = "next_batchID (cl_batchID c)" and ?l = "cc_Limits (cl_config c)" and ?i = "cc_ClientID (cl_config c)"
  have lim: "Limits_Validate ?l = None" using assms(1) by (simp add: client_inv_def)
  obtain nanos where now: "now = Some nanos" and ne: "NewEncodedBatch ?i ?b (Some nanos) records ?l = Inr batch"
    using assms(4) None
    by (cases now) (auto simp: send_batch_def NewEncodedBatch_def split: option.splits sum.splits if_splits)
  then have ok: "batch = encoded_for ?i ?b nanos records" "0 < sint nanos" "frame_ok ?l ?i ?b nanos records"
    using NewEncodedBatch_eq [OF assms(3,2) lim] by (auto split: if_splits)
  have "length (payload_of records) < 2 ^ 32"
    using ok(3) limits_bounds [OF lim] by (simp add: frame_ok_def records_ok_def)
  then have "Matches (Some batch) records" by (simp add: ok(1) Matches_encoded)
  with None ok assms(1) show ?thesis by (auto simp: client_inv_def send_start_def)
next
  case (Some b)
  then show ?thesis using assms by (auto simp: send_batch_def send_start_def client_inv_def split: if_splits)
qed

lemma Send_inv:
  assumes "client_inv c" "go_len records" "\<forall>r\<in>set records. go_len r" "Send env now records c = (c', evs, res)"
  shows "client_inv c'"
proof (cases "cl_closed c \<or> send_batch now records c = None")
  case True
  then show ?thesis
    using Send_refused [OF True assms(4)] assms(1) by (auto simp: client_inv_def split: if_splits)
next
  case False
  then obtain batch where batch: "send_batch now records c = Some batch" by blast
  have "client_inv (send_start batch c)" using send_batch_encoded [OF assms(1-3) batch] by blast
  moreover have "send_loop env batch (nat (cc_MaxAttempts (cl_config c))) 1 (cc_RetryInitial (cl_config c)) None
      (send_start batch c) = (c', evs, res)"
    using Send_started [OF _ batch, of env] assms(4) False by simp
  from send_loop_spec [OF this] obtain k where
    "c' = (send_start batch c)\<lparr>cl_conn := k\<rparr> \<or> c' = (send_start batch c)\<lparr>cl_conn := k, cl_pending := None\<rparr>"
    by (cases res) auto
  ultimately show ?thesis by (auto simp: client_inv_def)
qed

subsection \<open>Properties\<close>

text \<open>
  C23. \<open>Send\<close> reports success only when the last thing that happened was that the whole frame of the batch went out
  and an acknowledgement with its client and batch number and the status Accepted or Duplicate was
  read; only then is the batch given up. The batch is the one retained from an earlier
  call, if there is one and the records still match it, and else the records of this call.
\<close>

theorem send_success_is_acknowledged:
  assumes "client_inv c" "go_len records" "\<forall>r\<in>set records. go_len r" "Send env now records c = (c', evs, None)"
  shows "cl_pending c' = None \<and>
    (\<exists>eb before n ack. (cl_pending c = Some eb \<or>
         cl_pending c = None \<and> (\<exists>nanos. now = Some nanos \<and>
           eb = encoded_for (cc_ClientID (cl_config c)) (next_batchID (cl_batchID c)) nanos records)) \<and>
       Matches (Some eb) records \<and>
       evs = before @ [Wrote (concat (Buffers eb)) n, GotAck ack] \<and> n = int (length (concat (Buffers eb))) \<and>
       ack_ClientID ack = cc_ClientID (cl_config c) \<and> ack_BatchID ack = cl_batchID c' \<and>
       ack_Status ack \<in> {StatusAccepted, StatusDuplicate})"
proof -
  obtain batch where open_c: "\<not> cl_closed c" and batch: "send_batch now records c = Some batch"
    using Send_refused [OF _ assms(4)] by (cases "send_batch now records c") auto
  have loop: "send_loop env batch (nat (cc_MaxAttempts (cl_config c))) 1 (cc_RetryInitial (cl_config c)) None
      (send_start batch c) = (c', evs, None)"
    using Send_started [OF open_c batch, of env] assms(4) by simp
  then obtain k where ack: "acknowledged batch evs" and c': "c' = (send_start batch c)\<lparr>cl_conn := k, cl_pending := None\<rparr>"
    using send_loop_spec [OF loop] by auto
  have inv: "client_inv (send_start batch c)" and m: "Matches (Some batch) records"
    using send_batch_encoded [OF assms(1-3) batch] by blast+
  obtain nanos rs where enc: "batch = encoded_for (cc_ClientID (cl_config c)) (cl_batchID c') nanos rs"
    using inv by (auto simp: client_inv_def c' send_start_def)
  have ids: "EncodedBatch_ClientID batch = cc_ClientID (cl_config c)" "EncodedBatch_BatchID batch = cl_batchID c'"
    by (simp_all add: enc encoded_for_def EncodedBatch_ClientID_def EncodedBatch_BatchID_def header_for_def)
  have size: "EncodedBatch_Size batch = int (length (concat (Buffers batch)))"
    unfolding enc Buffers_concat by (rule EncodedBatch_Size_frame)
  have origin: "cl_pending c = Some batch \<or> cl_pending c = None \<and> (\<exists>nanos. now = Some nanos \<and>
      batch = encoded_for (cc_ClientID (cl_config c)) (next_batchID (cl_batchID c)) nanos records)"
  proof (cases "cl_pending c")
    case None
    have lim: "Limits_Validate (cc_Limits (cl_config c)) = None" using assms(1) by (simp add: client_inv_def)
    from None batch obtain t where "now = Some t"
      by (cases now) (auto simp: send_batch_def NewEncodedBatch_def split: option.splits sum.splits if_splits)
    then show ?thesis
      using None batch NewEncodedBatch_eq [OF assms(3,2) lim]
      by (auto simp: send_batch_def split: sum.splits if_splits)
  qed (use batch in \<open>auto simp: send_batch_def split: if_splits\<close>)
  from ack [unfolded acknowledged_def size] ids origin m show ?thesis
    by (auto simp: c')
qed

text \<open>A client, and an attempt on which the collector answers with the given status.\<close>

definition example_client :: Client where
  "example_client = \<lparr>cl_config = \<lparr>cc_Address = ''collector:1'', cc_ClientID = 7, cc_DialTimeout = Second,
     cc_IOTimeout = Second, cc_RetryInitial = 50000000, cc_RetryMaximum = 2000000000, cc_MaxAttempts = 3,
     cc_Limits = DefaultLimits\<rparr>, cl_conn = None, cl_batchID = 0, cl_pending = None, cl_closed = False\<rparr>"

definition answered :: "int \<Rightarrow> Ack \<Rightarrow> attempt_env" where
  "answered n a = \<lparr>ae_ctx = None, ae_dial = None, ae_deadline = None, ae_write = (n, None),
     ae_arrived = ack_bytes a, ae_end = EndEOF, ae_wait = None\<rparr>"

lemma example_client_fresh [simp]: "fresh_client example_client"
  by (simp add: fresh_client_def client_inv_def example_client_def Limits_Validate_def DefaultLimits_def)

lemma example_send_batch [simp]:
  "send_batch (Some 5) [[65, 66], [67]] example_client = Some (encoded_for 7 1 5 [[65, 66], [67]])"
proof -
  have "Limits_Validate DefaultLimits = None" by (simp add: Limits_Validate_def DefaultLimits_def)
  then have "NewEncodedBatch 7 1 (Some 5) [[65, 66], [67]] DefaultLimits = Inr (encoded_for 7 1 5 [[65, 66], [67]])"
    by (subst NewEncodedBatch_eq) (simp_all add: go_len_def frame_ok_def records_ok_def DefaultLimits_def)
  then show ?thesis by (simp add: send_batch_def example_client_def next_batchID_def Let_def)
qed

lemma exchange_answered:
  assumes "cl_conn c = Some []" "ack_ok a" "ack_ClientID a = EncodedBatch_ClientID batch"
    "ack_BatchID a = EncodedBatch_BatchID batch" "ack_Status a \<in> {StatusAccepted, StatusDuplicate}"
  shows "exchange (answered (EncodedBatch_Size batch) a) batch c = (c,
    [Wrote (take (nat (EncodedBatch_Size batch)) (concat (Buffers batch))) (EncodedBatch_Size batch), GotAck a], None)"
  using assms ReadAck_bytes [OF assms(2), of "[]" EndEOF]
  by (auto simp: exchange_def answered_def WriteVectoredTo_def)

lemma send_loop_delivered:
  assumes "ae_ctx (env attempt) = None" "attempt_once (env attempt) batch c = (c1, evs, Delivered)"
  shows "send_loop env batch (Suc left) attempt backoff lastErr c = (c1, evs, None)"
  using assms by simp

text \<open>A history of calls on one client.\<close>

datatype client_op = OpSend "nat \<Rightarrow> attempt_env" "u64 option" "bytes list" | OpClose "nat option"

fun client_step :: "client_op \<Rightarrow> Client \<Rightarrow> Client \<times> client_event list" where
  "client_step (OpSend env now records) c = (case Send env now records c of (c', evs, res) \<Rightarrow> (c', evs))"
| "client_step (OpClose err) c = (fst (Client_Close err c), [])"

fun client_run :: "client_op list \<Rightarrow> Client \<Rightarrow> Client \<times> client_event list" where
  "client_run [] c = (c, [])"
| "client_run (op # ops) c =
     (case client_step op c of (c1, evs) \<Rightarrow> case client_run ops c1 of (c2, evs') \<Rightarrow> (c2, evs @ evs'))"

fun op_ok :: "client_op \<Rightarrow> bool" where
  "op_ok (OpSend env now records) = (go_len records \<and> (\<forall>r\<in>set records. go_len r))"
| "op_ok (OpClose err) = True"

text \<open>Every write so far carries a prefix of the one frame its batch number stands for.\<close>

definition history_ok :: "(u64 \<rightharpoonup> EncodedBatch) \<Rightarrow> Client \<Rightarrow> client_event list \<Rightarrow> bool" where
  "history_ok hist c evs \<longleftrightarrow>
     (\<forall>b eb. hist b = Some eb \<longrightarrow> unat b \<le> unat (cl_batchID c) \<and>
        (\<exists>nanos rs. eb = encoded_for (cc_ClientID (cl_config c)) b nanos rs)) \<and>
     (\<forall>eb. cl_pending c = Some eb \<longrightarrow> hist (cl_batchID c) = Some eb) \<and>
     (\<forall>f n. Wrote f n \<in> set evs \<longrightarrow> (\<exists>b eb. hist b = Some eb \<and> f = take (nat n) (concat (Buffers eb))))"

lemma history_ok_append:
  "history_ok hist c evs \<Longrightarrow> \<forall>f n. Wrote f n \<in> set evs' \<longrightarrow> (\<exists>b eb. hist b = Some eb \<and> f = take (nat n) (concat (Buffers eb))) \<Longrightarrow>
   history_ok hist c (evs @ evs')"
  unfolding history_ok_def by (metis Un_iff set_append)

lemma send_start_history:
  assumes "client_inv c" "history_ok hist c evs" "unat (cl_batchID c) < 2 ^ 64 - 1"
    "go_len records" "\<forall>r\<in>set records. go_len r" "send_batch now records c = Some batch"
  shows "\<exists>hist'. history_ok hist' (send_start batch c) evs \<and> hist' (cl_batchID (send_start batch c)) = Some batch"
proof (cases "cl_pending c")
  case None
  let ?b = "next_batchID (cl_batchID c)"
  have new: "unat ?b = Suc (unat (cl_batchID c))" by (rule next_batchID_Suc [OF assms(3)])
  have free: "hist ?b = None"
  proof (rule ccontr)
    assume "hist ?b \<noteq> None"
    then have "unat ?b \<le> unat (cl_batchID c)" using assms(2) unfolding history_ok_def by blast
    with new show False by simp
  qed
  obtain nanos rs where enc: "batch = encoded_for (cc_ClientID (cl_config c)) ?b nanos rs"
    using send_batch_encoded [OF assms(1,4-6)] None by (auto simp: client_inv_def send_start_def)
  have "history_ok (hist(?b \<mapsto> batch)) (send_start batch c) evs"
    unfolding history_ok_def
  proof (intro conjI allI impI)
    fix b eb
    assume "(hist(?b \<mapsto> batch)) b = Some eb"
    then show "unat b \<le> unat (cl_batchID (send_start batch c))"
      and "\<exists>nanos rs. eb = encoded_for (cc_ClientID (cl_config (send_start batch c))) b nanos rs"
      using assms(2) enc None new by (auto simp: history_ok_def send_start_def split: if_splits dest: le_SucI)
  next
    fix eb
    assume "cl_pending (send_start batch c) = Some eb"
    then show "(hist(?b \<mapsto> batch)) (cl_batchID (send_start batch c)) = Some eb" using None by (simp add: send_start_def)
  next
    fix f n
    assume "Wrote f n \<in> set evs"
    then obtain b eb where "hist b = Some eb" "f = take (nat n) (concat (Buffers eb))"
      using assms(2) unfolding history_ok_def by blast
    then show "\<exists>b eb. (hist(?b \<mapsto> batch)) b = Some eb \<and> f = take (nat n) (concat (Buffers eb))"
      using free by (metis fun_upd_apply option.distinct(1))
  qed
  then show ?thesis using None by (auto simp: send_start_def)
next
  case (Some b)
  then have "send_start batch c = c" "cl_pending c = Some batch"
    using assms(6) by (auto simp: send_batch_def send_start_def split: if_splits)
  then show ?thesis using assms(2) by (auto simp: history_ok_def)
qed

lemma client_step_history:
  assumes "client_inv c" "history_ok hist c evs" "unat (cl_batchID c) < 2 ^ 64 - 1" "op_ok op"
    "client_step op c = (c', evs')"
  shows "client_inv c' \<and> unat (cl_batchID c') \<le> Suc (unat (cl_batchID c)) \<and> (\<exists>hist'. history_ok hist' c' (evs @ evs'))"
proof (cases op)
  case (OpClose err)
  then show ?thesis
    using assms by (auto simp: Client_Close_def Let_def client_inv_def history_ok_def split: option.splits intro!: exI [of _ hist])
next
  case (OpSend env now records)
  then have len: "go_len records" "\<forall>r\<in>set records. go_len r" using assms(4) by simp_all
  obtain res where send: "Send env now records c = (c', evs', res)"
    using assms(5) OpSend by (auto split: prod.splits)
  have bump: "unat (next_batchID (cl_batchID c)) = Suc (unat (cl_batchID c))" by (rule next_batchID_Suc [OF assms(3)])
  have inv: "client_inv c'" by (rule Send_inv [OF assms(1) len send])
  show ?thesis
  proof (cases "cl_closed c \<or> send_batch now records c = None")
    case True
    note ref = Send_refused [OF True send]
    then have "history_ok hist c' (evs @ evs')"
      using assms(2) bump by (auto simp: history_ok_def split: if_splits dest: le_SucI)
    then show ?thesis using inv ref bump by (auto split: if_splits)
  next
    case False
    then obtain batch where batch: "send_batch now records c = Some batch" by blast
    have loop: "send_loop env batch (nat (cc_MaxAttempts (cl_config c))) 1 (cc_RetryInitial (cl_config c)) None
        (send_start batch c) = (c', evs', res)"
      using Send_started [OF _ batch, of env] send False by simp
    note ls = send_loop_spec [OF loop]
    obtain hist' where h: "history_ok hist' (send_start batch c) evs" "hist' (cl_batchID (send_start batch c)) = Some batch"
      using send_start_history [OF assms(1-3) len batch] by blast
    have "history_ok hist' (send_start batch c) (evs @ evs')"
      using ls by (intro history_ok_append [OF h(1)]) (use h(2) in blast)
    moreover obtain k where k: "c' = (send_start batch c)\<lparr>cl_conn := k\<rparr> \<or> c' = (send_start batch c)\<lparr>cl_conn := k, cl_pending := None\<rparr>"
      using ls by (cases res) auto
    ultimately have "history_ok hist' c' (evs @ evs')" by (auto simp: history_ok_def)
    then show ?thesis using inv k bump by (auto simp: send_start_def)
  qed
qed

lemma client_run_history:
  assumes "client_inv c" "history_ok hist c evs" "unat (cl_batchID c) + length ops < 2 ^ 64" "\<forall>op\<in>set ops. op_ok op"
    "client_run ops c = (c', evs')"
  shows "\<exists>hist'. history_ok hist' c' (evs @ evs')"
  using assms
proof (induction ops arbitrary: c hist evs evs')
  case (Cons op ops)
  obtain c1 ev1 where s: "client_step op c = (c1, ev1)" by fastforce
  obtain ev2 where r: "client_run ops c1 = (c', ev2)" and evs': "evs' = ev1 @ ev2"
    using Cons.prems(5) s by (auto split: prod.splits)
  from client_step_history [OF Cons.prems(1,2) _ _ s] Cons.prems(3,4) obtain hist' where
    "client_inv c1" "unat (cl_batchID c1) \<le> Suc (unat (cl_batchID c))" "history_ok hist' c1 (evs @ ev1)" by auto
  with Cons.IH [of c1 hist' "evs @ ev1" ev2] Cons.prems(3,4) r show ?case by (auto simp: evs')
qed auto

lemma slice_take: "j \<le> length (take k bs) \<Longrightarrow> slice i j (take k bs) = slice i j bs"
  by (auto simp: slice_def drop_take min_def split: if_splits)

lemma slice_append_within: "j \<le> length xs \<Longrightarrow> slice i j (xs @ ys) = slice i j xs"
  by (cases "i \<le> j") (simp_all add: slice_def)

text \<open>
  A batch number stands for one frame, whatever the network did: over any history of calls on a
  new client (fewer than 2 to the 64 of them), two writes that got as far as the batch number and carry the same
  one agree byte for byte as far as both go. Retries therefore never change what a number means,
  which is what the collector's deduplication by number rests on.
\<close>

theorem batch_number_names_one_frame:
  assumes "fresh_client c" "length ops < 2 ^ 64" "\<forall>op\<in>set ops. op_ok op" "client_run ops c = (c', evs)"
    "Wrote f n \<in> set evs" "Wrote g m \<in> set evs" "24 \<le> length f" "24 \<le> length g"
    "Uint64 (slice 16 24 f) = Uint64 (slice 16 24 g)"
  shows "(\<exists>h. g = f @ h) \<or> (\<exists>h. f = g @ h)"
proof -
  have "client_inv c" "history_ok (\<lambda>_. None) c []" "unat (cl_batchID c) = 0"
    using assms(1) by (auto simp: fresh_client_def history_ok_def)
  then obtain hist where h: "history_ok hist c' evs"
    using client_run_history [of c "\<lambda>_. None" "[]" ops c' evs] assms by auto
  have number: "Uint64 (slice 16 24 w) = b"
    if known: "hist b = Some eb" and w: "w = take k (concat (Buffers eb))" "24 \<le> length w" for b eb w k
  proof -
    obtain nanos rs where "eb = encoded_for (cc_ClientID (cl_config c')) b nanos rs"
      using h known unfolding history_ok_def by blast
    then have frame: "concat (Buffers eb) = encode_header (header_for (cc_ClientID (cl_config c')) b nanos rs) @ payload_of rs"
      by (simp add: Buffers_concat frame_bytes_def)
    have "slice 16 24 w = slice 16 24 (concat (Buffers eb))"
      unfolding w(1) using w(2) unfolding w(1) by (rule slice_take)
    also have "\<dots> = slice 16 24 (encode_header (header_for (cc_ClientID (cl_config c')) b nanos rs))"
      unfolding frame by (rule slice_append_within) (simp add: BatchHeaderSize_def)
    finally show ?thesis by (simp add: header_for_def)
  qed
  have written: "\<exists>b eb. hist b = Some eb \<and> w = take (nat k) (concat (Buffers eb))" if "Wrote w k \<in> set evs" for w k
    using h that unfolding history_ok_def by blast
  obtain b1 e1 where e1: "hist b1 = Some e1" "f = take (nat n) (concat (Buffers e1))"
    using written [OF assms(5)] by blast
  obtain b2 e2 where e2: "hist b2 = Some e2" "g = take (nat m) (concat (Buffers e2))"
    using written [OF assms(6)] by blast
  have "b1 = b2" using number [OF e1 assms(7)] number [OF e2 assms(8)] assms(9) by simp
  then have "e1 = e2" using e1 e2 by simp
  have pre: "\<exists>h. take j xs = take i xs @ h" if "i \<le> j" for i j :: nat and xs :: bytes
    using that by (metis append_take_drop_id min_absorb1 take_take)
  show ?thesis
    unfolding e1(2) e2(2) \<open>e1 = e2\<close> by (cases "nat n \<le> nat m") (simp_all add: pre)
qed


text \<open>A history in which the first write breaks off after 50 bytes and the second goes through.\<close>

definition broken :: attempt_env where
  "broken = (answered 50 \<lparr>ack_Status = 0, ack_ClientID = 7, ack_BatchID = 1\<rparr>)
     \<lparr>ae_write := (50, Some (WriterError 1)), ae_wait := Some 0\<rparr>"

abbreviation example_batch :: EncodedBatch where
  "example_batch \<equiv> encoded_for 7 1 5 [[65, 66], [67]]"

abbreviation example_ack :: Ack where
  "example_ack \<equiv> \<lparr>ack_Status = 1, ack_ClientID = 7, ack_BatchID = 1\<rparr>"

lemma example_size: "EncodedBatch_Size example_batch = 59"
  by (simp add: EncodedBatch_Size_def encoded_for_def BatchHeaderSize_def)

lemma example_attempt:
  assumes "cl_conn c = None"
  shows "attempt_once (answered 59 example_ack) example_batch c =
    (c\<lparr>cl_conn := Some [], cl_pending := None\<rparr>, [Dialled, Wrote (take 59 (concat (Buffers example_batch))) 59, GotAck example_ack], Delivered)"
proof -
  have ids: "EncodedBatch_ClientID example_batch = 7" "EncodedBatch_BatchID example_batch = 1"
    by (simp_all add: encoded_for_def EncodedBatch_ClientID_def EncodedBatch_BatchID_def header_for_def)
  have "exchange (answered (EncodedBatch_Size example_batch) example_ack) example_batch (c\<lparr>cl_conn := Some []\<rparr>) =
      (c\<lparr>cl_conn := Some []\<rparr>, [Wrote (take (nat (EncodedBatch_Size example_batch)) (concat (Buffers example_batch)))
         (EncodedBatch_Size example_batch), GotAck example_ack], None)"
    by (rule exchange_answered) (simp_all add: ids ack_ok_def AckStatus_Valid_def StatusSinkError_def StatusDuplicate_def)
  moreover have "ensureConnection (answered 59 example_ack) c = (c\<lparr>cl_conn := Some []\<rparr>, [Dialled], None)"
    using assms by (simp add: ensureConnection_def answered_def)
  ultimately show ?thesis by (simp add: attempt_once_def example_size)
qed

lemma example_open: "nat (cc_MaxAttempts (cl_config example_client)) = Suc 2" "\<not> cl_closed example_client"
  "cl_conn (send_start b example_client) = None" "cl_pending example_client = None"
  by (simp_all add: example_client_def send_start_def)

lemma example_send:
  "Send (\<lambda>_. answered 59 example_ack) (Some 5) [[65, 66], [67]] example_client =
     ((send_start example_batch example_client)\<lparr>cl_conn := Some [], cl_pending := None\<rparr>,
      [Dialled, Wrote (take 59 (concat (Buffers example_batch))) 59, GotAck example_ack], None)"
proof -
  let ?env = "\<lambda>_ :: nat. answered 59 example_ack"
  have "send_loop ?env example_batch (Suc 2) 1 (cc_RetryInitial (cl_config example_client)) None
      (send_start example_batch example_client) =
     ((send_start example_batch example_client)\<lparr>cl_conn := Some [], cl_pending := None\<rparr>,
      [Dialled, Wrote (take 59 (concat (Buffers example_batch))) 59, GotAck example_ack], None)"
    by (rule send_loop_delivered [OF _ example_attempt]) (simp_all add: answered_def example_open)
  then show ?thesis
    unfolding Send_started [OF example_open(2) example_send_batch] example_open(1) .
qed

lemma example_broken_attempt:
  assumes "cl_conn c = None"
  shows "attempt_once broken example_batch c =
    (c\<lparr>cl_conn := None\<rparr>, [Dialled, Wrote (take 50 (concat (Buffers example_batch))) 50, Dropped_conn], Retry (WriteError (WriterError 1)))"
  using assms
  by (simp add: attempt_once_def ensureConnection_def exchange_def broken_def answered_def WriteVectoredTo_def dropConnection_def)

lemma send_loop_cancelled:
  assumes "ae_ctx (env attempt) = None" "attempt_once (env attempt) batch c = (c1, evs, Retry err)"
    "ae_wait (env attempt) = Some k" "0 < left"
  shows "send_loop env batch (Suc left) attempt backoff lastErr c =
    (c1, evs @ [Waited (jitter backoff attempt)], Some (ContextError k))"
  using assms by (simp add: Let_def)

lemma example_broken_send:
  "Send (\<lambda>_. broken) (Some 5) [[65, 66], [67]] example_client =
     (send_start example_batch example_client,
      [Dialled, Wrote (take 50 (concat (Buffers example_batch))) 50, Dropped_conn, Waited (jitter 50000000 1)],
      Some (ContextError 0))"
proof -
  let ?s = "send_start example_batch example_client" and ?env = "\<lambda>_ :: nat. broken"
  have "send_loop ?env example_batch (Suc 2) 1 (cc_RetryInitial (cl_config example_client)) None ?s =
     (?s\<lparr>cl_conn := None\<rparr>, [Dialled, Wrote (take 50 (concat (Buffers example_batch))) 50, Dropped_conn] @
        [Waited (jitter (cc_RetryInitial (cl_config example_client)) 1)], Some (ContextError 0))"
    by (rule send_loop_cancelled [OF _ example_broken_attempt]) (simp_all add: broken_def answered_def example_open)
  then show ?thesis
    unfolding Send_started [OF example_open(2) example_send_batch] example_open(1)
    by (simp add: example_client_def send_start_def del: concat.simps)
qed

lemma example_resend:
  "\<exists>c'. client_run [OpSend (\<lambda>_. broken) (Some 5) [[65, 66], [67]], OpSend (\<lambda>_. answered 59 example_ack) (Some 9) [[65, 66], [67]]]
     example_client = (c', [Dialled, Wrote (take 50 (concat (Buffers example_batch))) 50, Dropped_conn, Waited (jitter 50000000 1),
       Dialled, Wrote (take 59 (concat (Buffers example_batch))) 59, GotAck example_ack])"
proof -
  let ?c = "send_start example_batch example_client" and ?env = "\<lambda>_ :: nat. answered 59 example_ack"
  have "Matches (Some example_batch) [[65, 66], [67]]"
    by (rule Matches_encoded [THEN iffD2]) simp_all
  then have batch: "send_batch (Some 9) [[65, 66], [67]] ?c = Some example_batch"
    by (simp add: send_batch_def send_start_def)
  have c: "\<not> cl_closed ?c" "nat (cc_MaxAttempts (cl_config ?c)) = Suc 2"
    by (simp_all add: example_client_def send_start_def)
  have "send_loop ?env example_batch (Suc 2) 1 (cc_RetryInitial (cl_config ?c)) None (send_start example_batch ?c) =
     ((send_start example_batch ?c)\<lparr>cl_conn := Some [], cl_pending := None\<rparr>,
      [Dialled, Wrote (take 59 (concat (Buffers example_batch))) 59, GotAck example_ack], None)"
    by (rule send_loop_delivered [OF _ example_attempt]) (simp_all add: answered_def send_start_def example_client_def)
  then have "\<exists>c'. Send ?env (Some 9) [[65, 66], [67]] ?c =
      (c', [Dialled, Wrote (take 59 (concat (Buffers example_batch))) 59, GotAck example_ack], None)"
    unfolding Send_started [OF c(1) batch] c(2) by blast
  then show ?thesis by (auto simp: example_broken_send)
qed

lemma send_success_is_acknowledged_witness:
  "cl_pending ((send_start example_batch example_client)\<lparr>cl_conn := Some [], cl_pending := None\<rparr>) = None \<and>
   (\<exists>eb before n. Matches (Some eb) [[65, 66], [67]] \<and>
      [Dialled, Wrote (take 59 (concat (Buffers example_batch))) 59, GotAck example_ack] =
        before @ [Wrote (concat (Buffers eb)) n, GotAck example_ack])"
proof -
  have "client_inv example_client" using example_client_fresh by (simp add: fresh_client_def)
  from send_success_is_acknowledged [OF this _ _ example_send] show ?thesis
    by (auto simp: go_len_def simp del: concat.simps)
qed

lemma batch_number_names_one_frame_witness:
  "(\<exists>h. take 59 (concat (Buffers example_batch)) = take 50 (concat (Buffers example_batch)) @ h) \<or>
   (\<exists>h. take 50 (concat (Buffers example_batch)) = take 59 (concat (Buffers example_batch)) @ h)"
proof -
  obtain c' where run: "client_run [OpSend (\<lambda>_. broken) (Some 5) [[65, 66], [67]],
      OpSend (\<lambda>_. answered 59 example_ack) (Some 9) [[65, 66], [67]]] example_client =
     (c', [Dialled, Wrote (take 50 (concat (Buffers example_batch))) 50, Dropped_conn, Waited (jitter 50000000 1),
       Dialled, Wrote (take 59 (concat (Buffers example_batch))) 59, GotAck example_ack])"
    using example_resend by blast
  have len: "length (concat (Buffers example_batch)) = 59"
    by (simp add: Buffers_concat frame_bytes_def BatchHeaderSize_def)
  have same: "slice 16 24 (take 50 (concat (Buffers example_batch))) = slice 16 24 (take 59 (concat (Buffers example_batch)))"
    by (simp add: slice_take len)
  show ?thesis
    by (rule batch_number_names_one_frame [OF example_client_fresh _ _ run, where n = 50 and m = 59])
      (simp_all add: go_len_def len same del: concat.simps)
qed

text \<open>
  A failed \<open>Send\<close> keeps its batch: whatever the error (an exhausted retry loop, a cancelled context, a refusal by the
  collector), the batch stays retained under its number; a later call with the same records
  works on the very same batch, whatever the time; a call with records that do not match is
  refused and changes nothing. Only \<open>Close\<close> or an accepting acknowledgement gives it up.
\<close>

theorem failed_send_keeps_batch:
  assumes "client_inv c" "go_len records" "\<forall>r\<in>set records. go_len r" "\<not> cl_closed c"
    "send_batch now records c = Some eb" "Send env now records c = (c', evs, Some err)"
  shows "cl_pending c' = Some eb \<and> cl_config c' = cl_config c \<and> \<not> cl_closed c' \<and> client_inv c' \<and>
    send_batch now' records c' = Some eb \<and> send_start eb c' = c' \<and>
    (\<not> Matches (Some eb) records' \<longrightarrow> Send env' now' records' c' = (c', [], Some PayloadChanged))"
proof -
  have loop: "send_loop env eb (nat (cc_MaxAttempts (cl_config c))) 1 (cc_RetryInitial (cl_config c)) None
      (send_start eb c) = (c', evs, Some err)"
    using Send_started [OF assms(4,5), of env] assms(6) by simp
  obtain k where c': "c' = (send_start eb c)\<lparr>cl_conn := k\<rparr>" using send_loop_spec [OF loop] by auto
  have "Matches (Some eb) records" using send_batch_encoded [OF assms(1-3,5)] by blast
  then show ?thesis
    using assms(4) Send_inv [OF assms(1-3,6)] by (auto simp: c' send_start_def send_batch_def Send_def)
qed

lemma failed_send_keeps_batch_witness:
  "Send (\<lambda>_. answered 59 example_ack) (Some 9) [[88]] (send_start example_batch example_client) =
     (send_start example_batch example_client, [], Some PayloadChanged)"
proof -
  have "client_inv example_client" using example_client_fresh by (simp add: fresh_client_def)
  moreover have "\<not> Matches (Some example_batch) [[88]]" by (simp add: Matches_encoded)
  ultimately show ?thesis
    using failed_send_keeps_batch [OF _ _ _ example_open(2) example_send_batch example_broken_send,
        of "Some 9" "[[88]]" "\<lambda>_. answered 59 example_ack"]
    by (simp add: go_len_def)
qed

definition healthy :: "attempt_env \<Rightarrow> EncodedBatch \<Rightarrow> bool" where
  "healthy e eb \<longleftrightarrow> ae_dial e = None \<and> ae_deadline e = None \<and> ae_write e = (EncodedBatch_Size eb, None) \<and>
     (\<exists>a more. ae_arrived e = ack_bytes a @ more \<and> ack_ok a \<and> ack_ClientID a = EncodedBatch_ClientID eb \<and>
        ack_BatchID a = EncodedBatch_BatchID eb \<and> ack_Status a \<in> {StatusAccepted, StatusDuplicate})"

lemma healthy_attempt:
  assumes "healthy e eb" "cl_conn c \<in> {None, Some []}"
  shows "\<exists>c1 evs. attempt_once e eb c = (c1, evs, Delivered)"
proof -
  obtain a rest where a: "ae_arrived e = ack_bytes a @ rest" "ack_ok a" "ack_ClientID a = EncodedBatch_ClientID eb"
    "ack_BatchID a = EncodedBatch_BatchID eb" "ack_Status a \<in> {StatusAccepted, StatusDuplicate}"
    using assms(1) unfolding healthy_def by blast
  let ?c = "c\<lparr>cl_conn := Some []\<rparr>"
  obtain ev1 where en: "ensureConnection e c = (?c, ev1, None)"
    using assms by (auto simp: ensureConnection_def healthy_def)
  obtain c1 ev2 where ex: "exchange e eb ?c = (c1, ev2, None)"
    using assms(1) a ReadAck_bytes [OF a(2), of rest "ae_end e"]
    by (auto simp: exchange_def healthy_def WriteVectoredTo_def)
  show ?thesis by (simp add: attempt_once_def en ex)
qed

lemma send_loop_delivers:
  assumes "attempt \<le> k" "k < attempt + left" "healthy (env k) eb" "\<forall>j\<in>{attempt..k}. ae_ctx (env j) = None"
    "\<forall>j\<in>{attempt..<k}. ae_wait (env j) = None" "attempt < k \<or> cl_conn c \<in> {None, Some []}"
  shows "snd (snd (send_loop env eb left attempt backoff lastErr c)) \<in> {None, Some (RemoteError StatusInvalid)}"
  using assms
proof (induction env eb left attempt backoff lastErr c rule: send_loop.induct)
  case (2 env eb left attempt backoff lastErr c)
  have ctx: "ae_ctx (env attempt) = None" using "2.prems"(1,4) by simp
  obtain c1 evs out where at: "attempt_once (env attempt) eb c = (c1, evs, out)" by (metis prod_cases3)
  show ?case
  proof (cases out)
    case (Retry err)
    have "attempt < k"
      using "2.prems"(1,3,6) healthy_attempt [of "env attempt" eb c] at Retry by (cases "attempt = k") auto
    then have more: "0 < left" "ae_wait (env attempt) = None" using "2.prems"(2,5) by auto
    have "cl_conn c1 = None" using attempt_once_cases [OF at] Retry by auto
    then show ?thesis
      using "2.IH" ctx at Retry more \<open>attempt < k\<close> "2.prems" by (auto simp: Let_def log_events_def split: prod.splits)
  qed (use ctx at attempt_once_cases [OF at] in auto)
qed simp

text \<open>
  C24. Liveness of the retry loop: when no wait is cancelled and some attempt \<open>k\<close> within
  \<open>MaxAttempts\<close> finds a healthy network (the dial, the deadline and the write succeed and
  the accepting acknowledgement arrives), \<open>Send\<close> returns success, unless the collector has called the
  batch invalid before. The failures of the attempts before it are arbitrary.
\<close>

theorem send_delivers:
  assumes "\<not> cl_closed c" "send_batch now records c = Some eb" "1 \<le> k" "int k \<le> cc_MaxAttempts (cl_config c)"
    "healthy (env k) eb" "\<forall>j\<in>{1..k}. ae_ctx (env j) = None" "\<forall>j\<in>{1..<k}. ae_wait (env j) = None"
    "1 < k \<or> cl_conn c \<in> {None, Some []}"
  shows "\<exists>c' evs res. Send env now records c = (c', evs, res) \<and> (res = None \<or> res = Some (RemoteError StatusInvalid))"
proof -
  have "snd (snd (Send env now records c)) \<in> {None, Some (RemoteError StatusInvalid)}"
    unfolding Send_started [OF assms(1,2)]
    by (rule send_loop_delivers [where k = k]) (use assms in \<open>auto simp: send_start_def\<close>)
  then show ?thesis by (metis insertE prod.collapse singletonD)
qed

lemma send_delivers_witness:
  "\<exists>c' evs res. Send (\<lambda>j. if j = 1 then broken\<lparr>ae_wait := None\<rparr> else answered 59 example_ack) (Some 5) [[65, 66], [67]]
     example_client = (c', evs, res) \<and> (res = None \<or> res = Some (RemoteError StatusInvalid))"
proof -
  have ids: "EncodedBatch_ClientID example_batch = 7" "EncodedBatch_BatchID example_batch = 1"
    by (simp_all add: encoded_for_def EncodedBatch_ClientID_def EncodedBatch_BatchID_def header_for_def)
  have "healthy (answered 59 example_ack) example_batch"
    unfolding healthy_def answered_def
    by (auto simp: ids example_size ack_ok_def AckStatus_Valid_def StatusSinkError_def StatusDuplicate_def
        intro!: exI [of _ example_ack] exI [of _ "[]"])
  then show ?thesis
    by (intro send_delivers [OF example_open(2) example_send_batch, where k = 2])
      (auto simp: example_client_def broken_def answered_def)
qed

subsection \<open>The pauses between attempts\<close>

fun waits_of :: "client_event list \<Rightarrow> duration list" where
  "waits_of [] = []"
| "waits_of (Waited d # evs) = d # waits_of evs"
| "waits_of (ev # evs) = waits_of evs"

fun writes_of :: "client_event list \<Rightarrow> nat" where
  "writes_of [] = 0"
| "writes_of (Wrote f n # evs) = Suc (writes_of evs)"
| "writes_of (ev # evs) = writes_of evs"

lemma waits_of_append [simp]: "waits_of (xs @ ys) = waits_of xs @ waits_of ys"
  by (induction xs rule: waits_of.induct) simp_all

lemma writes_of_append [simp]: "writes_of (xs @ ys) = writes_of xs + writes_of ys"
  by (induction xs rule: writes_of.induct) simp_all

lemma waits_of_none: "\<forall>d. Waited d \<notin> set evs \<Longrightarrow> waits_of evs = []"
  by (induction evs rule: waits_of.induct) auto

lemma attempt_once_counts:
  "attempt_once e batch c = (c1, evs, out) \<Longrightarrow> waits_of evs = [] \<and> writes_of evs \<le> 1"
  by (auto simp: attempt_once_def ensureConnection_def exchange_def dropConnection_def Let_def
      split: prod.splits option.splits if_splits sum.splits)

text \<open>Before jitter, pause number \<open>k\<close> is the initial one doubled \<open>k - 1\<close> times, cut at the maximum.\<close>

definition backoff_at :: "int \<Rightarrow> int \<Rightarrow> nat \<Rightarrow> int" where
  "backoff_at initial maximum k = min (initial * 2 ^ (k - 1)) maximum"

definition pause_at :: "int \<Rightarrow> int \<Rightarrow> nat \<Rightarrow> int" where
  "pause_at initial maximum k = backoff_at initial maximum k * (90 + (int k * 17) mod 21) div 100"

lemma sint_jitter:
  assumes "0 \<le> sint b" "110 * sint b < 2 ^ 63"
  shows "sint (jitter b k) = sint b * (90 + (int k * 17) mod 21) div 100"
proof -
  let ?p = "90 + (int k * 17) mod 21"
  have p: "0 \<le> ?p" "?p \<le> 110" using pos_mod_bound [of 21 "int k * 17"] by simp_all
  have prod: "0 \<le> sint b * ?p" "sint b * ?p \<le> 110 * sint b"
    using assms(1) p by (simp_all add: mult.commute mult_left_mono)
  have "b * word_of_int ?p = word_of_int (sint b * ?p)" by simp
  then have "sint (b * word_of_int ?p) = sint b * ?p" using sint_small [OF prod(1)] prod(2) assms(2) by simp
  moreover have "0 \<le> sint b * ?p div 100" "sint b * ?p div 100 < 2 ^ 63"
    using prod assms(2) by linarith+
  ultimately show ?thesis
    unfolding jitter_def Let_def using prod(1) sint_small [of "sint b * ?p div 100"]
    by (simp add: signed_divide_int_def sgn_if)
qed

lemma sint_next_backoff:
  assumes "sint b = backoff_at i m k" "sint m' = m" "0 < i" "0 < m" "110 * m < 2 ^ 63" "0 < k"
  shows "sint (next_backoff m' b) = backoff_at i m (Suc k)"
proof -
  have b: "0 \<le> sint b" "sint b \<le> m" using assms by (auto simp: backoff_at_def)
  have "b * 2 = word_of_int (sint b * 2)" by simp
  then have dbl: "sint (b * 2) = sint b * 2" using sint_small [of "sint b * 2"] b assms(5) by simp
  have "i * 2 ^ k = i * 2 ^ (k - 1) * 2" using assms(6) by (cases k) simp_all
  then show ?thesis
    using dbl assms b by (auto simp: next_backoff_def Let_def backoff_at_def min_def split: if_splits)
qed

lemma send_loop_schedule:
  assumes "send_loop env batch left attempt b lastErr c = (c', evs, res)"
    "sint b = backoff_at i (sint (cc_RetryMaximum (cl_config c))) attempt" "0 < attempt" "0 < i"
    "0 < sint (cc_RetryMaximum (cl_config c))" "110 * sint (cc_RetryMaximum (cl_config c)) < 2 ^ 63"
  shows "\<exists>n \<le> left - 1. map sint (waits_of evs) =
      map (pause_at i (sint (cc_RetryMaximum (cl_config c)))) [attempt..<attempt + n] \<and> writes_of evs \<le> left"
  using assms
proof (induction left arbitrary: attempt b lastErr c evs)
  case (Suc left)
  let ?M = "sint (cc_RetryMaximum (cl_config c))"
  obtain c1 ev out where at: "attempt_once (env attempt) batch c = (c1, ev, out)" by (metis prod_cases3)
  note cnt = attempt_once_counts [OF at]
  have b: "0 \<le> sint b" "110 * sint b < 2 ^ 63" using Suc.prems(2,4-6) by (auto simp: backoff_at_def)
  have pause: "sint (jitter b attempt) = pause_at i ?M attempt"
    unfolding pause_at_def by (simp add: sint_jitter [OF b] Suc.prems(2))
  show ?case
  proof (cases "ae_ctx (env attempt) = None \<and> (\<exists>err. out = Retry err)")
    case False
    then have "waits_of evs = []" "writes_of evs \<le> Suc left"
      using Suc.prems(1) at cnt by (auto split: option.splits attempt_outcome.splits)
    then show ?thesis by (intro exI [of _ 0]) simp
  next
    case True
    then obtain err where ctx: "ae_ctx (env attempt) = None" and out: "out = Retry err" by blast
    have c1: "cl_config c1 = cl_config c" using attempt_once_cases [OF at] out by auto
    show ?thesis
    proof (cases "left > 0 \<and> ae_wait (env attempt) = None")
      case True
      then obtain ev' where evs: "evs = (ev @ [Waited (jitter b attempt)]) @ ev'"
        and rec: "send_loop env batch left (Suc attempt) (next_backoff (cc_RetryMaximum (cl_config c1)) b) (Some err) c1 = (c', ev', res)"
        using Suc.prems(1) at ctx out by (auto simp: Let_def log_events_eq)
      have "sint (next_backoff (cc_RetryMaximum (cl_config c1)) b) = backoff_at i ?M (Suc attempt)"
        by (rule sint_next_backoff) (use Suc.prems c1 in auto)
      then obtain n where n: "n \<le> left - 1" "map sint (waits_of ev') = map (pause_at i ?M) [Suc attempt..<Suc attempt + n]"
        "writes_of ev' \<le> left"
        using Suc.IH [OF rec] Suc.prems(3-6) unfolding c1 by auto
      have "[attempt..<attempt + Suc n] = attempt # [Suc attempt..<Suc attempt + n]" by (simp add: upt_rec)
      then show ?thesis
        using n True cnt pause by (intro exI [of _ "Suc n"]) (auto simp: evs)
    next
      case stop: False
      show ?thesis
      proof (cases "left > 0")
        case True
        then have "evs = ev @ [Waited (jitter b attempt)]"
          using stop Suc.prems(1) at ctx out by (auto simp: Let_def)
        then show ?thesis
          using True cnt pause by (intro exI [of _ 1]) auto
      next
        case False
        then have "evs = ev" using Suc.prems(1) at ctx out by (auto simp: log_events_def)
        then show ?thesis using cnt by (intro exI [of _ 0]) auto
      qed
    qed
  qed
qed simp

text \<open>
  Bounded effort: a call writes at most \<open>MaxAttempts\<close> times and pauses fewer times than that; the
  pauses, in nanoseconds, are exactly the initial one doubled each time and cut at the maximum, times
  a jitter between 90 and 110 percent, as long as a hundred-and-tenfold maximum fits 63 bits;
  no pause is more than 110 percent of the configured maximum.
\<close>

theorem retry_schedule:
  assumes "Send env now records c = (c', evs, res)" "0 < cc_MaxAttempts (cl_config c)"
    "0 < sint (cc_RetryInitial (cl_config c))"
    "sint (cc_RetryInitial (cl_config c)) \<le> sint (cc_RetryMaximum (cl_config c))"
    "110 * sint (cc_RetryMaximum (cl_config c)) < 2 ^ 63"
  shows "int (writes_of evs) \<le> cc_MaxAttempts (cl_config c) \<and>
    int (length (waits_of evs)) < cc_MaxAttempts (cl_config c) \<and>
    map sint (waits_of evs) = map (pause_at (sint (cc_RetryInitial (cl_config c))) (sint (cc_RetryMaximum (cl_config c))))
      [1..<1 + length (waits_of evs)] \<and>
    (\<forall>d\<in>set (waits_of evs). 0 \<le> sint d \<and> 100 * sint d \<le> 110 * sint (cc_RetryMaximum (cl_config c)))"
proof -
  let ?i = "sint (cc_RetryInitial (cl_config c))" and ?M = "sint (cc_RetryMaximum (cl_config c))"
  have "\<exists>n < nat (cc_MaxAttempts (cl_config c)). map sint (waits_of evs) = map (pause_at ?i ?M) [1..<1 + n] \<and>
      writes_of evs \<le> nat (cc_MaxAttempts (cl_config c))"
  proof (cases "cl_closed c \<or> send_batch now records c = None")
    case True
    then have "evs = []" using Send_refused [OF True assms(1)] by blast
    then show ?thesis using assms(2) by (intro exI [of _ 0]) simp
  next
    case False
    then obtain batch where batch: "send_batch now records c = Some batch" by blast
    have loop: "send_loop env batch (nat (cc_MaxAttempts (cl_config c))) 1 (cc_RetryInitial (cl_config c)) None
        (send_start batch c) = (c', evs, res)"
      using Send_started [OF _ batch, of env] assms(1) False by simp
    have "sint (cc_RetryInitial (cl_config c)) = backoff_at ?i ?M 1" using assms(4) by (simp add: backoff_at_def)
    then obtain n where "n \<le> nat (cc_MaxAttempts (cl_config c)) - 1"
      "map sint (waits_of evs) = map (pause_at ?i ?M) [1..<1 + n]" "writes_of evs \<le> nat (cc_MaxAttempts (cl_config c))"
      using send_loop_schedule [OF loop, of ?i] assms(3-5) by (auto simp: send_start_def)
    then show ?thesis using assms(2) by (intro exI [of _ n]) simp
  qed
  then obtain n where n: "n < nat (cc_MaxAttempts (cl_config c))" "map sint (waits_of evs) = map (pause_at ?i ?M) [1..<1 + n]"
    "writes_of evs \<le> nat (cc_MaxAttempts (cl_config c))" by blast
  have len: "length (waits_of evs) = n" using n(2) by (metis diff_add_inverse length_map length_upt)
  have each: "0 \<le> pause_at ?i ?M k \<and> 100 * pause_at ?i ?M k \<le> 110 * ?M" for k
  proof -
    let ?b = "backoff_at ?i ?M k" and ?p = "90 + (int k * 17) mod 21"
    have b: "0 \<le> ?b" "?b \<le> ?M" using assms(3,4) by (auto simp: backoff_at_def)
    have p: "0 \<le> ?p" "?p \<le> 110" using pos_mod_bound [of 21 "int k * 17"] by simp_all
    have "?b * ?p \<le> ?M * 110" by (rule mult_mono) (use b p in auto)
    moreover have "0 \<le> ?b * ?p" using b p by simp
    ultimately show ?thesis unfolding pause_at_def by linarith
  qed
  have bounded: "\<forall>d\<in>set (waits_of evs). 0 \<le> sint d \<and> 100 * sint d \<le> 110 * ?M"
  proof
    fix d
    assume "d \<in> set (waits_of evs)"
    then have "sint d \<in> set (map sint (waits_of evs))" by simp
    then obtain k where "sint d = pause_at ?i ?M k" unfolding n(2) by auto
    then show "0 \<le> sint d \<and> 100 * sint d \<le> 110 * ?M" using each [of k] by simp
  qed
  have "int (writes_of evs) \<le> cc_MaxAttempts (cl_config c)" "int (length (waits_of evs)) < cc_MaxAttempts (cl_config c)"
    using n len assms(2) by linarith+
  then show ?thesis using n(2) bounded unfolding len by blast
qed

lemma retry_schedule_witness:
  "map sint (waits_of [Dialled, Wrote (take 50 (concat (Buffers example_batch))) 50, Dropped_conn, Waited (jitter 50000000 1)]) =
     [pause_at 50000000 2000000000 1]"
  using retry_schedule [OF example_broken_send] by (simp add: example_client_def del: concat.simps)

end
