(* ===== verification/Collector_Dedupe.thy ===== *)
theory Collector_Dedupe
  imports Sink
begin

text \<open>
  The collector's memory of completed batches, \<^verbatim>\<open>internal/collector/dedupe.go\<close>. \<open>Do\<close> is split at its
  mutex: \<open>dedupe_begin\<close> and \<open>dedupe_end\<close> are the two critical sections around the call of \<open>fn\<close>, and
  the goroutines interleave between them. The errors of \<open>fn\<close> are those of a sink.
\<close>

record BatchKey =
  bk_ClientID :: u64
  bk_BatchID :: u64

record pendingCall =
  pc_done :: bool
  pc_err :: "sink_error option"

text \<open>
  \<open>lru\<close> is the list, front first, as pairs of an element and its key; \<open>completed\<close> maps a key to its
  element; calls and elements are numbered by \<open>dd_next\<close>.
\<close>

record Dedupe =
  dd_capacity :: int
  dd_completed :: "BatchKey \<rightharpoonup> nat"
  dd_lru :: "(nat \<times> BatchKey) list"
  dd_pending :: "BatchKey \<rightharpoonup> nat"
  dd_calls :: "nat \<rightharpoonup> pendingCall"
  dd_next :: nat

definition NewDedupe :: "int \<Rightarrow> Dedupe" where
  "NewDedupe n = \<lparr>dd_capacity = (if n < 1 then 1 else n), dd_completed = Map.empty, dd_lru = [],
     dd_pending = Map.empty, dd_calls = Map.empty, dd_next = 0\<rparr>"

definition MoveToFront :: "nat \<Rightarrow> (nat \<times> 'k) list \<Rightarrow> (nat \<times> 'k) list" where
  "MoveToFront el xs = filter (\<lambda>p. fst p = el) xs @ filter (\<lambda>p. fst p \<noteq> el) xs"

datatype do_start = Hit | Join nat | Run nat

definition dedupe_begin :: "BatchKey \<Rightarrow> Dedupe \<Rightarrow> Dedupe \<times> do_start" where
  "dedupe_begin key d =
     (case dd_completed d key of
        Some el \<Rightarrow> (d\<lparr>dd_lru := MoveToFront el (dd_lru d)\<rparr>, Hit)
      | None \<Rightarrow> (case dd_pending d key of
            Some call \<Rightarrow> (d, Join call)
          | None \<Rightarrow> (let call = dd_next d in
              (d\<lparr>dd_pending := (dd_pending d)(key \<mapsto> call),
                 dd_calls := (dd_calls d)(call \<mapsto> \<lparr>pc_done = False, pc_err = None\<rparr>),
                 dd_next := Suc call\<rparr>, Run call))))"

definition evict :: "Dedupe \<Rightarrow> Dedupe" where
  "evict d =
     (if int (length (dd_lru d)) > dd_capacity d then
        (let oldest = last (dd_lru d)
         in d\<lparr>dd_completed := (dd_completed d)(snd oldest := None),
              dd_lru := filter (\<lambda>p. fst p \<noteq> fst oldest) (dd_lru d)\<rparr>)
      else d)"

definition dedupe_end :: "BatchKey \<Rightarrow> nat \<Rightarrow> sink_error option \<Rightarrow> Dedupe \<Rightarrow> Dedupe" where
  "dedupe_end key call err d =
     (let el = dd_next d;
          d1 = d\<lparr>dd_pending := (dd_pending d)(key := None), dd_next := Suc el,
                 dd_lru := (el, key) # dd_lru d, dd_completed := (dd_completed d)(key \<mapsto> el)\<rparr>
      in (evict d1)\<lparr>dd_calls := (dd_calls d)(call \<mapsto> \<lparr>pc_done = True, pc_err = err\<rparr>)\<rparr>)"

text \<open>What \<open>Do\<close> answers a caller that waited for a call that has ended.\<close>

definition joined_result :: "pendingCall \<Rightarrow> bool \<times> sink_error option" where
  "joined_result c = (pc_err c = None, pc_err c)"

definition dedupe_Len :: "Dedupe \<Rightarrow> nat" where
  "dedupe_Len d = card (dom (dd_completed d))"

text \<open>
  \<open>Do\<close> by one goroutine while no other is inside: \<open>None\<close> stands for waiting on a call of another.
\<close>

definition dedupe_Do :: "('s \<Rightarrow> ('s \<times> sink_error option) option) \<Rightarrow> BatchKey \<Rightarrow> Dedupe \<Rightarrow> 's \<Rightarrow>
    (Dedupe \<times> 's \<times> bool \<times> sink_error option) option" where
  "dedupe_Do fn key d s =
     (case dedupe_begin key d of
        (d1, Hit) \<Rightarrow> Some (d1, s, True, None)
      | (d1, Join call) \<Rightarrow> None
      | (d1, Run call) \<Rightarrow> (case fn s of None \<Rightarrow> None
          | Some (s1, err) \<Rightarrow> Some (dedupe_end key call err d1, s1, False, err)))"

subsection \<open>Goroutines inside \<open>Do\<close>\<close>

datatype do_pc = Idle | Blocked BatchKey nat | Running BatchKey nat | Returned bool "sink_error option"

text \<open>\<open>dm_touched\<close> and \<open>dm_runs\<close> record, latest last, the keys moved to the front and the executions of \<open>fn\<close>.\<close>

record dmach =
  dm_dedupe :: Dedupe
  dm_pc :: "nat \<Rightarrow> do_pc"
  dm_touched :: "BatchKey list"
  dm_runs :: "(BatchKey \<times> sink_error option) list"

definition dm_init :: "int \<Rightarrow> dmach" where
  "dm_init n = \<lparr>dm_dedupe = NewDedupe n, dm_pc = (\<lambda>_. Idle), dm_touched = [], dm_runs = []\<rparr>"

inductive do_step :: "dmach \<Rightarrow> dmach \<Rightarrow> bool" where
  do_hit: "\<lbrakk>dm_pc m t \<in> {Idle, Returned b e}; dedupe_begin key (dm_dedupe m) = (d, Hit)\<rbrakk> \<Longrightarrow>
     do_step m (m\<lparr>dm_dedupe := d, dm_pc := (dm_pc m)(t := Returned True None), dm_touched := dm_touched m @ [key]\<rparr>)"
| do_join: "\<lbrakk>dm_pc m t \<in> {Idle, Returned b e}; dedupe_begin key (dm_dedupe m) = (d, Join call)\<rbrakk> \<Longrightarrow>
     do_step m (m\<lparr>dm_dedupe := d, dm_pc := (dm_pc m)(t := Blocked key call)\<rparr>)"
| do_run: "\<lbrakk>dm_pc m t \<in> {Idle, Returned b e}; dedupe_begin key (dm_dedupe m) = (d, Run call)\<rbrakk> \<Longrightarrow>
     do_step m (m\<lparr>dm_dedupe := d, dm_pc := (dm_pc m)(t := Running key call)\<rparr>)"
| do_end: "dm_pc m t = Running key call \<Longrightarrow>
     do_step m (m\<lparr>dm_dedupe := dedupe_end key call err (dm_dedupe m), dm_pc := (dm_pc m)(t := Returned False err),
       dm_touched := dm_touched m @ [key], dm_runs := dm_runs m @ [(key, err)]\<rparr>)"
| do_wake: "\<lbrakk>dm_pc m t = Blocked key call; dd_calls (dm_dedupe m) call = Some c; pc_done c\<rbrakk> \<Longrightarrow>
     do_step m (m\<lparr>dm_pc := (dm_pc m)(t := Returned (fst (joined_result c)) (snd (joined_result c)))\<rparr>)"
| do_cancel: "dm_pc m t = Blocked key call \<Longrightarrow>
     do_step m (m\<lparr>dm_pc := (dm_pc m)(t := Returned False (Some (CtxError k)))\<rparr>)"

abbreviation do_steps :: "dmach \<Rightarrow> dmach \<Rightarrow> bool" where
  "do_steps \<equiv> do_step\<^sup>*\<^sup>*"

subsection \<open>The memory itself\<close>

definition dedupe_core :: "Dedupe \<Rightarrow> bool" where
  "dedupe_core d \<longleftrightarrow> 1 \<le> dd_capacity d \<and>
     distinct (map fst (dd_lru d)) \<and> distinct (map snd (dd_lru d)) \<and>
     (\<forall>k el. dd_completed d k = Some el \<longleftrightarrow> (el, k) \<in> set (dd_lru d)) \<and>
     (\<forall>p\<in>set (dd_lru d). fst p < dd_next d) \<and> (\<forall>k. dd_pending d k \<noteq> None \<longrightarrow> dd_completed d k = None)"

definition dedupe_ok :: "Dedupe \<Rightarrow> bool" where
  "dedupe_ok d \<longleftrightarrow> dedupe_core d \<and> int (length (dd_lru d)) \<le> dd_capacity d"

lemma MoveToFront_set [simp]: "set (MoveToFront el xs) = set xs"
  by (auto simp: MoveToFront_def)

lemma MoveToFront_distinct: "distinct (map f xs) \<Longrightarrow> distinct (map f (MoveToFront el xs))"
  by (auto simp: MoveToFront_def distinct_map inj_on_def)

lemma length_MoveToFront [simp]: "length (MoveToFront el xs) = length xs"
  by (simp add: MoveToFront_def sum_length_filter_compl)

lemma dedupe_ok_init: "dedupe_ok (NewDedupe n)"
  by (simp add: dedupe_ok_def dedupe_core_def NewDedupe_def)

lemma dedupe_okD:
  assumes "dedupe_ok d"
  shows "1 \<le> dd_capacity d" "int (length (dd_lru d)) \<le> dd_capacity d" "distinct (map fst (dd_lru d))"
    "distinct (map snd (dd_lru d))" "dd_completed d k = Some el \<longleftrightarrow> (el, k) \<in> set (dd_lru d)"
    "(el, k) \<in> set (dd_lru d) \<Longrightarrow> el < dd_next d" "dd_pending d k \<noteq> None \<Longrightarrow> dd_completed d k = None"
    "dd_completed d k = None \<longleftrightarrow> k \<notin> snd ` set (dd_lru d)"
proof -
  show "dd_completed d k = Some el \<longleftrightarrow> (el, k) \<in> set (dd_lru d)" for k el using assms by (simp add: dedupe_ok_def dedupe_core_def)
  then have "dd_completed d k \<noteq> None \<longleftrightarrow> (\<exists>el. (el, k) \<in> set (dd_lru d))" by auto
  then show "dd_completed d k = None \<longleftrightarrow> k \<notin> snd ` set (dd_lru d)" by force
qed (use assms in \<open>unfold dedupe_ok_def dedupe_core_def, auto\<close>)

lemma dedupe_begin_cases:
  assumes "dedupe_begin key d = (d', r)"
  obtains (hit) el where "dd_completed d key = Some el" "r = Hit" "d' = d\<lparr>dd_lru := MoveToFront el (dd_lru d)\<rparr>"
  | (join) call where "dd_completed d key = None" "dd_pending d key = Some call" "r = Join call" "d' = d"
  | (run) "dd_completed d key = None" "dd_pending d key = None" "r = Run (dd_next d)"
      "d' = d\<lparr>dd_pending := (dd_pending d)(key \<mapsto> dd_next d),
        dd_calls := (dd_calls d)(dd_next d \<mapsto> \<lparr>pc_done = False, pc_err = None\<rparr>), dd_next := Suc (dd_next d)\<rparr>"
  using assms by (auto simp: dedupe_begin_def Let_def split: option.splits)

lemma dedupe_begin_ok:
  assumes "dedupe_ok d" "dedupe_begin key d = (d', r)"
  shows "dedupe_ok d' \<and> dd_completed d' = dd_completed d \<and> dd_capacity d' = dd_capacity d"
  using assms(2)
proof (cases rule: dedupe_begin_cases)
  case (hit el)
  then show ?thesis using assms(1) unfolding dedupe_ok_def dedupe_core_def by (simp add: MoveToFront_distinct)
next
  case run
  then show ?thesis using assms(1) unfolding dedupe_ok_def dedupe_core_def by (auto simp del: split_paired_All intro: less_SucI)
qed (use assms(1) in auto)

lemma filter_not_last:
  assumes "distinct (map fst xs)" "xs \<noteq> []"
  shows "filter (\<lambda>p. fst p \<noteq> fst (last xs)) xs = butlast xs"
proof -
  have "xs = butlast xs @ [last xs]" using assms(2) by simp
  then obtain ys z where xs: "xs = ys @ [z]" by blast
  then have "\<forall>p\<in>set ys. fst p \<noteq> fst z" using assms(1) by (force simp: image_iff)
  then show ?thesis by (simp add: xs)
qed

lemma last_not_before: "distinct (map snd xs) \<Longrightarrow> (el, snd (last xs)) \<notin> set (butlast xs)"
  by (cases xs rule: rev_cases) (force simp: image_iff)+

lemma in_butlast_last: "xs \<noteq> [] \<Longrightarrow> p \<in> set xs \<longleftrightarrow> p \<in> set (butlast xs) \<or> p = last xs"
  by (cases xs rule: rev_cases) auto

lemma evict_lru:
  assumes "dedupe_core d"
  shows "dd_lru (evict d) = (if int (length (dd_lru d)) > dd_capacity d then butlast (dd_lru d) else dd_lru d)"
proof -
  have "dd_lru d \<noteq> []" if "int (length (dd_lru d)) > dd_capacity d"
    using that assms by (auto simp: dedupe_core_def)
  then show ?thesis using filter_not_last assms by (auto simp: evict_def Let_def dedupe_core_def)
qed

lemma evict_ok:
  assumes "dedupe_core d" "int (length (dd_lru d)) \<le> dd_capacity d + 1"
  shows "dedupe_ok (evict d)"
proof (cases "int (length (dd_lru d)) > dd_capacity d")
  case True
  let ?xs = "dd_lru d" and ?o = "last (dd_lru d)"
  have ne: "?xs \<noteq> []" using True assms(1) by (auto simp: dedupe_core_def)
  have dist: "distinct (map fst ?xs)" "distinct (map snd ?xs)"
    and comp: "dd_completed d k = Some el \<longleftrightarrow> (el, k) \<in> set ?xs" for k el
    using assms(1) by (auto simp: dedupe_core_def)
  have gone: "((dd_completed d)(snd ?o := None)) k = Some el \<longleftrightarrow> (el, k) \<in> set (butlast ?xs)" for k el
  proof (cases "k = snd ?o")
    case True
    then show ?thesis using last_not_before [OF dist(2), of el] by simp
  next
    case False
    then have "(el, k) \<in> set ?xs \<longleftrightarrow> (el, k) \<in> set (butlast ?xs)"
      using in_butlast_last [OF ne, of "(el, k)"] by (metis snd_conv)
    then show ?thesis using False comp by simp
  qed
  have e: "evict d = d\<lparr>dd_completed := (dd_completed d)(snd ?o := None), dd_lru := butlast ?xs\<rparr>"
    using True filter_not_last [OF dist(1) ne] by (simp add: evict_def Let_def)
  have "distinct (map fst (butlast ?xs))" "distinct (map snd (butlast ?xs))"
    using dist by (simp_all add: map_butlast distinct_butlast)
  then have "dedupe_core (evict d)"
    using assms(1) gone unfolding dedupe_core_def e by (auto simp del: split_paired_All dest: in_set_butlastD)
  moreover have "int (length (butlast ?xs)) \<le> dd_capacity d" using assms(2) ne by (cases ?xs) auto
  ultimately show ?thesis by (simp add: dedupe_ok_def e)
qed (use assms in \<open>simp add: evict_def dedupe_ok_def\<close>)

definition recorded :: "BatchKey \<Rightarrow> Dedupe \<Rightarrow> Dedupe" where
  "recorded key d = d\<lparr>dd_pending := (dd_pending d)(key := None), dd_next := Suc (dd_next d),
     dd_lru := (dd_next d, key) # dd_lru d, dd_completed := (dd_completed d)(key \<mapsto> dd_next d)\<rparr>"

lemma recorded_core:
  assumes "dedupe_ok d" "dd_completed d key = None"
  shows "dedupe_core (recorded key d)"
proof -
  note okD = dedupe_okD [OF assms(1)]
  have new: "key \<notin> snd ` set (dd_lru d)" using assms(2) okD(8) by simp
  have fresh: "dd_next d \<notin> fst ` set (dd_lru d)" using okD(6) by fastforce
  have comp: "((dd_completed d)(key \<mapsto> dd_next d)) k = Some el \<longleftrightarrow> (el, k) \<in> set ((dd_next d, key) # dd_lru d)" for k el
    using okD(5) [of k el] new by (cases "k = key") (auto simp: image_iff)
  have pend: "((dd_pending d)(key := None)) k \<noteq> None \<longrightarrow> ((dd_completed d)(key \<mapsto> dd_next d)) k = None" for k
    using okD(7) by auto
  show ?thesis
    unfolding dedupe_core_def recorded_def
    using okD(1,3,4) new fresh comp okD(6) pend by (auto simp del: split_paired_All fun_upd_apply not_None_eq intro: less_SucI)
qed

lemma dedupe_end_eq:
  "dedupe_end key call err d = (evict (recorded key d))\<lparr>dd_calls := (dd_calls d)(call \<mapsto> \<lparr>pc_done = True, pc_err = err\<rparr>)\<rparr>"
  by (simp add: dedupe_end_def recorded_def Let_def)

lemma dedupe_end_ok:
  assumes "dedupe_ok d" "dd_completed d key = None"
  shows "dedupe_ok (dedupe_end key call err d)"
proof -
  have "dedupe_ok (evict (recorded key d))"
    by (rule evict_ok [OF recorded_core [OF assms]]) (use assms(1) in \<open>simp add: dedupe_ok_def recorded_def\<close>)
  then show ?thesis by (simp add: dedupe_end_eq dedupe_ok_def dedupe_core_def)
qed

lemma dedupe_end_lru:
  assumes "dedupe_ok d" "dd_completed d key = None"
  shows "dd_lru (dedupe_end key call err d) =
    (if int (length (dd_lru d)) = dd_capacity d then butlast ((dd_next d, key) # dd_lru d) else (dd_next d, key) # dd_lru d)"
  using evict_lru [OF recorded_core [OF assms]] assms(1) by (auto simp: dedupe_end_eq recorded_def dedupe_ok_def)


lemma evict_completed:
  "dd_completed (evict d) k = (if int (length (dd_lru d)) > dd_capacity d \<and> k = snd (last (dd_lru d)) then None else dd_completed d k)"
  by (simp add: evict_def Let_def)

lemma dedupe_end_frame [simp]:
  "dd_pending (dedupe_end key call err d) = (dd_pending d)(key := None)"
  "dd_calls (dedupe_end key call err d) = (dd_calls d)(call \<mapsto> \<lparr>pc_done = True, pc_err = err\<rparr>)"
  "dd_capacity (dedupe_end key call err d) = dd_capacity d" "dd_next (dedupe_end key call err d) = Suc (dd_next d)"
  by (simp_all add: dedupe_end_eq recorded_def evict_def Let_def)

text \<open>The key just recorded is never the one that goes.\<close>

lemma dedupe_end_completed:
  assumes "dedupe_ok d" "dd_completed d key = None"
  shows "dd_completed (dedupe_end key call err d) key = Some (dd_next d)"
proof (cases "dd_lru d = []")
  case True
  then show ?thesis using assms(1) by (simp add: dedupe_end_eq evict_completed recorded_def dedupe_ok_def dedupe_core_def)
next
  case False
  then have "snd (last (dd_lru d)) \<noteq> key"
    using dedupe_okD(8) [OF assms(1), of key] assms(2) by (metis image_eqI last_in_set)
  then show ?thesis using False by (simp add: dedupe_end_eq evict_completed recorded_def)
qed

subsection \<open>Invariant of the interleaving\<close>

definition dm_inv :: "dmach \<Rightarrow> bool" where
  "dm_inv m \<longleftrightarrow> dedupe_ok (dm_dedupe m) \<and>
     (\<forall>k c. dd_pending (dm_dedupe m) k = Some c \<longleftrightarrow> (\<exists>t. dm_pc m t = Running k c)) \<and>
     (\<forall>t1 t2 k c1 c2. dm_pc m t1 = Running k c1 \<and> dm_pc m t2 = Running k c2 \<longrightarrow> t1 = t2) \<and>
     (\<forall>t1 t2 k1 k2 c. dm_pc m t1 = Running k1 c \<and> dm_pc m t2 = Running k2 c \<longrightarrow> t1 = t2) \<and>
     (\<forall>t k c. dm_pc m t = Running k c \<longrightarrow> c < dd_next (dm_dedupe m) \<and> dd_calls (dm_dedupe m) c \<noteq> None) \<and>
     (\<forall>t k c. dm_pc m t = Blocked k c \<longrightarrow> c < dd_next (dm_dedupe m) \<and> (\<exists>call. dd_calls (dm_dedupe m) c = Some call \<and>
        (pc_done call \<or> (\<exists>t'. dm_pc m t' = Running k c))))"

lemma dm_invD:
  assumes "dm_inv m"
  shows "dedupe_ok (dm_dedupe m)" "dd_pending (dm_dedupe m) k = Some c \<longleftrightarrow> (\<exists>t. dm_pc m t = Running k c)"
    "dm_pc m t1 = Running k c1 \<Longrightarrow> dm_pc m t2 = Running k c2 \<Longrightarrow> t1 = t2"
    "dm_pc m t1 = Running k1 c \<Longrightarrow> dm_pc m t2 = Running k2 c \<Longrightarrow> t1 = t2"
    "dm_pc m t = Running k c \<Longrightarrow> c < dd_next (dm_dedupe m) \<and> dd_calls (dm_dedupe m) c \<noteq> None"
    "dm_pc m t = Blocked k c \<Longrightarrow> c < dd_next (dm_dedupe m) \<and> (\<exists>call. dd_calls (dm_dedupe m) c = Some call \<and>
        (pc_done call \<or> (\<exists>t'. dm_pc m t' = Running k c)))"
    "dm_pc m t = Running k c \<Longrightarrow> dd_completed (dm_dedupe m) k = None"
proof -
  note a = assms [unfolded dm_inv_def]
  show ok: "dedupe_ok (dm_dedupe m)" using a by blast
  show p: "dd_pending (dm_dedupe m) k = Some c \<longleftrightarrow> (\<exists>t. dm_pc m t = Running k c)" for k c using a by blast
  show "dm_pc m t1 = Running k c1 \<Longrightarrow> dm_pc m t2 = Running k c2 \<Longrightarrow> t1 = t2" using a by blast
  show "dm_pc m t1 = Running k1 c \<Longrightarrow> dm_pc m t2 = Running k2 c \<Longrightarrow> t1 = t2" using a by blast
  show "dm_pc m t = Running k c \<Longrightarrow> c < dd_next (dm_dedupe m) \<and> dd_calls (dm_dedupe m) c \<noteq> None" using a by blast
  show "dm_pc m t = Blocked k c \<Longrightarrow> c < dd_next (dm_dedupe m) \<and> (\<exists>call. dd_calls (dm_dedupe m) c = Some call \<and>
        (pc_done call \<or> (\<exists>t'. dm_pc m t' = Running k c)))" using a by blast
  show "dm_pc m t = Running k c \<Longrightarrow> dd_completed (dm_dedupe m) k = None"
    using p [of k c] dedupe_okD(7) [OF ok, of k] by auto
qed

lemma dm_init_inv: "dm_inv (dm_init n)"
  by (simp add: dm_inv_def dm_init_def dedupe_ok_init) (simp add: NewDedupe_def)

text \<open>A step that leaves the running calls alone.\<close>

lemma dm_inv_quiet:
  assumes "dm_inv m" "\<forall>k c. dm_pc m t \<noteq> Running k c" "\<forall>k c. pc \<noteq> Running k c"
    "dedupe_ok d" "dd_pending d = dd_pending (dm_dedupe m)" "dd_calls d = dd_calls (dm_dedupe m)" "dd_next d = dd_next (dm_dedupe m)"
    "\<forall>k c. pc = Blocked k c \<longrightarrow> c < dd_next d \<and> (\<exists>call. dd_calls d c = Some call \<and>
        (pc_done call \<or> (\<exists>t'. dm_pc m t' = Running k c)))"
  shows "dm_inv (m\<lparr>dm_dedupe := d, dm_pc := (dm_pc m)(t := pc), dm_touched := l\<rparr>)"
proof -
  have run: "((dm_pc m)(t := pc)) t' = Running k c \<longleftrightarrow> dm_pc m t' = Running k c" for t' k c
    using assms(2,3) by auto
  note D = dm_invD [OF assms(1)]
  show ?thesis
    unfolding dm_inv_def using assms(4-8) D(2) D(3-6)
    by (simp add: run del: fun_upd_apply) (auto simp: fun_upd_apply split: if_splits)
qed

lemma dm_inv_run:
  assumes "dm_inv m" "\<forall>k c. dm_pc m t \<noteq> Running k c" "dedupe_begin key (dm_dedupe m) = (d, Run call)"
  shows "dm_inv (m\<lparr>dm_dedupe := d, dm_pc := (dm_pc m)(t := Running key call)\<rparr>)"
proof -
  note D = dm_invD [OF assms(1)]
  note b = assms(3)
  have r: "dd_pending (dm_dedupe m) key = None" "call = dd_next (dm_dedupe m)"
    "d = (dm_dedupe m)\<lparr>dd_pending := (dd_pending (dm_dedupe m))(key \<mapsto> call),
        dd_calls := (dd_calls (dm_dedupe m))(call \<mapsto> \<lparr>pc_done = False, pc_err = None\<rparr>), dd_next := Suc call\<rparr>"
    using b by (auto elim: dedupe_begin_cases)
  have ok: "dedupe_ok d" using dedupe_begin_ok [OF D(1) b] by blast
  have none: "dm_pc m t' \<noteq> Running key c" for t' c using r(1) D(2) [of key c] by auto
  have unused: "dm_pc m t' = Running k (dd_next (dm_dedupe m)) \<Longrightarrow> False" for t' k using D(5) by blast
  have run: "((dm_pc m)(t := Running key call)) t' = Running k c \<longleftrightarrow>
      (if t' = t then k = key \<and> c = call else dm_pc m t' = Running k c)" for t' k c by auto
  have other: "dm_pc m t' = Running k c \<Longrightarrow> t' \<noteq> t" for t' k c using assms(2) by auto
  have ex: "(\<exists>t'. ((dm_pc m)(t := Running key call)) t' = Running k c) \<longleftrightarrow>
      (k = key \<and> c = call) \<or> (\<exists>t'. dm_pc m t' = Running k c)" for k c
    using other run by metis
  show ?thesis
    unfolding dm_inv_def
  proof (intro conjI allI impI)
    fix k c
    show "(dd_pending (dm_dedupe (m\<lparr>dm_dedupe := d, dm_pc := (dm_pc m)(t := Running key call)\<rparr>)) k = Some c) =
        (\<exists>t'. dm_pc (m\<lparr>dm_dedupe := d, dm_pc := (dm_pc m)(t := Running key call)\<rparr>) t' = Running k c)"
      using D(2) [of k c] none ex [of k c] by (auto simp: r(3) simp del: fun_upd_apply) (auto simp: fun_upd_apply split: if_splits)
  next
    fix t' k c
    assume "dm_pc (m\<lparr>dm_dedupe := d, dm_pc := (dm_pc m)(t := Running key call)\<rparr>) t' = Blocked k c"
    then have bl: "dm_pc m t' = Blocked k c" by (auto split: if_splits)
    from D(6) [OF bl] obtain cl where cl: "c < dd_next (dm_dedupe m)" "dd_calls (dm_dedupe m) c = Some cl"
      "pc_done cl \<or> (\<exists>t'. dm_pc m t' = Running k c)" by blast
    then show "c < dd_next (dm_dedupe (m\<lparr>dm_dedupe := d, dm_pc := (dm_pc m)(t := Running key call)\<rparr>))"
      by (simp add: r(2,3))
    have calls: "dd_calls d c = Some cl" using cl(1,2) by (auto simp: r(2,3))
    have "pc_done cl \<or> (\<exists>t'. ((dm_pc m)(t := Running key call)) t' = Running k c)" using cl(3) ex [of k c] by blast
    then show "\<exists>call'. dd_calls (dm_dedupe (m\<lparr>dm_dedupe := d, dm_pc := (dm_pc m)(t := Running key call)\<rparr>)) c = Some call' \<and>
        (pc_done call' \<or> (\<exists>t'. dm_pc (m\<lparr>dm_dedupe := d, dm_pc := (dm_pc m)(t := Running key call)\<rparr>) t' = Running k c))"
      using calls by (simp del: fun_upd_apply)
  qed (use ok none D(3,4,5) in \<open>auto simp: r(3) r(2) run less_SucI dest: unused split: if_splits\<close>)
qed

lemma updated: "(\<exists>y. (f(a \<mapsto> x)) c = Some y) \<longleftrightarrow> c = a \<or> (\<exists>y. f c = Some y)"
  by auto

lemma dm_inv_end:
  assumes "dm_inv m" "dm_pc m t = Running key call"
  shows "dm_inv (m\<lparr>dm_dedupe := dedupe_end key call err (dm_dedupe m), dm_pc := (dm_pc m)(t := Returned False err),
       dm_touched := l, dm_runs := l'\<rparr>)"
proof -
  note D = dm_invD [OF assms(1)]
  have ok: "dedupe_ok (dedupe_end key call err (dm_dedupe m))" by (rule dedupe_end_ok [OF D(1) D(7) [OF assms(2)]])
  have run: "((dm_pc m)(t := Returned False err)) t' = Running k c \<longleftrightarrow> t' \<noteq> t \<and> dm_pc m t' = Running k c" for t' k c
    by auto
  have others: "dm_pc m t' = Running k c \<Longrightarrow> t' \<noteq> t \<longleftrightarrow> k \<noteq> key" for t' k c
    using D(3) [of t' k c t] assms(2) by (cases "t' = t") auto
  show ?thesis
    unfolding dm_inv_def
  proof (intro conjI allI impI)
    fix k c
    show "(dd_pending (dm_dedupe (m\<lparr>dm_dedupe := dedupe_end key call err (dm_dedupe m),
          dm_pc := (dm_pc m)(t := Returned False err), dm_touched := l, dm_runs := l'\<rparr>)) k = Some c) =
        (\<exists>t'. dm_pc (m\<lparr>dm_dedupe := dedupe_end key call err (dm_dedupe m),
          dm_pc := (dm_pc m)(t := Returned False err), dm_touched := l, dm_runs := l'\<rparr>) t' = Running k c)"
      using D(2) [of k c] others by (auto simp: run simp del: fun_upd_apply simp: fun_upd_def split: if_splits)
  next
    fix t' k c
    assume "dm_pc (m\<lparr>dm_dedupe := dedupe_end key call err (dm_dedupe m),
        dm_pc := (dm_pc m)(t := Returned False err), dm_touched := l, dm_runs := l'\<rparr>) t' = Blocked k c"
    then have bl: "dm_pc m t' = Blocked k c" by (auto split: if_splits)
    from D(6) [OF bl] obtain cl where cl: "c < dd_next (dm_dedupe m)" "dd_calls (dm_dedupe m) c = Some cl"
      "pc_done cl \<or> (\<exists>t'. dm_pc m t' = Running k c)" by blast
    then show "c < dd_next (dm_dedupe (m\<lparr>dm_dedupe := dedupe_end key call err (dm_dedupe m),
        dm_pc := (dm_pc m)(t := Returned False err), dm_touched := l, dm_runs := l'\<rparr>))" by simp
    show "\<exists>call'. dd_calls (dm_dedupe (m\<lparr>dm_dedupe := dedupe_end key call err (dm_dedupe m),
        dm_pc := (dm_pc m)(t := Returned False err), dm_touched := l, dm_runs := l'\<rparr>)) c = Some call' \<and>
        (pc_done call' \<or> (\<exists>t'. dm_pc (m\<lparr>dm_dedupe := dedupe_end key call err (dm_dedupe m),
        dm_pc := (dm_pc m)(t := Returned False err), dm_touched := l, dm_runs := l'\<rparr>) t' = Running k c))"
    proof (cases "c = call")
      case False
      then have "\<exists>t'. t' \<noteq> t \<and> dm_pc m t' = Running k c" if "\<exists>t'. dm_pc m t' = Running k c"
        using that assms(2) by (metis do_pc.inject(2))
      then show ?thesis using cl False by (auto simp: run simp del: fun_upd_apply) (auto simp: run)
    qed simp
  qed (use ok D(3,4,5) in \<open>auto simp: run less_SucI updated split: if_splits simp del: fun_upd_apply\<close>)
qed

lemma do_step_inv: "do_step m m' \<Longrightarrow> dm_inv m \<Longrightarrow> dm_inv m'"
proof (induction rule: do_step.induct)
  case (do_hit m t b e key d)
  have "dedupe_ok d" using dedupe_begin_ok [OF dm_invD(1) [OF do_hit.prems] do_hit.hyps(2)] by blast
  moreover have "dd_pending d = dd_pending (dm_dedupe m) \<and> dd_calls d = dd_calls (dm_dedupe m) \<and> dd_next d = dd_next (dm_dedupe m)"
    using do_hit.hyps(2) by (auto elim: dedupe_begin_cases)
  ultimately show ?case using do_hit by (intro dm_inv_quiet) auto
next
  case (do_join m t b e key d call)
  have d: "d = dm_dedupe m" "dd_pending (dm_dedupe m) key = Some call"
    using do_join.hyps(2) by (auto elim: dedupe_begin_cases)
  then obtain t' where t': "dm_pc m t' = Running key call" using dm_invD(2) [OF do_join.prems] by blast
  have "dm_inv (m\<lparr>dm_dedupe := d, dm_pc := (dm_pc m)(t := Blocked key call), dm_touched := dm_touched m\<rparr>)"
    using do_join.hyps(1) dm_invD(5) [OF do_join.prems t'] t' d
    by (intro dm_inv_quiet do_join.prems) (auto intro: dm_invD(1) [OF do_join.prems])
  then show ?case by simp
next
  case (do_run m t b e key d call)
  then show ?case by (intro dm_inv_run) auto
next
  case (do_end m t key call err)
  then show ?case by (intro dm_inv_end)
next
  case (do_wake m t key call c)
  have "dm_inv (m\<lparr>dm_dedupe := dm_dedupe m, dm_pc := (dm_pc m)(t := Returned (fst (joined_result c)) (snd (joined_result c))),
      dm_touched := dm_touched m\<rparr>)"
    using do_wake by (intro dm_inv_quiet) (auto intro: dm_invD(1))
  then show ?case by simp
next
  case (do_cancel m t key call k)
  have "dm_inv (m\<lparr>dm_dedupe := dm_dedupe m, dm_pc := (dm_pc m)(t := Returned False (Some (CtxError k))), dm_touched := dm_touched m\<rparr>)"
    using do_cancel by (intro dm_inv_quiet) (auto intro: dm_invD(1))
  then show ?case by simp
qed

lemma do_steps_inv: "do_steps m m' \<Longrightarrow> dm_inv m \<Longrightarrow> dm_inv m'"
  by (induction rule: rtranclp_induct) (auto intro: do_step_inv)

lemma do_step_capacity: "do_step m m' \<Longrightarrow> dm_inv m \<Longrightarrow> dd_capacity (dm_dedupe m') = dd_capacity (dm_dedupe m)"
  by (induction rule: do_step.induct) (auto dest: dedupe_begin_ok [OF dm_invD(1)])

lemma do_steps_capacity: "do_steps m m' \<Longrightarrow> dm_inv m \<Longrightarrow> dd_capacity (dm_dedupe m') = dd_capacity (dm_dedupe m)"
  by (induction rule: rtranclp_induct) (auto dest: do_step_capacity do_steps_inv)

subsection \<open>How long a key is remembered\<close>

definition ahead_of :: "BatchKey \<Rightarrow> Dedupe \<Rightarrow> BatchKey set" where
  "ahead_of k d = snd ` set (takeWhile (\<lambda>p. snd p \<noteq> k) (dd_lru d))"

definition touched_since :: "dmach \<Rightarrow> dmach \<Rightarrow> BatchKey set" where
  "touched_since m m' = set (drop (length (dm_touched m)) (dm_touched m'))"

lemma takeWhile_filter_subset:
  "\<forall>x\<in>set xs. \<not> P x \<longrightarrow> Q x \<Longrightarrow> set (takeWhile P (filter Q xs)) \<subseteq> set (takeWhile P xs)"
  by (induction xs) auto

lemma takeWhile_butlast_subset: "set (takeWhile P (butlast xs)) \<subseteq> set (takeWhile P xs)"
  by (induction xs) auto

lemma do_step_touched: "do_step m m' \<Longrightarrow> \<exists>l. dm_touched m' = dm_touched m @ l"
  by (induction rule: do_step.induct) auto

lemma touched_mono:
  assumes "length (dm_touched m) \<le> length (dm_touched m1)" "dm_touched m' = dm_touched m1 @ l"
  shows "touched_since m m' = touched_since m m1 \<union> set l"
  using assms by (auto simp: touched_since_def)

lemma filter_element: "distinct (map fst xs) \<Longrightarrow> (el, key) \<in> set xs \<Longrightarrow> filter (\<lambda>p. fst p = el) xs = [(el, key)]"
  by (induction xs) (force simp: filter_empty_conv)+

lemma ahead_of_hit:
  assumes "dedupe_ok d" "dd_completed d key = Some el"
  shows "ahead_of k (d\<lparr>dd_lru := MoveToFront el (dd_lru d)\<rparr>) \<subseteq> (if key = k then {} else insert key (ahead_of k d))"
proof -
  have el: "(el, key) \<in> set (dd_lru d)" using dedupe_okD(5) [OF assms(1)] assms(2) by blast
  note one = filter_element [OF dedupe_okD(3) [OF assms(1)] el]
  show ?thesis
  proof (cases "key = k")
    case True
    then show ?thesis by (simp add: ahead_of_def MoveToFront_def one)
  next
    case False
    have "\<forall>p\<in>set (dd_lru d). \<not> snd p \<noteq> k \<longrightarrow> fst p \<noteq> el"
    proof (intro ballI impI notI)
      fix p
      assume "p \<in> set (dd_lru d)" "\<not> snd p \<noteq> k" "fst p = el"
      then have "p \<in> set (filter (\<lambda>p. fst p = el) (dd_lru d))" by simp
      then have "p = (el, key)" unfolding one by simp
      with False \<open>\<not> snd p \<noteq> k\<close> show False by simp
    qed
    from takeWhile_filter_subset [OF this] show ?thesis
      using False by (auto simp: ahead_of_def MoveToFront_def one)
  qed
qed

lemma ahead_of_end:
  assumes "dedupe_ok d" "dd_completed d key = None" "key \<noteq> k"
  shows "ahead_of k (dedupe_end key call err d) \<subseteq> insert key (ahead_of k d)"
  using takeWhile_butlast_subset [of "\<lambda>p. snd p \<noteq> k" "(dd_next d, key) # dd_lru d"] assms(3)
  unfolding ahead_of_def dedupe_end_lru [OF assms(1,2)] by (auto simp del: butlast.simps)

lemma last_ahead:
  assumes "distinct (map snd xs)" "xs \<noteq> []" "snd (last xs) = k"
  shows "card (snd ` set (takeWhile (\<lambda>p. snd p \<noteq> k) xs)) = length xs - 1"
proof -
  obtain ys z where xs: "xs = ys @ [z]" using assms(2) by (cases xs rule: rev_cases) auto
  have "\<forall>p\<in>set ys. snd p \<noteq> k" using assms(1,3) unfolding xs by (force simp: image_iff)
  then have "takeWhile (\<lambda>p. snd p \<noteq> k) xs = ys" using assms(3) by (simp add: xs)
  moreover have "distinct (map snd ys)" using assms(1) by (simp add: xs)
  ultimately show ?thesis by (metis card_image distinct_card distinct_map length_append_singleton diff_Suc_1 length_map set_map xs)
qed

lemma dedupe_end_keeps:
  assumes "dedupe_ok d" "dd_completed d key = None" "dd_completed d k \<noteq> None" "ahead_of k d \<subseteq> T" "finite T"
    "card (insert key T) < nat (dd_capacity d)"
  shows "dd_completed (dedupe_end key call err d) k \<noteq> None"
proof
  assume gone: "dd_completed (dedupe_end key call err d) k = None"
  have ne: "k \<noteq> key" using assms(2,3) by auto
  have lru: "dd_lru d \<noteq> []" using dedupe_okD(8) [OF assms(1), of k] assms(3) by auto
  have "dd_completed (recorded key d) k \<noteq> None" using assms(3) ne by (simp add: recorded_def)
  then have "int (length (dd_lru (recorded key d))) > dd_capacity d" "k = snd (last (dd_lru (recorded key d)))"
    using gone by (auto simp: dedupe_end_eq evict_completed recorded_def split: if_splits)
  then have out: "int (length (dd_lru d)) = dd_capacity d" "dd_lru d \<noteq> []" "snd (last (dd_lru d)) = k"
    using dedupe_okD(2) [OF assms(1)] lru by (auto simp: recorded_def)
  have "key \<notin> ahead_of k d"
    using dedupe_okD(8) [OF assms(1), of key] assms(2) by (auto simp: ahead_of_def dest: set_takeWhileD)
  have fin: "finite (ahead_of k d)" by (simp add: ahead_of_def)
  have "card (ahead_of k d) = length (dd_lru d) - 1"
    unfolding ahead_of_def by (rule last_ahead [OF dedupe_okD(4) [OF assms(1)] out(2,3)])
  then have "card (insert key (ahead_of k d)) = length (dd_lru d)"
    using fin \<open>key \<notin> ahead_of k d\<close> out(2) by simp
  moreover have "card (insert key (ahead_of k d)) \<le> card (insert key T)"
    using assms(4,5) by (intro card_mono) auto
  ultimately show False using assms(6) out(1) by simp
qed

lemma dedupe_begin_other:
  "dedupe_begin key d = (d', r) \<Longrightarrow> r \<noteq> Hit \<Longrightarrow> dd_lru d' = dd_lru d \<and> dd_completed d' = dd_completed d"
  by (auto elim: dedupe_begin_cases)

lemma remembered_step:
  assumes "do_step m m'" "dm_inv m" "dd_completed (dm_dedupe m) k \<noteq> None" "ahead_of k (dm_dedupe m) \<subseteq> T - {k}"
    "dm_touched m' = dm_touched m @ l" "finite T" "card (T \<union> set l - {k}) < nat (dd_capacity (dm_dedupe m))"
  shows "dd_completed (dm_dedupe m') k \<noteq> None \<and> ahead_of k (dm_dedupe m') \<subseteq> T \<union> set l - {k}"
  using assms
proof (induction rule: do_step.induct)
  case (do_hit m t b e key d)
  note ok = dm_invD(1) [OF do_hit.prems(1)]
  obtain el where "dd_completed (dm_dedupe m) key = Some el" "d = (dm_dedupe m)\<lparr>dd_lru := MoveToFront el (dd_lru (dm_dedupe m))\<rparr>"
    using do_hit.hyps(2) by (auto elim: dedupe_begin_cases)
  then show ?case using do_hit.prems ahead_of_hit [OF ok] by (fastforce split: if_splits)
next
  case (do_end m t key call err)
  note ok = dm_invD(1) [OF do_end.prems(1)] and no = dm_invD(7) [OF do_end.prems(1) do_end.hyps]
  have l: "l = [key]" and ne: "key \<noteq> k" using do_end.prems(2,4) no by auto
  have "card (insert key (T - {k})) < nat (dd_capacity (dm_dedupe m))"
    using do_end.prems(6) ne by (simp add: l insert_Diff_if)
  then have "dd_completed (dedupe_end key call err (dm_dedupe m)) k \<noteq> None"
    using dedupe_end_keeps [OF ok no do_end.prems(2,3)] do_end.prems(5) by simp
  then show ?case using ahead_of_end [OF ok no ne, of call err] do_end.prems(3) ne by (auto simp: l)
next
  case (do_join m t b e key d call)
  then show ?case using dedupe_begin_other [OF do_join.hyps(2)] by (simp add: ahead_of_def)
next
  case (do_run m t b e key d call)
  then show ?case using dedupe_begin_other [OF do_run.hyps(2)] by (simp add: ahead_of_def)
qed (auto simp: ahead_of_def)

lemma remembered:
  assumes "do_steps m m'" "dm_inv m" "dd_completed (dm_dedupe m) k \<noteq> None" "ahead_of k (dm_dedupe m) = {}"
    "card (touched_since m m' - {k}) < nat (dd_capacity (dm_dedupe m))"
  shows "dd_completed (dm_dedupe m') k \<noteq> None \<and> ahead_of k (dm_dedupe m') \<subseteq> touched_since m m' - {k} \<and>
    length (dm_touched m) \<le> length (dm_touched m')"
  using assms
proof (induction rule: rtranclp_induct)
  case base
  then show ?case by simp
next
  case (step m1 m2)
  obtain l where l: "dm_touched m2 = dm_touched m1 @ l" using do_step_touched [OF step.hyps(2)] by blast
  have "touched_since m m1 \<subseteq> touched_since m m2" by (auto simp: touched_since_def l)
  then have "card (touched_since m m1 - {k}) \<le> card (touched_since m m2 - {k})"
    by (intro card_mono) (auto simp: touched_since_def)
  then have IH: "dd_completed (dm_dedupe m1) k \<noteq> None" "ahead_of k (dm_dedupe m1) \<subseteq> touched_since m m1 - {k}"
    "length (dm_touched m) \<le> length (dm_touched m1)"
    using step.IH step.prems by auto
  note grow = touched_mono [OF IH(3) l]
  have "card (touched_since m m1 \<union> set l - {k}) < nat (dd_capacity (dm_dedupe m1))"
    using step.prems(4) do_steps_capacity [OF step.hyps(1) step.prems(1)] by (simp add: grow)
  from remembered_step [OF step.hyps(2) do_steps_inv [OF step.hyps(1) step.prems(1)] IH(1,2) l _ this]
  show ?case using IH(3) by (simp add: grow l) (simp add: touched_since_def)
qed

subsection \<open>Properties\<close>

text \<open>
  C26. In every interleaving of \<open>Do\<close> calls: at most one goroutine executes the work of a key at any
  time, and none does while the key is remembered; the memory holds each key once, never more
  keys than its capacity, and map and list agree; a goroutine that waits for a call waits for one
  that has ended or is still being executed, so no wake-up is lost.
\<close>

theorem one_execution_per_key:
  assumes "do_steps (dm_init n) m"
  shows "(\<forall>t1 t2 k c1 c2. dm_pc m t1 = Running k c1 \<and> dm_pc m t2 = Running k c2 \<longrightarrow> t1 = t2) \<and>
    (\<forall>t k c. dm_pc m t = Running k c \<longrightarrow> dd_completed (dm_dedupe m) k = None) \<and>
    distinct (map snd (dd_lru (dm_dedupe m))) \<and>
    dom (dd_completed (dm_dedupe m)) = snd ` set (dd_lru (dm_dedupe m)) \<and>
    int (dedupe_Len (dm_dedupe m)) \<le> max 1 n \<and>
    (\<forall>t k c. dm_pc m t = Blocked k c \<longrightarrow> (\<exists>call. dd_calls (dm_dedupe m) c = Some call \<and>
       (pc_done call \<or> (\<exists>t'. dm_pc m t' = Running k c))))"
proof -
  have inv: "dm_inv m" by (rule do_steps_inv [OF assms dm_init_inv])
  have cap: "dd_capacity (dm_dedupe m) = max 1 n"
    using do_steps_capacity [OF assms dm_init_inv] by (simp add: dm_init_def NewDedupe_def)
  note D = dm_invD [OF inv] and ok = dedupe_okD [OF dm_invD(1) [OF inv]]
  have dom: "dom (dd_completed (dm_dedupe m)) = snd ` set (dd_lru (dm_dedupe m))" using ok(8) by (auto simp: dom_def)
  have "dedupe_Len (dm_dedupe m) = length (dd_lru (dm_dedupe m))"
    unfolding dedupe_Len_def dom using distinct_card [OF ok(4)] by simp
  then have "int (dedupe_Len (dm_dedupe m)) \<le> max 1 n" using ok(2) cap by simp
  with D(3,6,7) ok(4) dom show ?thesis by blast
qed


text \<open>
  What \<open>Do\<close> records: also work that failed. After a call whose work ended in an error, the next
  call for the same key, with whatever work, answers \<open>duplicate\<close> without an error and does not
  execute it: the error is reported once, and a retry of the failed batch is answered as if it had
  been done before.
\<close>

theorem failed_work_is_recorded:
  assumes "dedupe_ok d" "dedupe_Do fn key d s = Some (d1, s1, duplicate, Some e)"
  shows "duplicate = False \<and> fn s = Some (s1, Some e) \<and> (\<exists>d2. dedupe_Do fn' key d1 s' = Some (d2, s', True, None))"
proof -
  obtain d0 call where b: "dedupe_begin key d = (d0, Run call)" and f: "fn s = Some (s1, Some e)"
    and d1: "d1 = dedupe_end key call (Some e) d0" and dup: "duplicate = False"
    using assms(2) by (auto simp: dedupe_Do_def split: prod.splits do_start.splits option.splits)
  have "dedupe_ok d0" "dd_completed d0 key = None"
    using dedupe_begin_ok [OF assms(1) b] b by (auto elim: dedupe_begin_cases)
  then have "dd_completed d1 key \<noteq> None" by (simp add: d1 dedupe_end_completed)
  then show ?thesis using f dup by (auto simp: dedupe_Do_def dedupe_begin_def)
qed

subsection \<open>Witnesses\<close>

text \<open>Two batches with room for two: the second is recorded after the first.\<close>

definition key_a :: BatchKey where "key_a = \<lparr>bk_ClientID = 7, bk_BatchID = 1\<rparr>"
definition key_b :: BatchKey where "key_b = \<lparr>bk_ClientID = 7, bk_BatchID = 2\<rparr>"

definition do_alone :: "nat \<Rightarrow> BatchKey \<Rightarrow> sink_error option \<Rightarrow> dmach \<Rightarrow> dmach" where
  "do_alone t key err m = (case dedupe_begin key (dm_dedupe m) of
     (d, Run call) \<Rightarrow> m\<lparr>dm_dedupe := dedupe_end key call err d, dm_pc := (dm_pc m)(t := Returned False err),
       dm_touched := dm_touched m @ [key], dm_runs := dm_runs m @ [(key, err)]\<rparr>
   | _ \<Rightarrow> m)"

lemma do_alone_steps:
  assumes "dm_pc m t = Idle"
  shows "do_steps m (do_alone t key err m)"
proof (cases "\<exists>d call. dedupe_begin key (dm_dedupe m) = (d, Run call)")
  case True
  then obtain d call where b: "dedupe_begin key (dm_dedupe m) = (d, Run call)" by blast
  have "do_step m (m\<lparr>dm_dedupe := d, dm_pc := (dm_pc m)(t := Running key call)\<rparr>)"
    by (rule do_run [OF _ b]) (simp add: assms)
  moreover have "do_step (m\<lparr>dm_dedupe := d, dm_pc := (dm_pc m)(t := Running key call)\<rparr>) (do_alone t key err m)"
    using do_end [of "m\<lparr>dm_dedupe := d, dm_pc := (dm_pc m)(t := Running key call)\<rparr>" t key call err]
    by (simp add: do_alone_def b)
  ultimately show ?thesis by (rule converse_rtranclp_into_rtranclp [OF _ r_into_rtranclp])
next
  case False
  then show ?thesis by (auto simp: do_alone_def split: prod.splits do_start.splits)
qed

lemma keys_differ [simp]: "key_a \<noteq> key_b" "key_b \<noteq> key_a"
  by (simp_all add: key_a_def key_b_def)

lemma after_a:
  "dm_dedupe (do_alone 0 key_a None (dm_init 2)) = \<lparr>dd_capacity = 2, dd_completed = [key_a \<mapsto> 1], dd_lru = [(1, key_a)],
     dd_pending = Map.empty, dd_calls = [0 \<mapsto> \<lparr>pc_done = True, pc_err = None\<rparr>], dd_next = 2\<rparr> \<and>
   dm_pc (do_alone 0 key_a None (dm_init 2)) 2 = Idle \<and> dm_touched (do_alone 0 key_a None (dm_init 2)) = [key_a]"
  by (simp add: do_alone_def dm_init_def NewDedupe_def dedupe_begin_def dedupe_end_def evict_def Let_def numeral_2_eq_2)

lemma touched_b:
  "touched_since (do_alone 0 key_a None (dm_init 2)) (do_alone 2 key_b None (do_alone 0 key_a None (dm_init 2))) = {key_b}"
  unfolding touched_since_def using after_a
  by (simp add: do_alone_def [of 2] dedupe_begin_def Let_def)

lemma one_execution_per_key_witness:
  "int (dedupe_Len (dm_dedupe (do_alone 2 key_b None (do_alone 0 key_a None (dm_init 2))))) \<le> max 1 2"
proof -
  have "do_steps (dm_init 2) (do_alone 0 key_a None (dm_init 2))" by (rule do_alone_steps) (simp add: dm_init_def)
  moreover have "do_steps (do_alone 0 key_a None (dm_init 2)) (do_alone 2 key_b None (do_alone 0 key_a None (dm_init 2)))"
    by (rule do_alone_steps) (simp add: after_a)
  ultimately have "do_steps (dm_init 2) (do_alone 2 key_b None (do_alone 0 key_a None (dm_init 2)))" by simp
  from one_execution_per_key [OF this] show ?thesis by blast
qed


lemma failed_work_is_recorded_witness:
  "\<exists>d1 d2. dedupe_Do (\<lambda>out. Some (out, Some (IOError 5))) key_a (NewDedupe 2) ([] :: bytes) = Some (d1, [], False, Some (IOError 5)) \<and>
     dedupe_Do (\<lambda>out. Some (out @ [1], None)) key_a d1 [] = Some (d2, [], True, None)"
proof -
  have "\<exists>d1. dedupe_Do (\<lambda>out. Some (out, Some (IOError 5))) key_a (NewDedupe 2) ([] :: bytes) = Some (d1, [], False, Some (IOError 5))"
    by (simp add: dedupe_Do_def dedupe_begin_def NewDedupe_def Let_def)
  then obtain d1 where "dedupe_Do (\<lambda>out. Some (out, Some (IOError 5))) key_a (NewDedupe 2) ([] :: bytes) = Some (d1, [], False, Some (IOError 5))"
    by blast
  with failed_work_is_recorded [OF dedupe_ok_init this, of "\<lambda>out. Some (out @ [1], None)" "[]"] show ?thesis by blast
qed

end
