(* ===== verification/Collector.thy ===== *)
theory Collector
  imports Collector_Dedupe Protocol_Client
begin

text \<open>
  The collector of \<^verbatim>\<open>internal/collector/server.go\<close>: admission of connections, the handler that reads
  frames, hands them to the sink through the memory of completed batches and answers, and \<open>Close\<close>. The sink
  is a parameter: \<open>wr\<close> is what one \<open>WriteBatch\<close> does to its state.
\<close>

subsection \<open>Configuration\<close>

record collector_Config =
  co_Address :: string
  co_MaxConnections :: int
  co_ReadTimeout :: duration
  co_WriteTimeout :: duration
  co_SinkTimeout :: duration
  co_DedupeEntries :: int
  co_Limits :: Limits

definition collector_DefaultConfig :: collector_Config where
  "collector_DefaultConfig = \<lparr>co_Address = ''127.0.0.1:28641'', co_MaxConnections = 256,
     co_ReadTimeout = 10 * Second, co_WriteTimeout = 5 * Second, co_SinkTimeout = 10 * Second,
     co_DedupeEntries = 100000, co_Limits = DefaultLimits\<rparr>"

datatype collector_error =
    ConfigRequired | ConfigLimits proto_error | SinkRequired | AlreadyServing | AcceptError nat | CloseError nat

definition collector_validate :: "collector_Config \<Rightarrow> collector_error option" where
  "collector_validate c =
     (if co_Address c = [] \<or> co_MaxConnections c \<le> 0 \<or> sint (co_ReadTimeout c) \<le> 0 \<or>
         sint (co_WriteTimeout c) \<le> 0 \<or> sint (co_SinkTimeout c) \<le> 0 \<or> co_DedupeEntries c \<le> 0
      then Some ConfigRequired
      else map_option ConfigLimits (Limits_Validate (co_Limits c)))"

record collector_Stats =
  st_Connections :: u64
  st_AcceptedBatches :: u64
  st_DuplicateBatches :: u64
  st_InvalidFrames :: u64
  st_Overloaded :: u64
  st_SinkErrors :: u64

text \<open>
  \<open>sv_sema\<close> is the number of tokens in the semaphore channel; connections and listeners are
  numbers; \<open>sv_sink\<close> is the state of the sink.
\<close>

record 's Server =
  sv_config :: collector_Config
  sv_sink :: 's
  sv_dedupe :: Dedupe
  sv_stats :: collector_Stats
  sv_sema :: nat
  sv_cancelled :: bool
  sv_listen :: "nat option"
  sv_active :: "nat set"

definition zero_stats :: collector_Stats where
  "zero_stats = \<lparr>st_Connections = 0, st_AcceptedBatches = 0, st_DuplicateBatches = 0, st_InvalidFrames = 0,
     st_Overloaded = 0, st_SinkErrors = 0\<rparr>"

definition collector_New :: "collector_Config \<Rightarrow> 's option \<Rightarrow> (collector_error, 's Server) result" where
  "collector_New config sink =
     (case collector_validate config of Some e \<Rightarrow> Inl e
      | None \<Rightarrow> (case sink of None \<Rightarrow> Inl SinkRequired
          | Some s \<Rightarrow> Inr \<lparr>sv_config = config, sv_sink = s, sv_dedupe = NewDedupe (co_DedupeEntries config),
              sv_stats = zero_stats, sv_sema = 0, sv_cancelled = False, sv_listen = None, sv_active = {}\<rparr>))"

definition collector_stats :: "'s Server \<Rightarrow> collector_Stats" where
  "collector_stats s = sv_stats s"

subsection \<open>Accepting connections\<close>

datatype accept_result = Accepted nat | AcceptClosed | AcceptTemporary | AcceptFailed nat

definition serve_start :: "nat \<Rightarrow> 's Server \<Rightarrow> 's Server \<times> collector_error option" where
  "serve_start listener s =
     (if sv_listen s \<noteq> None then (s, Some AlreadyServing) else (s\<lparr>sv_listen := Some listener\<rparr>, None))"

text \<open>One turn of the accept loop; \<open>Some r\<close> when \<open>Serve\<close> returns \<open>r\<close>.\<close>

definition serve_accept :: "accept_result \<Rightarrow> 's Server \<Rightarrow> 's Server \<times> collector_error option option" where
  "serve_accept a s =
     (case a of
        AcceptClosed \<Rightarrow> (s, Some None)
      | AcceptTemporary \<Rightarrow> if sv_cancelled s then (s, Some None) else (s, None)
      | AcceptFailed k \<Rightarrow> if sv_cancelled s then (s, Some None) else (s, Some (Some (AcceptError k)))
      | Accepted c \<Rightarrow>
          if int (sv_sema s) < co_MaxConnections (sv_config s) then
            (s\<lparr>sv_sema := sv_sema s + 1, sv_active := insert c (sv_active s),
               sv_stats := (sv_stats s)\<lparr>st_Connections := st_Connections (sv_stats s) + 1\<rparr>\<rparr>, None)
          else (s\<lparr>sv_stats := (sv_stats s)\<lparr>st_Overloaded := st_Overloaded (sv_stats s) + 1\<rparr>\<rparr>, None))"

text \<open>The deferred end of a handler.\<close>

definition handle_exit :: "nat \<Rightarrow> 's Server \<Rightarrow> 's Server" where
  "handle_exit c s = s\<lparr>sv_active := sv_active s - {c}, sv_sema := sv_sema s - 1,
     sv_stats := (sv_stats s)\<lparr>st_Connections := st_Connections (sv_stats s) + NOT 0\<rparr>\<rparr>"

text \<open>\<open>closeErr\<close> is what closing the listener answers, \<open>None\<close> also for \<open>net.ErrClosed\<close>; the connections closed.\<close>

definition collector_Close :: "nat option \<Rightarrow> 's Server \<Rightarrow> 's Server \<times> nat set \<times> nat option" where
  "collector_Close closeErr s =
     (s\<lparr>sv_cancelled := True\<rparr>, sv_active s, if sv_listen s \<noteq> None then closeErr else None)"

subsection \<open>One request of a connection\<close>

record 'e handle_env =
  he_read_deadline :: bool
  he_sink :: 'e
  he_write_deadline :: bool
  he_writer :: "(int \<times> proto_error option) list"

text \<open>The outcome of \<open>Do\<close> as a status, and the counter it moves.\<close>

definition reply_status :: "bool \<Rightarrow> sink_error option \<Rightarrow> AckStatus" where
  "reply_status duplicate sinkErr =
     (if sinkErr \<noteq> None then StatusSinkError else if duplicate then StatusDuplicate else StatusAccepted)"

definition count_reply :: "bool \<Rightarrow> sink_error option \<Rightarrow> collector_Stats \<Rightarrow> collector_Stats" where
  "count_reply duplicate sinkErr st =
     (if sinkErr \<noteq> None then st\<lparr>st_SinkErrors := st_SinkErrors st + 1\<rparr>
      else if duplicate then st\<lparr>st_DuplicateBatches := st_DuplicateBatches st + 1\<rparr>
      else st\<lparr>st_AcceptedBatches := st_AcceptedBatches st + 1\<rparr>)"

definition batch_key :: "Batch \<Rightarrow> BatchKey" where
  "batch_key b = \<lparr>bk_ClientID = bh_ClientID (b_Header b), bk_BatchID = bh_BatchID (b_Header b)\<rparr>"

text \<open>
  One turn of the handler's loop: the server, the unread rest of the connection, the bytes
  answered, and whether the handler goes on. \<open>None\<close>: the sink or another goroutine does not return.
\<close>

definition handle_request :: "('e \<Rightarrow> bytes list \<Rightarrow> 's \<Rightarrow> ('s \<times> sink_error option) option) \<Rightarrow> 'e handle_env \<Rightarrow>
    reader \<Rightarrow> 's Server \<Rightarrow> ('s Server \<times> reader \<times> bytes \<times> bool) option" where
  "handle_request wr e r s =
     (if \<not> he_read_deadline e then Some (s, r, [], False)
      else case ReadBatch r (co_Limits (sv_config s)) of
        (Inl err, r1) \<Rightarrow>
          Some ((if err \<noteq> ProtoEOF
                 then s\<lparr>sv_stats := (sv_stats s)\<lparr>st_InvalidFrames := st_InvalidFrames (sv_stats s) + 1\<rparr>\<rparr> else s),
                r1, [], False)
      | (Inr batch, r1) \<Rightarrow>
          (case dedupe_Do (wr (he_sink e) (b_Records batch)) (batch_key batch) (sv_dedupe s) (sv_sink s) of
             None \<Rightarrow> None
           | Some (d, sink, duplicate, sinkErr) \<Rightarrow>
               (let s1 = s\<lparr>sv_dedupe := d, sv_sink := sink, sv_stats := count_reply duplicate sinkErr (sv_stats s)\<rparr>
                in if \<not> he_write_deadline e then Some (s1, r1, [], False)
                   else case WriteAck (he_writer e) \<lparr>ack_Status = reply_status duplicate sinkErr,
                            ack_ClientID = bk_ClientID (batch_key batch), ack_BatchID = bk_BatchID (batch_key batch)\<rparr> of
                     None \<Rightarrow> None
                   | Some (out, err) \<Rightarrow> Some (s1, r1, out, err = None \<and> sinkErr = None))))"

text \<open>The handler: its requests one after the other, then the deferred end. The answers, in order.\<close>

fun handle_loop :: "('e \<Rightarrow> bytes list \<Rightarrow> 's \<Rightarrow> ('s \<times> sink_error option) option) \<Rightarrow> 'e handle_env list \<Rightarrow>
    reader \<Rightarrow> 's Server \<Rightarrow> ('s Server \<times> bytes \<times> bool) option" where
  "handle_loop wr [] r s = Some (s, [], True)"
| "handle_loop wr (e # es) r s =
     (case handle_request wr e r s of
        None \<Rightarrow> None
      | Some (s1, r1, out, False) \<Rightarrow> Some (s1, out, False)
      | Some (s1, r1, out, True) \<Rightarrow> (case handle_loop wr es r1 s1 of
            None \<Rightarrow> None
          | Some (s2, out2, going) \<Rightarrow> Some (s2, out @ out2, going)))"

definition handle :: "('e \<Rightarrow> bytes list \<Rightarrow> 's \<Rightarrow> ('s \<times> sink_error option) option) \<Rightarrow> 'e handle_env list \<Rightarrow>
    nat \<Rightarrow> reader \<Rightarrow> 's Server \<Rightarrow> ('s Server \<times> bytes) option" where
  "handle wr es c r s = (case handle_loop wr es r s of
     None \<Rightarrow> None
   | Some (s1, out, True) \<Rightarrow> Some (s1, out)
   | Some (s1, out, False) \<Rightarrow> Some (handle_exit c s1, out))"

definition stringsTrimBrackets :: "string \<Rightarrow> string" where
  "stringsTrimBrackets v =
     (if length v \<ge> 2 \<and> v ! 0 = CHR ''['' \<and> v ! (length v - 1) = CHR '']'' then take (length v - 2) (drop 1 v) else v)"

subsection \<open>Everything that can happen to a server\<close>

inductive server_step :: "('e \<Rightarrow> bytes list \<Rightarrow> 's \<Rightarrow> ('s \<times> sink_error option) option) \<Rightarrow> 's Server \<Rightarrow> 's Server \<Rightarrow> bool"
  for wr where
  step_accept: "\<forall>c. a = Accepted c \<longrightarrow> c \<notin> sv_active s \<Longrightarrow> server_step wr s (fst (serve_accept a s))"
| step_request: "handle_request wr e r s = Some (s', r', out, going) \<Longrightarrow> server_step wr s s'"
| step_exit: "c \<in> sv_active s \<Longrightarrow> server_step wr s (handle_exit c s)"
| step_start: "server_step wr s (fst (serve_start listener s))"
| step_close: "server_step wr s (fst (collector_Close err s))"

definition server_ok :: "'s Server \<Rightarrow> bool" where
  "server_ok s \<longleftrightarrow> finite (sv_active s) \<and> card (sv_active s) = sv_sema s \<and>
     int (sv_sema s) \<le> co_MaxConnections (sv_config s) \<and> st_Connections (sv_stats s) = of_nat (sv_sema s) \<and>
     Limits_Validate (co_Limits (sv_config s)) = None \<and> dedupe_ok (sv_dedupe s) \<and> dd_pending (sv_dedupe s) = Map.empty"

lemma dedupe_Do_ok:
  assumes "dedupe_ok d" "dd_pending d = Map.empty" "dedupe_Do fn key d s = Some (d', s', duplicate, err)"
  shows "dedupe_ok d' \<and> dd_pending d' = Map.empty"
proof -
  obtain d1 r where b: "dedupe_begin key d = (d1, r)" by fastforce
  note ok = dedupe_begin_ok [OF assms(1) b]
  from b show ?thesis
  proof (cases rule: dedupe_begin_cases)
    case (hit el)
    then show ?thesis using assms b ok by (auto simp: dedupe_Do_def)
  next
    case (join call)
    then show ?thesis using assms(2) by simp
  next
    case run
    then obtain e where "d' = dedupe_end key (dd_next d) e d1"
      using assms(3) b by (auto simp: dedupe_Do_def split: option.splits)
    then show ?thesis using ok run assms(2) dedupe_end_ok [of d1 key] by auto
  qed
qed

lemma count_reply_connections [simp]: "st_Connections (count_reply duplicate err st) = st_Connections st"
  by (simp add: count_reply_def)

lemma handle_request_frame:
  assumes "handle_request wr e r s = Some (s', r', out, going)"
  shows "sv_active s' = sv_active s \<and> sv_sema s' = sv_sema s \<and> sv_config s' = sv_config s \<and>
    st_Connections (sv_stats s') = st_Connections (sv_stats s) \<and> sv_listen s' = sv_listen s \<and>
    (dedupe_ok (sv_dedupe s) \<and> dd_pending (sv_dedupe s) = Map.empty \<longrightarrow>
       dedupe_ok (sv_dedupe s') \<and> dd_pending (sv_dedupe s') = Map.empty)"
  using assms
  by (auto simp: handle_request_def Let_def dest: dedupe_Do_ok split: if_splits prod.splits sum.splits option.splits)

lemma server_step_ok: "server_step wr s s' \<Longrightarrow> server_ok s \<Longrightarrow> server_ok s' \<and> sv_config s' = sv_config s"
proof (induction rule: server_step.induct)
  case (step_request e r s s' r' out going)
  then show ?case using handle_request_frame [OF step_request.hyps] by (auto simp: server_ok_def)
next
  case (step_exit c s)
  then have fin: "finite (sv_active s)" "card (sv_active s) = sv_sema s" by (simp_all add: server_ok_def)
  have "card (sv_active s) \<noteq> 0" using fin(1) step_exit.hyps by (metis card_0_eq empty_iff)
  then have pos: "0 < sv_sema s" using fin(2) by simp
  then have "(of_nat (sv_sema s) :: u64) + NOT 0 = of_nat (sv_sema s - 1)"
    by (simp add: of_nat_diff)
  then show ?case using step_exit by (auto simp: server_ok_def handle_exit_def card_Diff_singleton)
qed (auto simp: server_ok_def serve_accept_def serve_start_def collector_Close_def split: accept_result.splits)

abbreviation server_steps :: "('e \<Rightarrow> bytes list \<Rightarrow> 's \<Rightarrow> ('s \<times> sink_error option) option) \<Rightarrow> 's Server \<Rightarrow> 's Server \<Rightarrow> bool" where
  "server_steps wr \<equiv> (server_step wr)\<^sup>*\<^sup>*"

lemma server_steps_ok: "server_steps wr s s' \<Longrightarrow> server_ok s \<Longrightarrow> server_ok s' \<and> sv_config s' = sv_config s"
  by (induction rule: rtranclp_induct) (auto dest: server_step_ok)

lemma collector_New_ok: "collector_New config sink = Inr s \<Longrightarrow> server_ok s \<and> sv_config s = config"
  by (auto simp: collector_New_def collector_validate_def server_ok_def zero_stats_def dedupe_ok_init split: option.splits if_splits)
    (simp add: NewDedupe_def)

subsection \<open>Properties\<close>


text \<open>What a handler has written back, read by the client's decoder.\<close>

lemma WriteAck_whole:
  assumes "ack_ok a"
  shows "WriteAck [(24, None)] a = Some (ack_bytes a, None)"
proof -
  have len: "length (ack_bytes a) = 24" by (simp add: AckSize_def)
  then obtain b bs where "ack_bytes a = b # bs" by (cases "ack_bytes a") auto
  then show ?thesis using len assms by (simp add: WriteAck_def Ack_MarshalBinary_eq Let_def)
qed

lemma reply_status_valid: "AckStatus_Valid (reply_status duplicate err)"
  by (simp add: reply_status_def AckStatus_Valid_def StatusSinkError_def StatusDuplicate_def StatusAccepted_def)

definition frame_key :: "u64 \<Rightarrow> u64 \<Rightarrow> BatchKey" where
  "frame_key c b = \<lparr>bk_ClientID = c, bk_BatchID = b\<rparr>"

lemma handle_request_batch:
  assumes "Limits_Validate (co_Limits (sv_config s)) = None" "frame_ok (co_Limits (sv_config s)) c b nanos rs"
    "he_read_deadline e" "dedupe_Do (wr (he_sink e) rs) (frame_key c b) (sv_dedupe s) (sv_sink s) = Some (d, sink, duplicate, err)"
  shows "handle_request wr e \<lparr>rd_bytes = frame_bytes c b nanos rs @ rest, rd_end = en\<rparr> s =
    (let s1 = s\<lparr>sv_dedupe := d, sv_sink := sink, sv_stats := count_reply duplicate err (sv_stats s)\<rparr>;
         ack = \<lparr>ack_Status = reply_status duplicate err, ack_ClientID = c, ack_BatchID = b\<rparr>
     in if \<not> he_write_deadline e then Some (s1, \<lparr>rd_bytes = rest, rd_end = en\<rparr>, [], False)
        else case WriteAck (he_writer e) ack of
            None \<Rightarrow> None
          | Some (out, werr) \<Rightarrow> Some (s1, \<lparr>rd_bytes = rest, rd_end = en\<rparr>, out, werr = None \<and> err = None))"
  using assms ReadBatch_frame [OF assms(1,2)]
  by (simp add: handle_request_def batch_for_def batch_key_def header_for_def frame_key_def Let_def)

text \<open>A request whose deadlines can be set and whose answer is written at once.\<close>

definition smooth :: "'e \<Rightarrow> 'e handle_env" where
  "smooth e = \<lparr>he_read_deadline = True, he_sink = e, he_write_deadline = True, he_writer = [(24, None)]\<rparr>"

definition reply_bytes :: "AckStatus \<Rightarrow> u64 \<Rightarrow> u64 \<Rightarrow> bytes" where
  "reply_bytes st c b = ack_bytes \<lparr>ack_Status = st, ack_ClientID = c, ack_BatchID = b\<rparr>"

definition after_reply :: "'s \<Rightarrow> Dedupe \<Rightarrow> bool \<Rightarrow> sink_error option \<Rightarrow> 's Server \<Rightarrow> 's Server" where
  "after_reply sink d duplicate err s =
     s\<lparr>sv_dedupe := d, sv_sink := sink, sv_stats := count_reply duplicate err (sv_stats s)\<rparr>"

lemma handle_request_smooth:
  assumes "Limits_Validate (co_Limits (sv_config s)) = None" "frame_ok (co_Limits (sv_config s)) c b nanos rs"
    "dedupe_Do (wr e rs) (frame_key c b) (sv_dedupe s) (sv_sink s) = Some (d, sink, duplicate, err)"
  shows "handle_request wr (smooth e) \<lparr>rd_bytes = frame_bytes c b nanos rs @ rest, rd_end = en\<rparr> s =
    Some (after_reply sink d duplicate err s, \<lparr>rd_bytes = rest, rd_end = en\<rparr>,
      reply_bytes (reply_status duplicate err) c b, err = None)"
proof -
  have "ack_ok \<lparr>ack_Status = reply_status duplicate err, ack_ClientID = c, ack_BatchID = b\<rparr>"
    using assms(2) reply_status_valid by (simp add: ack_ok_def frame_ok_def)
  note ack = WriteAck_whole [OF this]
  show ?thesis
    by (subst handle_request_batch [OF assms(1,2), of "smooth e"],
        use assms(3) in \<open>simp_all add: smooth_def Let_def after_reply_def reply_bytes_def\<close>, subst ack, simp)
qed

lemma dedupe_Do_hit:
  "dd_completed d key = Some el \<Longrightarrow> dedupe_Do fn key d s = Some (d\<lparr>dd_lru := MoveToFront el (dd_lru d)\<rparr>, s, True, None)"
  by (simp add: dedupe_Do_def dedupe_begin_def)

lemma dedupe_Do_run:
  assumes "dedupe_ok d" "dd_pending d = Map.empty" "dd_completed d key = None" "fn s = Some (s1, err)"
  shows "\<exists>d1 el. dedupe_Do fn key d s = Some (d1, s1, False, err) \<and> dedupe_ok d1 \<and> dd_pending d1 = Map.empty \<and>
    dd_completed d1 key = Some el"
proof -
  let ?d0 = "d\<lparr>dd_pending := (dd_pending d)(key \<mapsto> dd_next d),
        dd_calls := (dd_calls d)(dd_next d \<mapsto> \<lparr>pc_done = False, pc_err = None\<rparr>), dd_next := Suc (dd_next d)\<rparr>"
  have b: "dedupe_begin key d = (?d0, Run (dd_next d))" using assms(2,3) by (simp add: dedupe_begin_def Let_def)
  have run: "dedupe_Do fn key d s = Some (dedupe_end key (dd_next d) err ?d0, s1, False, err)"
    using b assms(4) by (simp add: dedupe_Do_def)
  have "dd_completed (dedupe_end key (dd_next d) err ?d0) key = Some (dd_next ?d0)"
    using dedupe_begin_ok [OF assms(1) b] assms(3) by (intro dedupe_end_completed) auto
  with run dedupe_Do_ok [OF assms(1,2) run] show ?thesis by blast
qed

lemma dedupe_Do_other:
  assumes "dedupe_Do fn key d s = Some (d', s', duplicate, err)" "key \<noteq> k" "dd_completed d k = None"
  shows "dd_completed d' k = None"
proof -
  obtain d1 r where b: "dedupe_begin key d = (d1, r)" by fastforce
  then have "dd_completed d1 k = None" using assms(3) by (auto elim: dedupe_begin_cases)
  then show ?thesis
    using assms(1,2) b
    by (auto simp: dedupe_Do_def dedupe_end_eq evict_completed recorded_def split: do_start.splits option.splits)
qed

text \<open>
  How a frame is answered, on every branch: a batch that is remembered is answered Duplicate and
  the sink is not called; any other is written to the sink once and answered Accepted, or
  SinkError, after which the connection ends; each answer moves exactly its counter, the rest of the
  stream is left for the next request, and the batch is remembered afterwards.
\<close>

theorem request_answers:
  assumes "server_ok s" "frame_ok (co_Limits (sv_config s)) c b nanos rs" "wr e rs (sv_sink s) = Some (sink, err)"
  shows "\<exists>s1. handle_request wr (smooth e) \<lparr>rd_bytes = frame_bytes c b nanos rs @ rest, rd_end = en\<rparr> s =
      (if dd_completed (sv_dedupe s) (frame_key c b) \<noteq> None
       then Some (s1, \<lparr>rd_bytes = rest, rd_end = en\<rparr>, reply_bytes StatusDuplicate c b, True)
       else if err = None then Some (s1, \<lparr>rd_bytes = rest, rd_end = en\<rparr>, reply_bytes StatusAccepted c b, True)
       else Some (s1, \<lparr>rd_bytes = rest, rd_end = en\<rparr>, reply_bytes StatusSinkError c b, False)) \<and>
    sv_sink s1 = (if dd_completed (sv_dedupe s) (frame_key c b) \<noteq> None then sv_sink s else sink) \<and>
    sv_stats s1 = (if dd_completed (sv_dedupe s) (frame_key c b) \<noteq> None
       then (sv_stats s)\<lparr>st_DuplicateBatches := st_DuplicateBatches (sv_stats s) + 1\<rparr>
       else if err = None then (sv_stats s)\<lparr>st_AcceptedBatches := st_AcceptedBatches (sv_stats s) + 1\<rparr>
       else (sv_stats s)\<lparr>st_SinkErrors := st_SinkErrors (sv_stats s) + 1\<rparr>) \<and>
    dd_completed (sv_dedupe s1) (frame_key c b) \<noteq> None \<and> server_ok s1"
proof -
  have lim: "Limits_Validate (co_Limits (sv_config s)) = None" and ok: "dedupe_ok (sv_dedupe s)"
    and pend: "dd_pending (sv_dedupe s) = Map.empty"
    using assms(1) by (simp_all add: server_ok_def)
  obtain d sink' duplicate err' where d: "dedupe_Do (wr e rs) (frame_key c b) (sv_dedupe s) (sv_sink s) = Some (d, sink', duplicate, err')"
    and r: "if dd_completed (sv_dedupe s) (frame_key c b) \<noteq> None then duplicate \<and> err' = None \<and> sink' = sv_sink s
            else \<not> duplicate \<and> err' = err \<and> sink' = sink"
    and mem: "dd_completed d (frame_key c b) \<noteq> None"
  proof (cases "dd_completed (sv_dedupe s) (frame_key c b)")
    case None
    then show thesis using dedupe_Do_run [OF ok pend None, of "wr e rs"] assms(3) that by fastforce
  next
    case (Some el)
    then show thesis using dedupe_Do_hit [OF Some, of "wr e rs" "sv_sink s"] that by fastforce
  qed
  note h = handle_request_smooth [where wr = wr and e = e, OF lim assms(2) d, of rest en]
  have "server_ok (after_reply sink' d duplicate err' s)"
    using server_step_ok [OF step_request [OF h] assms(1)] by blast
  then show ?thesis
    unfolding h using r mem
    by (auto simp: after_reply_def reply_status_def count_reply_def split: if_splits)
qed


subsection \<open>Witnesses\<close>

definition demo_server :: "WriterSink Server" where
  "demo_server = \<lparr>sv_config = collector_DefaultConfig, sv_sink = NewWriter, sv_dedupe = NewDedupe 100000,
     sv_stats = zero_stats, sv_sema = 0, sv_cancelled = False, sv_listen = None, sv_active = {}\<rparr>"

lemma demo_server_new: "collector_New collector_DefaultConfig (Some NewWriter) = Inr demo_server"
  by (simp add: collector_New_def collector_validate_def collector_DefaultConfig_def demo_server_def Second_def
      Limits_Validate_def DefaultLimits_def)

lemma demo_server_ok [simp]: "server_ok demo_server"
  using collector_New_ok [OF demo_server_new] by blast

lemma demo_server_simps [simp]:
  "co_Limits (sv_config demo_server) = DefaultLimits" "sv_sink demo_server = NewWriter"
  "dd_completed (sv_dedupe demo_server) = Map.empty" "sv_stats demo_server = zero_stats" "sv_sema demo_server = 0"
  "co_MaxConnections (sv_config demo_server) = 256"
  by (simp_all add: demo_server_def collector_DefaultConfig_def NewDedupe_def)

lemma demo_frame_ok [simp]:
  "c \<noteq> 0 \<Longrightarrow> b \<noteq> 0 \<Longrightarrow> nanos \<noteq> 0 \<Longrightarrow> frame_ok DefaultLimits c b nanos [[x, y]]"
  by (simp add: frame_ok_def records_ok_def DefaultLimits_def)


definition good_write :: write_env where
  "good_write = \<lparr>we_script = [demo_step 2 None], we_nanos = 1\<rparr>"

definition torn_write :: write_env where
  "torn_write = \<lparr>we_script = [demo_step 1 (Some (IOError 5))], we_nanos = 1\<rparr>"

lemma good_write_out:
  "\<exists>sink. ws_WriteBatch good_write [[65, 66]] NewWriter = Some (sink, None) \<and> ws_out sink = [65, 66]"
  by (simp add: good_write_def demo_step_def sink_eval)

lemma torn_write_out:
  "\<exists>sink. ws_WriteBatch torn_write [[65, 66]] NewWriter = Some (sink, Some (IOError 5)) \<and> ws_out sink = [65] \<and>
     bc_active (ws_pending sink) \<and> (\<exists>sink2. ws_WriteBatch good_write [[67, 68]] sink = Some (sink2, Some ErrBatchChanged))"
  by (simp add: good_write_def torn_write_def demo_step_def sink_eval)

lemma request_answers_witness:
  "\<exists>s1. handle_request ws_WriteBatch (smooth good_write)
      \<lparr>rd_bytes = frame_bytes 7 1 5 [[65, 66]] @ [9], rd_end = EndEOF\<rparr> demo_server =
      Some (s1, \<lparr>rd_bytes = [9], rd_end = EndEOF\<rparr>, reply_bytes StatusAccepted 7 1, True) \<and>
    ws_out (sv_sink s1) = [65, 66]"
proof -
  obtain sink where "ws_WriteBatch good_write [[65, 66]] NewWriter = Some (sink, None)" "ws_out sink = [65, 66]"
    using good_write_out by blast
  with request_answers [of demo_server 7 1 5 "[[65, 66]]" ws_WriteBatch good_write sink None "[9]" EndEOF]
  show ?thesis by auto
qed


end
