(* ===== verification/Delivery.thy ===== *)
theory Delivery
  imports Collector
begin

text \<open>
  The client of \<^verbatim>\<open>internal/protocol/client.go\<close> and the collector of \<^verbatim>\<open>internal/collector/server.go\<close>
  connected by a network that may cut frames and answers anywhere, refuse connections and report
  writes wrongly. The answers the client's attempts get are computed from what the collector
  does with the bytes that reach it.
\<close>

subsection \<open>One attempt over the network\<close>

text \<open>
  What happens to an attempt: \<open>ft_sent\<close> bytes of the frame reach the collector, \<open>ft_write\<close> says whether
  the client's write reports success (bytes may be lost behind its back), \<open>ft_back\<close> bytes
  of the answer come back.
\<close>

record 'e fate =
  ft_ctx :: "nat option"
  ft_dial :: "nat option"
  ft_sent :: nat
  ft_write :: bool
  ft_req :: "'e handle_env"
  ft_back :: nat
  ft_wait :: "nat option"

definition link_env :: "'e fate \<Rightarrow> EncodedBatch \<Rightarrow> bytes \<Rightarrow> attempt_env" where
  "link_env f eb out = \<lparr>ae_ctx = ft_ctx f, ae_dial = ft_dial f, ae_deadline = None,
     ae_write = (if ft_write f then (EncodedBatch_Size eb, None)
                 else (min (int (ft_sent f)) (EncodedBatch_Size eb), Some (WriterError 0))),
     ae_arrived = take (ft_back f) out, ae_end = EndEOF, ae_wait = ft_wait f\<rparr>"

definition link_attempt :: "('e \<Rightarrow> bytes list \<Rightarrow> 's \<Rightarrow> ('s \<times> sink_error option) option) \<Rightarrow> 'e fate \<Rightarrow> EncodedBatch \<Rightarrow>
    Client \<Rightarrow> 's Server \<Rightarrow> (attempt_env \<times> 's Server) option" where
  "link_attempt wr f eb c srv =
     (if ft_ctx f \<noteq> None \<or> (cl_conn c = None \<and> ft_dial f \<noteq> None) then Some (link_env f eb [], srv)
      else (case handle_request wr (ft_req f) \<lparr>rd_bytes = take (ft_sent f) (concat (Buffers eb)), rd_end = EndEOF\<rparr> srv of
              None \<Rightarrow> None
            | Some (srv1, r, out, going) \<Rightarrow> Some (link_env f eb out, srv1)))"

text \<open>The attempts of one call of \<open>Send\<close>, as far as the client makes them: their answers, and the collector after them.\<close>

fun link_loop :: "('e \<Rightarrow> bytes list \<Rightarrow> 's \<Rightarrow> ('s \<times> sink_error option) option) \<Rightarrow> (nat \<Rightarrow> 'e fate) \<Rightarrow> EncodedBatch \<Rightarrow>
    nat \<Rightarrow> nat \<Rightarrow> Client \<Rightarrow> 's Server \<Rightarrow> (attempt_env list \<times> 's Server) option" where
  "link_loop wr fates eb 0 attempt c srv = Some ([], srv)"
| "link_loop wr fates eb (Suc left) attempt c srv =
     (case link_attempt wr (fates attempt) eb c srv of
        None \<Rightarrow> None
      | Some (env, srv1) \<Rightarrow>
          if ae_ctx env \<noteq> None then Some ([env], srv1)
          else (case attempt_once env eb c of
                  (c1, evs, Retry err) \<Rightarrow>
                    if left > 0 \<and> ae_wait env \<noteq> None then Some ([env], srv1)
                    else (case link_loop wr fates eb left (Suc attempt) c1 srv1 of
                            None \<Rightarrow> None
                          | Some (envs, srv2) \<Rightarrow> Some (env # envs, srv2))
                | (c1, evs, Delivered) \<Rightarrow> Some ([env], srv1)
                | (c1, evs, Fatal err) \<Rightarrow> Some ([env], srv1)))"

definition no_attempt :: attempt_env where
  "no_attempt = \<lparr>ae_ctx = Some 0, ae_dial = None, ae_deadline = None, ae_write = (0, None), ae_arrived = [], ae_end = EndEOF,
     ae_wait = None\<rparr>"

definition system_send :: "('e \<Rightarrow> bytes list \<Rightarrow> 's \<Rightarrow> ('s \<times> sink_error option) option) \<Rightarrow> (nat \<Rightarrow> 'e fate) \<Rightarrow>
    u64 option \<Rightarrow> bytes list \<Rightarrow> Client \<Rightarrow> 's Server \<Rightarrow> (Client \<times> 's Server \<times> client_error option) option" where
  "system_send wr fates now records c srv =
     (case (if cl_closed c then None else send_batch now records c) of
        None \<Rightarrow> (case Send (\<lambda>k. no_attempt) now records c of (c1, evs, res) \<Rightarrow> Some (c1, srv, res))
      | Some eb \<Rightarrow>
          (case link_loop wr fates eb (nat (cc_MaxAttempts (cl_config c))) 1 (send_start eb c) srv of
             None \<Rightarrow> None
           | Some (envs, srv1) \<Rightarrow> (case Send (\<lambda>k. envs ! (k - 1)) now records c of (c1, evs, res) \<Rightarrow> Some (c1, srv1, res))))"

text \<open>A history of calls; the log holds, for each call that reported success, the records of its batch.\<close>

fun system_run :: "('e \<Rightarrow> bytes list \<Rightarrow> 's \<Rightarrow> ('s \<times> sink_error option) option) \<Rightarrow>
    ((nat \<Rightarrow> 'e fate) \<times> u64 option \<times> bytes list) list \<Rightarrow> Client \<Rightarrow> 's Server \<Rightarrow> (Client \<times> 's Server \<times> bytes list list) option" where
  "system_run wr [] c srv = Some (c, srv, [])"
| "system_run wr ((fates, now, records) # ops) c srv =
     (case system_send wr fates now records c srv of
        None \<Rightarrow> None
      | Some (c1, srv1, res) \<Rightarrow>
          (case system_run wr ops c1 srv1 of
             None \<Rightarrow> None
           | Some (c2, srv2, log) \<Rightarrow>
               Some (c2, srv2, (if res = None then map eb_Records (case send_batch now records c of None \<Rightarrow> [] | Some eb \<Rightarrow> [eb]) else []) @ log)))"

text \<open>A sink that never fails: every write appends its records.\<close>

definition lossless :: "('e \<Rightarrow> bytes list \<Rightarrow> 's \<Rightarrow> ('s \<times> sink_error option) option) \<Rightarrow> ('s \<Rightarrow> bytes) \<Rightarrow> ('s \<Rightarrow> bool) \<Rightarrow> bool" where
  "lossless wr out ok \<longleftrightarrow> (\<forall>e rs s. ok s \<longrightarrow> (\<exists>s'. wr e rs s = Some (s', None) \<and> ok s' \<and> out s' = out s @ concat rs))"

subsection \<open>Cut answers\<close>

lemma ReadAck_cut:
  assumes "ack_ok a" "ReadAck \<lparr>rd_bytes = take m (ack_bytes a), rd_end = EndEOF\<rparr> = (res, left)"
  shows "(if m < 24 then \<exists>err. res = Inl err else res = Inr a \<and> rd_bytes left = [])"
proof (cases "m < 24")
  case True
  then show ?thesis using assms(2) by (auto simp: ReadAck_def ReadFull_def AckSize_def)
next
  case False
  then have "take m (ack_bytes a) = ack_bytes a @ []" by (simp add: AckSize_def)
  then show ?thesis using False assms(2) ReadAck_bytes [OF assms(1), of "[]" EndEOF] by simp
qed

lemma WriteAck_cut:
  assumes "WriteAck script a = Some (out, err)" "ack_ok a"
  shows "\<exists>m. out = take m (ack_bytes a)"
proof -
  obtain script1 n where "write_all script (ack_bytes a) [] 0 = Some (script1, out, n, err)"
    using assms by (auto simp: WriteAck_def Ack_MarshalBinary_eq split: option.splits)
  from write_all_spec [OF this] show ?thesis by auto
qed

subsection \<open>What the collector has of a batch\<close>

definition stored :: "('s \<Rightarrow> bytes) \<Rightarrow> BatchKey \<Rightarrow> bytes \<Rightarrow> bytes list \<Rightarrow> 's Server \<Rightarrow> bool" where
  "stored out key base rs srv \<longleftrightarrow>
     (dd_completed (sv_dedupe srv) key = None \<and> out (sv_sink srv) = base) \<or>
     (dd_completed (sv_dedupe srv) key \<noteq> None \<and> out (sv_sink srv) = base @ concat rs)"

definition same_other_keys :: "BatchKey \<Rightarrow> 's Server \<Rightarrow> 's Server \<Rightarrow> bool" where
  "same_other_keys key s s' \<longleftrightarrow> (\<forall>k. k \<noteq> key \<longrightarrow> dd_completed (sv_dedupe s) k = None \<longrightarrow> dd_completed (sv_dedupe s') k = None)"

text \<open>Only a reply for the batch itself, possibly cut, comes back, and only once the batch is stored.\<close>

definition answer_ok :: "u64 \<Rightarrow> u64 \<Rightarrow> bytes \<Rightarrow> 's Server \<Rightarrow> bool" where
  "answer_ok c b answer srv \<longleftrightarrow> answer = [] \<or>
     (dd_completed (sv_dedupe srv) (frame_key c b) \<noteq> None \<and>
      (\<exists>m st. answer = take m (reply_bytes st c b) \<and> st \<in> {StatusAccepted, StatusDuplicate}))"

lemma short_frame:
  assumes "Limits_Validate l = None" "frame_ok l c b nanos rs" "n < length (frame_bytes c b nanos rs)"
  shows "\<exists>err r. ReadBatch \<lparr>rd_bytes = take n (frame_bytes c b nanos rs), rd_end = EndEOF\<rparr> l = (Inl err, r)"
proof -
  have "fst (ReadBatch \<lparr>rd_bytes = take n (frame_bytes c b nanos rs), rd_end = EndEOF\<rparr> l) = Inl (if n = 0 then ProtoEOF else ErrTruncated)"
    by (rule short_frame_error [OF assms])
  then show ?thesis by (metis prod.collapse)
qed

lemma request_cut:
  assumes lossless: "lossless wr out ok" and ok: "server_ok srv" "ok (sv_sink srv)"
    and frame: "frame_ok (co_Limits (sv_config srv)) c b nanos rs" and st: "stored out (frame_key c b) base rs srv"
    and req: "handle_request wr e \<lparr>rd_bytes = take n (frame_bytes c b nanos rs), rd_end = EndEOF\<rparr> srv = Some (srv1, r, answer, going)"
  shows "ok (sv_sink srv1) \<and> stored out (frame_key c b) base rs srv1 \<and> same_other_keys (frame_key c b) srv srv1 \<and>
    answer_ok c b answer srv1"
proof -
  let ?l = "co_Limits (sv_config srv)" and ?k = "frame_key c b"
  have lim: "Limits_Validate ?l = None" and dok: "dedupe_ok (sv_dedupe srv)" "dd_pending (sv_dedupe srv) = Map.empty"
    using ok(1) by (simp_all add: server_ok_def)
  show ?thesis
  proof (cases "he_read_deadline e \<and> length (frame_bytes c b nanos rs) \<le> n")
    case False
    then have "sv_sink srv1 = sv_sink srv \<and> sv_dedupe srv1 = sv_dedupe srv \<and> answer = []"
      using req short_frame [OF lim frame, of n] by (auto simp: handle_request_def not_le split: if_splits)
    then show ?thesis using ok(2) st by (simp add: stored_def same_other_keys_def answer_ok_def)
  next
    case True
    then have whole: "take n (frame_bytes c b nanos rs) = frame_bytes c b nanos rs @ []" by simp
    obtain d sink dup where d: "dedupe_Do (wr (he_sink e) rs) ?k (sv_dedupe srv) (sv_sink srv) = Some (d, sink, dup, None)"
      and r: "ok sink" "dd_completed d ?k \<noteq> None" "out sink = base @ concat rs"
    proof (cases "dd_completed (sv_dedupe srv) ?k")
      case None
      obtain sink where "wr (he_sink e) rs (sv_sink srv) = Some (sink, None)" "ok sink" "out sink = out (sv_sink srv) @ concat rs"
        using lossless ok(2) unfolding lossless_def by blast
      then show thesis
        using dedupe_Do_run [OF dok None, of "wr (he_sink e) rs"] None st that unfolding stored_def by force
    next
      case (Some el)
      then show thesis
        using dedupe_Do_hit [OF Some, of "wr (he_sink e) rs" "sv_sink srv"] ok(2) st that unfolding stored_def by force
    qed
    let ?ack = "\<lparr>ack_Status = reply_status dup None, ack_ClientID = c, ack_BatchID = b\<rparr>"
    let ?s1 = "srv\<lparr>sv_dedupe := d, sv_sink := sink, sv_stats := count_reply dup None (sv_stats srv)\<rparr>"
    note hb = handle_request_batch [where rest = "[]" and wr = wr and e = e, OF lim frame _ d, of EndEOF]
    have post: "srv1 = ?s1" "answer = [] \<or> (\<exists>err. WriteAck (he_writer e) ?ack = Some (answer, err))"
      using req hb True unfolding whole by (auto simp: Let_def split: if_splits option.splits)
    have "ack_ok ?ack" using frame reply_status_valid by (simp add: ack_ok_def frame_ok_def)
    then have "answer = [] \<or> (\<exists>m. answer = take m (reply_bytes (reply_status dup None) c b))"
      using post(2) WriteAck_cut unfolding reply_bytes_def by blast
    moreover have "reply_status dup None \<in> {StatusAccepted, StatusDuplicate}" by (simp add: reply_status_def)
    moreover have "same_other_keys ?k srv ?s1"
      using dedupe_Do_other [OF d] by (simp add: same_other_keys_def)
    ultimately show ?thesis using r unfolding post(1) answer_ok_def stored_def by auto
  qed
qed

subsection \<open>One attempt, one call\<close>

definition conn_ok :: "Client \<Rightarrow> bool" where
  "conn_ok c \<longleftrightarrow> cl_conn c = None \<or> cl_conn c = Some []"

text \<open>What stays true of client, collector and output during a call for the batch \<open>eb\<close>.\<close>

definition call_ok :: "('s \<Rightarrow> bytes) \<Rightarrow> ('s \<Rightarrow> bool) \<Rightarrow> u64 \<Rightarrow> u64 \<Rightarrow> u64 \<Rightarrow> bytes list \<Rightarrow> bytes \<Rightarrow> Client \<Rightarrow> 's Server \<Rightarrow> bool" where
  "call_ok out ok cid b nanos rs base c srv \<longleftrightarrow> server_ok srv \<and> ok (sv_sink srv) \<and>
     frame_ok (co_Limits (sv_config srv)) cid b nanos rs \<and> stored out (frame_key cid b) base rs srv \<and> conn_ok c"

lemma exchange_cut:
  assumes "exchange (link_env f (encoded_for cid b nanos rs) answer) (encoded_for cid b nanos rs) c = (c1, evs, res)"
    "cl_conn c = Some []" "answer_ok cid b answer srv" "cid \<noteq> 0" "b \<noteq> 0"
  shows "(res = None \<longrightarrow> cl_conn c1 = Some [] \<and> dd_completed (sv_dedupe srv) (frame_key cid b) \<noteq> None) \<and>
    res \<noteq> Some (RemoteError StatusInvalid)"
proof (cases "ft_write f")
  case False
  then show ?thesis
    using assms(1) by (auto simp: exchange_def link_env_def WriteVectoredTo_def)
next
  case True
  let ?eb = "encoded_for cid b nanos rs"
  obtain got left where rd: "ReadAck \<lparr>rd_bytes = take (ft_back f) answer, rd_end = EndEOF\<rparr> = (got, left)" by fastforce
  have ex: "exchange (link_env f ?eb answer) ?eb c =
      (case got of Inl err \<Rightarrow> (c\<lparr>cl_conn := Some (rd_bytes left)\<rparr>, [Wrote (take (nat (EncodedBatch_Size ?eb)) (concat (Buffers ?eb))) (EncodedBatch_Size ?eb)], Some (AckError err))
       | Inr ack \<Rightarrow> exchange (link_env f ?eb answer) ?eb c)"
    using True assms(2) rd by (auto simp: exchange_def link_env_def WriteVectoredTo_def split: sum.splits)
  show ?thesis
  proof (cases got)
    case (Inl err)
    then show ?thesis using ex assms(1) by simp
  next
    case (Inr ack)
    have "answer \<noteq> []" using rd Inr by (auto simp: ReadAck_def ReadFull_def AckSize_def)
    then obtain m st where a: "answer = take m (reply_bytes st cid b)" "st \<in> {StatusAccepted, StatusDuplicate}"
      and mem: "dd_completed (sv_dedupe srv) (frame_key cid b) \<noteq> None"
      using assms(3) unfolding answer_ok_def by blast
    let ?a = "\<lparr>ack_Status = st, ack_ClientID = cid, ack_BatchID = b\<rparr>"
    have ok: "ack_ok ?a"
      using a(2) assms(4,5) by (auto simp: ack_ok_def AckStatus_Valid_def StatusSinkError_def StatusAccepted_def StatusDuplicate_def)
    have "take (ft_back f) answer = take (min (ft_back f) m) (ack_bytes ?a)" by (simp add: a(1) reply_bytes_def)
    then have "ack = ?a" "rd_bytes left = []"
      using ReadAck_cut [OF ok, of "min (ft_back f) m" got left] rd Inr by (auto split: if_splits)
    then show ?thesis
      using assms(1,2) True rd Inr a(2) mem by (auto simp: exchange_def link_env_def WriteVectoredTo_def StatusInvalid_def
        StatusAccepted_def StatusDuplicate_def split: if_splits)
  qed
qed

lemma attempt_cut:
  assumes lossless: "lossless wr out ok" and ok: "call_ok out ok cid b nanos rs base c srv"
    and link: "link_attempt wr f (encoded_for cid b nanos rs) c srv = Some (env, srv1)" and ctx: "ae_ctx env = None"
    and att: "attempt_once env (encoded_for cid b nanos rs) c = (c1, evs, outcome)"
  shows "call_ok out ok cid b nanos rs base c1 srv1 \<and> same_other_keys (frame_key cid b) srv srv1 \<and> sv_config srv1 = sv_config srv \<and>
    (outcome = Delivered \<longrightarrow> dd_completed (sv_dedupe srv1) (frame_key cid b) \<noteq> None) \<and> (\<forall>err. outcome \<noteq> Fatal err)"
proof -
  let ?eb = "encoded_for cid b nanos rs"
  have nz: "cid \<noteq> 0" "b \<noteq> 0" using ok by (auto simp: call_ok_def frame_ok_def)
  have c1: "case outcome of Delivered \<Rightarrow> (\<exists>k. c1 = c\<lparr>cl_conn := k, cl_pending := None\<rparr>)
     | Fatal err \<Rightarrow> err = RemoteError StatusInvalid | Retry err \<Rightarrow> cl_conn c1 = None"
    using attempt_once_cases [OF att] by (auto split: attempt_outcome.splits)
  show ?thesis
  proof (cases "cl_conn c = None \<and> ft_dial f \<noteq> None")
    case True
    then have "srv1 = srv" "ae_dial env \<noteq> None" using link by (auto simp: link_attempt_def link_env_def)
    then have "outcome \<noteq> Delivered \<and> (\<forall>err. outcome \<noteq> Fatal err)"
      using att True by (auto simp: attempt_once_def ensureConnection_def)
    then show ?thesis using ok c1 \<open>srv1 = srv\<close>
      by (auto simp: call_ok_def conn_ok_def same_other_keys_def split: attempt_outcome.splits)
  next
    case False
    have "ft_ctx f = None" using link ctx by (auto simp: link_attempt_def link_env_def split: if_splits option.splits)
    then obtain r answer going where req: "handle_request wr (ft_req f)
        \<lparr>rd_bytes = take (ft_sent f) (frame_bytes cid b nanos rs), rd_end = EndEOF\<rparr> srv = Some (srv1, r, answer, going)"
      and env: "env = link_env f ?eb answer"
      using link False by (auto simp: link_attempt_def Buffers_concat split: option.splits)
    have s1: "ok (sv_sink srv1)" "stored out (frame_key cid b) base rs srv1" "same_other_keys (frame_key cid b) srv srv1"
      "answer_ok cid b answer srv1"
      using request_cut [OF lossless _ _ _ _ req] ok unfolding call_ok_def by blast+
    have s2: "server_ok srv1" "sv_config srv1 = sv_config srv"
      using server_step_ok [OF step_request [OF req]] ok unfolding call_ok_def by blast+
    let ?c = "c\<lparr>cl_conn := Some []\<rparr>"
    obtain ev1 where en: "ensureConnection env c = (?c, ev1, None)"
      using ok False env by (auto simp: ensureConnection_def call_ok_def conn_ok_def link_env_def)
    obtain c2 ev2 res where ex: "exchange env ?eb ?c = (c2, ev2, res)" by (metis prod_cases3)
    have cut: "res = None \<longrightarrow> cl_conn c2 = Some [] \<and> dd_completed (sv_dedupe srv1) (frame_key cid b) \<noteq> None"
      "res \<noteq> Some (RemoteError StatusInvalid)"
      using exchange_cut [OF ex [unfolded env] _ s1(4) nz] by simp_all
    show ?thesis
    proof (cases res)
      case None
      then have "outcome = Delivered" "c1 = c2\<lparr>cl_pending := None\<rparr>" using att en ex by (auto simp: attempt_once_def)
      then show ?thesis using cut(1) None s1 s2 ok by (auto simp: call_ok_def conn_ok_def)
    next
      case (Some err)
      then have "outcome = Retry err" using att en ex cut(2) by (auto simp: attempt_once_def split: prod.splits)
      then show ?thesis using c1 s1 s2 ok by (auto simp: call_ok_def conn_ok_def)
    qed
  qed
qed

lemma same_other_keys_trans: "same_other_keys k s1 s2 \<Longrightarrow> same_other_keys k s2 s3 \<Longrightarrow> same_other_keys k s1 s3"
  by (auto simp: same_other_keys_def)

lemma link_loop_spec:
  assumes lossless: "lossless wr out ok" and ok: "call_ok out ok cid b nanos rs base c srv"
    and link: "link_loop wr fates (encoded_for cid b nanos rs) left attempt c srv = Some (envs, srv1)"
    and env: "\<forall>i<length envs. env (attempt + i) = envs ! i"
    and loop: "send_loop env (encoded_for cid b nanos rs) left attempt backoff lastErr c = (c1, evs, res)"
  shows "call_ok out ok cid b nanos rs base c1 srv1 \<and> same_other_keys (frame_key cid b) srv srv1 \<and> sv_config srv1 = sv_config srv \<and>
    (res = None \<longrightarrow> dd_completed (sv_dedupe srv1) (frame_key cid b) \<noteq> None)"
  using ok link env loop
proof (induction left arbitrary: attempt backoff lastErr c srv envs evs)
  case 0
  then show ?case by (auto simp: same_other_keys_def)
next
  case (Suc left)
  let ?eb = "encoded_for cid b nanos rs"
  obtain e srv2 where la: "link_attempt wr (fates attempt) ?eb c srv = Some (e, srv2)"
    using Suc.prems(2) by (auto split: option.splits)
  have hd: "env attempt = e"
  proof -
    have "envs \<noteq> [] \<and> envs ! 0 = e"
      using Suc.prems(2) la by (auto split: option.splits prod.splits attempt_outcome.splits if_splits)
    then show ?thesis using Suc.prems(3) by (metis add_0_right length_greater_0_conv)
  qed
  show ?case
  proof (cases "ae_ctx e")
    case (Some k)
    then have "srv1 = srv2" "res \<noteq> None" "c1 = c" using Suc.prems(2,4) la hd by auto
    moreover have "srv2 = srv" using la Some by (auto simp: link_attempt_def link_env_def split: if_splits option.splits)
    ultimately show ?thesis using Suc.prems(1) by (auto simp: same_other_keys_def)
  next
    case None
    obtain c2 ev out1 where at: "attempt_once e ?eb c = (c2, ev, out1)" by (metis prod_cases3)
    note cut = attempt_cut [OF lossless Suc.prems(1) la None at]
    show ?thesis
    proof (cases out1)
      case Delivered
      then show ?thesis using Suc.prems(2,4) la hd None at cut by auto
    next
      case (Fatal err)
      then show ?thesis using cut by blast
    next
      case (Retry err)
      show ?thesis
      proof (cases "left > 0 \<and> ae_wait e \<noteq> None")
        case True
        then show ?thesis using Suc.prems(2,4) la hd None at Retry cut by (auto simp: Let_def)
      next
        case False
        then obtain envs2 where rest: "link_loop wr fates ?eb left (Suc attempt) c2 srv2 = Some (envs2, srv1)" "envs = e # envs2"
          using Suc.prems(2) la None at Retry by (auto split: option.splits)
        obtain bo evs2 where sl: "send_loop env ?eb left (Suc attempt) bo (Some err) c2 = (c1, evs2, res)"
          using Suc.prems(4) hd None at Retry False by (cases "left > 0") (auto simp: Let_def log_events_eq)
        have "\<forall>i<length envs2. env (Suc attempt + i) = envs2 ! i"
          using Suc.prems(3) rest(2) by (metis Suc_less_eq add_Suc_shift length_Cons nth_Cons_Suc)
        from Suc.IH [OF _ rest(1) this sl] cut show ?thesis
          by (auto dest: same_other_keys_trans)
      qed
    qed
  qed
qed

subsection \<open>The system between calls\<close>

text \<open>\<open>base\<close> is what the acknowledged batches amount to.\<close>

definition system_ok :: "('s \<Rightarrow> bytes) \<Rightarrow> ('s \<Rightarrow> bool) \<Rightarrow> bytes \<Rightarrow> Client \<Rightarrow> 's Server \<Rightarrow> bool" where
  "system_ok out ok base c srv \<longleftrightarrow> client_inv c \<and> server_ok srv \<and> ok (sv_sink srv) \<and> conn_ok c \<and>
     co_Limits (sv_config srv) = cc_Limits (cl_config c) \<and>
     (\<forall>k. dd_completed (sv_dedupe srv) k \<noteq> None \<longrightarrow>
        (\<exists>b. k = frame_key (cc_ClientID (cl_config c)) b \<and> unat b \<le> unat (cl_batchID c))) \<and>
     (case cl_pending c of
        None \<Rightarrow> out (sv_sink srv) = base
      | Some eb \<Rightarrow> stored out (frame_key (cc_ClientID (cl_config c)) (cl_batchID c)) base (eb_Records eb) srv)"

lemma system_ok_call:
  assumes ok: "system_ok out ok base c srv" and len: "go_len records" "\<forall>r\<in>set records. go_len r"
    and few: "unat (cl_batchID c) < 2 ^ 64 - 1" and batch: "send_batch now records c = Some eb"
  obtains nanos where "eb = encoded_for (cc_ClientID (cl_config c)) (cl_batchID (send_start eb c)) nanos (eb_Records eb)"
    "call_ok out ok (cc_ClientID (cl_config c)) (cl_batchID (send_start eb c)) nanos (eb_Records eb) base (send_start eb c) srv"
    "unat (cl_batchID (send_start eb c)) \<le> Suc (unat (cl_batchID c))" "unat (cl_batchID c) \<le> unat (cl_batchID (send_start eb c))"
proof -
  let ?cid = "cc_ClientID (cl_config c)" and ?c = "send_start eb c"
  have inv: "client_inv ?c" using send_batch_encoded [OF _ len batch] ok by (simp add: system_ok_def)
  have p: "cl_pending ?c = Some eb" "cl_config ?c = cl_config c" by (simp_all add: send_start_def)
  from inv [unfolded client_inv_def p(2)] p(1)
  obtain nanos rs where eb: "eb = encoded_for ?cid (cl_batchID ?c) nanos rs"
    "frame_ok (cc_Limits (cl_config c)) ?cid (cl_batchID ?c) nanos rs" by blast
  have "eb_Records (encoded_for ?cid (cl_batchID ?c) nanos rs) = rs" by (simp add: encoded_for_def)
  then have rs: "eb_Records eb = rs" unfolding eb(1) [symmetric] .
  have bump: "unat (next_batchID (cl_batchID c)) = Suc (unat (cl_batchID c))" by (rule next_batchID_Suc [OF few])
  have st: "stored out (frame_key ?cid (cl_batchID ?c)) base rs srv"
  proof (cases "cl_pending c")
    case None
    have "dd_completed (sv_dedupe srv) (frame_key ?cid (next_batchID (cl_batchID c))) = None"
    proof (rule ccontr)
      assume "dd_completed (sv_dedupe srv) (frame_key ?cid (next_batchID (cl_batchID c))) \<noteq> None"
      then obtain b where "frame_key ?cid (next_batchID (cl_batchID c)) = frame_key ?cid b" "unat b \<le> unat (cl_batchID c)"
        using ok unfolding system_ok_def by blast
      then show False using bump by (simp add: frame_key_def)
    qed
    then show ?thesis using ok None by (simp add: system_ok_def send_start_def stored_def)
  next
    case (Some e)
    then have "e = eb" using batch by (simp add: send_batch_def split: if_splits)
    then show ?thesis using ok Some rs by (simp add: system_ok_def send_start_def)
  qed
  have call: "call_ok out ok ?cid (cl_batchID ?c) nanos rs base ?c srv"
    using ok eb(2) st by (simp add: call_ok_def system_ok_def conn_ok_def) (simp add: send_start_def)
  show thesis
  proof (rule that [of nanos])
    show "eb = encoded_for ?cid (cl_batchID ?c) nanos (eb_Records eb)" unfolding rs by (rule eb(1))
    show "call_ok out ok ?cid (cl_batchID ?c) nanos (eb_Records eb) base ?c srv" unfolding rs by (rule call)
  qed (use bump in \<open>simp_all add: send_start_def\<close>)
qed

lemma system_send_spec:
  assumes lossless: "lossless wr out ok" and ok: "system_ok out ok base c srv" and len: "go_len records" "\<forall>r\<in>set records. go_len r"
    and few: "unat (cl_batchID c) < 2 ^ 64 - 1" and send: "system_send wr fates now records c srv = Some (c1, srv1, res)"
  shows "unat (cl_batchID c1) \<le> Suc (unat (cl_batchID c)) \<and>
    system_ok out ok (base @ (if res = None then concat (concat (map eb_Records (case send_batch now records c of None \<Rightarrow> [] | Some eb \<Rightarrow> [eb]))) else [])) c1 srv1"
proof (cases "cl_closed c \<or> send_batch now records c = None")
  case True
  then have "(if cl_closed c then None else send_batch now records c) = None" by auto
  then obtain evs where s: "Send (\<lambda>k. no_attempt) now records c = (c1, evs, res)" "srv1 = srv"
    using send by (auto simp: system_send_def split: prod.splits)
  note ref = Send_refused [OF True s(1)]
  have inv: "client_inv c1" using Send_inv [OF _ len s(1)] ok by (simp add: system_ok_def)
  have bump: "unat (next_batchID (cl_batchID c)) = Suc (unat (cl_batchID c))" by (rule next_batchID_Suc [OF few])
  have "system_ok out ok base c1 srv"
    using ok inv ref bump unfolding system_ok_def conn_ok_def
    by (auto split: if_splits option.splits) (metis le_SucI)+
  then show ?thesis using ref s(2) bump by (auto split: if_splits)
next
  case False
  then obtain eb where batch: "send_batch now records c = Some eb" by blast
  let ?cid = "cc_ClientID (cl_config c)" and ?s = "send_start eb c"
  obtain nanos where eb: "eb = encoded_for ?cid (cl_batchID ?s) nanos (eb_Records eb)"
    and call: "call_ok out ok ?cid (cl_batchID ?s) nanos (eb_Records eb) base ?s srv"
    and up: "unat (cl_batchID ?s) \<le> Suc (unat (cl_batchID c))" "unat (cl_batchID c) \<le> unat (cl_batchID ?s)"
    using system_ok_call [OF ok len few batch] by blast
  obtain envs evs where ll: "link_loop wr fates eb (nat (cc_MaxAttempts (cl_config c))) 1 ?s srv = Some (envs, srv1)"
    and s: "Send (\<lambda>k. envs ! (k - 1)) now records c = (c1, evs, res)"
    using send False batch by (auto simp: system_send_def split: option.splits prod.splits)
  have loop: "send_loop (\<lambda>k. envs ! (k - 1)) eb (nat (cc_MaxAttempts (cl_config c))) 1 (cc_RetryInitial (cl_config c)) None ?s = (c1, evs, res)"
    using Send_started [OF _ batch, of "\<lambda>k. envs ! (k - 1)"] False s by simp
  note spec = link_loop_spec [OF lossless call, folded eb, OF ll _ loop]
  have after: "call_ok out ok ?cid (cl_batchID ?s) nanos (eb_Records eb) base c1 srv1"
    "same_other_keys (frame_key ?cid (cl_batchID ?s)) srv srv1" "sv_config srv1 = sv_config srv"
    "res = None \<longrightarrow> dd_completed (sv_dedupe srv1) (frame_key ?cid (cl_batchID ?s)) \<noteq> None"
    using spec by simp_all
  obtain k where k: "if res = None then c1 = ?s\<lparr>cl_conn := k, cl_pending := None\<rparr> else c1 = ?s\<lparr>cl_conn := k\<rparr>"
    using send_loop_spec [OF loop] by (cases res) auto
  then have c1: "cl_config c1 = cl_config c" "cl_batchID c1 = cl_batchID ?s" "cl_pending c1 = (if res = None then None else Some eb)"
    by (auto simp: send_start_def split: if_splits)
  have inv: "client_inv c1" using Send_inv [OF _ len s] ok by (simp add: system_ok_def)
  have keys: "\<exists>b. k = frame_key ?cid b \<and> unat b \<le> unat (cl_batchID ?s)" if mem: "dd_completed (sv_dedupe srv1) k \<noteq> None" for k
  proof (cases "k = frame_key ?cid (cl_batchID ?s)")
    case False
    then have "dd_completed (sv_dedupe srv) k \<noteq> None" using after(2) mem unfolding same_other_keys_def by metis
    then obtain b where "k = frame_key ?cid b" "unat b \<le> unat (cl_batchID c)" using ok unfolding system_ok_def by blast
    then show ?thesis using up(2) le_trans by blast
  qed blast
  have "system_ok out ok (base @ (if res = None then concat (eb_Records eb) else [])) c1 srv1"
    using ok inv after keys c1 unfolding system_ok_def call_ok_def stored_def by auto
  then show ?thesis using up(1) c1(2) batch by (cases res) simp_all
qed

lemma system_run_spec:
  assumes "lossless wr out ok" "system_ok out ok base c srv" "unat (cl_batchID c) + length ops < 2 ^ 64"
    "\<forall>(fates, now, records)\<in>set ops. go_len records \<and> (\<forall>r\<in>set records. go_len r)"
    "system_run wr ops c srv = Some (c1, srv1, log)"
  shows "system_ok out ok (base @ concat (concat log)) c1 srv1"
  using assms
proof (induction ops arbitrary: base c srv log)
  case (Cons op ops)
  obtain fates now records where op: "op = (fates, now, records)" by (metis prod_cases3)
  obtain c2 srv2 res where s: "system_send wr fates now records c srv = Some (c2, srv2, res)"
    using Cons.prems(5) op by (auto split: option.splits)
  obtain log2 where r: "system_run wr ops c2 srv2 = Some (c1, srv1, log2)"
    and log: "log = (if res = None then map eb_Records (case send_batch now records c of None \<Rightarrow> [] | Some eb \<Rightarrow> [eb]) else []) @ log2"
    using Cons.prems(5) op s by (auto split: option.splits)
  have step: "unat (cl_batchID c2) \<le> Suc (unat (cl_batchID c))"
    "system_ok out ok (base @ (if res = None then concat (concat (map eb_Records (case send_batch now records c of None \<Rightarrow> [] | Some eb \<Rightarrow> [eb]))) else [])) c2 srv2"
    using system_send_spec [OF Cons.prems(1,2) _ _ _ s] Cons.prems(3,4) op by auto
  from Cons.IH [OF Cons.prems(1) step(2) _ _ r] step(1) Cons.prems(3,4) show ?case
    by (cases "res = None") (auto simp: log)
qed simp

subsection \<open>Properties\<close>



text \<open>A lost acknowledgement, and the retry that is answered Duplicate.\<close>

definition append_sink :: "unit \<Rightarrow> bytes list \<Rightarrow> bytes \<Rightarrow> (bytes \<times> sink_error option) option" where
  "append_sink e rs s = Some (s @ concat rs, None)"

definition lost_ack :: "nat \<Rightarrow> unit fate" where
  "lost_ack k = \<lparr>ft_ctx = None, ft_dial = None, ft_sent = 59, ft_write = True, ft_req = smooth (),
     ft_back = (if k = 1 then 0 else 24), ft_wait = None\<rparr>"

definition plain_server :: "bytes Server" where
  "plain_server = \<lparr>sv_config = collector_DefaultConfig, sv_sink = [], sv_dedupe = NewDedupe 100000,
     sv_stats = zero_stats, sv_sema = 0, sv_cancelled = False, sv_listen = None, sv_active = {}\<rparr>"

lemma plain_server_new: "collector_New collector_DefaultConfig (Some []) = Inr plain_server"
  by (simp add: collector_New_def collector_validate_def collector_DefaultConfig_def plain_server_def Second_def
      Limits_Validate_def DefaultLimits_def)

lemma append_sink_lossless: "lossless append_sink (\<lambda>s. s) (\<lambda>s. True)"
  by (simp add: lossless_def append_sink_def)

lemma example_frame:
  "take 59 (concat (Buffers example_batch)) = frame_bytes 7 1 5 [[65, 66], [67]] @ []"
  "frame_ok DefaultLimits 7 1 5 [[65, 66], [67]]"
proof -
  have "length (frame_bytes 7 1 5 [[65, 66], [67]]) = 59" by (simp add: frame_bytes_def BatchHeaderSize_def)
  then show "take 59 (concat (Buffers example_batch)) = frame_bytes 7 1 5 [[65, 66], [67]] @ []"
    by (simp add: Buffers_concat)
qed (simp add: frame_ok_def records_ok_def DefaultLimits_def)

lemma lost_attempt:
  assumes "cl_conn c = None"
  shows "attempt_once (link_env (lost_ack 1) example_batch answer) example_batch c =
    (c\<lparr>cl_conn := None\<rparr>, [Dialled, Wrote (take 59 (concat (Buffers example_batch))) 59, Dropped_conn], Retry (AckError ErrTruncated))"
  using assms
  by (simp add: attempt_once_def ensureConnection_def exchange_def link_env_def lost_ack_def WriteVectoredTo_def
      dropConnection_def ReadAck_def ReadFull_def AckSize_def example_size del: concat.simps)

lemma second_attempt:
  assumes "cl_conn c = None"
  shows "\<exists>c1 evs. attempt_once (link_env (lost_ack 2) example_batch (reply_bytes StatusDuplicate 7 1)) example_batch c = (c1, evs, Delivered)"
proof -
  have ids: "EncodedBatch_ClientID example_batch = 7" "EncodedBatch_BatchID example_batch = 1"
    by (simp_all add: encoded_for_def EncodedBatch_ClientID_def EncodedBatch_BatchID_def header_for_def)
  have "take 24 (reply_bytes StatusDuplicate 7 1) = reply_bytes StatusDuplicate 7 1"
    by (simp add: reply_bytes_def AckSize_def)
  then have "healthy (link_env (lost_ack 2) example_batch (reply_bytes StatusDuplicate 7 1)) example_batch"
    unfolding healthy_def link_env_def lost_ack_def
    by (auto simp: ids reply_bytes_def ack_ok_def AckStatus_Valid_def StatusSinkError_def StatusDuplicate_def
        intro!: exI [of _ "\<lparr>ack_Status = 1, ack_ClientID = 7, ack_BatchID = 1\<rparr>"] exI [of _ "[]"])
  then show ?thesis by (rule healthy_attempt) (simp add: assms)
qed

lemma link_loop_retry:
  assumes "link_attempt wr (fates attempt) eb c srv = Some (env, srv1)" "ae_ctx env = None"
    "attempt_once env eb c = (c1, evs, Retry err)" "ae_wait env = None"
    "link_loop wr fates eb left (Suc attempt) c1 srv1 = Some (envs, srv2)"
  shows "link_loop wr fates eb (Suc left) attempt c srv = Some (env # envs, srv2)"
  using assms by simp

lemma link_loop_done:
  assumes "link_attempt wr (fates attempt) eb c srv = Some (env, srv1)" "ae_ctx env = None"
    "attempt_once env eb c = (c1, evs, Delivered)"
  shows "link_loop wr fates eb (Suc left) attempt c srv = Some ([env], srv1)"
  using assms by simp

lemma lost_ack_run:
  "\<exists>c' srv' res. system_send append_sink lost_ack (Some 5) [[65, 66], [67]] example_client plain_server = Some (c', srv', res)"
proof -
  let ?s = "send_start example_batch example_client" and ?k = "frame_key 7 1" and ?rs = "[[65, 66], [67 :: u8]]"
  have lim: "Limits_Validate (co_Limits (sv_config plain_server)) = None"
    "frame_ok (co_Limits (sv_config plain_server)) 7 1 5 ?rs"
    using example_frame(2) by (simp_all add: plain_server_def collector_DefaultConfig_def Limits_Validate_def DefaultLimits_def)
  obtain d1 el where d1: "dedupe_Do (append_sink () ?rs) ?k (sv_dedupe plain_server) (sv_sink plain_server) = Some (d1, concat ?rs, False, None)"
    "dd_completed d1 ?k = Some el"
    using dedupe_Do_run [of "sv_dedupe plain_server" ?k "append_sink () ?rs" "sv_sink plain_server" "concat ?rs" None]
    by (auto simp: plain_server_def dedupe_ok_init append_sink_def) (auto simp: NewDedupe_def)
  let ?s1 = "after_reply (concat ?rs) d1 False None plain_server"
  note h1 = handle_request_smooth [where wr = append_sink and e = "()", OF lim d1(1), of "[]" EndEOF, folded example_frame(1)]
  have lim1: "Limits_Validate (co_Limits (sv_config ?s1)) = None" "frame_ok (co_Limits (sv_config ?s1)) 7 1 5 ?rs"
    using lim by (simp_all add: after_reply_def)
  have d2: "dedupe_Do (append_sink () ?rs) ?k (sv_dedupe ?s1) (sv_sink ?s1) = Some (d1\<lparr>dd_lru := MoveToFront el (dd_lru d1)\<rparr>, concat ?rs, True, None)"
    by (simp add: after_reply_def dedupe_Do_hit [OF d1(2)])
  note h2 = handle_request_smooth [where wr = append_sink and e = "()", OF lim1 d2, of "[]" EndEOF, folded example_frame(1)]
  have conn: "cl_conn ?s = None" by (rule example_open)
  have l1: "link_attempt append_sink (lost_ack 1) example_batch ?s plain_server =
      Some (link_env (lost_ack 1) example_batch (reply_bytes (reply_status False None) 7 1), ?s1)"
    unfolding link_attempt_def using h1 by (simp add: lost_ack_def del: concat.simps)
  have l2: "link_attempt append_sink (lost_ack 2) example_batch (?s\<lparr>cl_conn := None\<rparr>) ?s1 =
      Some (link_env (lost_ack 2) example_batch (reply_bytes (reply_status True None) 7 1),
        after_reply (concat ?rs) (d1\<lparr>dd_lru := MoveToFront el (dd_lru d1)\<rparr>) True None ?s1)"
    unfolding link_attempt_def using h2 by (simp add: lost_ack_def del: concat.simps)
  obtain c2 ev2 where a2: "attempt_once (link_env (lost_ack 2) example_batch (reply_bytes StatusDuplicate 7 1)) example_batch
      (?s\<lparr>cl_conn := None\<rparr>) = (c2, ev2, Delivered)"
    using second_attempt [of "?s\<lparr>cl_conn := None\<rparr>"] by auto
  have c: "ae_ctx (link_env (lost_ack k) eb answer) = None" "ae_wait (link_env (lost_ack k) eb answer) = None" for k eb answer
    by (simp_all add: link_env_def lost_ack_def)
  have "reply_status True None = StatusDuplicate" by (simp add: reply_status_def)
  note done2 = link_loop_done [where fates = lost_ack and left = 1 and attempt = 2, OF l2 c(1) a2 [folded this]]
  have "Suc 1 = (2 :: nat)" by simp
  note both = link_loop_retry [where fates = lost_ack and left = 2 and attempt = 1, OF l1 c(1) lost_attempt [OF conn] c(2), unfolded this,
      OF done2 [unfolded this]]
  obtain envs srv' where "link_loop append_sink lost_ack example_batch (nat (cc_MaxAttempts (cl_config example_client))) 1 ?s plain_server = Some (envs, srv')"
    using both unfolding example_open(1) by blast
  then show ?thesis
    using example_open(2) example_send_batch by (simp add: system_send_def split: prod.split)
qed


end
