(* ===== verification/Flusher.thy ===== *)
theory Flusher
  imports Ring Pool_Safety Sink
begin

text \<open>
  The flusher of \<^verbatim>\<open>internal/flusher\<close>: configuration and statistics (\<^verbatim>\<open>types.go\<close>) and the goroutine
  \<open>run\<close> that moves leases from the queue through the sink back to the pool (\<^verbatim>\<open>flusher.go\<close>). \<open>run\<close> is a
  step machine, one step per operation on shared state, so that producers and \<open>Close\<close> run in between.
  What the clock, the sink and \<open>select\<close> answer to a step is its environment. Times are nanoseconds.
\<close>

subsection \<open>Configuration\<close>

record flusher_Config =
  fq_BatchSize :: int
  fq_FlushInterval :: duration
  fq_PollInterval :: duration
  fq_RetryBackoff :: duration
  fq_MaxRetryBackoff :: duration

datatype flusher_error =
    NilPart | BadLimits | PoolErr pool_error | SinkErr sink_error | Joined "sink_error list"
  | CloseTimeoutError u64 u64 nat

definition flusher_defaults :: "flusher_Config \<Rightarrow> flusher_Config" where
  "flusher_defaults c0 =
     (let c1 = (if fq_BatchSize c0 = 0 then c0\<lparr>fq_BatchSize := 1024\<rparr> else c0);
          c2 = (if fq_FlushInterval c1 = 0 then c1\<lparr>fq_FlushInterval := 50 * Millisecond\<rparr> else c1);
          c3 = (if fq_PollInterval c2 = 0 then c2\<lparr>fq_PollInterval := 100000\<rparr> else c2);
          c4 = (if fq_RetryBackoff c3 = 0 then c3\<lparr>fq_RetryBackoff := 10 * Millisecond\<rparr> else c3)
      in if fq_MaxRetryBackoff c4 = 0 then c4\<lparr>fq_MaxRetryBackoff := Second\<rparr> else c4)"

definition flusher_normalized :: "flusher_Config \<Rightarrow> (flusher_error, flusher_Config) result" where
  "flusher_normalized c0 =
     (let c = flusher_defaults c0
      in if fq_BatchSize c < 1 \<or> sint (fq_FlushInterval c) \<le> 0 \<or> sint (fq_PollInterval c) \<le> 0 \<or>
            sint (fq_RetryBackoff c) \<le> 0 \<or> sint (fq_MaxRetryBackoff c) < sint (fq_RetryBackoff c)
         then Inl BadLimits else Inr c)"

subsection \<open>State\<close>

text \<open>
  The channels \<open>stop\<close>, \<open>abort\<close> and \<open>done\<close> are only ever closed, and the context only cancelled: booleans.
  The queue holds pointers to leases of the pool.
\<close>

record 's Flusher =
  fl_queue :: "nat Queue"
  fl_pool :: BytePool
  fl_sink :: 's
  fl_config :: flusher_Config
  fl_started :: bool
  fl_stop :: bool
  fl_abort :: bool
  fl_done :: bool
  fl_cancelled :: bool
  fl_batches :: u64
  fl_records :: u64
  fl_bytes :: u64
  fl_errors :: u64
  fl_retries :: u64
  fl_inFlight :: u64
  fl_lastBatchSize :: u64
  fl_lastFlushNanos :: u64
  fl_totalFlushNanos :: u64
  fl_running :: bool
  fl_closing :: bool
  fl_closed :: bool
  fl_degraded :: bool
  fl_lastErr :: "flusher_error option"
  fl_finalErr :: "flusher_error option"

definition flusher_New :: "nat Queue option \<Rightarrow> BytePool option \<Rightarrow> 's option \<Rightarrow> flusher_Config \<Rightarrow>
    (flusher_error, 's Flusher) result" where
  "flusher_New queue bytePool batchSink config =
     (case (queue, bytePool, batchSink) of
        (Some q, Some p, Some s) \<Rightarrow>
          (case flusher_normalized config of Inl e \<Rightarrow> Inl e
           | Inr c \<Rightarrow> Inr \<lparr>fl_queue = q, fl_pool = p, fl_sink = s, fl_config = c, fl_started = False, fl_stop = False,
               fl_abort = False, fl_done = False, fl_cancelled = False, fl_batches = 0, fl_records = 0, fl_bytes = 0,
               fl_errors = 0, fl_retries = 0, fl_inFlight = 0, fl_lastBatchSize = 0, fl_lastFlushNanos = 0,
               fl_totalFlushNanos = 0, fl_running = False, fl_closing = False, fl_closed = False, fl_degraded = False,
               fl_lastErr = None, fl_finalErr = None\<rparr>)
      | _ \<Rightarrow> Inl NilPart)"

text \<open>The last error is reported as the error itself, not as its text.\<close>

record flusher_Stats =
  fls_Batches :: u64
  fls_Records :: u64
  fls_Bytes :: u64
  fls_Errors :: u64
  fls_Retries :: u64
  fls_InFlight :: u64
  fls_LastBatchSize :: u64
  fls_LastFlushNanos :: u64
  fls_TotalFlushNanos :: u64
  fls_Running :: bool
  fls_Closing :: bool
  fls_Closed :: bool
  fls_Degraded :: bool
  fls_LastError :: "flusher_error option"

definition flusher_stats :: "'s Flusher \<Rightarrow> flusher_Stats" where
  "flusher_stats f = \<lparr>fls_Batches = fl_batches f, fls_Records = fl_records f, fls_Bytes = fl_bytes f, fls_Errors = fl_errors f,
     fls_Retries = fl_retries f, fls_InFlight = fl_inFlight f, fls_LastBatchSize = fl_lastBatchSize f,
     fls_LastFlushNanos = fl_lastFlushNanos f, fls_TotalFlushNanos = fl_totalFlushNanos f, fls_Running = fl_running f,
     fls_Closing = fl_closing f, fls_Closed = fl_closed f, fls_Degraded = fl_degraded f, fls_LastError = fl_lastErr f\<rparr>"

subsection \<open>Errors\<close>

definition recordError :: "flusher_error option \<Rightarrow> 's Flusher \<Rightarrow> 's Flusher" where
  "recordError err f = (case err of None \<Rightarrow> f
     | Some e \<Rightarrow> f\<lparr>fl_errors := fl_errors f + 1, fl_lastErr := Some e\<rparr>)"

definition clearLastError :: "'s Flusher \<Rightarrow> 's Flusher" where
  "clearLastError f = f\<lparr>fl_lastErr := None\<rparr>"

definition setFinalError :: "flusher_error option \<Rightarrow> 's Flusher \<Rightarrow> 's Flusher" where
  "setFinalError err f = (case err of None \<Rightarrow> f
     | Some e \<Rightarrow> (let f1 = recordError (Some e) f in if fl_finalErr f1 = None then f1\<lparr>fl_finalErr := Some e\<rparr> else f1))"

definition errors_Join :: "sink_error option list \<Rightarrow> flusher_error option" where
  "errors_Join es = (case List.map_filter id es of [] \<Rightarrow> None | xs \<Rightarrow> Some (Joined xs))"

subsection \<open>Leases\<close>

definition release_lease :: "int \<Rightarrow> nat \<Rightarrow> 's Flusher \<Rightarrow> 's Flusher \<times> pool_error option" where
  "release_lease now a f = (case Release (Some (p_ident (fl_pool f), a)) now (fl_pool f) of (p, e) \<Rightarrow> (f\<lparr>fl_pool := p\<rparr>, e))"

definition abandon :: "int \<Rightarrow> nat list \<Rightarrow> 's Flusher \<Rightarrow> 's Flusher" where
  "abandon now pending f = fold (\<lambda>a f. fst (release_lease now a f)) pending f"

text \<open>One lease of a delivered batch: its length is counted, then it is returned.\<close>

definition deliver_one :: "int \<Rightarrow> nat \<Rightarrow> 's Flusher \<times> u64 \<Rightarrow> 's Flusher \<times> u64" where
  "deliver_one now a fb = (case fb of (f, n) \<Rightarrow>
     (case release_lease now a f of (f1, e) \<Rightarrow>
        (recordError (map_option PoolErr e) f1, n + of_int (Lease_Len (fl_pool f) (Some a)))))"

subsection \<open>The local variables of \<open>run\<close>\<close>

record run_state =
  rn_pending :: "nat list"
  rn_deadline :: int
  rn_retryAt :: int
  rn_backoff :: duration
  rn_retrying :: bool
  rn_closing :: bool
  rn_aborting :: bool
  rn_stopNil :: bool
  rn_abortNil :: bool

text \<open>\<open>time.Time{}\<close>, the first of January of year 1.\<close>

definition zero_time :: int where
  "zero_time = - 62135596800 * 10 ^ 9"

definition run_locals :: "flusher_Config \<Rightarrow> run_state" where
  "run_locals c = \<lparr>rn_pending = [], rn_deadline = zero_time, rn_retryAt = zero_time, rn_backoff = fq_RetryBackoff c,
     rn_retrying = False, rn_closing = False, rn_aborting = False, rn_stopNil = False, rn_abortNil = False\<rparr>"

definition take_abort :: "run_state \<Rightarrow> run_state" where
  "take_abort r = r\<lparr>rn_aborting := True, rn_closing := True, rn_abortNil := True\<rparr>"

definition take_stop :: "run_state \<Rightarrow> run_state" where
  "take_stop r = r\<lparr>rn_closing := True, rn_stopNil := True\<rparr>"

text \<open>The \<open>select\<close> with a default at the head of the loop; \<open>pick\<close> decides when both channels are ready.\<close>

definition run_select :: "bool \<Rightarrow> 's Flusher \<Rightarrow> run_state \<Rightarrow> run_state" where
  "run_select pick f r =
     (let ab = (fl_abort f \<and> \<not> rn_abortNil r); st = (fl_stop f \<and> \<not> rn_stopNil r)
      in if ab \<and> (\<not> st \<or> pick) then take_abort r else if st then take_stop r else r)"

text \<open>One turn of the loop that fills the batch; the last component says whether it goes on.\<close>

definition run_consume :: "int \<Rightarrow> 's Flusher \<Rightarrow> run_state \<Rightarrow> 's Flusher \<times> run_state \<times> bool" where
  "run_consume now f r =
     (let settle = (\<lambda>g. g\<lparr>fl_inFlight := of_nat (length (rn_pending r))\<rparr>)
      in if rn_retrying r then (f, r, False)
         else if \<not> int (length (rn_pending r)) < fq_BatchSize (fl_config f) then (settle f, r, False)
         else case TryConsume (fl_queue f) of
           (q, None) \<Rightarrow> (settle (f\<lparr>fl_queue := q\<rparr>), r, False)
         | (q, Some a) \<Rightarrow>
             (case MarkInFlight (Some a) (fl_pool f) of (p, e) \<Rightarrow>
                let f1 = recordError (map_option PoolErr e) (f\<lparr>fl_queue := q, fl_pool := p\<rparr>)
                in if e \<noteq> None \<and> e \<noteq> Some ErrPayloadModified then (fst (release_lease now a f1), r, True)
                   else (f1, r\<lparr>rn_deadline := (if rn_pending r = [] then now + sint (fq_FlushInterval (fl_config f)) else rn_deadline r),
                               rn_pending := rn_pending r @ [a]\<rparr>, True)))"

definition should_flush :: "int \<Rightarrow> 's Flusher \<Rightarrow> run_state \<Rightarrow> bool" where
  "should_flush now f r \<longleftrightarrow> length (rn_pending r) > 0 \<and>
     (rn_retrying r \<and> rn_retryAt r \<le> now \<or>
      \<not> rn_retrying r \<and> (fq_BatchSize (fl_config f) \<le> int (length (rn_pending r)) \<or> rn_closing r \<or> rn_deadline r \<le> now))"

text \<open>The times and answers of one flush: the check, the sink, the elapsed time, the releases, the time after.\<close>

record 'e flush_env =
  fe_now :: int
  fe_sink :: 'e
  fe_nanos :: u64
  fe_release :: int
  fe_after :: int

definition payloads :: "BytePool \<Rightarrow> nat list \<Rightarrow> bytes list" where
  "payloads p pending = map (\<lambda>a. Payload p (Some a)) pending"

definition flush_done :: "int \<Rightarrow> 's Flusher \<Rightarrow> run_state \<Rightarrow> 's Flusher \<times> run_state" where
  "flush_done now f r =
     (case fold (deliver_one now) (rn_pending r) (f, 0) of (f1, n) \<Rightarrow>
        (clearLastError (f1\<lparr>fl_batches := fl_batches f1 + 1,
           fl_records := fl_records f1 + of_nat (length (rn_pending r)), fl_bytes := fl_bytes f1 + n,
           fl_lastBatchSize := of_nat (length (rn_pending r)), fl_inFlight := 0, fl_degraded := False\<rparr>),
         r\<lparr>rn_pending := [], rn_deadline := zero_time, rn_retryAt := zero_time, rn_retrying := False,
           rn_backoff := fq_RetryBackoff (fl_config f1)\<rparr>))"

definition grow_backoff :: "flusher_Config \<Rightarrow> duration \<Rightarrow> duration" where
  "grow_backoff c b =
     (if sint b < sint (fq_MaxRetryBackoff c)
      then let b2 = b * 2 in if sint b2 > sint (fq_MaxRetryBackoff c) then fq_MaxRetryBackoff c else b2 else b)"

definition flush_failed :: "sink_error \<Rightarrow> int \<Rightarrow> 's Flusher \<Rightarrow> run_state \<Rightarrow> 's Flusher \<times> run_state" where
  "flush_failed err now f r =
     ((recordError (Some (SinkErr err)) f)\<lparr>fl_degraded := True\<rparr>,
      r\<lparr>rn_retrying := True, rn_retryAt := now + sint (rn_backoff r), rn_backoff := grow_backoff (fl_config f) (rn_backoff r)\<rparr>)"

text \<open>The flush, when it is due; the last component says that the loop starts again. \<open>None\<close>: the sink does not return.\<close>

definition run_flush :: "('e, 'c, 's) BatchSink \<Rightarrow> 'e flush_env \<Rightarrow> 's Flusher \<Rightarrow> run_state \<Rightarrow> ('s Flusher \<times> run_state \<times> bool) option" where
  "run_flush bs e f r =
     (if \<not> should_flush (fe_now e) f r then Some (f, r, False)
      else let f1 = (if rn_retrying r then f\<lparr>fl_retries := fl_retries f + 1\<rparr> else f)
      in case bs_WriteBatch bs (fe_sink e) (payloads (fl_pool f) (rn_pending r)) (fl_sink f) of
           None \<Rightarrow> None
         | Some (s, err) \<Rightarrow>
             (let f2 = f1\<lparr>fl_sink := s, fl_lastFlushNanos := fe_nanos e, fl_totalFlushNanos := fl_totalFlushNanos f1 + fe_nanos e\<rparr>
              in case err of
                   None \<Rightarrow> (case flush_done (fe_release e) f2 r of (f3, r3) \<Rightarrow> Some (f3, r3, True))
                 | Some x \<Rightarrow> (case flush_failed x (fe_after e) f2 r of (f3, r3) \<Rightarrow> Some (f3, r3, False))))"

text \<open>How long the loop sleeps.\<close>

definition wait_time :: "int \<Rightarrow> 's Flusher \<Rightarrow> run_state \<Rightarrow> int" where
  "wait_time now f r =
     (let wait = sint (fq_PollInterval (fl_config f));
          w1 = (if rn_retrying r then rn_retryAt r - now
                else if length (rn_pending r) > 0 \<and> rn_deadline r - now < wait then rn_deadline r - now else wait)
      in if w1 < 0 then 0 else w1)"

datatype wake = WakeTimer | WakeStop | WakeAbort

definition run_wait :: "wake \<Rightarrow> 's Flusher \<Rightarrow> run_state \<Rightarrow> run_state option" where
  "run_wait w f r = (case w of WakeTimer \<Rightarrow> Some r
     | WakeStop \<Rightarrow> if fl_stop f \<and> \<not> rn_stopNil r then Some (take_stop r) else None
     | WakeAbort \<Rightarrow> if fl_abort f \<and> \<not> rn_abortNil r then Some (take_abort r) else None)"

text \<open>The return of \<open>run\<close>, with its deferred calls.\<close>

definition run_return :: "flusher_error option \<Rightarrow> 's Flusher \<Rightarrow> 's Flusher" where
  "run_return err f = (setFinalError err f)\<lparr>fl_closed := True, fl_running := False, fl_cancelled := True, fl_done := True\<rparr>"

subsection \<open>The goroutine\<close>

datatype run_pc = NotStarted | Select | Draining | Consume | Decide | Settle | Wait | Ended

record 's fmach =
  fm_flusher :: "'s Flusher"
  fm_run :: run_state
  fm_pc :: run_pc

record ('e, 'c) run_env =
  rv_now :: int
  rv_pick :: bool
  rv_flush :: "'e flush_env"
  rv_flushAnswer :: 'c
  rv_closeAnswer :: 'c
  rv_wake :: wake

definition step_draining :: "('e, 'c, 's) BatchSink \<Rightarrow> ('e, 'c) run_env \<Rightarrow> 's Flusher \<Rightarrow> 's Flusher \<times> bool" where
  "step_draining bs env f =
     (case TryConsume (fl_queue f) of
        (q, Some a) \<Rightarrow> (fst (release_lease (rv_now env) a (f\<lparr>fl_queue := q, fl_pool := fst (MarkInFlight (Some a) (fl_pool f))\<rparr>)), True)
      | (q, None) \<Rightarrow> (case bs_Close bs (rv_closeAnswer env) (fl_sink f) of (s, err) \<Rightarrow>
            (run_return (map_option SinkErr err) (f\<lparr>fl_queue := q, fl_inFlight := 0, fl_sink := s\<rparr>), False)))"

definition step_settle :: "('e, 'c, 's) BatchSink \<Rightarrow> ('e, 'c) run_env \<Rightarrow> 's Flusher \<Rightarrow> run_state \<Rightarrow> 's Flusher option" where
  "step_settle bs env f r =
     (if rn_closing r \<and> length (rn_pending r) = 0 \<and> Empty (fl_queue f) then
        (case bs_Flush bs (rv_flushAnswer env) (fl_sink f) of (s1, flushErr) \<Rightarrow>
           (case bs_Close bs (rv_closeAnswer env) s1 of (s2, closeErr) \<Rightarrow>
              Some (run_return (errors_Join [flushErr, closeErr]) (f\<lparr>fl_sink := s2\<rparr>))))
      else None)"

definition run_step :: "('e, 'c, 's) BatchSink \<Rightarrow> ('e, 'c) run_env \<Rightarrow> 's fmach \<Rightarrow> 's fmach option" where
  "run_step bs env m =
     (let f = fm_flusher m; r = fm_run m in
      case fm_pc m of
        NotStarted \<Rightarrow> None
      | Ended \<Rightarrow> None
      | Select \<Rightarrow> (let r1 = run_select (rv_pick env) f r
          in if rn_aborting r1
             then Some \<lparr>fm_flusher = abandon (rv_now env) (rn_pending r1) f, fm_run = r1\<lparr>rn_pending := []\<rparr>, fm_pc = Draining\<rparr>
             else Some \<lparr>fm_flusher = f, fm_run = r1, fm_pc = Consume\<rparr>)
      | Draining \<Rightarrow> (case step_draining bs env f of (f1, going) \<Rightarrow>
            Some \<lparr>fm_flusher = f1, fm_run = r, fm_pc = (if going then Draining else Ended)\<rparr>)
      | Consume \<Rightarrow> (case run_consume (rv_now env) f r of (f1, r1, going) \<Rightarrow>
            Some \<lparr>fm_flusher = f1, fm_run = r1, fm_pc = (if going then Consume else Decide)\<rparr>)
      | Decide \<Rightarrow> (case run_flush bs (rv_flush env) f r of None \<Rightarrow> None
          | Some (f1, r1, again) \<Rightarrow> Some \<lparr>fm_flusher = f1, fm_run = r1, fm_pc = (if again then Select else Settle)\<rparr>)
      | Settle \<Rightarrow> (case step_settle bs env f r of
            Some f1 \<Rightarrow> Some \<lparr>fm_flusher = f1, fm_run = r, fm_pc = Ended\<rparr>
          | None \<Rightarrow> Some \<lparr>fm_flusher = f, fm_run = r, fm_pc = Wait\<rparr>)
      | Wait \<Rightarrow> (case run_wait (rv_wake env) f r of None \<Rightarrow> None
          | Some r1 \<Rightarrow> Some \<lparr>fm_flusher = f, fm_run = r1, fm_pc = Select\<rparr>))"

subsection \<open>\<open>Start\<close> and \<open>Close\<close>\<close>

definition flusher_Start :: "'s fmach \<Rightarrow> 's fmach" where
  "flusher_Start m =
     (if fl_started (fm_flusher m) then m
      else \<lparr>fm_flusher = (fm_flusher m)\<lparr>fl_started := True, fl_running := True\<rparr>, fm_run = run_locals (fl_config (fm_flusher m)), fm_pc = Select\<rparr>)"

text \<open>The steps of \<open>Close\<close>: the queue is closed, then the \<open>stop\<close> channel; then it waits for \<open>done\<close> or the context.\<close>

definition close_queue :: "'s fmach \<Rightarrow> 's fmach" where
  "close_queue m = (let m1 = flusher_Start m; f = fm_flusher m1
     in m1\<lparr>fm_flusher := f\<lparr>fl_queue := ring_Close (fl_queue f), fl_closing := True\<rparr>\<rparr>)"

definition close_stop :: "'s fmach \<Rightarrow> 's fmach" where
  "close_stop m = m\<lparr>fm_flusher := (fm_flusher m)\<lparr>fl_stop := True\<rparr>\<rparr>"

definition close_result :: "'s Flusher \<Rightarrow> flusher_error option option" where
  "close_result f = (if fl_done f then Some (fl_finalErr f) else None)"

text \<open>\<open>cause\<close> is the cause of the context, or its deadline error when it has none.\<close>

definition close_timeout :: "nat \<Rightarrow> 's fmach \<Rightarrow> 's fmach \<times> flusher_error" where
  "close_timeout cause m = (let f = fm_flusher m
     in (m\<lparr>fm_flusher := f\<lparr>fl_abort := True, fl_cancelled := True\<rparr>\<rparr>, CloseTimeoutError (Depth (fl_queue f)) (fl_inFlight f) cause))"

subsection \<open>What the other goroutines may do to the pool\<close>

text \<open>
  Whatever a goroutine does to the pool keeps the leases in \<open>A\<close> as they are; a returned lease
  stays returned. The pool operations of a caller on its own leases are of this kind.
\<close>

definition pool_rely :: "nat set \<Rightarrow> BytePool \<Rightarrow> BytePool \<Rightarrow> bool" where
  "pool_rely A p p' \<longleftrightarrow> pool_inv p' \<and> p_ident p' = p_ident p \<and> length (p_leases p) \<le> length (p_leases p') \<and>
     (\<forall>a\<in>A. lease_view p' a = lease_view p a) \<and>
     (\<forall>a < length (p_leases p). l_state (p_leases p ! a) = StateReturned \<longrightarrow> l_state (p_leases p' ! a) = StateReturned)"

definition entries :: "BytePool \<Rightarrow> nat list \<Rightarrow> (nat \<times> bytes) list" where
  "entries p as = map (\<lambda>a. (a, Payload p (Some a))) as"

lemma entries_simps [simp]:
  "entries p [] = []" "entries p (a # as) = (a, Payload p (Some a)) # entries p as"
  "entries p (as @ bs) = entries p as @ entries p bs" "map fst (entries p as) = as" "map snd (entries p as) = payloads p as"
  "fst ` set (entries p as) = set as"
  by (simp_all add: entries_def payloads_def comp_def image_image)

lemma pool_rely_view:
  assumes "pool_rely A p p'" "a \<in> A"
  shows "l_state (p_leases p' ! a) = l_state (p_leases p ! a)" "Payload p' (Some a) = Payload p (Some a)"
  using assms by (auto simp: pool_rely_def lease_view_def)

lemma entries_rely: "pool_rely A p p' \<Longrightarrow> set as \<subseteq> A \<Longrightarrow> entries p' as = entries p as"
  by (auto simp: entries_def dest: pool_rely_view)

lemma payloads_rely: "pool_rely A p p' \<Longrightarrow> set as \<subseteq> A \<Longrightarrow> payloads p' as = payloads p as"
  by (auto simp: payloads_def dest: pool_rely_view)

lemma pool_rely_refl: "pool_inv p \<Longrightarrow> pool_rely A p p"
  by (simp add: pool_rely_def)

lemma pool_rely_trans:
  assumes "pool_rely A p p1" "pool_rely A p1 p2"
  shows "pool_rely A p p2"
proof -
  have "length (p_leases p) \<le> length (p_leases p1)" using assms(1) by (simp add: pool_rely_def)
  then show ?thesis using assms by (auto simp: pool_rely_def)
qed

lemma MarkInFlight_queued:
  assumes "pool_inv p" "a < length (p_leases p)" "l_state (p_leases p ! a) = StateQueued" "MarkInFlight (Some a) p = (p', e)"
    "A \<subseteq> {..<length (p_leases p)}" "a \<notin> A"
  shows "pool_rely A p p'" "e = None \<or> e = Some ErrPayloadModified" "l_state (p_leases p' ! a) = StateInFlight"
    "Payload p' (Some a) = Payload p (Some a)" "length (p_leases p') = length (p_leases p)"
proof -
  have p': "p' = fst (MarkInFlight (Some a) p)" using assms(4) by simp
  have inv: "pool_inv p'" using MarkInFlight_inv [of p "Some a"] assms(1,2) p' by simp
  have state: "l_state (p_leases p' ! x) = (if x = a then StateInFlight else l_state (p_leases p ! x))" for x
    using MarkInFlight_state [OF assms(2), of x] assms(3) p' by simp
  show "l_state (p_leases p' ! a) = StateInFlight" by (simp add: state)
  show "e = None \<or> e = Some ErrPayloadModified"
    using assms(3,4) by (auto simp: MarkInFlight_def Let_def split: prod.splits if_splits)
  show len: "length (p_leases p') = length (p_leases p)"
    using assms(2,3) p' by (simp add: MarkInFlight_def Let_def split_beta detectMutation_frame set_lease_def)
  have blk: "p_blocks p' = p_blocks p" "p_ident p' = p_ident p"
    using assms(3,4) by (auto simp: MarkInFlight_def Let_def detectMutation_def set_lease_def split: prod.splits if_splits)
  have other: "p_leases p' ! x = p_leases p ! x" if "x \<noteq> a" for x
    using assms(3,4) that by (auto simp: MarkInFlight_def Let_def detectMutation_def set_lease_def split: prod.splits if_splits)
  have own: "l_block (p_leases p' ! a) = l_block (p_leases p ! a)" "l_length (p_leases p' ! a) = l_length (p_leases p ! a)"
    using assms(2,3,4) by (auto simp: MarkInFlight_def Let_def detectMutation_def set_lease_def split: prod.splits if_splits)
  show "Payload p' (Some a) = Payload p (Some a)"
    using own blk state assms(3) by (simp add: Payload_def lease_payload_def block_data_def cong: option.case_cong)
  have "lease_view p' x = lease_view p x" if "x \<noteq> a" for x
    using other [OF that] blk by (simp add: view_unfold lease_payload_def block_data_def cong: option.case_cong)
  then have "\<forall>x\<in>A. lease_view p' x = lease_view p x" using assms(6) by metis
  then show "pool_rely A p p'" using inv blk(2) len state assms(3) by (simp add: pool_rely_def)
qed

lemma ident_frame [simp]:
  "p_ident (set_lease a l p) = p_ident p" "p_ident (fst (detectMutation a p)) = p_ident p"
  "p_ident (audit_finalize a now p) = p_ident p" "p_ident (release_block a p) = p_ident p"
  by (simp_all add: set_lease_def detectMutation_def audit_finalize_def release_block_def Let_def split: option.splits)

lemma Release_inflight:
  assumes "pool_inv p" "a < length (p_leases p)" "l_state (p_leases p ! a) = StateInFlight"
    "Release (Some (p_ident p, a)) now p = (p', e)" "a \<notin> A"
  shows "pool_rely A p p'" "e = None" "l_state (p_leases p' ! a) = StateReturned" "length (p_leases p') = length (p_leases p)"
    "x \<noteq> a \<Longrightarrow> l_state (p_leases p' ! x) = l_state (p_leases p ! x)" "x \<noteq> a \<Longrightarrow> lease_view p' x = lease_view p x"
proof -
  have v: "valid_ref p (Some (p_ident p, a))" using assms(2) by (simp add: valid_ref_def)
  have p': "p' = fst (Release (Some (p_ident p, a)) now p)" "e = snd (Release (Some (p_ident p, a)) now p)"
    using assms(4) by simp_all
  have inv: "pool_inv p'" using Release_inv [of p "Some (p_ident p, a)"] assms(1,2) p' by simp
  show e: "e = None" using Release_success(1) [OF assms(1) v] assms(3) p' by simp
  note st = Release_states [OF v, of now, folded p']
  show "l_state (p_leases p' ! a) = StateReturned" using st(2) [of a] e by simp
  show len: "length (p_leases p') = length (p_leases p)" by (rule st(1))
  show other: "l_state (p_leases p' ! x) = l_state (p_leases p ! x)" if "x \<noteq> a" for x using st(2) [of x] that by simp
  have ident: "p_ident p' = p_ident p" using p'(1) assms(3) by (simp add: Release_def Let_def)
  show view: "lease_view p' x = lease_view p x" if "x \<noteq> a" for x
    using Release_other [OF v that, of now, folded p'] by (simp add: view_unfold lease_payload_def block_data_def cong: option.case_cong)
  have "\<forall>x\<in>A. lease_view p' x = lease_view p x" using assms(5) view by metis
  then show "pool_rely A p p'" using inv ident len st(2) e by (simp add: pool_rely_def)
qed

text \<open>Returning all leases of a batch.\<close>

definition all_inflight :: "nat list \<Rightarrow> BytePool \<Rightarrow> bool" where
  "all_inflight as p \<longleftrightarrow> distinct as \<and> (\<forall>a\<in>set as. a < length (p_leases p) \<and> l_state (p_leases p ! a) = StateInFlight)"

lemma release_step:
  assumes "pool_inv (fl_pool f)" "all_inflight (a # as) (fl_pool f)" "A \<inter> set (a # as) = {}"
  obtains p1 where "release_lease now a f = (f\<lparr>fl_pool := p1\<rparr>, None)" "pool_rely (A \<union> set as) (fl_pool f) p1"
    "all_inflight as p1" "l_state (p_leases p1 ! a) = StateReturned" "a < length (p_leases p1)"
proof -
  obtain p1 e where r: "Release (Some (p_ident (fl_pool f), a)) now (fl_pool f) = (p1, e)" by fastforce
  note R = Release_inflight [OF assms(1) _ _ r, of "A \<union> set as"]
  have "a < length (p_leases (fl_pool f))" "l_state (p_leases (fl_pool f) ! a) = StateInFlight" "a \<notin> A \<union> set as"
    using assms(2,3) by (auto simp: all_inflight_def)
  note R = R [OF this]
  have "l_state (p_leases p1 ! x) = StateInFlight" if "x \<in> set as" for x
    using R(5) [of x] that assms(2) by (auto simp: all_inflight_def)
  then have "all_inflight as p1" using assms(2) R(4) by (simp add: all_inflight_def)
  then show thesis using that [of p1] R r assms(2) by (auto simp: release_lease_def all_inflight_def)
qed

lemma release_all:
  assumes "pool_inv (fl_pool f)" "all_inflight as (fl_pool f)" "A \<inter> set as = {}" "set as \<subseteq> {..<length (p_leases (fl_pool f))}"
  shows "\<exists>p1. abandon now as f = f\<lparr>fl_pool := p1\<rparr> \<and> (\<exists>k. fold (deliver_one now) as (f, n) = (f\<lparr>fl_pool := p1\<rparr>, k)) \<and>
    pool_rely A (fl_pool f) p1 \<and> (\<forall>a\<in>set as. l_state (p_leases p1 ! a) = StateReturned)"
  using assms
proof (induction as arbitrary: f n)
  case Nil
  then show ?case by (auto simp: abandon_def intro!: exI [of _ "fl_pool f"] pool_rely_refl)
next
  case (Cons a as)
  obtain p1 where p1: "release_lease now a f = (f\<lparr>fl_pool := p1\<rparr>, None)" "pool_rely (A \<union> set as) (fl_pool f) p1"
    "all_inflight as p1" "l_state (p_leases p1 ! a) = StateReturned" "a < length (p_leases p1)"
    by (rule release_step [OF Cons.prems(1-3)])
  have inv: "pool_inv p1" using p1(2) by (simp add: pool_rely_def)
  have sub: "set as \<subseteq> {..<length (p_leases p1)}" using p1(3) by (auto simp: all_inflight_def)
  obtain p2 k where p2: "abandon now as (f\<lparr>fl_pool := p1\<rparr>) = f\<lparr>fl_pool := p2\<rparr>"
    "fold (deliver_one now) as (f\<lparr>fl_pool := p1\<rparr>, n + of_int (Lease_Len (fl_pool f) (Some a))) = (f\<lparr>fl_pool := p2\<rparr>, k)"
    "pool_rely A p1 p2" "\<forall>x\<in>set as. l_state (p_leases p2 ! x) = StateReturned"
    using Cons.IH [of "f\<lparr>fl_pool := p1\<rparr>" "n + of_int (Lease_Len (fl_pool f) (Some a))"] inv p1(3) Cons.prems(3) sub by auto
  have "pool_rely A (fl_pool f) p1" using p1(2) by (auto simp: pool_rely_def)
  then have "pool_rely A (fl_pool f) p2" using p2(3) pool_rely_trans by blast
  moreover have "l_state (p_leases p2 ! a) = StateReturned" using p2(3) p1(4,5) by (simp add: pool_rely_def)
  moreover have "abandon now (a # as) f = f\<lparr>fl_pool := p2\<rparr>" using p1(1) p2(1) by (simp add: abandon_def)
  moreover have "fold (deliver_one now) (a # as) (f, n) = (f\<lparr>fl_pool := p2\<rparr>, k)"
    using p1(1) p2(2) by (simp add: deliver_one_def recordError_def)
  ultimately show ?case using p2(4) by auto
qed

subsection \<open>Who holds which lease\<close>

text \<open>
  \<open>passed\<close>: the leases whose producers have found the queue open and have not yet claimed a slot;
  \<open>gone\<close>: the leases delivered or abandoned.
\<close>

definition owner_inv :: "BytePool \<Rightarrow> nat Queue \<Rightarrow> nat list \<Rightarrow> nat set \<Rightarrow> nat set \<Rightarrow> bool" where
  "owner_inv p q pending passed gone \<longleftrightarrow> ring_inv q \<and> pool_inv p \<and> distinct (pending @ ring_items q) \<and>
     set (pending @ ring_items q) \<inter> passed = {} \<and> set (pending @ ring_items q) \<union> passed \<union> gone \<subseteq> {..<length (p_leases p)} \<and>
     (\<forall>a\<in>set (ring_items q) \<union> passed. l_state (p_leases p ! a) = StateQueued) \<and>
     (\<forall>a\<in>set pending. l_state (p_leases p ! a) = StateInFlight) \<and>
     (\<forall>a\<in>gone. l_state (p_leases p ! a) = StateReturned)"

lemma owner_invD:
  assumes "owner_inv p q pending passed gone"
  shows "ring_inv q" "pool_inv p" "all_inflight pending p" "distinct (pending @ ring_items q)"
    "set pending \<inter> (set (ring_items q) \<union> passed) = {}" "set (pending @ ring_items q) \<union> passed \<union> gone \<subseteq> {..<length (p_leases p)}"
    "set pending \<subseteq> {..<length (p_leases p)}"
  using assms by (auto simp: owner_inv_def all_inflight_def)

lemma owner_states:
  assumes "owner_inv p q pending passed (fst ` set xs)"
  shows "\<forall>e\<in>set xs. l_state (p_leases p ! fst e) = StateReturned" "\<forall>a\<in>set pending. l_state (p_leases p ! a) = StateInFlight"
    "\<forall>a\<in>set (ring_items q). l_state (p_leases p ! a) = StateQueued"
  using assms by (simp_all add: owner_inv_def)

lemma owner_rely:
  assumes "owner_inv p q pending passed gone" "pool_rely (set (pending @ ring_items q) \<union> passed) p p'"
  shows "owner_inv p' q pending passed gone" "entries p' (pending @ ring_items q) = entries p (pending @ ring_items q)"
    "payloads p' pending = payloads p pending"
proof -
  show "entries p' (pending @ ring_items q) = entries p (pending @ ring_items q)" "payloads p' pending = payloads p pending"
    by (rule entries_rely [OF assms(2)] payloads_rely [OF assms(2)]; auto)+
  have "l_state (p_leases p' ! a) = l_state (p_leases p ! a)" if "a \<in> set (pending @ ring_items q) \<union> passed" for a
    using pool_rely_view(1) [OF assms(2) that] .
  moreover have "length (p_leases p) \<le> length (p_leases p')" using assms(2) by (simp add: pool_rely_def)
  ultimately show "owner_inv p' q pending passed gone"
    using assms unfolding owner_inv_def pool_rely_def by (auto simp: subset_iff; fastforce)
qed

lemma owner_consume:
  assumes "owner_inv p q pending passed gone" "ring_items q = a # rest" "MarkInFlight (Some a) p = (p', e)"
  shows "owner_inv p' (consume_accept q) (pending @ [a]) passed gone" "e = None \<or> e = Some ErrPayloadModified"
    "entries p' (pending @ a # rest) = entries p (pending @ a # rest)" "payloads p' (pending @ [a]) = payloads p (pending @ [a])"
    "ring_items (consume_accept q) = rest"
proof -
  note D = owner_invD [OF assms(1)]
  have a: "a < length (p_leases p)" "l_state (p_leases p ! a) = StateQueued"
    using assms(1,2) by (auto simp: owner_inv_def)
  have ring: "ring_inv (consume_accept q)" "ring_items (consume_accept q) = rest"
    using ring_inv_consume_accept [OF D(1)] ring_items_consume_accept [OF D(1)] assms(2) by (simp_all add: ring_len_pos)
  show "ring_items (consume_accept q) = rest" by (rule ring(2))
  have A: "(set (pending @ rest) \<union> passed \<union> gone) \<subseteq> {..<length (p_leases p)}" using D(6) assms(2) by auto
  have na: "a \<notin> set (pending @ rest) \<union> passed \<union> gone" using assms(1,2) a(2) by (auto simp: owner_inv_def)
  note M = MarkInFlight_queued [OF D(2) a assms(3) A na]
  show "e = None \<or> e = Some ErrPayloadModified" by (rule M(2))
  have ent: "entries p' pending = entries p pending" "entries p' rest = entries p rest" "payloads p' pending = payloads p pending"
    by (rule entries_rely [OF M(1)] payloads_rely [OF M(1)]; auto)+
  then show "entries p' (pending @ a # rest) = entries p (pending @ a # rest)" "payloads p' (pending @ [a]) = payloads p (pending @ [a])"
    using M(4) by (auto simp: payloads_def)
  have st: "l_state (p_leases p' ! x) = l_state (p_leases p ! x)" if "x \<in> set (pending @ rest) \<union> passed \<union> gone" for x
    using pool_rely_view(1) [OF M(1) that] .
  have "pool_inv p'" using M(1) by (simp add: pool_rely_def)
  then show "owner_inv p' (consume_accept q) (pending @ [a]) passed gone"
    using assms(1,2) ring M(3,5) st na unfolding owner_inv_def by (auto simp: subset_iff)
qed

lemma owner_release:
  assumes "owner_inv (fl_pool f) q pending passed gone"
  shows "\<exists>p'. abandon now pending f = f\<lparr>fl_pool := p'\<rparr> \<and> (\<exists>k. fold (deliver_one now) pending (f, n) = (f\<lparr>fl_pool := p'\<rparr>, k)) \<and>
    owner_inv p' q [] passed (gone \<union> set pending) \<and> entries p' (ring_items q) = entries (fl_pool f) (ring_items q)"
proof -
  note D = owner_invD [OF assms]
  obtain p' where p': "abandon now pending f = f\<lparr>fl_pool := p'\<rparr>" "\<exists>k. fold (deliver_one now) pending (f, n) = (f\<lparr>fl_pool := p'\<rparr>, k)"
    "pool_rely (set (ring_items q) \<union> passed) (fl_pool f) p'" "\<forall>a\<in>set pending. l_state (p_leases p' ! a) = StateReturned"
    using release_all [OF D(2,3) _ D(7), of "set (ring_items q) \<union> passed" now n] D(5) by blast
  have ent: "entries p' (ring_items q) = entries (fl_pool f) (ring_items q)" by (rule entries_rely [OF p'(3)]) simp
  have st: "l_state (p_leases p' ! x) = l_state (p_leases (fl_pool f) ! x)" if "x \<in> set (ring_items q) \<union> passed" for x
    using pool_rely_view(1) [OF p'(3) that] .
  have "length (p_leases (fl_pool f)) \<le> length (p_leases p')" "pool_inv p'" using p'(3) by (simp_all add: pool_rely_def)
  then have "owner_inv p' q [] passed (gone \<union> set pending)"
    using assms p'(3,4) st unfolding owner_inv_def pool_rely_def by (auto simp: subset_iff; fastforce)
  then show ?thesis using p' ent by blast
qed

end
