(* ===== verification/Flusher_Delivery.thy ===== *)
theory Flusher_Delivery
  imports Flusher
begin

text \<open>
  The flusher together with what runs beside it: producers that publish leases, callers that use the
  pool, \<open>Close\<close>. The world records what was accepted by the queue, delivered and abandoned;
  the sink is any that keeps the contract \<open>batch_sink\<close>.
\<close>

subsection \<open>The world\<close>

record 's fworld =
  fw_mach :: "'s fmach"
  fw_passed :: "nat set"
  fw_accepted :: "(nat \<times> bytes) list"
  fw_delivered :: "(nat \<times> bytes) list"
  fw_abandoned :: "(nat \<times> bytes) list"

abbreviation fw_flusher :: "'s fworld \<Rightarrow> 's Flusher" where
  "fw_flusher w \<equiv> fm_flusher (fw_mach w)"

definition with_flusher :: "'s Flusher \<Rightarrow> 's fworld \<Rightarrow> 's fworld" where
  "with_flusher f w = w\<lparr>fw_mach := (fw_mach w)\<lparr>fm_flusher := f\<rparr>\<rparr>"

definition newly_delivered :: "'s fmach \<Rightarrow> 's fmach \<Rightarrow> (nat \<times> bytes) list" where
  "newly_delivered m m' =
     (if fm_pc m = Decide \<and> fm_pc m' = Select then entries (fl_pool (fm_flusher m)) (rn_pending (fm_run m)) else [])"

definition newly_abandoned :: "'s fmach \<Rightarrow> 's fmach \<Rightarrow> (nat \<times> bytes) list" where
  "newly_abandoned m m' =
     (if fm_pc m = Select \<and> fm_pc m' = Draining then entries (fl_pool (fm_flusher m)) (rn_pending (fm_run m))
      else if fm_pc m = Draining then
        (case snd (TryConsume (fl_queue (fm_flusher m))) of None \<Rightarrow> [] | Some a \<Rightarrow> entries (fl_pool (fm_flusher m)) [a])
      else [])"

text \<open>The leases that nobody but their holder may touch: those in the batch, in the queue, or on the way into it.\<close>

definition fw_owned :: "'s fworld \<Rightarrow> nat set" where
  "fw_owned w = set (rn_pending (fm_run (fw_mach w)) @ ring_items (fl_queue (fw_flusher w))) \<union> fw_passed w"

text \<open>
  A publication is \<open>TryPublish\<close> split where \<open>Close\<close> can come in between: the producer finds the
  queue open; then it claims a slot, or finds the queue full or, meanwhile, closed.
\<close>

inductive fw_step :: "('e, 'c, 's) BatchSink \<Rightarrow> 's fworld \<Rightarrow> 's fworld \<Rightarrow> bool" for bs where
  fw_run: "run_step bs env (fw_mach w) = Some m' \<Longrightarrow>
    fw_step bs w (w\<lparr>fw_mach := m', fw_delivered := fw_delivered w @ newly_delivered (fw_mach w) m',
      fw_abandoned := fw_abandoned w @ newly_abandoned (fw_mach w) m'\<rparr>)"
| fw_start: "fw_step bs w (w\<lparr>fw_mach := flusher_Start (fw_mach w)\<rparr>)"
| fw_close: "fw_step bs w (w\<lparr>fw_mach := close_queue (fw_mach w)\<rparr>)"
| fw_stop: "q_closed (fl_queue (fw_flusher w)) \<Longrightarrow> fw_step bs w (w\<lparr>fw_mach := close_stop (fw_mach w)\<rparr>)"
| fw_timeout: "fl_stop (fw_flusher w) \<Longrightarrow> fw_step bs w (w\<lparr>fw_mach := fst (close_timeout cause (fw_mach w))\<rparr>)"
| fw_pool: "pool_rely (fw_owned w) (fl_pool (fw_flusher w)) p' \<Longrightarrow>
    fw_step bs w (with_flusher ((fw_flusher w)\<lparr>fl_pool := p'\<rparr>) w)"
| fw_check: "\<lbrakk>\<not> q_closed (fl_queue (fw_flusher w)); a < length (p_leases (fl_pool (fw_flusher w)));
     l_state (p_leases (fl_pool (fw_flusher w)) ! a) = StateQueued; a \<notin> fw_owned w\<rbrakk> \<Longrightarrow>
    fw_step bs w ((with_flusher ((fw_flusher w)\<lparr>fl_queue := (fl_queue (fw_flusher w))
       \<lparr>publishAttempts := publishAttempts (fl_queue (fw_flusher w)) + 1\<rparr>\<rparr>) w)\<lparr>fw_passed := insert a (fw_passed w)\<rparr>)"
| fw_claim: "\<lbrakk>a \<in> fw_passed w; ring_len (fl_queue (fw_flusher w)) < unat (capacity (fl_queue (fw_flusher w)))\<rbrakk> \<Longrightarrow>
    fw_step bs w ((with_flusher ((fw_flusher w)\<lparr>fl_queue := publish_accept a (fl_queue (fw_flusher w))\<rparr>) w)
      \<lparr>fw_passed := fw_passed w - {a}, fw_accepted := fw_accepted w @ entries (fl_pool (fw_flusher w)) [a]\<rparr>)"
| fw_full: "\<lbrakk>a \<in> fw_passed w; ring_len (fl_queue (fw_flusher w)) = unat (capacity (fl_queue (fw_flusher w)))\<rbrakk> \<Longrightarrow>
    fw_step bs w ((with_flusher ((fw_flusher w)\<lparr>fl_queue := (fl_queue (fw_flusher w))
       \<lparr>rejectedFull := rejectedFull (fl_queue (fw_flusher w)) + 1\<rparr>\<rparr>) w)\<lparr>fw_passed := fw_passed w - {a}\<rparr>)"
| fw_refused: "\<lbrakk>a \<in> fw_passed w; q_closed (fl_queue (fw_flusher w))\<rbrakk> \<Longrightarrow>
    fw_step bs w ((with_flusher ((fw_flusher w)\<lparr>fl_queue := (fl_queue (fw_flusher w))
       \<lparr>rejectedClosed := rejectedClosed (fl_queue (fw_flusher w)) + 1\<rparr>\<rparr>) w)\<lparr>fw_passed := fw_passed w - {a}\<rparr>)"

abbreviation fw_steps :: "('e, 'c, 's) BatchSink \<Rightarrow> 's fworld \<Rightarrow> 's fworld \<Rightarrow> bool" where
  "fw_steps bs \<equiv> (fw_step bs)\<^sup>*\<^sup>*"

definition world_of :: "'s Flusher \<Rightarrow> 's fworld" where
  "world_of f = \<lparr>fw_mach = \<lparr>fm_flusher = f, fm_run = run_locals (fl_config f), fm_pc = NotStarted\<rparr>,
     fw_passed = {}, fw_accepted = [], fw_delivered = [], fw_abandoned = []\<rparr>"

text \<open>On an open queue the two steps of a publication are the whole \<open>TryPublish\<close>.\<close>

lemma publish_is_check_and_claim:
  assumes "ring_inv q" "\<not> q_closed q"
  shows "TryPublish (Some a) q =
    (let q1 = q\<lparr>publishAttempts := publishAttempts q + 1\<rparr>
     in if ring_len q1 < unat (capacity q1) then (publish_accept a q1, PublishAccepted)
        else (q1\<lparr>rejectedFull := rejectedFull q1 + 1\<rparr>, PublishFull))"
  using TryPublish_cases(2) [OF assms(1), of a] assms(2) ring_invD(2) [OF assms(1)] by (simp add: Let_def)

subsection \<open>The invariant\<close>

definition fw_flags :: "'s Flusher \<Rightarrow> run_state \<Rightarrow> run_pc \<Rightarrow> bool" where
  "fw_flags f r pc \<longleftrightarrow>
     (fl_started f \<longleftrightarrow> pc \<noteq> NotStarted) \<and> (fl_done f \<longleftrightarrow> pc = Ended) \<and> (fl_closed f \<longleftrightarrow> pc = Ended) \<and>
     (fl_stop f \<or> fl_abort f \<or> rn_closing r \<or> pc = Ended \<longrightarrow> q_closed (fl_queue f)) \<and>
     (rn_aborting r \<longrightarrow> rn_closing r \<and> fl_abort f \<and> pc \<in> {Select, Draining, Ended}) \<and> (pc = Draining \<longrightarrow> rn_aborting r) \<and> (rn_stopNil r \<longrightarrow> rn_closing r) \<and>
     (pc \<in> {NotStarted, Draining, Ended} \<longrightarrow> rn_pending r = []) \<and>
     1 \<le> fq_BatchSize (fl_config f) \<and> int (length (rn_pending r)) \<le> fq_BatchSize (fl_config f) \<and>
     (rn_retrying r \<longrightarrow> rn_pending r \<noteq> [] \<or> rn_aborting r) \<and> (pc = NotStarted \<longrightarrow> r = run_locals (fl_config f)) \<and>
     int (unat (fl_inFlight f)) \<le> fq_BatchSize (fl_config f) \<and>
     (pc \<in> {NotStarted, Select, Decide, Settle, Wait, Ended} \<or> pc = Consume \<and> rn_retrying r \<longrightarrow>
        fl_inFlight f = of_nat (length (rn_pending r)))"

definition fw_sink :: "('s \<Rightarrow> bytes) \<Rightarrow> ('s \<Rightarrow> (bytes list \<times> nat) option) \<Rightarrow> bytes \<Rightarrow> 's Flusher \<Rightarrow> run_state \<Rightarrow> run_pc \<Rightarrow>
    (nat \<times> bytes) list \<Rightarrow> (nat \<times> bytes) list \<Rightarrow> bool" where
  "fw_sink out pend base f r pc del abn \<longleftrightarrow>
     (if rn_aborting r \<and> pc \<in> {Draining, Ended}
      then \<exists>n. out (fl_sink f) = base @ concat (map snd del) @ take n (concat (map snd abn))
      else (\<not> rn_retrying r \<longrightarrow> pend (fl_sink f) = None) \<and> accepts pend (fl_sink f) (payloads (fl_pool f) (rn_pending r)) \<and>
        out (fl_sink f) = base @ concat (map snd del) @ take (start_of pend (fl_sink f)) (concat (payloads (fl_pool f) (rn_pending r))) \<and>
        abn = [])"

definition fw_good :: "('s \<Rightarrow> bytes) \<Rightarrow> ('s \<Rightarrow> (bytes list \<times> nat) option) \<Rightarrow> ('s \<Rightarrow> bool) \<Rightarrow> bytes \<Rightarrow> 's Flusher \<Rightarrow> run_state \<Rightarrow>
    run_pc \<Rightarrow> nat set \<Rightarrow> (nat \<times> bytes) list \<Rightarrow> (nat \<times> bytes) list \<Rightarrow> (nat \<times> bytes) list \<Rightarrow> bool" where
  "fw_good out pend ok base f r pc passed acc del abn \<longleftrightarrow>
     owner_inv (fl_pool f) (fl_queue f) (rn_pending r) passed (fst ` set (del @ abn)) \<and>
     acc = del @ abn @ entries (fl_pool f) (rn_pending r @ ring_items (fl_queue f)) \<and>
     fw_flags f r pc \<and> ok (fl_sink f) \<and> fw_sink out pend base f r pc del abn"

definition fw_inv :: "('s \<Rightarrow> bytes) \<Rightarrow> ('s \<Rightarrow> (bytes list \<times> nat) option) \<Rightarrow> ('s \<Rightarrow> bool) \<Rightarrow> bytes \<Rightarrow> 's fworld \<Rightarrow> bool" where
  "fw_inv out pend ok base w \<longleftrightarrow>
     fw_good out pend ok base (fw_flusher w) (fm_run (fw_mach w)) (fm_pc (fw_mach w)) (fw_passed w)
       (fw_accepted w) (fw_delivered w) (fw_abandoned w)"

lemma unat_of_nat_le: "unat (of_nat n :: u64) \<le> n"
  by (simp add: unat_of_nat take_bit_eq_mod)

lemma recordError_frame [simp]:
  "fl_queue (recordError e f) = fl_queue f" "fl_pool (recordError e f) = fl_pool f" "fl_sink (recordError e f) = fl_sink f"
  "fl_config (recordError e f) = fl_config f" "fl_started (recordError e f) = fl_started f" "fl_stop (recordError e f) = fl_stop f"
  "fl_abort (recordError e f) = fl_abort f" "fl_done (recordError e f) = fl_done f" "fl_closed (recordError e f) = fl_closed f"
  "fl_inFlight (recordError e f) = fl_inFlight f" "fl_cancelled (recordError e f) = fl_cancelled f"
  by (simp_all add: recordError_def split: option.splits)

lemma run_return_frame [simp]:
  "fl_queue (run_return e f) = fl_queue f" "fl_pool (run_return e f) = fl_pool f" "fl_sink (run_return e f) = fl_sink f"
  "fl_config (run_return e f) = fl_config f" "fl_started (run_return e f) = fl_started f" "fl_stop (run_return e f) = fl_stop f"
  "fl_abort (run_return e f) = fl_abort f" "fl_done (run_return e f)" "fl_closed (run_return e f)"
  "fl_inFlight (run_return e f) = fl_inFlight f"
  by (simp_all add: run_return_def setFinalError_def Let_def split: option.splits)

lemma run_locals_frame [simp]:
  "rn_pending (run_locals c) = []" "rn_retrying (run_locals c) = False" "rn_closing (run_locals c) = False"
  "rn_aborting (run_locals c) = False" "rn_stopNil (run_locals c) = False" "rn_backoff (run_locals c) = fq_RetryBackoff c"
  by (simp_all add: run_locals_def)

lemma fw_flags_cong:
  assumes "fw_flags f r pc" "fl_started f' = fl_started f" "fl_done f' = fl_done f" "fl_closed f' = fl_closed f"
    "fl_stop f' = fl_stop f" "fl_abort f' = fl_abort f" "q_closed (fl_queue f') = q_closed (fl_queue f)"
    "fl_config f' = fl_config f" "fl_inFlight f' = fl_inFlight f"
  shows "fw_flags f' r pc"
  using assms(1) unfolding fw_flags_def assms(2-9) .

subsection \<open>Steps of the flusher keep the invariant\<close>

lemma select_good:
  assumes "fw_good out pend ok base f r Select passed acc del abn"
  shows "let r1 = run_select pick f r in if rn_aborting r1
    then fw_good out pend ok base (abandon now (rn_pending r1) f) (r1\<lparr>rn_pending := []\<rparr>) Draining passed acc del
      (abn @ entries (fl_pool f) (rn_pending r))
    else fw_good out pend ok base f r1 Consume passed acc del abn"
proof -
  let ?r1 = "run_select pick f r"
  have r1: "rn_pending ?r1 = rn_pending r" "rn_retrying ?r1 = rn_retrying r"
    by (simp_all add: run_select_def Let_def take_abort_def take_stop_def)
  have cl: "rn_closing ?r1 \<longrightarrow> rn_closing r \<or> fl_stop f \<or> fl_abort f" "rn_aborting ?r1 \<longrightarrow> rn_closing ?r1"
    "rn_aborting r \<longrightarrow> rn_aborting ?r1" "rn_aborting ?r1 \<longrightarrow> fl_abort f"
    "rn_stopNil ?r1 \<longrightarrow> rn_closing ?r1"
    using assms by (auto simp: run_select_def Let_def take_abort_def take_stop_def fw_good_def fw_flags_def)
  have ow: "owner_inv (fl_pool f) (fl_queue f) (rn_pending r) passed (fst ` set (del @ abn))"
    and acc: "acc = del @ abn @ entries (fl_pool f) (rn_pending r @ ring_items (fl_queue f))"
    and fl: "fw_flags f r Select" and sk: "ok (fl_sink f)" "fw_sink out pend base f r Select del abn"
    using assms by (simp_all add: fw_good_def)
  show ?thesis
  proof (cases "rn_aborting ?r1")
    case True
    obtain p' where p': "abandon now (rn_pending r) f = f\<lparr>fl_pool := p'\<rparr>"
      "owner_inv p' (fl_queue f) [] passed (fst ` set (del @ abn) \<union> set (rn_pending r))"
      "entries p' (ring_items (fl_queue f)) = entries (fl_pool f) (ring_items (fl_queue f))"
      using owner_release [OF ow, of now 0] by auto
    have "fst ` set (del @ abn @ entries (fl_pool f) (rn_pending r)) = fst ` set (del @ abn) \<union> set (rn_pending r)"
      by (simp add: image_Un Un_assoc)
    moreover have "fw_flags (f\<lparr>fl_pool := p'\<rparr>) (?r1\<lparr>rn_pending := []\<rparr>) Draining"
      using fl cl True by (auto simp: fw_flags_def)
    moreover have "fw_sink out pend base (f\<lparr>fl_pool := p'\<rparr>) (?r1\<lparr>rn_pending := []\<rparr>) Draining del (abn @ entries (fl_pool f) (rn_pending r))"
      using sk True by (auto simp: fw_sink_def)
    ultimately show ?thesis
      using p' acc sk True unfolding Let_def by (simp add: fw_good_def r1)
  next
    case False
    have "fw_flags f ?r1 Consume" using fl cl False r1 by (auto simp: fw_flags_def)
    moreover have "fw_sink out pend base f ?r1 Consume del abn" using sk r1 by (auto simp: fw_sink_def)
    ultimately show ?thesis using ow acc sk False unfolding Let_def by (simp add: fw_good_def r1)
  qed
qed

lemma consume_good:
  assumes "fw_good out pend ok base f r Consume passed acc del abn" "run_consume now f r = (f', r', going)"
  shows "fw_good out pend ok base f' r' (if going then Consume else Decide) passed acc del abn"
proof -
  have ow: "owner_inv (fl_pool f) (fl_queue f) (rn_pending r) passed (fst ` set (del @ abn))"
    and acc: "acc = del @ abn @ entries (fl_pool f) (rn_pending r @ ring_items (fl_queue f))"
    and fl: "fw_flags f r Consume" and sk: "ok (fl_sink f)" "fw_sink out pend base f r Consume del abn"
    using assms by (simp_all add: fw_good_def)
  let ?g = "f\<lparr>fl_inFlight := of_nat (length (rn_pending r))\<rparr>"
  have len: "int (length (rn_pending r)) \<le> fq_BatchSize (fl_config f)" using fl by (simp add: fw_flags_def)
  have le: "int (unat (of_nat (length (rn_pending r)) :: u64)) \<le> fq_BatchSize (fl_config f)"
    using unat_of_nat_le [of "length (rn_pending r)"] len by linarith
  have stay: "fw_good out pend ok base f r Decide passed acc del abn" if "rn_retrying r"
    using ow acc fl sk that by (auto simp: fw_good_def fw_sink_def fw_flags_def)
  have settle: "fw_good out pend ok base ?g r Decide passed acc del abn"
    using ow acc fl sk le by (auto simp: fw_good_def fw_sink_def fw_flags_def)
  show ?thesis
  proof (cases "rn_retrying r \<or> \<not> int (length (rn_pending r)) < fq_BatchSize (fl_config f)")
    case True
    then show ?thesis using stay settle assms(2) by (auto simp: run_consume_def Let_def split: if_splits)
  next
    case False
    show ?thesis
    proof (cases "ring_items (fl_queue f)")
      case Nil
      then have "TryConsume (fl_queue f) = (fl_queue f, None)" using TryConsume_cases [OF owner_invD(1) [OF ow]] by simp
      then show ?thesis using settle False assms(2) by (auto simp: run_consume_def Let_def)
    next
      case (Cons a rest)
      have tc: "TryConsume (fl_queue f) = (consume_accept (fl_queue f), Some a)"
        using TryConsume_cases [OF owner_invD(1) [OF ow]] Cons by simp
      obtain p e where m: "MarkInFlight (Some a) (fl_pool f) = (p, e)" by fastforce
      note O = owner_consume [OF ow Cons m]
      let ?f1 = "recordError (map_option PoolErr e) (f\<lparr>fl_queue := consume_accept (fl_queue f), fl_pool := p\<rparr>)"
      have f': "f' = ?f1" "rn_pending r' = rn_pending r @ [a]" "going" "rn_retrying r' = rn_retrying r" "rn_stopNil r' = rn_stopNil r"
        "rn_closing r' = rn_closing r" "rn_aborting r' = rn_aborting r"
        using assms(2) False tc m O(2) by (auto simp: run_consume_def Let_def)
      have "fw_flags ?f1 r' Consume" using fl False f' by (auto simp: fw_flags_def)
      moreover have "fw_sink out pend base ?f1 r' Consume del abn"
        using sk(2) f' False by (simp add: fw_sink_def accepts_def start_of_def)
      moreover have "acc = del @ abn @ entries p ((rn_pending r @ [a]) @ rest)" using acc Cons O(3) by simp
      ultimately show ?thesis using O(1,5) sk(1) f' by (simp add: fw_good_def)
    qed
  qed
qed

lemma fw_goodD:
  assumes "fw_good out pend ok base f r pc passed acc del abn"
  shows "owner_inv (fl_pool f) (fl_queue f) (rn_pending r) passed (fst ` set (del @ abn))"
    "acc = del @ abn @ entries (fl_pool f) (rn_pending r @ ring_items (fl_queue f))"
    "fw_flags f r pc" "ok (fl_sink f)" "fw_sink out pend base f r pc del abn"
  using assms by (simp_all add: fw_good_def)

lemma wait_good:
  assumes "fw_good out pend ok base f r Wait passed acc del abn" "run_wait wk f r = Some r'"
  shows "fw_good out pend ok base f r' Select passed acc del abn"
proof -
  note G = fw_goodD [OF assms(1)]
  have r': "rn_pending r' = rn_pending r" "rn_retrying r' = rn_retrying r"
    "rn_closing r' \<longrightarrow> rn_closing r \<or> fl_stop f \<or> fl_abort f" "rn_aborting r' \<longrightarrow> rn_closing r' \<and> fl_abort f" "rn_stopNil r' \<longrightarrow> rn_closing r'"
    using assms(2) G(3) by (auto simp: run_wait_def take_abort_def take_stop_def fw_flags_def split: wake.splits if_splits)
  have "fw_flags f r' Select" using G(3) r' by (auto simp: fw_flags_def)
  moreover have "fw_sink out pend base f r' Select del abn" using G(5) r' by (simp add: fw_sink_def)
  ultimately show ?thesis using G r' by (simp add: fw_good_def)
qed

lemma drain_one_good:
  assumes "fw_good out pend ok base f r Draining passed acc del abn" "ring_items (fl_queue f) = a # rest"
    "f' = fst (release_lease now a (f\<lparr>fl_queue := consume_accept (fl_queue f), fl_pool := fst (MarkInFlight (Some a) (fl_pool f))\<rparr>))"
  shows "fw_good out pend ok base f' r Draining passed acc del (abn @ entries (fl_pool f) [a])"
proof -
  note G = fw_goodD [OF assms(1)]
  have pend: "rn_pending r = []" using G(3) by (simp add: fw_flags_def)
  obtain p e where m: "MarkInFlight (Some a) (fl_pool f) = (p, e)" by fastforce
  note O = owner_consume [OF G(1) assms(2) m, unfolded pend append_Nil]
  let ?f1 = "f\<lparr>fl_queue := consume_accept (fl_queue f), fl_pool := p\<rparr>"
  obtain p' where p': "abandon now [a] ?f1 = ?f1\<lparr>fl_pool := p'\<rparr>"
    "owner_inv p' (consume_accept (fl_queue f)) [] passed (fst ` set (del @ abn) \<union> set [a])"
    "entries p' rest = entries p rest"
    using owner_release [of ?f1 "consume_accept (fl_queue f)" "[a]" passed _ now 0] O(1,5) by auto
  have f': "f' = ?f1\<lparr>fl_pool := p'\<rparr>" using assms(3) p'(1) m by (simp add: abandon_def)
  have "fw_flags f' r Draining" using G(3) by (simp add: f' fw_flags_def)
  moreover have "fw_sink out pend base f' r Draining del (abn @ entries (fl_pool f) [a])"
  proof -
    obtain n where "out (fl_sink f) = base @ concat (map snd del) @ take n (concat (map snd abn))"
      using G(3,5) by (auto simp: fw_sink_def fw_flags_def)
    then have "out (fl_sink f) = base @ concat (map snd del) @
        take (min n (length (concat (map snd abn)))) (concat (map snd (abn @ entries (fl_pool f) [a])))"
      by (simp add: min_def)
    then have "\<exists>k. out (fl_sink f) = base @ concat (map snd del) @ take k (concat (map snd (abn @ entries (fl_pool f) [a])))"
      by (rule exI)
    moreover have "fl_sink f' = fl_sink f" by (simp add: f')
    ultimately show ?thesis using G(3) unfolding fw_sink_def fw_flags_def by simp
  qed
  moreover have "fst ` set (del @ abn @ entries (fl_pool f) [a]) = fst ` set (del @ abn) \<union> set [a]" by auto
  moreover have "entries (fl_pool f) (a # rest) = entries (fl_pool f) [a] @ entries p' rest"
    using O(3) p'(3) by simp
  ultimately show ?thesis using G(2,4) O(5) p'(2) assms(2) unfolding fw_good_def by (simp add: f' pend)
qed

lemma flush_done_frame:
  assumes "owner_inv (fl_pool f) (fl_queue f) (rn_pending r) passed gone" "flush_done now f r = (f', r')"
  shows "owner_inv (fl_pool f') (fl_queue f) [] passed (gone \<union> set (rn_pending r))"
    "entries (fl_pool f') (ring_items (fl_queue f)) = entries (fl_pool f) (ring_items (fl_queue f))"
    "fl_queue f' = fl_queue f" "fl_sink f' = fl_sink f" "fl_config f' = fl_config f" "fl_started f' = fl_started f"
    "fl_done f' = fl_done f" "fl_closed f' = fl_closed f" "fl_stop f' = fl_stop f" "fl_abort f' = fl_abort f"
    "fl_inFlight f' = 0" "rn_pending r' = []" "\<not> rn_retrying r'" "rn_closing r' = rn_closing r" "rn_aborting r' = rn_aborting r"
    "rn_stopNil r' = rn_stopNil r"
proof -
  obtain p' k where p': "fold (deliver_one now) (rn_pending r) (f, 0) = (f\<lparr>fl_pool := p'\<rparr>, k)"
    "owner_inv p' (fl_queue f) [] passed (gone \<union> set (rn_pending r))"
    "entries p' (ring_items (fl_queue f)) = entries (fl_pool f) (ring_items (fl_queue f))"
    using owner_release [OF assms(1), of now 0] by blast
  show "owner_inv (fl_pool f') (fl_queue f) [] passed (gone \<union> set (rn_pending r))"
    "entries (fl_pool f') (ring_items (fl_queue f)) = entries (fl_pool f) (ring_items (fl_queue f))"
    "fl_queue f' = fl_queue f" "fl_sink f' = fl_sink f" "fl_config f' = fl_config f" "fl_started f' = fl_started f"
    "fl_done f' = fl_done f" "fl_closed f' = fl_closed f" "fl_stop f' = fl_stop f" "fl_abort f' = fl_abort f"
    "fl_inFlight f' = 0" "rn_pending r' = []" "\<not> rn_retrying r'" "rn_closing r' = rn_closing r" "rn_aborting r' = rn_aborting r"
    "rn_stopNil r' = rn_stopNil r"
    using assms(2) p' by (auto simp: flush_done_def clearLastError_def)
qed

context batch_sink
begin

lemma settle_good:
  assumes "fw_good out pend ok base f r Settle passed acc del abn" "bs_Flush bs = fl" "bs_Close bs = cl" "step_settle bs env f r = Some f'"
  shows "fw_good out pend ok base f' r Ended passed acc del abn"
proof -
  note G = fw_goodD [OF assms(1)]
  obtain s1 e1 where s1: "fl (rv_flushAnswer env) (fl_sink f) = (s1, e1)" by fastforce
  obtain s2 e2 where s2: "cl (rv_closeAnswer env) s1 = (s2, e2)" by fastforce
  have f': "f' = run_return (errors_Join [e1, e2]) (f\<lparr>fl_sink := s2\<rparr>)" and en: "rn_closing r" "rn_pending r = []"
    using assms(2-4) s1 s2 by (auto simp: step_settle_def split: if_splits)
  have s: "out s2 = out (fl_sink f)" "pend s2 = pend (fl_sink f)" "ok s2"
    using fl_quiet [OF s1] cl_quiet [OF s2] G(4) by auto
  have "fw_flags f' r Ended" using G(3) en by (auto simp: f' fw_flags_def)
  moreover have "fw_sink out pend base f' r Ended del abn"
    using G(3,5) s by (auto simp: fw_sink_def f' accepts_def start_of_def fw_flags_def)
  ultimately show ?thesis using G s by (simp add: fw_good_def f')
qed

lemma draining_good:
  assumes "fw_good out pend ok base f r Draining passed acc del abn" "bs_Close bs = cl" "step_draining bs env f = (f', going)"
  shows "fw_good out pend ok base f' r (if going then Draining else Ended) passed acc del
    (abn @ (case snd (TryConsume (fl_queue f)) of None \<Rightarrow> [] | Some a \<Rightarrow> entries (fl_pool f) [a]))"
proof -
  note G = fw_goodD [OF assms(1)]
  note T = TryConsume_cases [OF owner_invD(1) [OF G(1)]]
  show ?thesis
  proof (cases "ring_items (fl_queue f)")
    case Nil
    obtain s e where s: "cl (rv_closeAnswer env) (fl_sink f) = (s, e)" by fastforce
    have f': "f' = run_return (map_option SinkErr e) (f\<lparr>fl_inFlight := 0, fl_sink := s\<rparr>)" "\<not> going"
      using assms(2,3) Nil T s by (auto simp: step_draining_def)
    have q: "out s = out (fl_sink f)" "ok s" using cl_quiet [OF s] G(4) by auto
    have "fw_flags f' r Ended" using G(3) by (auto simp: f'(1) fw_flags_def)
    moreover have "fw_sink out pend base f' r Ended del abn" using G(3,5) q by (auto simp: fw_sink_def f'(1) fw_flags_def)
    ultimately show ?thesis using G q T Nil f'(2) by (simp add: fw_good_def f'(1))
  next
    case (Cons a rest)
    then have "f' = fst (release_lease (rv_now env) a (f\<lparr>fl_queue := consume_accept (fl_queue f), fl_pool := fst (MarkInFlight (Some a) (fl_pool f))\<rparr>))"
      "going" using assms(3) T by (auto simp: step_draining_def)
    then show ?thesis using drain_one_good [OF assms(1) Cons] T Cons by simp
  qed
qed

lemma flush_good:
  assumes good: "fw_good out pend ok base f r Decide passed acc del abn" and wr: "bs_WriteBatch bs = wr"
    and run: "run_flush bs e f r = Some (f', r', again)"
  shows "fw_good out pend ok base f' r' (if again then Select else Settle) passed acc
    (del @ (if again then entries (fl_pool f) (rn_pending r) else [])) abn"
proof (cases "should_flush (fe_now e) f r")
  case False
  then show ?thesis
    using run fw_goodD [OF good] by (auto simp: run_flush_def fw_good_def fw_flags_def fw_sink_def)
next
  case True
  note G = fw_goodD [OF good]
  let ?pl = "payloads (fl_pool f) (rn_pending r)"
  have nab: "\<not> rn_aborting r" using G(3) by (auto simp: fw_flags_def)
  have ne: "rn_pending r \<noteq> []" using True by (simp add: should_flush_def)
  have acc: "accepts pend (fl_sink f) ?pl" and abn: "abn = []"
    and out: "out (fl_sink f) = base @ concat (map snd del) @ take (start_of pend (fl_sink f)) (concat ?pl)"
    using G(5) nab by (auto simp: fw_sink_def)
  obtain s err where w: "wr (fe_sink e) ?pl (fl_sink f) = Some (s, err)"
    using run True wr by (auto simp: run_flush_def Let_def split: option.splits)
  have ok: "ok s" using keeps [OF G(4) w] .
  let ?f1 = "if rn_retrying r then f\<lparr>fl_retries := fl_retries f + 1\<rparr> else f"
  define f2 where "f2 = ?f1\<lparr>fl_sink := s, fl_lastFlushNanos := fe_nanos e, fl_totalFlushNanos := fl_totalFlushNanos ?f1 + fe_nanos e\<rparr>"
  have f2: "fl_pool f2 = fl_pool f" "fl_queue f2 = fl_queue f" "fl_config f2 = fl_config f" "fl_started f2 = fl_started f"
    "fl_done f2 = fl_done f" "fl_closed f2 = fl_closed f" "fl_stop f2 = fl_stop f" "fl_abort f2 = fl_abort f"
    "fl_inFlight f2 = fl_inFlight f" "fl_sink f2 = s" by (simp_all add: f2_def)
  show ?thesis
  proof (cases err)
    case None
    obtain f3 r3 where d: "flush_done (fe_release e) f2 r = (f3, r3)" by fastforce
    have eq: "f' = f3" "r' = r3" "again" using run True wr w None d by (simp_all add: run_flush_def Let_def f2_def)
    have "owner_inv (fl_pool f2) (fl_queue f2) (rn_pending r) passed (fst ` set (del @ abn))" using G(1) f2 by simp
    note D = flush_done_frame [OF this d, unfolded f2]
    have out': "out s = base @ concat (map snd del) @ concat ?pl" "pend s = None"
      using finish [OF G(4) acc w [unfolded None]] out by simp_all
    have "fw_flags f3 r3 Select" using G(3) D nab by (auto simp: fw_flags_def)
    moreover have "fw_sink out pend base f3 r3 Select (del @ entries (fl_pool f) (rn_pending r)) abn"
      using D nab out' abn by (simp add: fw_sink_def accepts_def start_of_def payloads_def)
    moreover have "fst ` set ((del @ entries (fl_pool f) (rn_pending r)) @ abn) = fst ` set (del @ abn) \<union> set (rn_pending r)"
      using abn by (simp add: image_Un)
    ultimately show ?thesis using G(2) D ok eq abn by (simp add: fw_good_def)
  next
    case (Some x)
    obtain m where m: "out s = out (fl_sink f) @ take m (drop (start_of pend (fl_sink f)) (concat ?pl))"
      "pend s = Some (?pl, start_of pend (fl_sink f) + m) \<or> m = 0 \<and> pend s = pend (fl_sink f)"
      using partial [OF G(4) acc w [unfolded Some]] by blast
    have eq: "f' = fst (flush_failed x (fe_after e) f2 r)" "r' = snd (flush_failed x (fe_after e) f2 r)" "\<not> again"
      using run True wr w Some by (auto simp: run_flush_def Let_def f2_def split: prod.splits)
    have out': "out s = base @ concat (map snd del) @ take (start_of pend s) (concat ?pl)" "accepts pend s ?pl"
    proof -
      have "start_of pend s = start_of pend (fl_sink f) + m" "accepts pend s ?pl"
        using m(2) acc by (auto simp: start_of_def accepts_def)
      then show "out s = base @ concat (map snd del) @ take (start_of pend s) (concat ?pl)" "accepts pend s ?pl"
        using m(1) out by (simp_all add: take_add)
    qed
    have "fw_flags f' r' Settle" using G(3) f2 ne by (auto simp: eq flush_failed_def fw_flags_def)
    moreover have "fw_sink out pend base f' r' Settle del abn"
      using out' nab abn f2 by (simp add: eq flush_failed_def fw_sink_def)
    ultimately show ?thesis using G ok f2 eq(3) by (simp add: fw_good_def eq(1,2) flush_failed_def)
  qed
qed

lemma run_step_inv:
  assumes "fw_inv out pend ok base w" "bs_WriteBatch bs = wr" "bs_Flush bs = fl" "bs_Close bs = cl"
    "run_step bs env (fw_mach w) = Some m'"
  shows "fw_inv out pend ok base (w\<lparr>fw_mach := m', fw_delivered := fw_delivered w @ newly_delivered (fw_mach w) m',
      fw_abandoned := fw_abandoned w @ newly_abandoned (fw_mach w) m'\<rparr>)"
proof -
  let ?f = "fw_flusher w" and ?r = "fm_run (fw_mach w)"
  have g: "fw_good out pend ok base ?f ?r (fm_pc (fw_mach w)) (fw_passed w) (fw_accepted w) (fw_delivered w) (fw_abandoned w)"
    using assms(1) by (simp add: fw_inv_def)
  show ?thesis
  proof (cases "fm_pc (fw_mach w)")
    case Select
    have "rn_pending (run_select (rv_pick env) ?f ?r) = rn_pending ?r"
      by (simp add: run_select_def Let_def take_abort_def take_stop_def)
    then show ?thesis
      using select_good [OF g [unfolded Select], of "rv_pick env" "rv_now env"] assms(5) Select
      by (auto simp: run_step_def Let_def fw_inv_def newly_delivered_def newly_abandoned_def split: if_splits)
  next
    case Draining
    obtain f1 going where d: "step_draining bs env ?f = (f1, going)" by fastforce
    then have m': "m' = \<lparr>fm_flusher = f1, fm_run = ?r, fm_pc = (if going then Draining else Ended)\<rparr>"
      using assms(5) Draining by (simp add: run_step_def)
    show ?thesis
      using draining_good [OF g [unfolded Draining] assms(4) d] Draining
      by (simp add: m' fw_inv_def newly_delivered_def newly_abandoned_def)
  next
    case Consume
    obtain f1 r1 going where c: "run_consume (rv_now env) ?f ?r = (f1, r1, going)" by (metis prod_cases3)
    then have m': "m' = \<lparr>fm_flusher = f1, fm_run = r1, fm_pc = (if going then Consume else Decide)\<rparr>"
      using assms(5) Consume by (simp add: run_step_def)
    show ?thesis
      using consume_good [OF g [unfolded Consume] c] Consume
      by (simp add: m' fw_inv_def newly_delivered_def newly_abandoned_def)
  next
    case Decide
    then obtain f1 r1 again where c: "run_flush bs (rv_flush env) ?f ?r = Some (f1, r1, again)"
      and m': "m' = \<lparr>fm_flusher = f1, fm_run = r1, fm_pc = (if again then Select else Settle)\<rparr>"
      using assms(5) by (auto simp: run_step_def split: option.splits)
    show ?thesis
      using flush_good [OF g [unfolded Decide] assms(2) c] Decide
      by (cases again) (simp_all add: m' fw_inv_def newly_delivered_def newly_abandoned_def)
  next
    case Settle
    show ?thesis
    proof (cases "step_settle bs env ?f ?r")
      case None
      have "fw_good out pend ok base ?f ?r Wait (fw_passed w) (fw_accepted w) (fw_delivered w) (fw_abandoned w)"
        using fw_goodD [OF g [unfolded Settle]] by (auto simp: fw_good_def fw_flags_def fw_sink_def)
      then show ?thesis using assms(5) None Settle by (auto simp: run_step_def fw_inv_def newly_delivered_def newly_abandoned_def)
    next
      case (Some f1)
      then show ?thesis
        using settle_good [OF g [unfolded Settle] assms(3,4) Some] assms(5) Settle
        by (auto simp: run_step_def fw_inv_def newly_delivered_def newly_abandoned_def)
    qed
  next
    case Wait
    then obtain r1 where c: "run_wait (rv_wake env) ?f ?r = Some r1" and m': "m' = \<lparr>fm_flusher = ?f, fm_run = r1, fm_pc = Select\<rparr>"
      using assms(5) by (auto simp: run_step_def Let_def split: option.splits)
    show ?thesis
      using wait_good [OF g [unfolded Wait] c] Wait by (simp add: m' fw_inv_def newly_delivered_def newly_abandoned_def)
  qed (use assms(5) in \<open>auto simp: run_step_def\<close>)
qed

end

subsection \<open>Steps of the others keep the invariant\<close>

lemma close_inv:
  assumes "fw_inv out pend ok base w"
  shows "fw_inv out pend ok base (w\<lparr>fw_mach := flusher_Start (fw_mach w)\<rparr>)"
    "fw_inv out pend ok base (w\<lparr>fw_mach := close_queue (fw_mach w)\<rparr>)"
proof -
  let ?f = "fw_flusher w" and ?r = "fm_run (fw_mach w)" and ?pc = "fm_pc (fw_mach w)"
  note G = fw_goodD [OF assms [unfolded fw_inv_def]]
  have start: "fw_inv out pend ok base (w\<lparr>fw_mach := flusher_Start (fw_mach w)\<rparr>)" if "fw_inv out pend ok base w" for w :: "'a fworld"
  proof (cases "fl_started (fw_flusher w)")
    case True
    then show ?thesis using that by (simp add: flusher_Start_def)
  next
    case False
    note G = fw_goodD [OF that [unfolded fw_inv_def]]
    have pc: "fm_pc (fw_mach w) = NotStarted" and r: "fm_run (fw_mach w) = run_locals (fl_config (fw_flusher w))"
      using G(3) False by (auto simp: fw_flags_def)
    have "fw_flags ((fw_flusher w)\<lparr>fl_started := True, fl_running := True\<rparr>) (run_locals (fl_config (fw_flusher w))) Select"
      using G(3) pc r by (auto simp: fw_flags_def run_locals_def)
    moreover have "fw_sink out pend base ((fw_flusher w)\<lparr>fl_started := True, fl_running := True\<rparr>) (run_locals (fl_config (fw_flusher w))) Select
        (fw_delivered w) (fw_abandoned w)"
      using G(5) pc r by (simp add: fw_sink_def)
    ultimately show ?thesis using G False r unfolding fw_inv_def by (simp add: flusher_Start_def fw_good_def)
  qed
  show "fw_inv out pend ok base (w\<lparr>fw_mach := flusher_Start (fw_mach w)\<rparr>)" by (rule start [OF assms])
  then have "fw_inv out pend ok base (w\<lparr>fw_mach := flusher_Start (fw_mach w)\<rparr>)" .
  then show "fw_inv out pend ok base (w\<lparr>fw_mach := close_queue (fw_mach w)\<rparr>)"
    unfolding fw_inv_def by (simp add: close_queue_def Let_def ring_Close_def fw_good_def fw_flags_def fw_sink_def owner_inv_def)
qed

lemma stop_inv:
  assumes "fw_inv out pend ok base w" "q_closed (fl_queue (fw_flusher w))"
  shows "fw_inv out pend ok base (w\<lparr>fw_mach := close_stop (fw_mach w)\<rparr>)"
    "fw_inv out pend ok base (w\<lparr>fw_mach := fst (close_timeout cause (fw_mach w))\<rparr>)"
  using assms by (simp_all add: fw_inv_def close_stop_def close_timeout_def Let_def fw_good_def fw_flags_def fw_sink_def)

text \<open>A step that changes the queue or the pool only.\<close>

lemma shared_inv:
  assumes "fw_inv out pend ok base w" "f' = (fw_flusher w)\<lparr>fl_queue := q, fl_pool := p\<rparr>" "q_closed q = q_closed (fl_queue (fw_flusher w))"
    "owner_inv p q (rn_pending (fm_run (fw_mach w))) passed (fst ` set (fw_delivered w @ fw_abandoned w))"
    "entries p (rn_pending (fm_run (fw_mach w)) @ ring_items q) =
       entries (fl_pool (fw_flusher w)) (rn_pending (fm_run (fw_mach w)) @ ring_items (fl_queue (fw_flusher w))) @ new"
    "payloads p (rn_pending (fm_run (fw_mach w))) = payloads (fl_pool (fw_flusher w)) (rn_pending (fm_run (fw_mach w)))"
  shows "fw_inv out pend ok base ((with_flusher f' w)\<lparr>fw_passed := passed, fw_accepted := fw_accepted w @ new\<rparr>)"
proof -
  note G = fw_goodD [OF assms(1) [unfolded fw_inv_def]]
  have "fw_flags f' (fm_run (fw_mach w)) (fm_pc (fw_mach w))"
    by (rule fw_flags_cong [OF G(3)]) (simp_all add: assms(2,3))
  moreover have "fw_sink out pend base f' (fm_run (fw_mach w)) (fm_pc (fw_mach w)) (fw_delivered w) (fw_abandoned w)"
    using G(5) assms(6) by (simp add: fw_sink_def assms(2))
  ultimately show ?thesis
    using G(2,4) assms(4,5) unfolding fw_inv_def with_flusher_def fw_good_def by (simp add: assms(2))
qed

lemma fworld_same:
  "w\<lparr>fw_mach := m, fw_passed := fw_passed w, fw_accepted := fw_accepted w @ []\<rparr> = w\<lparr>fw_mach := m\<rparr>"
  "w\<lparr>fw_mach := m, fw_passed := s, fw_accepted := fw_accepted w @ []\<rparr> = w\<lparr>fw_mach := m, fw_passed := s\<rparr>"
  by simp_all

lemma owner_passed:
  assumes "owner_inv p q pending passed gone"
  shows "a \<in> passed \<Longrightarrow> owner_inv p q pending (passed - {a}) gone"
    "\<lbrakk>a < length (p_leases p); l_state (p_leases p ! a) = StateQueued; a \<notin> set (pending @ ring_items q) \<union> passed\<rbrakk> \<Longrightarrow>
       owner_inv p q pending (insert a passed) gone"
    "a \<in> passed \<Longrightarrow> ring_len q < unat (capacity q) \<Longrightarrow> owner_inv p (publish_accept a q) pending (passed - {a}) gone"
proof -
  show "a \<in> passed \<Longrightarrow> owner_inv p q pending (passed - {a}) gone" using assms by (auto simp: owner_inv_def)
  show "\<lbrakk>a < length (p_leases p); l_state (p_leases p ! a) = StateQueued; a \<notin> set (pending @ ring_items q) \<union> passed\<rbrakk> \<Longrightarrow>
       owner_inv p q pending (insert a passed) gone"
    using assms by (auto simp: owner_inv_def)
  show "owner_inv p (publish_accept a q) pending (passed - {a}) gone" if "a \<in> passed" "ring_len q < unat (capacity q)"
    using assms that ring_inv_publish_accept [OF owner_invD(1) [OF assms] that(2)]
      ring_items_publish_accept [OF owner_invD(1) [OF assms] that(2)]
    by (auto simp: owner_inv_def)
qed

lemma owner_counters:
  assumes "owner_inv p q pending passed gone"
  shows "owner_inv p (q\<lparr>publishAttempts := n\<rparr>) pending passed gone" "owner_inv p (q\<lparr>rejectedFull := n\<rparr>) pending passed gone"
    "owner_inv p (q\<lparr>rejectedClosed := n\<rparr>) pending passed gone"
  using assms by (simp_all add: owner_inv_def)

context batch_sink
begin

lemma fw_step_inv:
  assumes "fw_step bs w w'" "fw_inv out pend ok base w" "bs_WriteBatch bs = wr" "bs_Flush bs = fl" "bs_Close bs = cl"
  shows "fw_inv out pend ok base w'"
  using assms(1)
proof cases
  case (fw_run env m')
  show ?thesis unfolding fw_run(1) by (rule run_step_inv [OF assms(2-5) fw_run(2)])
next
  case fw_start
  then show ?thesis using close_inv(1) [OF assms(2)] by simp
next
  case fw_close
  then show ?thesis using close_inv(2) [OF assms(2)] by simp
next
  case fw_stop
  then show ?thesis using stop_inv(1) [OF assms(2)] by simp
next
  case (fw_timeout cause)
  then have "q_closed (fl_queue (fw_flusher w))" using assms(2) by (simp add: fw_inv_def fw_good_def fw_flags_def)
  then show ?thesis using stop_inv(2) [OF assms(2)] fw_timeout by simp
next
  case (fw_pool p')
  note G = fw_goodD [OF assms(2) [unfolded fw_inv_def]]
  note R = owner_rely [OF G(1) fw_pool(2) [unfolded fw_owned_def]]
  show ?thesis
    using shared_inv [where new = "[]", OF assms(2) refl refl R(1)] R(2,3) by (simp add: fw_pool(1) with_flusher_def)
next
  case (fw_check a)
  note G = fw_goodD [OF assms(2) [unfolded fw_inv_def]]
  note O = owner_counters(1) [OF owner_passed(2) [OF G(1) fw_check(3,4) fw_check(5) [unfolded fw_owned_def]]]
  show ?thesis
    using shared_inv [where new = "[]", OF assms(2) refl _ O] by (simp add: fw_check(1) with_flusher_def)
next
  case (fw_claim a)
  note G = fw_goodD [OF assms(2) [unfolded fw_inv_def]]
  note O = owner_passed(3) [OF G(1) fw_claim(2,3)]
  show ?thesis
    using shared_inv [where new = "entries (fl_pool (fw_flusher w)) [a]", OF assms(2) refl _ O]
      ring_items_publish_accept [OF owner_invD(1) [OF G(1)] fw_claim(3)]
    by (simp add: fw_claim(1) with_flusher_def)
next
  case (fw_full a)
  note G = fw_goodD [OF assms(2) [unfolded fw_inv_def]]
  note O = owner_counters(2) [OF owner_passed(1) [OF G(1) fw_full(2)]]
  show ?thesis
    using shared_inv [where new = "[]", OF assms(2) refl _ O] by (simp add: fw_full(1) with_flusher_def)
next
  case (fw_refused a)
  note G = fw_goodD [OF assms(2) [unfolded fw_inv_def]]
  note O = owner_counters(3) [OF owner_passed(1) [OF G(1) fw_refused(2)]]
  show ?thesis
    using shared_inv [where new = "[]", OF assms(2) refl _ O] by (simp add: fw_refused(1) with_flusher_def)
qed

lemma fw_steps_inv:
  assumes "fw_steps bs w w'" "fw_inv out pend ok base w" "bs_WriteBatch bs = wr" "bs_Flush bs = fl" "bs_Close bs = cl"
  shows "fw_inv out pend ok base w'"
  using assms(1,2) by (induction rule: rtranclp_induct) (auto intro: fw_step_inv assms(3-5))

lemma world_of_inv:
  assumes "flusher_New (Some q) (Some p) (Some s) config = Inr f" "ring_inv q" "ring_items q = []" "pool_inv p" "ok s" "pend s = None"
  shows "fw_inv out pend ok (out s) (world_of f)"
proof -
  obtain c where c: "flusher_normalized config = Inr c" and f: "fl_queue f = q" "fl_pool f = p" "fl_sink f = s" "fl_config f = c"
    "\<not> fl_started f" "\<not> fl_stop f" "\<not> fl_abort f" "\<not> fl_done f" "\<not> fl_closed f" "fl_inFlight f = 0"
    using assms(1) by (auto simp: flusher_New_def split: sum.splits)
  have "1 \<le> fq_BatchSize c" using c by (auto simp: flusher_normalized_def Let_def split: if_splits)
  then have "fw_flags f (run_locals c) NotStarted" using f by (simp add: fw_flags_def run_locals_def)
  moreover have "fw_sink out pend (out s) f (run_locals c) NotStarted [] []"
    using f assms(6) by (simp add: fw_sink_def run_locals_def accepts_def start_of_def payloads_def)
  moreover have "owner_inv p q [] {} {}" using assms(2-4) by (simp add: owner_inv_def)
  ultimately show ?thesis using f assms(3,5) by (simp add: fw_inv_def world_of_def fw_good_def run_locals_def)
qed

end

subsection \<open>After the end\<close>

lemma release_lease_frame [simp]:
  "fl_config (fst (release_lease now a f)) = fl_config f" "fl_queue (fst (release_lease now a f)) = fl_queue f"
  by (simp_all add: release_lease_def split: prod.splits)

lemma abandon_frame [simp]:
  "fl_config (abandon now as f) = fl_config f" "fl_queue (abandon now as f) = fl_queue f"
  unfolding abandon_def by (induction as arbitrary: f) simp_all

lemma deliver_fold_frame:
  "fl_config (fst (fold (deliver_one now) as (f, n))) = fl_config f \<and> fl_queue (fst (fold (deliver_one now) as (f, n))) = fl_queue f"
proof (induction as arbitrary: f n)
  case (Cons a as)
  obtain f1 n1 where d: "deliver_one now a (f, n) = (f1, n1)" by fastforce
  then have "fl_config f1 = fl_config f" "fl_queue f1 = fl_queue f"
    by (auto simp: deliver_one_def release_lease_def split: prod.splits)
  then show ?case using Cons.IH d by simp
qed simp

lemma run_flush_frame:
  fixes f :: "'s Flusher"
  assumes "run_flush bs e f r = Some (f', r', again)"
  shows "fl_queue f' = fl_queue f" "fl_config f' = fl_config f"
proof -
  have d: "fl_queue (fst (flush_done now g r)) = fl_queue g \<and> fl_config (fst (flush_done now g r)) = fl_config g" for now and g :: "'s Flusher"
    using deliver_fold_frame [of now "rn_pending r" g 0] by (simp add: flush_done_def clearLastError_def split_beta)
  have "fl_queue f' = fl_queue f \<and> fl_config f' = fl_config f"
  proof (cases "should_flush (fe_now e) f r")
    case True
    then obtain s err where w: "bs_WriteBatch bs (fe_sink e) (payloads (fl_pool f) (rn_pending r)) (fl_sink f) = Some (s, err)"
      using assms by (auto simp: run_flush_def Let_def split: option.splits)
    show ?thesis
    proof (cases err)
      case None
      obtain g where "fl_queue g = fl_queue f" "fl_config g = fl_config f" "f' = fst (flush_done (fe_release e) g r)"
        using assms True w None that [of "(if rn_retrying r then f\<lparr>fl_retries := fl_retries f + 1\<rparr> else f)\<lparr>fl_sink := s,
          fl_lastFlushNanos := fe_nanos e, fl_totalFlushNanos := fl_totalFlushNanos (if rn_retrying r then f\<lparr>fl_retries := fl_retries f + 1\<rparr> else f) + fe_nanos e\<rparr>"]
        by (simp add: run_flush_def Let_def split: prod.splits)
      then show ?thesis using d by simp
    qed (use assms True w in \<open>auto simp: run_flush_def Let_def flush_failed_def split: if_splits\<close>)
  qed (use assms in \<open>simp add: run_flush_def\<close>)
  then show "fl_queue f' = fl_queue f" "fl_config f' = fl_config f" by simp_all
qed

text \<open>Once the queue is closed and no publication is on its way, nothing enters the queue; the flusher stops only when it is empty.\<close>

definition settled_world :: "'s fworld \<Rightarrow> bool" where
  "settled_world w \<longleftrightarrow> q_closed (fl_queue (fw_flusher w)) \<and> fw_passed w = {} \<and>
     (fm_pc (fw_mach w) = Ended \<longrightarrow> ring_items (fl_queue (fw_flusher w)) = [])"

lemma consume_closed: "ring_inv q \<Longrightarrow> q_closed (fst (TryConsume q)) = q_closed q"
  using TryConsume_cases [of q] by (auto split: if_splits)

lemma run_step_queue:
  assumes "run_step bs env m = Some m'" "ring_inv (fl_queue (fm_flusher m))"
  shows "q_closed (fl_queue (fm_flusher m')) = q_closed (fl_queue (fm_flusher m))"
    "fm_pc m' = Ended \<Longrightarrow> ring_items (fl_queue (fm_flusher m')) = []"
proof -
  let ?q = "fl_queue (fm_flusher m)"
  note T = TryConsume_cases [OF assms(2)]
  have empty: "Empty ?q \<longleftrightarrow> ring_items ?q = []"
    using Depth_items(2) [OF assms(2)] by (simp add: Empty_def unat_eq_zero [symmetric] del: length_ring_items)
  have "q_closed (fl_queue (fm_flusher m')) = q_closed ?q \<and> (fm_pc m' = Ended \<longrightarrow> ring_items (fl_queue (fm_flusher m')) = [])"
  proof (cases "fm_pc m")
    case Draining
    then show ?thesis
      using assms(1) T by (auto simp: run_step_def Let_def step_draining_def split: prod.splits option.splits if_splits)
  next
    case Consume
    then show ?thesis
      using assms(1) T by (auto simp: run_step_def Let_def run_consume_def split: prod.splits option.splits if_splits)
  next
    case Decide
    then show ?thesis
      using assms(1) by (auto simp: run_step_def Let_def dest: run_flush_frame split: prod.splits option.splits if_splits)
  next
    case Settle
    then show ?thesis
      using assms(1) empty by (auto simp: run_step_def Let_def step_settle_def split: prod.splits option.splits if_splits)
  qed (use assms(1) in \<open>auto simp: run_step_def Let_def split: if_splits option.splits\<close>)
  then show "q_closed (fl_queue (fm_flusher m')) = q_closed ?q" "fm_pc m' = Ended \<Longrightarrow> ring_items (fl_queue (fm_flusher m')) = []"
    by simp_all
qed

lemma settled_step:
  assumes "fw_step bs w w'" "settled_world w" "fw_inv out pend ok base w"
  shows "settled_world w'"
proof -
  have ring: "ring_inv (fl_queue (fw_flusher w))" and fl: "fw_flags (fw_flusher w) (fm_run (fw_mach w)) (fm_pc (fw_mach w))"
    using fw_goodD [OF assms(3) [unfolded fw_inv_def]] owner_invD(1) by blast+
  show ?thesis
    using assms(1)
  proof cases
    case (fw_run env m')
    then show ?thesis using run_step_queue [OF fw_run(2) ring] assms(2) by (simp add: settled_world_def)
  qed (use assms(2) fl in \<open>auto simp: settled_world_def flusher_Start_def close_queue_def close_stop_def close_timeout_def
      Let_def with_flusher_def ring_Close_def\<close>)
qed

subsection \<open>Properties\<close>

lemma writer_fields [simp]:
  "bs_WriteBatch writer_batch_sink = ws_WriteBatch" "bs_Flush writer_batch_sink = ws_Flush None" "bs_Close writer_batch_sink = ws_Close"
  by (simp_all add: writer_batch_sink_def)

lemma writer_world_inv:
  assumes "flusher_New (Some q) (Some p) (Some NewWriter) config = Inr f" "ring_inv q" "ring_items q = []" "pool_inv p"
    "fw_steps writer_batch_sink (world_of f) w"
  shows "fw_inv ws_out ws_pend ws_ok [] w"
proof -
  have "ws_out NewWriter = []" by (simp add: NewWriter_def)
  then show ?thesis
    using wbatch.fw_steps_inv [OF assms(5) wbatch.world_of_inv [OF assms(1-4)]] NewWriter_ok by simp
qed

text \<open>
  C3. Publication to output, exactly once and in order. Whatever producers, pool users and \<open>Close\<close> do beside the flusher
  and however the sink fails: the leases the queue accepted are, in order, those
  delivered, those abandoned by a timed-out \<open>Close\<close>, the batch in hand and the queue; the writer's output is, byte for byte, the
  delivered payloads as they were when published, then a prefix of the batch in hand (or abandoned); a delivered
  or abandoned lease is back in the pool, the others are still in flight or queued.
\<close>

theorem flushed_exactly_once:
  assumes "flusher_New (Some q) (Some p) (Some NewWriter) config = Inr f" "ring_inv q" "ring_items q = []" "pool_inv p"
    "fw_steps writer_batch_sink (world_of f) w"
  shows "fw_accepted w = fw_delivered w @ fw_abandoned w @
      entries (fl_pool (fw_flusher w)) (rn_pending (fm_run (fw_mach w)) @ ring_items (fl_queue (fw_flusher w))) \<and>
    (\<exists>n. ws_out (fl_sink (fw_flusher w)) = concat (map snd (fw_delivered w)) @
      take n (concat (map snd (fw_abandoned w @ entries (fl_pool (fw_flusher w)) (rn_pending (fm_run (fw_mach w))))))) \<and>
    (\<forall>e\<in>set (fw_delivered w @ fw_abandoned w). l_state (p_leases (fl_pool (fw_flusher w)) ! fst e) = StateReturned) \<and>
    (\<forall>a\<in>set (rn_pending (fm_run (fw_mach w))). l_state (p_leases (fl_pool (fw_flusher w)) ! a) = StateInFlight) \<and>
    (\<forall>a\<in>set (ring_items (fl_queue (fw_flusher w))). l_state (p_leases (fl_pool (fw_flusher w)) ! a) = StateQueued) \<and>
    (fw_abandoned w \<noteq> [] \<longrightarrow> fl_abort (fw_flusher w))"
proof -
  note G = fw_goodD [OF writer_world_inv [OF assms, unfolded fw_inv_def]]
  have "\<exists>n. ws_out (fl_sink (fw_flusher w)) = concat (map snd (fw_delivered w)) @
      take n (concat (map snd (fw_abandoned w @ entries (fl_pool (fw_flusher w)) (rn_pending (fm_run (fw_mach w))))))"
  proof (cases "rn_aborting (fm_run (fw_mach w)) \<and> fm_pc (fw_mach w) \<in> {Draining, Ended}")
    case True
    then have "rn_pending (fm_run (fw_mach w)) = []" using G(3) by (auto simp: fw_flags_def)
    then show ?thesis using G(5) True by (simp add: fw_sink_def)
  next
    case False
    then show ?thesis using G(5) by (auto simp: fw_sink_def)
  qed
  moreover have "fl_abort (fw_flusher w)" if "fw_abandoned w \<noteq> []"
  proof -
    have "rn_aborting (fm_run (fw_mach w))" using G(5) that unfolding fw_sink_def by (meson)
    then show ?thesis using G(3) by (simp add: fw_flags_def)
  qed
  ultimately show ?thesis using G(2) owner_states [OF G(1)] by simp
qed

lemma settled_steps:
  assumes "fw_steps writer_batch_sink w1 w2" "settled_world w1" "fw_inv ws_out ws_pend ws_ok [] w1"
  shows "settled_world w2"
  using assms
proof (induction rule: rtranclp_induct)
  case (step w w')
  then have "fw_inv ws_out ws_pend ws_ok [] w" using wbatch.fw_steps_inv by simp
  then show ?case using settled_step [OF step.hyps(2)] step by blast
qed

text \<open>
  C4. An orderly shutdown loses nothing: when the queue is closed at a moment at which no publication is past its check,
  and the flusher ends without its \<open>Close\<close> having timed out, then everything that was ever accepted has been delivered: it is on the
  output, in order, nothing else is, every accepted lease is back in the pool, and \<open>Close\<close> reports the final error.
\<close>

theorem shutdown_delivers_all:
  assumes "flusher_New (Some q) (Some p) (Some NewWriter) config = Inr f" "ring_inv q" "ring_items q = []" "pool_inv p"
    "fw_steps writer_batch_sink (world_of f) w1" "q_closed (fl_queue (fw_flusher w1))" "fw_passed w1 = {}" "fm_pc (fw_mach w1) \<noteq> Ended"
    "fw_steps writer_batch_sink w1 w2" "fm_pc (fw_mach w2) = Ended" "\<not> fl_abort (fw_flusher w2)"
  shows "fw_delivered w2 = fw_accepted w2 \<and> ws_out (fl_sink (fw_flusher w2)) = concat (map snd (fw_accepted w2)) \<and>
    (\<forall>e\<in>set (fw_accepted w2). l_state (p_leases (fl_pool (fw_flusher w2)) ! fst e) = StateReturned) \<and>
    close_result (fw_flusher w2) = Some (fl_finalErr (fw_flusher w2))"
proof -
  have i1: "fw_inv ws_out ws_pend ws_ok [] w1" by (rule writer_world_inv [OF assms(1-5)])
  have steps: "fw_steps writer_batch_sink (world_of f) w2" using assms(5,9) by (rule rtranclp_trans)
  have "settled_world w1" using assms(6-8) by (simp add: settled_world_def)
  then have empty: "ring_items (fl_queue (fw_flusher w2)) = []"
    using settled_steps [OF assms(9) _ i1] assms(10) by (simp add: settled_world_def)
  note G = fw_goodD [OF writer_world_inv [OF assms(1-4) steps, unfolded fw_inv_def]]
  have r: "rn_pending (fm_run (fw_mach w2)) = []" "\<not> rn_aborting (fm_run (fw_mach w2))" "fl_done (fw_flusher w2)"
    using G(3) assms(10,11) by (auto simp: fw_flags_def)
  have s: "ws_out (fl_sink (fw_flusher w2)) = concat (map snd (fw_delivered w2))" "fw_abandoned w2 = []"
    using G(5) r by (simp_all add: fw_sink_def payloads_def)
  have eq: "fw_accepted w2 = fw_delivered w2" using G(2) unfolding r(1) empty s(2) by simp
  have "\<forall>e\<in>set (fw_delivered w2). l_state (p_leases (fl_pool (fw_flusher w2)) ! fst e) = StateReturned"
    using G(1) unfolding owner_inv_def by simp
  then show ?thesis using s(1) r(3) unfolding eq close_result_def by simp
qed

subsection \<open>Bounds\<close>

definition backoff_ok :: "'s fmach \<Rightarrow> bool" where
  "backoff_ok m \<longleftrightarrow> (let c = fl_config (fm_flusher m)
     in sint (fq_RetryBackoff c) \<le> sint (rn_backoff (fm_run m)) \<and> sint (rn_backoff (fm_run m)) \<le> sint (fq_MaxRetryBackoff c))"

lemma grow_backoff_bounds:
  assumes "0 \<le> sint (fq_RetryBackoff c)" "sint (fq_RetryBackoff c) \<le> sint b" "sint b \<le> sint (fq_MaxRetryBackoff c)"
    "sint (fq_MaxRetryBackoff c) < 2 ^ 62"
  shows "sint (fq_RetryBackoff c) \<le> sint (grow_backoff c b)" "sint (grow_backoff c b) \<le> sint (fq_MaxRetryBackoff c)"
proof -
  have "b * 2 = word_of_int (sint b * 2)" by simp
  moreover have "(2 :: int) ^ 63 = 2 * 2 ^ 62" by simp
  then have "sint (word_of_int (sint b * 2) :: duration) = sint b * 2" using assms by (intro sint_small) linarith+
  ultimately have "sint (b * 2) = sint b * 2" by simp
  then show "sint (fq_RetryBackoff c) \<le> sint (grow_backoff c b)" "sint (grow_backoff c b) \<le> sint (fq_MaxRetryBackoff c)"
    using assms by (auto simp: grow_backoff_def Let_def)
qed

lemma run_flush_backoff:
  fixes f :: "'s Flusher"
  assumes "run_flush bs e f r = Some (f', r', again)"
  shows "rn_backoff r' \<in> {rn_backoff r, fq_RetryBackoff (fl_config f), grow_backoff (fl_config f) (rn_backoff r)}"
proof -
  have d: "rn_backoff (snd (flush_done now g r)) = fq_RetryBackoff (fl_config g)" for now and g :: "'s Flusher"
    using deliver_fold_frame [of now "rn_pending r" g 0] by (simp add: flush_done_def split_beta)
  show ?thesis
  proof (cases "should_flush (fe_now e) f r")
    case True
    then obtain s err where w: "bs_WriteBatch bs (fe_sink e) (payloads (fl_pool f) (rn_pending r)) (fl_sink f) = Some (s, err)"
      using assms by (auto simp: run_flush_def Let_def split: option.splits)
    show ?thesis
    proof (cases err)
      case None
      obtain g :: "'s Flusher" where "fl_config g = fl_config f" "r' = snd (flush_done (fe_release e) g r)"
        using assms True w None that [of "(if rn_retrying r then f\<lparr>fl_retries := fl_retries f + 1\<rparr> else f)\<lparr>fl_sink := s,
          fl_lastFlushNanos := fe_nanos e, fl_totalFlushNanos := fl_totalFlushNanos (if rn_retrying r then f\<lparr>fl_retries := fl_retries f + 1\<rparr> else f) + fe_nanos e\<rparr>"]
        by (simp add: run_flush_def Let_def split: prod.splits)
      then show ?thesis using d by simp
    qed (use assms True w in \<open>auto simp: run_flush_def Let_def flush_failed_def split: if_splits\<close>)
  qed (use assms in \<open>simp add: run_flush_def\<close>)
qed

lemma run_step_config:
  assumes "run_step bs env m = Some m'"
  shows "fl_config (fm_flusher m') = fl_config (fm_flusher m)"
    "rn_backoff (fm_run m') \<in> {rn_backoff (fm_run m), fq_RetryBackoff (fl_config (fm_flusher m)),
       grow_backoff (fl_config (fm_flusher m)) (rn_backoff (fm_run m))}"
proof -
  have "fl_config (fm_flusher m') = fl_config (fm_flusher m) \<and>
    rn_backoff (fm_run m') \<in> {rn_backoff (fm_run m), fq_RetryBackoff (fl_config (fm_flusher m)),
       grow_backoff (fl_config (fm_flusher m)) (rn_backoff (fm_run m))}"
  proof (cases "fm_pc m")
    case Draining
    then show ?thesis using assms by (auto simp: run_step_def Let_def step_draining_def split: prod.splits option.splits if_splits)
  next
    case Consume
    then show ?thesis using assms by (auto simp: run_step_def Let_def run_consume_def split: prod.splits option.splits if_splits)
  next
    case Decide
    then obtain f1 r1 again where c: "run_flush bs (rv_flush env) (fm_flusher m) (fm_run m) = Some (f1, r1, again)"
      and m': "m' = \<lparr>fm_flusher = f1, fm_run = r1, fm_pc = (if again then Select else Settle)\<rparr>"
      using assms by (auto simp: run_step_def split: option.splits)
    show ?thesis using run_flush_frame(2) [OF c] run_flush_backoff [OF c] by (simp add: m')
  next
    case Settle
    then show ?thesis using assms by (auto simp: run_step_def Let_def step_settle_def split: prod.splits option.splits if_splits)
  next
    case Wait
    then show ?thesis
      using assms by (auto simp: run_step_def Let_def run_wait_def take_abort_def take_stop_def split: option.splits wake.splits if_splits)
  qed (use assms in \<open>auto simp: run_step_def Let_def run_select_def take_abort_def take_stop_def split: if_splits\<close>)
  then show "fl_config (fm_flusher m') = fl_config (fm_flusher m)"
    "rn_backoff (fm_run m') \<in> {rn_backoff (fm_run m), fq_RetryBackoff (fl_config (fm_flusher m)),
       grow_backoff (fl_config (fm_flusher m)) (rn_backoff (fm_run m))}" by blast+
qed

lemma backoff_step:
  assumes "fw_step bs w w'" "backoff_ok (fw_mach w)" "fl_config (fw_flusher w) = c" "0 \<le> sint (fq_RetryBackoff c)"
    "sint (fq_RetryBackoff c) \<le> sint (fq_MaxRetryBackoff c)" "sint (fq_MaxRetryBackoff c) < 2 ^ 62"
  shows "backoff_ok (fw_mach w') \<and> fl_config (fw_flusher w') = c"
  using assms(1)
proof cases
  case (fw_run env m')
  have b: "sint (fq_RetryBackoff c) \<le> sint (rn_backoff (fm_run (fw_mach w)))" "sint (rn_backoff (fm_run (fw_mach w))) \<le> sint (fq_MaxRetryBackoff c)"
    using assms(2,3) by (simp_all add: backoff_ok_def Let_def)
  show ?thesis
    using run_step_config [OF fw_run(2)] b assms(3,5) grow_backoff_bounds [OF assms(4) b assms(6)]
    by (auto simp: fw_run(1) backoff_ok_def Let_def)
qed (use assms(2,3,5) in \<open>auto simp: backoff_ok_def Let_def flusher_Start_def close_queue_def close_stop_def close_timeout_def with_flusher_def\<close>)

lemma backoff_steps:
  assumes "fw_steps bs w w'" "backoff_ok (fw_mach w)" "fl_config (fw_flusher w) = c" "0 \<le> sint (fq_RetryBackoff c)"
    "sint (fq_RetryBackoff c) \<le> sint (fq_MaxRetryBackoff c)" "sint (fq_MaxRetryBackoff c) < 2 ^ 62"
  shows "backoff_ok (fw_mach w') \<and> fl_config (fw_flusher w') = c"
  using assms(1)
proof (induction rule: rtranclp_induct)
  case (step w1 w2)
  then show ?case using backoff_step [OF step.hyps(2)] assms(4-6) by blast
qed (use assms(2,3) in simp)

text \<open>
  C6. Limits of the flusher: a batch never has more than \<open>BatchSize\<close> leases, the gauge \<open>InFlight\<close> never exceeds it and is exact
  whenever the loop is not filling or draining, and the pause before a retry stays between
  \<open>RetryBackoff\<close> and \<open>MaxRetryBackoff\<close>, however often the sink fails. (Beyond \<open>2 ^ 62\<close> nanoseconds the doubling would overflow.)
\<close>

theorem flusher_limits:
  assumes "flusher_New (Some q) (Some p) (Some NewWriter) config = Inr f" "ring_inv q" "ring_items q = []" "pool_inv p"
    "fw_steps writer_batch_sink (world_of f) w" "sint (fq_MaxRetryBackoff (fl_config f)) < 2 ^ 62"
  shows "int (length (rn_pending (fm_run (fw_mach w)))) \<le> fq_BatchSize (fl_config f) \<and>
    int (unat (fl_inFlight (fw_flusher w))) \<le> fq_BatchSize (fl_config f) \<and>
    (fm_pc (fw_mach w) \<notin> {Consume, Draining} \<longrightarrow> fl_inFlight (fw_flusher w) = of_nat (length (rn_pending (fm_run (fw_mach w))))) \<and>
    sint (fq_RetryBackoff (fl_config f)) \<le> sint (rn_backoff (fm_run (fw_mach w))) \<and>
    sint (rn_backoff (fm_run (fw_mach w))) \<le> sint (fq_MaxRetryBackoff (fl_config f))"
proof -
  have c: "0 \<le> sint (fq_RetryBackoff (fl_config f))" "sint (fq_RetryBackoff (fl_config f)) \<le> sint (fq_MaxRetryBackoff (fl_config f))"
    using assms(1) by (auto simp: flusher_New_def flusher_normalized_def Let_def split: sum.splits if_splits)
  have b: "backoff_ok (fw_mach w) \<and> fl_config (fw_flusher w) = fl_config f"
    by (rule backoff_steps [OF assms(5) _ _ c assms(6)]) (use c in \<open>simp_all add: world_of_def backoff_ok_def Let_def\<close>)
  then have "sint (fq_RetryBackoff (fl_config f)) \<le> sint (rn_backoff (fm_run (fw_mach w))) \<and>
    sint (rn_backoff (fm_run (fw_mach w))) \<le> sint (fq_MaxRetryBackoff (fl_config f))"
    unfolding backoff_ok_def Let_def by metis
  moreover have fl: "fw_flags (fw_flusher w) (fm_run (fw_mach w)) (fm_pc (fw_mach w))"
    using fw_goodD(3) [OF writer_world_inv [OF assms(1-5), unfolded fw_inv_def]] .
  have cfg: "fl_config (fw_flusher w) = fl_config f" using b by simp
  have "fl_inFlight (fw_flusher w) = of_nat (length (rn_pending (fm_run (fw_mach w))))" if "fm_pc (fw_mach w) \<notin> {Consume, Draining}"
    using fl that unfolding fw_flags_def by (cases "fm_pc (fw_mach w)") simp_all
  then have "int (length (rn_pending (fm_run (fw_mach w)))) \<le> fq_BatchSize (fl_config f) \<and>
    int (unat (fl_inFlight (fw_flusher w))) \<le> fq_BatchSize (fl_config f) \<and>
    (fm_pc (fw_mach w) \<notin> {Consume, Draining} \<longrightarrow> fl_inFlight (fw_flusher w) = of_nat (length (rn_pending (fm_run (fw_mach w)))))"
    using fl unfolding fw_flags_def cfg by blast
  ultimately show ?thesis by blast
qed

subsection \<open>Draining ends\<close>

text \<open>The goroutine alone, as long as the sink answers without an error.\<close>

fun run_clean :: "('e, 'c, 's) BatchSink \<Rightarrow> ('e, 'c) run_env list \<Rightarrow> 's fmach \<Rightarrow> 's fmach option" where
  "run_clean bs [] m = Some m"
| "run_clean bs (e # es) m =
     (if fm_pc m = Ended then Some m
      else case run_step bs e m of None \<Rightarrow> None
        | Some m' \<Rightarrow> if rn_retrying (fm_run m') then None else run_clean bs es m')"

definition drain_rank :: "'s fmach \<Rightarrow> nat" where
  "drain_rank m = (if fm_pc m = Ended then 0 else
     3 * (2 * ring_len (fl_queue (fm_flusher m)) + length (rn_pending (fm_run m))) +
     (case fm_pc m of Select \<Rightarrow> 4 | Consume \<Rightarrow> 3 | Decide \<Rightarrow> 2 | _ \<Rightarrow> 1))"

text \<open>On the way to the end: stopped, not aborted, and after the fill loop nothing is left unless the batch is full.\<close>

definition draining :: "'s fmach \<Rightarrow> bool" where
  "draining m \<longleftrightarrow> (let f = fm_flusher m; r = fm_run m in
     fl_stop f \<and> \<not> fl_abort f \<and> \<not> rn_retrying r \<and> fm_pc m \<in> {Select, Consume, Decide, Settle, Ended} \<and>
     (fm_pc m \<noteq> Select \<longrightarrow> rn_closing r) \<and>
     (fm_pc m = Decide \<longrightarrow> ring_items (fl_queue f) = [] \<or> fq_BatchSize (fl_config f) \<le> int (length (rn_pending r))) \<and>
     (fm_pc m = Settle \<longrightarrow> ring_items (fl_queue f) = [] \<and> rn_pending r = []))"

lemma ring_len_consume: "ring_inv q \<Longrightarrow> ring_items q = a # rest \<Longrightarrow> ring_len q = Suc (ring_len (consume_accept q))"
  using ring_items_consume_accept [of q] length_ring_items [of q] length_ring_items [of "consume_accept q"]
  by (simp add: ring_len_pos)

lemma Empty_items: "ring_inv q \<Longrightarrow> Empty q \<longleftrightarrow> ring_items q = []"
  using Depth_items(2) [of q] by (simp add: Empty_def unat_eq_zero [symmetric] del: length_ring_items)

lemma draining_consume:
  assumes "draining m" "fm_pc m = Consume" "fw_good out pend ok base (fm_flusher m) (fm_run m) Consume passed acc del abn"
    "run_step bs env m = Some m'"
  shows "draining m' \<and> drain_rank m' < drain_rank m"
proof -
  let ?f = "fm_flusher m" and ?r = "fm_run m"
  note G = fw_goodD [OF assms(3)]
  note T = TryConsume_cases [OF owner_invD(1) [OF G(1)]]
  have d: "fl_stop ?f" "\<not> fl_abort ?f" "\<not> rn_retrying ?r" "rn_closing ?r" using assms(1,2) by (auto simp: draining_def Let_def)
  show ?thesis
  proof (cases "int (length (rn_pending ?r)) < fq_BatchSize (fl_config ?f) \<and> ring_items (fl_queue ?f) \<noteq> []")
    case False
    then show ?thesis
      using assms(2,4) d T by (auto simp: run_step_def Let_def run_consume_def draining_def drain_rank_def split: if_splits)
  next
    case True
    then obtain a rest where q: "ring_items (fl_queue ?f) = a # rest" by (cases "ring_items (fl_queue ?f)") auto
    obtain p e where m: "MarkInFlight (Some a) (fl_pool ?f) = (p, e)" by fastforce
    have e: "e = None \<or> e = Some ErrPayloadModified" using owner_consume(2) [OF G(1) q m] .
    have tc: "TryConsume (fl_queue ?f) = (consume_accept (fl_queue ?f), Some a)" using T q by simp
    have "ring_len (fl_queue ?f) = Suc (ring_len (consume_accept (fl_queue ?f)))" by (rule ring_len_consume [OF owner_invD(1) [OF G(1)] q])
    then show ?thesis
      using assms(2,4) d True tc m e by (auto simp: run_step_def Let_def run_consume_def draining_def drain_rank_def)
  qed
qed

lemma draining_decide:
  fixes m :: "'s fmach"
  assumes "draining m" "fm_pc m = Decide" "fw_good out pend ok base (fm_flusher m) (fm_run m) Decide passed acc del abn"
    "run_step bs env m = Some m'" "\<not> rn_retrying (fm_run m')"
  shows "draining m' \<and> drain_rank m' < drain_rank m"
proof -
  let ?f = "fm_flusher m" and ?r = "fm_run m"
  note G = fw_goodD [OF assms(3)]
  have d: "fl_stop ?f" "\<not> fl_abort ?f" "\<not> rn_retrying ?r" "rn_closing ?r"
    "ring_items (fl_queue ?f) = [] \<or> fq_BatchSize (fl_config ?f) \<le> int (length (rn_pending ?r))"
    using assms(1,2) by (auto simp: draining_def Let_def)
  have B: "1 \<le> fq_BatchSize (fl_config ?f)" using G(3) by (simp add: fw_flags_def)
  obtain f1 r1 again where c: "run_flush bs (rv_flush env) ?f ?r = Some (f1, r1, again)"
    and m': "m' = \<lparr>fm_flusher = f1, fm_run = r1, fm_pc = (if again then Select else Settle)\<rparr>"
    using assms(2,4) by (auto simp: run_step_def Let_def split: option.splits)
  show ?thesis
  proof (cases "rn_pending ?r = []")
    case True
    then have "f1 = ?f" "r1 = ?r" "\<not> again" using c by (auto simp: run_flush_def should_flush_def)
    moreover have "ring_items (fl_queue ?f) = []" using d(5) B True by simp
    ultimately show ?thesis using d True assms(2) by (simp add: m' draining_def drain_rank_def)
  next
    case False
    then have sf: "should_flush (fe_now (rv_flush env)) ?f ?r" using d by (simp add: should_flush_def)
    obtain s err where w: "bs_WriteBatch bs (fe_sink (rv_flush env)) (payloads (fl_pool ?f) (rn_pending ?r)) (fl_sink ?f) = Some (s, err)"
      using c sf by (auto simp: run_flush_def Let_def split: option.splits)
    have "err = None"
      using c sf w assms(5) d(3) by (cases err) (auto simp: run_flush_def Let_def flush_failed_def m')
    then obtain g :: "'s Flusher" where g: "fl_queue g = fl_queue ?f" "fl_pool g = fl_pool ?f" "fl_stop g = fl_stop ?f" "fl_abort g = fl_abort ?f"
      "(f1, r1) = flush_done (fe_release (rv_flush env)) g ?r" "again"
      using c sf w d(3) that [of "?f\<lparr>fl_sink := s, fl_lastFlushNanos := fe_nanos (rv_flush env),
          fl_totalFlushNanos := fl_totalFlushNanos ?f + fe_nanos (rv_flush env)\<rparr>"]
      by (simp add: run_flush_def Let_def split: prod.splits)
    note D = flush_done_frame [of g ?r passed _ _ f1 r1, unfolded g(1,2), OF G(1) g(5) [symmetric]]
    have "Suc 0 \<le> length (rn_pending ?r)" using False by (cases "rn_pending ?r") simp_all
    then have "2 < 3 * length (rn_pending ?r)" by linarith
    then show ?thesis using D d g(3,4,6) assms(2) by (simp add: m' draining_def drain_rank_def)
  qed
qed

lemma draining_step:
  fixes m :: "'s fmach"
  assumes "draining m" "fm_pc m \<noteq> Ended" "fw_good out pend ok base (fm_flusher m) (fm_run m) (fm_pc m) passed acc del abn"
    "run_step bs env m = Some m'" "\<not> rn_retrying (fm_run m')"
  shows "draining m' \<and> drain_rank m' < drain_rank m"
proof (cases "fm_pc m")
  case Select
  let ?f = "fm_flusher m" and ?r = "fm_run m"
  have "rn_stopNil ?r \<longrightarrow> rn_closing ?r" "\<not> rn_aborting ?r"
    using fw_goodD(3) [OF assms(3)] assms(1) by (auto simp: fw_flags_def draining_def Let_def)
  then show ?thesis
    using assms(1,4) Select by (auto simp: run_step_def Let_def draining_def drain_rank_def run_select_def take_stop_def split: if_splits)
next
  case Settle
  then show ?thesis
    using assms(1,4) Empty_items [OF owner_invD(1) [OF fw_goodD(1) [OF assms(3)]]]
    by (auto simp: run_step_def Let_def draining_def drain_rank_def step_settle_def split: prod.splits option.splits)
qed (use assms(1,2) draining_consume [OF assms(1) _ _ assms(4)] draining_decide [OF assms(1) _ _ assms(4,5)] assms(3)
    in \<open>auto simp: draining_def Let_def\<close>)

lemma run_clean_ends:
  assumes "draining (fw_mach w)" "fw_inv ws_out ws_pend ws_ok [] w" "run_clean writer_batch_sink envs (fw_mach w) = Some m'"
    "drain_rank (fw_mach w) \<le> length envs"
  shows "fm_pc m' = Ended \<and> fl_done (fm_flusher m')"
  using assms
proof (induction envs arbitrary: w)
  case Nil
  then have m': "m' = fw_mach w" "drain_rank (fw_mach w) = 0" by simp_all
  then have "fm_pc m' = Ended" by (auto simp: drain_rank_def split: if_splits run_pc.splits)
  then show ?case using fw_goodD(3) [OF Nil.prems(2) [unfolded fw_inv_def]] m' by (simp add: fw_flags_def)
next
  case (Cons e es)
  show ?case
  proof (cases "fm_pc (fw_mach w) = Ended")
    case True
    then show ?thesis using Cons.prems fw_goodD(3) [OF Cons.prems(2) [unfolded fw_inv_def]] by (auto simp: fw_flags_def)
  next
    case False
    then obtain m1 where m1: "run_step writer_batch_sink e (fw_mach w) = Some m1" "\<not> rn_retrying (fm_run m1)"
      "run_clean writer_batch_sink es m1 = Some m'"
      using Cons.prems(3) by (auto split: option.splits if_splits)
    let ?w = "w\<lparr>fw_mach := m1, fw_delivered := fw_delivered w @ newly_delivered (fw_mach w) m1,
      fw_abandoned := fw_abandoned w @ newly_abandoned (fw_mach w) m1\<rparr>"
    have "fw_inv ws_out ws_pend ws_ok [] ?w" using wbatch.run_step_inv [OF Cons.prems(2) _ _ _ m1(1)] by simp
    moreover have "draining m1 \<and> drain_rank m1 < drain_rank (fw_mach w)"
      by (rule draining_step [OF Cons.prems(1) False Cons.prems(2) [unfolded fw_inv_def] m1(1,2)])
    ultimately show ?thesis using Cons.IH [of ?w] m1(3) Cons.prems(4) by simp
  qed
qed


subsection \<open>A publication that Close overtakes\<close>

lemma ended_step:
  assumes "fw_step bs w w'" "fm_pc (fw_mach w) = Ended" "fw_flags (fw_flusher w) (fm_run (fw_mach w)) Ended"
  shows "fm_pc (fw_mach w') = Ended" "fw_delivered w' = fw_delivered w" "fw_abandoned w' = fw_abandoned w"
    "\<exists>more. fw_accepted w' = fw_accepted w @ more"
  using assms
  by (cases; auto simp: run_step_def flusher_Start_def close_queue_def close_stop_def close_timeout_def Let_def with_flusher_def fw_flags_def)+

lemma ended_steps:
  assumes "fw_steps writer_batch_sink w w'" "fm_pc (fw_mach w) = Ended" "fw_inv ws_out ws_pend ws_ok [] w"
  shows "fm_pc (fw_mach w') = Ended \<and> fw_delivered w' = fw_delivered w \<and> fw_abandoned w' = fw_abandoned w \<and>
    (\<exists>more. fw_accepted w' = fw_accepted w @ more)"
  using assms(1)
proof (induction rule: rtranclp_induct)
  case (step w1 w2)
  have "fw_inv ws_out ws_pend ws_ok [] w1" using wbatch.fw_steps_inv [OF step.hyps(1) assms(3)] by simp
  then have "fw_flags (fw_flusher w1) (fm_run (fw_mach w1)) Ended" using fw_goodD(3) step.IH by (metis fw_inv_def)
  from ended_step [OF step.hyps(2) _ this] step.IH show ?case by auto
qed (use assms(2) in simp)

text \<open>The machine alone is one of the runs of the world.\<close>

lemma run_clean_steps:
  assumes "run_clean bs envs (fw_mach w) = Some m'"
  shows "\<exists>w'. fw_steps bs w w' \<and> fw_mach w' = m' \<and> fw_accepted w' = fw_accepted w \<and> fw_passed w' = fw_passed w"
  using assms
proof (induction envs arbitrary: w)
  case (Cons e es)
  show ?case
  proof (cases "fm_pc (fw_mach w) = Ended")
    case False
    then obtain m1 where m1: "run_step bs e (fw_mach w) = Some m1" "run_clean bs es m1 = Some m'"
      using Cons.prems by (auto split: option.splits if_splits)
    let ?w = "w\<lparr>fw_mach := m1, fw_delivered := fw_delivered w @ newly_delivered (fw_mach w) m1,
      fw_abandoned := fw_abandoned w @ newly_abandoned (fw_mach w) m1\<rparr>"
    have step: "fw_step bs w ?w" by (rule fw_run [OF m1(1)])
    obtain w' where w': "fw_steps bs ?w w'" "fw_mach w' = m'" "fw_accepted w' = fw_accepted w" "fw_passed w' = fw_passed w"
      using Cons.IH [of ?w] m1(2) by auto
    have "fw_steps bs w w'" by (rule converse_rtranclp_into_rtranclp [of "fw_step bs", OF step w'(1)])
    then show ?thesis using w' by blast
  qed (use Cons.prems in auto)
qed auto

text \<open>An idle flusher that is told to stop, step by step.\<close>

definition idle_env :: "(write_env, sink_error option option) run_env" where
  "idle_env = \<lparr>rv_now = 0, rv_pick = False, rv_flush = \<lparr>fe_now = 0, fe_sink = \<lparr>we_script = [], we_nanos = 0\<rparr>, fe_nanos = 0,
     fe_release = 0, fe_after = 0\<rparr>, rv_flushAnswer = None, rv_closeAnswer = None, rv_wake = WakeTimer\<rparr>"

lemma idle_run_any:
  fixes bs :: "('e, 'c, 's) BatchSink" and e :: "('e, 'c) run_env"
  assumes "fm_pc m = Select" "fl_stop (fm_flusher m)" "\<not> fl_abort (fm_flusher m)" "rn_closing (fm_run m) \<or> \<not> rn_stopNil (fm_run m)"
    "rn_pending (fm_run m) = []" "\<not> rn_retrying (fm_run m)" "\<not> rn_aborting (fm_run m)"
    "ring_inv (fl_queue (fm_flusher m))" "ring_items (fl_queue (fm_flusher m)) = []" "1 \<le> fq_BatchSize (fl_config (fm_flusher m))" "\<not> rv_pick e"
  shows "\<exists>m'. run_clean bs (replicate 4 e) m = Some m' \<and> fm_pc m' = Ended \<and> \<not> fl_abort (fm_flusher m') \<and>
    fl_queue (fm_flusher m') = fl_queue (fm_flusher m) \<and> fl_pool (fm_flusher m') = fl_pool (fm_flusher m)"
proof -
  let ?f = "fm_flusher m" and ?r = "run_select False (fm_flusher m) (fm_run m)"
  let ?g = "?f\<lparr>fl_inFlight := of_nat 0\<rparr>"
  have tc: "TryConsume (fl_queue ?f) = (fl_queue ?f, None)" using TryConsume_cases [OF assms(8)] assms(9) by simp
  have r: "rn_pending ?r = []" "\<not> rn_retrying ?r" "rn_closing ?r" "\<not> rn_aborting ?r"
    using assms(2-7) by (auto simp: run_select_def take_stop_def take_abort_def Let_def)
  define m1 where "m1 = \<lparr>fm_flusher = ?f, fm_run = ?r, fm_pc = Consume\<rparr>"
  define m2 where "m2 = \<lparr>fm_flusher = ?g, fm_run = ?r, fm_pc = Decide\<rparr>"
  define m3 where "m3 = \<lparr>fm_flusher = ?g, fm_run = ?r, fm_pc = Settle\<rparr>"
  have s1: "run_step bs e m = Some m1"
    using assms(1,11) r(4) by (simp add: run_step_def m1_def Let_def)
  have s2: "run_step bs e m1 = Some m2"
    using assms(10) tc r by (simp add: run_step_def Let_def run_consume_def m1_def m2_def)
  have s3: "run_step bs e m2 = Some m3"
    using r by (simp add: run_step_def run_flush_def should_flush_def m2_def m3_def)
  obtain f' where se: "step_settle bs e ?g ?r = Some f'" "fl_queue f' = fl_queue ?f" "fl_pool f' = fl_pool ?f"
      "\<not> fl_abort f'"
    using r Empty_items [OF assms(8)] assms(3,9) by (simp add: step_settle_def case_prod_unfold)
  define m4 where "m4 = \<lparr>fm_flusher = f', fm_run = ?r, fm_pc = Ended\<rparr>"
  have s4: "run_step bs e m3 = Some m4"
    using se by (simp add: run_step_def m3_def m4_def)
  have p: "fm_pc m1 \<noteq> Ended" "fm_pc m2 \<noteq> Ended" "fm_pc m3 \<noteq> Ended" "fm_run m1 = ?r" "fm_run m2 = ?r" "fm_run m3 = ?r" "fm_run m4 = ?r"
    by (simp_all add: m1_def m2_def m3_def m4_def)
  have "run_clean bs (replicate 4 e) m = Some m4"
    using s1 s2 s3 s4 p r(2) assms(1) by (simp add: numeral_eq_Suc)
  then show ?thesis using se by (intro exI [of _ m4]) (simp add: m4_def)
qed

lemma idle_run:
  assumes "fm_pc m = Select" "fl_stop (fm_flusher m)" "\<not> fl_abort (fm_flusher m)" "rn_closing (fm_run m) \<or> \<not> rn_stopNil (fm_run m)"
    "rn_pending (fm_run m) = []" "\<not> rn_retrying (fm_run m)" "\<not> rn_aborting (fm_run m)"
    "ring_inv (fl_queue (fm_flusher m))" "ring_items (fl_queue (fm_flusher m)) = []" "1 \<le> fq_BatchSize (fl_config (fm_flusher m))"
  shows "\<exists>m'. run_clean writer_batch_sink (replicate 4 idle_env) m = Some m' \<and> fm_pc m' = Ended \<and> \<not> fl_abort (fm_flusher m') \<and>
    fl_queue (fm_flusher m') = fl_queue (fm_flusher m) \<and> fl_pool (fm_flusher m') = fl_pool (fm_flusher m)"
  by (rule idle_run_any) (use assms in \<open>simp_all add: idle_env_def\<close>)

text \<open>
  C7. A message can be accepted after the end. When \<open>Close\<close> comes between a producer's check of the closed flag
  and its claim of a slot, the flusher may find the queue empty and end, reporting success; then \<open>TryPublish\<close> still
  answers Accepted. Nothing that happens later delivers the message: its lease stays queued for ever and the
  output stays without it, although the comment on the queue's \<open>Close\<close> promises that items accepted concurrently
  with \<open>Close\<close> remain available to the consumer.
\<close>

theorem accepted_after_end:
  assumes "flusher_New (Some q) (Some p) (Some NewWriter) config = Inr f" "ring_inv q" "ring_items q = []" "pool_inv p"
    "\<not> q_closed q" "a < length (p_leases p)" "l_state (p_leases p ! a) = StateQueued"
  shows "\<exists>w. fw_steps writer_batch_sink (world_of f) w \<and> fm_pc (fw_mach w) = Ended \<and> \<not> fl_abort (fw_flusher w) \<and>
    close_result (fw_flusher w) \<noteq> None \<and> fw_accepted w = [(a, Payload p (Some a))] \<and> fw_delivered w = [] \<and>
    (\<forall>w'. fw_steps writer_batch_sink w w' \<longrightarrow> fw_delivered w' = [] \<and> ws_out (fl_sink (fw_flusher w')) = [] \<and>
       a \<in> set (ring_items (fl_queue (fw_flusher w'))) \<and> l_state (p_leases (fl_pool (fw_flusher w')) ! a) = StateQueued)"
proof -
  note inv = writer_world_inv [OF assms(1-4)]
  obtain c where c: "flusher_normalized config = Inr c" and f: "fl_queue f = q" "fl_pool f = p" "fl_config f = c"
    "\<not> fl_started f" "\<not> fl_stop f" "\<not> fl_abort f"
    using assms(1) by (auto simp: flusher_New_def split: sum.splits)
  have B: "1 \<le> fq_BatchSize c" using c by (auto simp: flusher_normalized_def Let_def split: if_splits)
  define q1 where "q1 = q\<lparr>publishAttempts := publishAttempts q + 1\<rparr>"
  have q1: "ring_inv q1" "ring_items q1 = []" "\<not> q_closed q1" using assms(2,3,5) by (simp_all add: q1_def)
  define w1 where "w1 = (with_flusher (f\<lparr>fl_queue := q1\<rparr>) (world_of f))\<lparr>fw_passed := {a}\<rparr>"
  define w2 where "w2 = w1\<lparr>fw_mach := close_queue (fw_mach w1)\<rparr>"
  define w3 where "w3 = w2\<lparr>fw_mach := close_stop (fw_mach w2)\<rparr>"
  have s1: "fw_step writer_batch_sink (world_of f) w1"
    using fw_check [of "world_of f" a writer_batch_sink] assms f
    by (simp add: world_of_def fw_owned_def w1_def with_flusher_def q1_def)
  have s2: "fw_step writer_batch_sink w1 w2" unfolding w2_def by (rule fw_close)
  have w2: "fm_pc (fw_mach w2) = Select" "fm_run (fw_mach w2) = run_locals c" "fl_queue (fw_flusher w2) = ring_Close q1"
    "fl_pool (fw_flusher w2) = p" "fl_config (fw_flusher w2) = c" "\<not> fl_abort (fw_flusher w2)" "fw_passed w2 = {a}"
    "fw_accepted w2 = []" "fw_delivered w2 = []" "fw_abandoned w2 = []"
    using f by (simp_all add: w2_def w1_def close_queue_def flusher_Start_def with_flusher_def world_of_def Let_def)
  have s3: "fw_step writer_batch_sink w2 w3" unfolding w3_def by (rule fw_stop) (simp add: w2 ring_Close_def)
  have w3: "fm_pc (fw_mach w3) = Select" "fm_run (fw_mach w3) = run_locals c" "fl_stop (fw_flusher w3)" "\<not> fl_abort (fw_flusher w3)"
    "ring_inv (fl_queue (fw_flusher w3))" "ring_items (fl_queue (fw_flusher w3)) = []" "1 \<le> fq_BatchSize (fl_config (fw_flusher w3))"
    using w2 q1 B by (simp_all add: w3_def close_stop_def ring_Close_def)
  obtain m' where m': "run_clean writer_batch_sink (replicate 4 idle_env) (fw_mach w3) = Some m'" "fm_pc m' = Ended" "\<not> fl_abort (fm_flusher m')"
    "fl_queue (fm_flusher m') = fl_queue (fw_flusher w3)" "fl_pool (fm_flusher m') = fl_pool (fw_flusher w3)"
    using idle_run [of "fw_mach w3"] w3 by auto
  obtain w4 where w4: "fw_steps writer_batch_sink w3 w4" "fw_mach w4 = m'" "fw_accepted w4 = []" "fw_passed w4 = {a}"
    using run_clean_steps [OF m'(1)] w2 by (auto simp: w3_def)
  define w5 where "w5 = (with_flusher ((fw_flusher w4)\<lparr>fl_queue := publish_accept a (fl_queue (fw_flusher w4))\<rparr>) w4)
      \<lparr>fw_passed := fw_passed w4 - {a}, fw_accepted := fw_accepted w4 @ entries (fl_pool (fw_flusher w4)) [a]\<rparr>"
  have room: "ring_len (fl_queue (fw_flusher w4)) < unat (capacity (fl_queue (fw_flusher w4)))"
  proof -
    have "ring_len (fl_queue (fw_flusher w3)) = 0" using w3(6) length_ring_items by (metis list.size(3))
    then show ?thesis using m'(4) ring_cap_bounds(1) [OF ring_invD(1) [OF w3(5)]] by (simp add: w4(2))
  qed
  have "a \<in> fw_passed w4" by (simp add: w4(4))
  from fw_claim [OF this room] have s5: "fw_step writer_batch_sink w4 w5" by (simp add: w5_def)
  have steps: "fw_steps writer_batch_sink (world_of f) w5"
    using s1 s2 s3 w4(1) s5 by (meson rtranclp.rtrancl_into_rtrancl rtranclp_trans r_into_rtranclp)
  have "fw_steps writer_batch_sink (world_of f) w4"
    using s1 s2 s3 w4(1) by (meson rtranclp.rtrancl_into_rtrancl rtranclp_trans r_into_rtranclp)
  from fw_goodD(2) [OF inv [OF this, unfolded fw_inv_def]] have none: "fw_delivered w4 = []" "fw_abandoned w4 = []" using w4(3) by simp_all
  have w5: "fm_pc (fw_mach w5) = Ended" "\<not> fl_abort (fw_flusher w5)" "fw_delivered w5 = []" "fw_abandoned w5 = []"
    "fw_accepted w5 = [(a, Payload p (Some a))]"
    using m' none w4 w2(4) by (simp_all add: w5_def with_flusher_def w3_def close_stop_def)
  have i5: "fw_inv ws_out ws_pend ws_ok [] w5" by (rule inv [OF steps])
  have later: "fw_delivered w' = [] \<and> ws_out (fl_sink (fw_flusher w')) = [] \<and>
       a \<in> set (ring_items (fl_queue (fw_flusher w'))) \<and> l_state (p_leases (fl_pool (fw_flusher w')) ! a) = StateQueued"
    if s: "fw_steps writer_batch_sink w5 w'" for w'
  proof -
    note E = ended_steps [OF s w5(1) i5]
    have "fw_inv ws_out ws_pend ws_ok [] w'" using wbatch.fw_steps_inv [OF s i5] by simp
    note G = fw_goodD [OF this [unfolded fw_inv_def]]
    have pend: "rn_pending (fm_run (fw_mach w')) = []" using G(3) E by (simp add: fw_flags_def)
    have out: "ws_out (fl_sink (fw_flusher w')) = []" using G(5) E w5(3,4) pend by (auto simp: fw_sink_def payloads_def split: if_splits)
    obtain rest where "fw_accepted w' = (a, Payload p (Some a)) # rest" using E w5(5) by auto
    then have "a \<in> set (map fst (entries (fl_pool (fw_flusher w')) (ring_items (fl_queue (fw_flusher w')))))"
      using G(2) E w5(3,4) pend by simp
    then have "a \<in> set (ring_items (fl_queue (fw_flusher w')))" by simp
    then show ?thesis using owner_states(3) [OF G(1)] E w5(3) out by simp
  qed
  have "fl_done (fw_flusher w5)" using fw_goodD(3) [OF i5 [unfolded fw_inv_def]] w5(1) by (simp add: fw_flags_def)
  then show ?thesis using steps w5 later by (intro exI [of _ w5]) (simp add: close_result_def)
qed

subsection \<open>A concrete run\<close>

definition quiet_config :: pool_Config where
  "quiet_config = demo_config\<lparr>AuditMode := ''OFF''\<rparr>"

definition quiet_ops :: "pool_op list" where
  "quiet_ops = [PoolAcquire (demo_env None) 2 no_context, PoolAppend (Some 0) [5, 6], PoolMarkQueued (Some 0)]"

definition quiet_start :: BytePool where
  "quiet_start = demo_pool\<lparr>p_config := (p_config demo_pool)\<lparr>AuditMode := ''OFF''\<rparr>\<rparr>"

definition quiet_pool :: BytePool where
  "quiet_pool = run_pool quiet_ops quiet_start"

definition one_write :: "(write_env, sink_error option option) run_env" where
  "one_write = idle_env\<lparr>rv_flush := \<lparr>fe_now = 0, fe_sink = \<lparr>we_script = [\<lparr>io_ctx = None, io_count = 2, io_err = None\<rparr>], we_nanos = 3\<rparr>,
     fe_nanos = 3, fe_release = 9, fe_after = 9\<rparr>\<rparr>"

definition demo_flusher_config :: flusher_Config where
  "demo_flusher_config = \<lparr>fq_BatchSize = 2, fq_FlushInterval = 0, fq_PollInterval = 0, fq_RetryBackoff = 0, fq_MaxRetryBackoff = 0\<rparr>"

definition demo_flusher :: "WriterSink Flusher" where
  "demo_flusher = projr (flusher_New (Some ring4) (Some quiet_pool) (Some NewWriter) demo_flusher_config)"

lemma quiet_pool_facts:
  "pool_inv quiet_pool" "length (p_leases quiet_pool) = 1" "l_state (p_leases quiet_pool ! 0) = StateQueued"
  "Payload quiet_pool (Some 0) = [5, 6]"
proof -
  have new: "pool_New 7 quiet_config = Inr quiet_start"
    by (simp add: pool_New_def pool_normalized_def default_classes_and_mode_def default_limits_def quiet_config_def
        quiet_start_def demo_config_def demo_pool_def AuditMode_valid_def AuditFull_def AuditOff_def AuditSampled_def newAuditRegistry_def)
  have "pool_ops_valid quiet_ops quiet_start"
    by (simp add: quiet_ops_def quiet_start_def pool_eval MarkQueued_def)
  then show "pool_inv quiet_pool" unfolding quiet_pool_def by (rule run_pool_inv [OF pool_New_inv(1) [OF new]])
  show "length (p_leases quiet_pool) = 1" "l_state (p_leases quiet_pool ! 0) = StateQueued" "Payload quiet_pool (Some 0) = [5, 6]"
    by (simp_all add: quiet_pool_def quiet_ops_def quiet_start_def pool_eval MarkQueued_def Payload_def lease_payload_def numeral_eq_Suc)
qed

lemma demo_flusher_New:
  "flusher_New (Some ring4) (Some quiet_pool) (Some NewWriter) demo_flusher_config = Inr demo_flusher"
  "fl_config demo_flusher = \<lparr>fq_BatchSize = 2, fq_FlushInterval = 50 * Millisecond, fq_PollInterval = 100000,
     fq_RetryBackoff = 10 * Millisecond, fq_MaxRetryBackoff = Second\<rparr>"
  "fl_queue demo_flusher = ring4" "fl_pool demo_flusher = quiet_pool" "fl_sink demo_flusher = NewWriter" "\<not> fl_started demo_flusher"
  "\<not> fl_abort demo_flusher"
  by (simp_all add: demo_flusher_def flusher_New_def flusher_normalized_def flusher_defaults_def demo_flusher_config_def
      Millisecond_def Second_def)

lemma demo_write:
  "\<exists>s. ws_WriteBatch \<lparr>we_script = [\<lparr>io_ctx = None, io_count = 2, io_err = None\<rparr>], we_nanos = 3\<rparr> [[5, 6]] NewWriter = Some (s, None)"
  by (simp add: sink_eval)

text \<open>From a stopped flusher with one message queued to the end.\<close>

lemma message_run:
  assumes "fw_inv ws_out ws_pend ws_ok [] w" "fm_pc (fw_mach w) = Select" "fm_run (fw_mach w) = run_locals c"
    "fl_stop (fw_flusher w)" "\<not> fl_abort (fw_flusher w)" "ring_items (fl_queue (fw_flusher w)) = [a]"
    "2 \<le> fq_BatchSize (fl_config (fw_flusher w))" "Payload (fl_pool (fw_flusher w)) (Some a) = [5, 6]" "fl_sink (fw_flusher w) = NewWriter"
  shows "\<exists>m'. run_clean writer_batch_sink (replicate 4 one_write @ replicate 4 idle_env) (fw_mach w) = Some m' \<and>
    fm_pc m' = Ended \<and> \<not> fl_abort (fm_flusher m')"
proof -
  let ?f = "fw_flusher w" and ?q = "fl_queue (fw_flusher w)"
  note G = fw_goodD [OF assms(1) [unfolded fw_inv_def]]
  have ring: "ring_inv ?q" using owner_invD(1) [OF G(1)] .
  define r1 where "r1 = take_stop (run_locals c)"
  have sel: "run_select (rv_pick one_write) ?f (run_locals c) = r1"
    using assms(4,5) by (simp add: run_select_def Let_def r1_def one_write_def idle_env_def)
  have r1: "rn_pending r1 = []" "\<not> rn_retrying r1" "rn_closing r1" "\<not> rn_aborting r1" by (simp_all add: r1_def take_stop_def)
  obtain p e where mk: "MarkInFlight (Some a) (fl_pool ?f) = (p, e)" by fastforce
  have own1: "owner_inv (fl_pool ?f) ?q (rn_pending r1) (fw_passed w) (fst ` set (fw_delivered w @ fw_abandoned w))"
    using G(1) assms(3) r1 by simp
  note O = owner_consume [OF own1 assms(6) mk, unfolded r1(1) append_Nil]
  define r2 where "r2 = r1\<lparr>rn_deadline := rv_now one_write + sint (fq_FlushInterval (fl_config ?f)), rn_pending := [a]\<rparr>"
  define f2 where "f2 = recordError (map_option PoolErr e) (?f\<lparr>fl_queue := consume_accept ?q, fl_pool := p\<rparr>)"
  define f3 where "f3 = f2\<lparr>fl_inFlight := of_nat 1\<rparr>"
  have q2: "ring_inv (consume_accept ?q)" "ring_items (consume_accept ?q) = []" using owner_invD(1) [OF O(1)] O(5) by simp_all
  have pl: "payloads p [a] = [[5, 6]]" using O(4) assms(8) by (simp add: payloads_def)
  define m1 where "m1 = \<lparr>fm_flusher = ?f, fm_run = r1, fm_pc = Consume\<rparr>"
  define m2 where "m2 = \<lparr>fm_flusher = f2, fm_run = r2, fm_pc = Consume\<rparr>"
  define m3 where "m3 = \<lparr>fm_flusher = f3, fm_run = r2, fm_pc = Decide\<rparr>"
  have r2: "rn_pending r2 = [a]" "\<not> rn_retrying r2" "rn_closing r2" "\<not> rn_aborting r2" using r1 by (simp_all add: r2_def)
  have s1: "run_step writer_batch_sink one_write (fw_mach w) = Some m1"
    using assms(2,3) sel r1(4) by (simp add: run_step_def Let_def m1_def)
  have t1: "TryConsume ?q = (consume_accept ?q, Some a)" using TryConsume_cases [OF ring] assms(6) by simp
  have s2: "run_step writer_batch_sink one_write m1 = Some m2"
    using assms(7) t1 mk O(2) r1 by (auto simp: run_step_def Let_def run_consume_def m1_def m2_def r2_def f2_def)
  have t2: "TryConsume (fl_queue f2) = (fl_queue f2, None)" using TryConsume_cases [OF q2(1)] q2(2) by (simp add: f2_def)
  have s3: "run_step writer_batch_sink one_write m2 = Some m3"
    using assms(7) t2 r2 by (simp add: run_step_def Let_def run_consume_def m2_def m3_def f3_def f2_def)
  obtain s where wr: "ws_WriteBatch \<lparr>we_script = [\<lparr>io_ctx = None, io_count = 2, io_err = None\<rparr>], we_nanos = 3\<rparr> [[5, 6]] NewWriter = Some (s, None)"
    using demo_write by blast
  define g where "g = f3\<lparr>fl_sink := s, fl_lastFlushNanos := 3, fl_totalFlushNanos := fl_totalFlushNanos f3 + 3\<rparr>"
  have gs: "fl_pool g = p" "fl_queue g = consume_accept ?q" "fl_stop g" "\<not> fl_abort g" "fl_config g = fl_config ?f"
    using assms(4,5) by (simp_all add: g_def f3_def f2_def)
  obtain f4 r4 where fd: "flush_done 9 g r2 = (f4, r4)" by fastforce
  define m4 where "m4 = \<lparr>fm_flusher = f4, fm_run = r4, fm_pc = Select\<rparr>"
  have s4: "run_step writer_batch_sink one_write m3 = Some m4"
    using r2 pl wr fd assms(9)
    by (simp add: run_step_def Let_def run_flush_def should_flush_def m3_def m4_def one_write_def g_def f3_def f2_def)
  note D = flush_done_frame [of g r2 "fw_passed w" _ 9 f4 r4, unfolded gs r2, OF O(1) fd]
  have m4: "fm_pc m4 = Select" "fl_stop (fm_flusher m4)" "\<not> fl_abort (fm_flusher m4)" "rn_closing (fm_run m4)" "rn_pending (fm_run m4) = []"
    "\<not> rn_retrying (fm_run m4)" "\<not> rn_aborting (fm_run m4)" "ring_inv (fl_queue (fm_flusher m4))" "ring_items (fl_queue (fm_flusher m4)) = []"
    "1 \<le> fq_BatchSize (fl_config (fm_flusher m4))"
    using D q2 gs r2 assms(7) by (simp_all add: m4_def)
  obtain m' where m': "run_clean writer_batch_sink (replicate 4 idle_env) m4 = Some m'" "fm_pc m' = Ended" "\<not> fl_abort (fm_flusher m')"
    using idle_run [OF m4(1-3) _ m4(5-10)] m4(4) by blast
  have "run_clean writer_batch_sink (replicate 4 one_write @ replicate 4 idle_env) (fw_mach w) = run_clean writer_batch_sink (replicate 4 idle_env) m4"
    using s1 s2 s3 s4 assms(2) r1(2) r2(2) m4(6) m1_def m2_def m3_def by (simp add: numeral_eq_Suc del: replicate.simps(2)) (simp add: numeral_eq_Suc)
  then show ?thesis using m' by simp
qed

lemma published_run:
  "\<exists>w1 w2. fw_steps writer_batch_sink (world_of demo_flusher) w1 \<and> fw_step writer_batch_sink w1 w2 \<and>
    q_closed (fl_queue (fw_flusher w1)) \<and> fw_passed w1 = {} \<and> fm_pc (fw_mach w1) = Select \<and>
    fm_pc (fw_mach w2) = Select \<and> fm_run (fw_mach w2) = run_locals (fl_config demo_flusher) \<and> fl_stop (fw_flusher w2) \<and>
    \<not> fl_abort (fw_flusher w2) \<and> ring_items (fl_queue (fw_flusher w2)) = [0] \<and> fl_config (fw_flusher w2) = fl_config demo_flusher \<and>
    fl_pool (fw_flusher w2) = quiet_pool \<and> fl_sink (fw_flusher w2) = NewWriter \<and> fw_accepted w2 = [(0, [5, 6])]"
proof -
  let ?q = "ring4\<lparr>publishAttempts := publishAttempts ring4 + 1\<rparr>" and ?w0 = "world_of demo_flusher"
  have q: "ring_inv ?q" "ring_items ?q = []" "capacity ?q = 4" using ring4_ok by simp_all
  have room: "ring_len ?q < unat (capacity ?q)"
  proof -
    have "ring_len ?q = 0" using q(2) length_ring_items by (metis list.size(3))
    then show ?thesis using q(3) by simp
  qed
  define wa where "wa = (with_flusher (demo_flusher\<lparr>fl_queue := ?q\<rparr>) ?w0)\<lparr>fw_passed := {0}\<rparr>"
  define wb where "wb = (with_flusher ((fw_flusher wa)\<lparr>fl_queue := publish_accept 0 (fl_queue (fw_flusher wa))\<rparr>) wa)
      \<lparr>fw_passed := fw_passed wa - {0}, fw_accepted := fw_accepted wa @ entries (fl_pool (fw_flusher wa)) [0]\<rparr>"
  define wc where "wc = wb\<lparr>fw_mach := close_queue (fw_mach wb)\<rparr>"
  define wd where "wd = wc\<lparr>fw_mach := close_stop (fw_mach wc)\<rparr>"
  have w0: "fw_flusher ?w0 = demo_flusher" "fw_owned ?w0 = {}" "fw_passed ?w0 = {}"
    using ring4_ok(2) demo_flusher_New(3) by (simp_all add: world_of_def fw_owned_def)
  have a: "fw_step writer_batch_sink ?w0 wa"
    using fw_check [of ?w0 0 writer_batch_sink] w0 ring4_ok(4) quiet_pool_facts demo_flusher_New(3,4) by (simp add: wa_def)
  have wa: "fl_queue (fw_flusher wa) = ?q" "fw_passed wa = {0}" by (simp_all add: wa_def with_flusher_def)
  have b: "fw_step writer_batch_sink wa wb"
    unfolding wb_def by (rule fw_claim) (use wa room in simp_all)
  have wb: "fl_queue (fw_flusher wb) = publish_accept 0 ?q" "fw_passed wb = {}" "fw_accepted wb = [(0, [5, 6])]" "fl_pool (fw_flusher wb) = quiet_pool"
    "fl_sink (fw_flusher wb) = NewWriter" "fl_config (fw_flusher wb) = fl_config demo_flusher" "\<not> fl_started (fw_flusher wb)" "\<not> fl_abort (fw_flusher wb)"
    using demo_flusher_New(4-7) quiet_pool_facts(4) by (simp_all add: wb_def wa_def with_flusher_def world_of_def)
  have items: "ring_items (publish_accept 0 ?q) = [0]" using ring_items_publish_accept [OF q(1) room, of 0] q(2) by simp
  have c: "fw_step writer_batch_sink wb wc" unfolding wc_def by (rule fw_close)
  have wc: "q_closed (fl_queue (fw_flusher wc))" "fw_passed wc = {}" "fm_pc (fw_mach wc) = Select" "ring_items (fl_queue (fw_flusher wc)) = [0]"
    "fm_run (fw_mach wc) = run_locals (fl_config demo_flusher)" "\<not> fl_abort (fw_flusher wc)" "fl_config (fw_flusher wc) = fl_config demo_flusher"
    "fl_pool (fw_flusher wc) = quiet_pool" "fl_sink (fw_flusher wc) = NewWriter" "fw_accepted wc = [(0, [5, 6])]"
    using wb items by (simp_all add: wc_def close_queue_def flusher_Start_def ring_Close_def Let_def)
  have d: "fw_step writer_batch_sink wc wd" unfolding wd_def by (rule fw_stop) (rule wc(1))
  have "fw_steps writer_batch_sink ?w0 wc" using a b c by (meson rtranclp.rtrancl_into_rtrancl r_into_rtranclp)
  moreover have "fm_pc (fw_mach wd) = Select" "fm_run (fw_mach wd) = run_locals (fl_config demo_flusher)" "fl_stop (fw_flusher wd)"
    "\<not> fl_abort (fw_flusher wd)" "ring_items (fl_queue (fw_flusher wd)) = [0]" "fl_config (fw_flusher wd) = fl_config demo_flusher"
    "fl_pool (fw_flusher wd) = quiet_pool" "fl_sink (fw_flusher wd) = NewWriter" "fw_accepted wd = [(0, [5, 6])]"
    using wc by (simp_all add: wd_def close_stop_def)
  ultimately show ?thesis using wc(1-3) d by blast
qed

text \<open>The whole run: one message published, delivered, and the flusher at its end.\<close>

lemma demo_shutdown:
  "\<exists>w1 w2 w3 m'. fw_steps writer_batch_sink (world_of demo_flusher) w1 \<and> q_closed (fl_queue (fw_flusher w1)) \<and> fw_passed w1 = {} \<and>
    fm_pc (fw_mach w1) \<noteq> Ended \<and> fw_steps writer_batch_sink w1 w2 \<and> fm_pc (fw_mach w2) = Select \<and> fl_stop (fw_flusher w2) \<and>
    \<not> fl_abort (fw_flusher w2) \<and> \<not> rn_retrying (fm_run (fw_mach w2)) \<and> rn_pending (fm_run (fw_mach w2)) = [] \<and>
    length (ring_items (fl_queue (fw_flusher w2))) = 1 \<and>
    run_clean writer_batch_sink (replicate 4 one_write @ replicate 6 idle_env) (fw_mach w2) = Some m' \<and> fw_steps writer_batch_sink w2 w3 \<and>
    fw_mach w3 = m' \<and> fm_pc (fw_mach w3) = Ended \<and> \<not> fl_abort (fw_flusher w3) \<and> fw_accepted w3 = [(0, [5, 6])]"
proof -
  obtain w1 w2 where w: "fw_steps writer_batch_sink (world_of demo_flusher) w1" "fw_step writer_batch_sink w1 w2"
    "q_closed (fl_queue (fw_flusher w1))" "fw_passed w1 = {}" "fm_pc (fw_mach w1) = Select" "fm_pc (fw_mach w2) = Select"
    "fm_run (fw_mach w2) = run_locals (fl_config demo_flusher)" "fl_stop (fw_flusher w2)" "\<not> fl_abort (fw_flusher w2)"
    "ring_items (fl_queue (fw_flusher w2)) = [0]" "fl_config (fw_flusher w2) = fl_config demo_flusher" "fl_pool (fw_flusher w2) = quiet_pool"
    "fl_sink (fw_flusher w2) = NewWriter" "fw_accepted w2 = [(0, [5, 6])]"
    using published_run by blast
  have "fw_steps writer_batch_sink (world_of demo_flusher) w2" using w(1,2) by (rule rtranclp.rtrancl_into_rtrancl)
  then have inv: "fw_inv ws_out ws_pend ws_ok [] w2"
    by (rule writer_world_inv [OF demo_flusher_New(1) ring4_ok(1,2) quiet_pool_facts(1)])
  have B: "2 \<le> fq_BatchSize (fl_config (fw_flusher w2))" using w(11) demo_flusher_New(2) by simp
  obtain m' where m': "run_clean writer_batch_sink (replicate 4 one_write @ replicate 4 idle_env) (fw_mach w2) = Some m'"
    "fm_pc m' = Ended" "\<not> fl_abort (fm_flusher m')"
    using message_run [OF inv w(6-10) B] w(12,13) quiet_pool_facts(4) by auto
  have longer: "run_clean bs (es @ es') m = Some m1" if "run_clean bs es m = Some m1" "fm_pc m1 = Ended" for bs es es' and m m1 :: "WriterSink fmach"
    using that by (induction es arbitrary: m) (cases es', auto split: option.splits if_splits)
  have "replicate 4 one_write @ replicate 6 idle_env = (replicate 4 one_write @ replicate 4 idle_env) @ replicate 2 idle_env"
    by (simp add: numeral_eq_Suc)
  then have long: "run_clean writer_batch_sink (replicate 4 one_write @ replicate 6 idle_env) (fw_mach w2) = Some m'"
    using longer [OF m'(1,2)] by simp
  obtain w3 where "fw_steps writer_batch_sink w2 w3" "fw_mach w3 = m'" "fw_accepted w3 = [(0, [5, 6])]"
    using run_clean_steps [OF m'(1)] w(14) by auto
  then show ?thesis using w m' long by (intro exI [of _ w1] exI [of _ w2] exI [of _ w3] exI [of _ m']) auto
qed

lemma flushed_exactly_once_witness:
  "\<exists>w. fw_steps writer_batch_sink (world_of demo_flusher) w \<and> fw_accepted w = [(0, [5, 6])] \<and>
    (\<exists>n. ws_out (fl_sink (fw_flusher w)) = concat (map snd (fw_delivered w)) @
      take n (concat (map snd (fw_abandoned w @ entries (fl_pool (fw_flusher w)) (rn_pending (fm_run (fw_mach w)))))))"
proof -
  obtain w1 w2 w3 where "fw_steps writer_batch_sink (world_of demo_flusher) w1" "fw_steps writer_batch_sink w1 w2"
    "fw_steps writer_batch_sink w2 w3" "fw_accepted w3 = [(0, [5, 6])]"
    using demo_shutdown by blast
  then have s: "fw_steps writer_batch_sink (world_of demo_flusher) w3" "fw_accepted w3 = [(0, [5, 6])]" by (meson rtranclp_trans)+
  from flushed_exactly_once [OF demo_flusher_New(1) ring4_ok(1,2) quiet_pool_facts(1) s(1)] s show ?thesis by blast
qed

lemma shutdown_delivers_all_witness:
  "\<exists>w. fw_steps writer_batch_sink (world_of demo_flusher) w \<and> ws_out (fl_sink (fw_flusher w)) = [5, 6] \<and>
    close_result (fw_flusher w) = Some (fl_finalErr (fw_flusher w))"
proof -
  obtain w1 w2 w3 where w: "fw_steps writer_batch_sink (world_of demo_flusher) w1" "q_closed (fl_queue (fw_flusher w1))" "fw_passed w1 = {}"
    "fm_pc (fw_mach w1) \<noteq> Ended" "fw_steps writer_batch_sink w1 w2" "fw_steps writer_batch_sink w2 w3" "fm_pc (fw_mach w3) = Ended"
    "\<not> fl_abort (fw_flusher w3)" "fw_accepted w3 = [(0, [5, 6])]"
    using demo_shutdown by blast
  have s: "fw_steps writer_batch_sink w1 w3" using w(5,6) by (rule rtranclp_trans)
  have t: "fw_steps writer_batch_sink (world_of demo_flusher) w3" using w(1) s by (rule rtranclp_trans)
  from shutdown_delivers_all [OF demo_flusher_New(1) ring4_ok(1,2) quiet_pool_facts(1) w(1-4) s w(7,8)] t w(9) show ?thesis
    by (intro exI [of _ w3]) simp
qed

lemma flusher_limits_witness:
  "\<exists>w. fw_steps writer_batch_sink (world_of demo_flusher) w \<and> fw_accepted w = [(0, [5, 6])] \<and> length (rn_pending (fm_run (fw_mach w))) \<le> 2 \<and>
    sint (rn_backoff (fm_run (fw_mach w))) \<le> sint Second"
proof -
  obtain w1 w2 w3 where "fw_steps writer_batch_sink (world_of demo_flusher) w1" "fw_steps writer_batch_sink w1 w2"
    "fw_steps writer_batch_sink w2 w3" "fw_accepted w3 = [(0, [5, 6])]"
    using demo_shutdown by blast
  then have s: "fw_steps writer_batch_sink (world_of demo_flusher) w3" "fw_accepted w3 = [(0, [5, 6])]" by (meson rtranclp_trans)+
  have "sint (fq_MaxRetryBackoff (fl_config demo_flusher)) < 2 ^ 62" by (simp add: demo_flusher_New(2) Second_def)
  from flusher_limits [OF demo_flusher_New(1) ring4_ok(1,2) quiet_pool_facts(1) s(1) this] s(1,2) demo_flusher_New(2) show ?thesis
    by (intro exI [of _ w3]) simp
qed


lemma accepted_after_end_witness:
  "\<exists>w. fw_steps writer_batch_sink (world_of demo_flusher) w \<and> fm_pc (fw_mach w) = Ended \<and> fw_accepted w = [(0, [5, 6])] \<and> fw_delivered w = []"
  using accepted_after_end [OF demo_flusher_New(1) ring4_ok(1,2) quiet_pool_facts(1) ring4_ok(4), of 0] quiet_pool_facts by auto

end
