(* ===== verification/Event.thy ===== *)
theory Event
  imports Prelude
begin

text \<open>
  The event a log call publishes (\<^verbatim>\<open>pkg/minilogback/appender.go\<close>, \<open>eventRecord\<close>), its fields
  (\<^verbatim>\<open>types.go\<close>) and its JSON text as \<open>encoding/json\<close> writes it for these types: decimal numbers, and
  strings with the escapes for quotes, controls, HTML characters, line separators and malformed UTF-8. The
  values of the fields have any type: how such a value is encoded is a parameter, \<open>None\<close> when it cannot be.
  Strings are byte lists, as in Go.
\<close>

subsection \<open>Fields and events\<close>

record 'v Field =
  Key :: bytes
  Value :: 'v

record callerRecord =
  cr_Function :: bytes
  cr_File :: bytes
  cr_Line :: int

record 'v eventRecord =
  ev_Sequence :: u64
  ev_Timestamp :: bytes
  ev_TimestampUnixNano :: int
  ev_Level :: bytes
  ev_Logger :: bytes
  ev_Message :: bytes
  ev_Caller :: "callerRecord option"
  ev_Fields :: "'v Field list"

definition ascii :: "string \<Rightarrow> bytes" where
  "ascii s = map of_char s"

subsection \<open>Numbers\<close>

definition digit :: "nat \<Rightarrow> u8" where
  "digit n = 48 + of_nat (n mod 10)"

fun decimal :: "nat \<Rightarrow> bytes" where
  "decimal n = (if n < 10 then [digit n] else decimal (n div 10) @ [digit n])"

declare decimal.simps [simp del]

definition json_int :: "int \<Rightarrow> bytes" where
  "json_int i = (if i < 0 then 45 # decimal (nat (- i)) else decimal (nat i))"

subsection \<open>Strings\<close>

text \<open>
  \<open>utf8.DecodeRune\<close>: the number of bytes of the first character and the character, or \<open>None\<close> for
  an encoding that is not valid (one byte is consumed then).
\<close>

definition cont :: "u8 \<Rightarrow> bool" where
  "cont b \<longleftrightarrow> 0x80 \<le> b \<and> b \<le> 0xBF"

definition utf8_tail :: "u8 \<Rightarrow> nat" where
  "utf8_tail b = (if 0xC2 \<le> b \<and> b \<le> 0xDF then 1 else if 0xE0 \<le> b \<and> b \<le> 0xEF then 2 else if 0xF0 \<le> b \<and> b \<le> 0xF4 then 3 else 0)"

definition utf8_second :: "u8 \<Rightarrow> u8 \<Rightarrow> bool" where
  "utf8_second b c \<longleftrightarrow> (if b = 0xE0 then 0xA0 \<le> c \<and> c \<le> 0xBF else if b = 0xED then 0x80 \<le> c \<and> c \<le> 0x9F
     else if b = 0xF0 then 0x90 \<le> c \<and> c \<le> 0xBF else if b = 0xF4 then 0x80 \<le> c \<and> c \<le> 0x8F else cont c)"

definition utf8_size :: "bytes \<Rightarrow> nat option" where
  "utf8_size bs = (case bs of [] \<Rightarrow> None | b # rest \<Rightarrow>
     (let n = utf8_tail b
      in if n = 0 \<or> length rest < n \<or> \<not> utf8_second b (rest ! 0) \<or> \<not> list_all cont (take n rest) then None else Some (Suc n)))"

definition hex_digit :: "u8 \<Rightarrow> u8" where
  "hex_digit n = (if n < 10 then 48 + n else 87 + n)"

text \<open>A byte below 128.\<close>

definition json_ascii :: "u8 \<Rightarrow> bytes" where
  "json_ascii b =
     (if b = 34 \<or> b = 92 then [92, b]
      else if b = 8 then [92, 98] else if b = 12 then [92, 102]
      else if b = 10 then [92, 110] else if b = 13 then [92, 114] else if b = 9 then [92, 116]
      else if b < 32 \<or> b = 38 \<or> b = 60 \<or> b = 62 then [92, 117, 48, 48, hex_digit (drop_bit 4 b), hex_digit (b AND 15)]
      else [b])"

definition json_rune :: "bytes \<Rightarrow> bytes" where
  "json_rune r = (if r = [0xE2, 0x80, 0xA8] then [92, 117, 50, 48, 50, 56] else if r = [0xE2, 0x80, 0xA9] then [92, 117, 50, 48, 50, 57] else r)"

function json_chars :: "bytes \<Rightarrow> bytes" where
  "json_chars [] = []"
| "json_chars (b # rest) =
     (if b < 128 then json_ascii b @ json_chars rest
      else case utf8_size (b # rest) of
        None \<Rightarrow> [92, 117, 102, 102, 102, 100] @ json_chars rest
      | Some n \<Rightarrow> json_rune (take n (b # rest)) @ json_chars (drop (n - 1) rest))"
  by pat_completeness auto
termination by (relation "measure length") auto

definition json_string :: "bytes \<Rightarrow> bytes" where
  "json_string s = [34] @ json_chars s @ [34]"

subsection \<open>Objects\<close>

fun comma :: "bytes list \<Rightarrow> bytes" where
  "comma [] = []"
| "comma [x] = x"
| "comma (x # xs) = x @ [44] @ comma xs"

definition json_object :: "(string \<times> bytes) list \<Rightarrow> bytes" where
  "json_object kvs = [123] @ comma (map (\<lambda>(k, v). json_string (ascii k) @ [58] @ v) kvs) @ [125]"

definition json_caller :: "callerRecord \<Rightarrow> bytes" where
  "json_caller c = json_object
     [(''function'', json_string (cr_Function c)), (''file'', json_string (cr_File c)), (''line'', json_int (cr_Line c))]"

definition json_field :: "('v \<Rightarrow> bytes option) \<Rightarrow> 'v Field \<Rightarrow> bytes option" where
  "json_field enc f = map_option (\<lambda>v. json_object [(''key'', json_string (Key f)), (''value'', v)]) (enc (Value f))"

fun json_fields :: "('v \<Rightarrow> bytes option) \<Rightarrow> 'v Field list \<Rightarrow> bytes list option" where
  "json_fields enc [] = Some []"
| "json_fields enc (f # fs) = (case json_field enc f of None \<Rightarrow> None
     | Some b \<Rightarrow> map_option (Cons b) (json_fields enc fs))"

text \<open>\<open>json.Marshal\<close> of an event; a caller that is missing is left out.\<close>

definition json_event :: "('v \<Rightarrow> bytes option) \<Rightarrow> 'v eventRecord \<Rightarrow> bytes option" where
  "json_event enc e = (case json_fields enc (ev_Fields e) of None \<Rightarrow> None
     | Some fs \<Rightarrow> Some (json_object
         ([(''sequence'', json_int (int (unat (ev_Sequence e)))), (''timestamp'', json_string (ev_Timestamp e)),
           (''timestamp_unix_nano'', json_int (ev_TimestampUnixNano e)), (''level'', json_string (ev_Level e)),
           (''logger'', json_string (ev_Logger e)), (''message'', json_string (ev_Message e))] @
          (case ev_Caller e of None \<Rightarrow> [] | Some c \<Rightarrow> [(''caller'', json_caller c)]) @
          [(''fields'', [91] @ comma fs @ [93])])))"

subsection \<open>One event, one line\<close>

text \<open>The bytes of a text that stays on one line.\<close>

definition one_line :: "bytes \<Rightarrow> bool" where
  "one_line bs \<longleftrightarrow> 10 \<notin> set bs"

lemma one_line_simps [simp]:
  "one_line []" "one_line (b # bs) \<longleftrightarrow> b \<noteq> 10 \<and> one_line bs" "one_line (xs @ ys) \<longleftrightarrow> one_line xs \<and> one_line ys"
  "one_line (concat xss) \<longleftrightarrow> (\<forall>xs\<in>set xss. one_line xs)"
  by (auto simp: one_line_def)

lemma digit_visible: "digit n \<noteq> 10"
proof -
  have "unat (digit n) = 48 + n mod 10"
    unfolding digit_def by (subst unat_add_lem [THEN iffD1]) (simp_all add: unat_of_nat)
  then show ?thesis by (auto dest: arg_cong [where f = unat])
qed

lemma decimal_line [simp]: "one_line (decimal n)"
proof (induction n rule: decimal.induct)
  case (1 n)
  then show ?case using digit_visible by (subst decimal.simps) simp
qed

lemma json_int_line [simp]: "one_line (json_int i)"
  by (simp add: json_int_def)

lemma hex_visible:
  assumes "n < 16"
  shows "hex_digit n \<noteq> 10"
proof -
  have "unat n < 16" using assms by (simp add: word_less_nat_alt)
  then have "unat (hex_digit n) = (if n < 10 then 48 else 87) + unat n"
    by (auto simp: hex_digit_def unat_word_ariths word_less_nat_alt)
  then have "unat (hex_digit n) \<noteq> unat (10 :: u8)" by simp
  then show ?thesis by auto
qed

lemma nibbles: "drop_bit 4 (b :: u8) < 16" "b AND 15 < (16 :: u8)"
proof -
  have "unat (drop_bit 4 b) = unat b div 16" by (simp add: unat_drop_bit_eq) (simp add: drop_bit_eq_div)
  moreover have "unat b < 256" using unsigned_less [of b, where ?'a = nat] by simp
  ultimately show "drop_bit 4 b < 16" by (simp add: word_less_nat_alt)
  have "b AND 15 \<le> 15" by (rule word_and_le1)
  then show "b AND 15 < 16" by (rule order_le_less_trans) simp
qed

lemma json_ascii_line: "one_line (json_ascii b)"
  using hex_visible [OF nibbles(1)] hex_visible [OF nibbles(2)] by (auto simp: json_ascii_def)

lemma utf8_size_line:
  assumes "utf8_size (b # rest) = Some n" "128 \<le> b"
  shows "one_line (take n (b # rest))"
proof -
  have n: "n = Suc (utf8_tail b)" "list_all cont (take (utf8_tail b) rest)"
    using assms(1) by (auto simp: utf8_size_def Let_def split: if_splits)
  then have "128 \<le> x" if "x \<in> set (take n (b # rest))" for x
    using that assms(2) by (auto simp: list_all_iff cont_def)
  then have "10 \<notin> set (take n (b # rest))" by fastforce
  then show ?thesis by (simp only: one_line_def not_False_eq_True)
qed

lemma json_chars_line: "one_line (json_chars s)"
proof (induction s rule: json_chars.induct)
  case (2 b rest)
  show ?case
  proof (cases "b < 128")
    case True
    then show ?thesis using 2(1) json_ascii_line by simp
  next
    case False
    show ?thesis
    proof (cases "utf8_size (b # rest)")
      case None
      then show ?thesis using 2(2) False by simp
    next
      case (Some n)
      have "one_line (json_rune (take n (b # rest)))"
        using utf8_size_line [OF Some] False by (simp add: json_rune_def not_less)
      then show ?thesis using 2(3) False Some by simp
    qed
  qed
qed simp

lemma json_string_line [simp]: "one_line (json_string s)"
  by (simp add: json_string_def json_chars_line)

lemma comma_line: "one_line (comma xs) \<longleftrightarrow> (\<forall>x\<in>set xs. one_line x)"
  by (induction xs rule: comma.induct) auto

lemma json_object_line: "one_line (json_object kvs) \<longleftrightarrow> (\<forall>(k, v)\<in>set kvs. one_line v)"
  by (auto simp: json_object_def comma_line)

lemma json_fields_line:
  assumes "json_fields enc fs = Some bs" "\<And>v b. enc v = Some b \<Longrightarrow> one_line b" "b \<in> set bs"
  shows "one_line b"
  using assms(1,3)
  by (induction fs arbitrary: bs) (auto simp: json_field_def json_object_line assms(2) split: option.splits)

text \<open>Whatever its message, logger name and fields contain, an encoded event holds no line break.\<close>

lemma json_event_line:
  assumes "json_event enc e = Some b" "\<And>v b. enc v = Some b \<Longrightarrow> one_line b"
  shows "one_line b"
  using assms(1) json_fields_line [OF _ assms(2)]
  by (auto simp: json_event_def json_object_line comma_line json_caller_def split: option.splits)

text \<open>Reading a text line by line: the lines that a newline ends.\<close>

fun lines_of :: "bytes \<Rightarrow> bytes \<Rightarrow> bytes list" where
  "lines_of cur [] = []"
| "lines_of cur (b # bs) = (if b = 10 then (cur @ [10]) # lines_of [] bs else lines_of (cur @ [b]) bs)"

lemma lines_of_line: "one_line l \<Longrightarrow> lines_of cur (l @ 10 # rest) = (cur @ l @ [10]) # lines_of [] rest"
  by (induction l arbitrary: cur) auto

text \<open>Texts of one line each, with their newlines, are read back one by one.\<close>

lemma lines_of_concat:
  assumes "\<forall>x\<in>set xs. \<exists>l. one_line l \<and> x = l @ [10]"
  shows "lines_of [] (concat xs) = xs"
  using assms by (induction xs) (auto simp: lines_of_line)

end
