(* ===== verification/Appender.thy ===== *)
theory Appender
  imports Flusher_Delivery Pool_Audit Event
begin

text \<open>
  The public appender of \<^verbatim>\<open>pkg/minilogback\<close>: levels, results and configuration (\<^verbatim>\<open>types.go\<close>), the lease
  wrapper a caller holds (\<^verbatim>\<open>lease.go\<close>), and the appender itself (\<^verbatim>\<open>appender.go\<close>), which owns a ring, a pool and
  a flusher. A call is one step. JSON encoding is a parameter, as are the clock, the caller's frame and
  the choices of the pool's runtime; a pointer to a wrapper is an index into the appender's wrappers.
\<close>

subsection \<open>Levels, results, configuration\<close>

type_synonym Level = u8

definition DebugLevel :: Level where "DebugLevel = 0"
definition InfoLevel :: Level where "InfoLevel = 1"
definition WarnLevel :: Level where "WarnLevel = 2"
definition ErrorLevel :: Level where "ErrorLevel = 3"

definition Level_valid :: "Level \<Rightarrow> bool" where
  "Level_valid l \<longleftrightarrow> l \<le> ErrorLevel"

definition Level_String :: "Level \<Rightarrow> string" where
  "Level_String l = (if l = DebugLevel then ''DEBUG'' else if l = InfoLevel then ''INFO'' else if l = WarnLevel then ''WARN''
     else if l = ErrorLevel then ''ERROR'' else ''UNKNOWN'')"

datatype app_result = Accepted | QueueFull | Closed | Oversized | InvalidLease | Filtered

datatype app_error =
    ErrLeaseTransferred | ErrInvalidLease | ErrAppClosed | BadMinLevel Level | BadMaxEvent | BadAuditMode string
  | AppPool pool_error | AppRing ring_error | AppFlusher flusher_error | NilSink | EmptyName

record 's app_Config =
  cf_Name :: string
  cf_MinLevel :: Level
  cf_RingCapacity :: u64
  cf_BatchSize :: int
  cf_FlushInterval :: duration
  cf_PollInterval :: duration
  cf_RetryBackoff :: duration
  cf_MaxRetryBackoff :: duration
  cf_MaxEventBytes :: int
  cf_PoolClasses :: "int list"
  cf_AuditMode :: string
  cf_AuditSampleEvery :: u64
  cf_LeaseTimeout :: duration
  cf_AuditScanInterval :: duration
  cf_AuditHistoryLimit :: int
  cf_AuditStackDepth :: int
  cf_ProjectRoot :: string
  cf_Sink :: "'s option"

definition default_pool_classes :: "int \<Rightarrow> int list" where
  "default_pool_classes maxb =
     (let cs = filter (\<lambda>size. size \<le> maxb) DefaultClasses in if cs = [] then [maxb] else cs)"

definition app_normalized :: "'s app_Config \<Rightarrow> (app_error, 's app_Config) result" where
  "app_normalized c0 =
     (let c1 = (if cf_Name c0 = [] then c0\<lparr>cf_Name := ''root''\<rparr> else c0)
      in if \<not> Level_valid (cf_MinLevel c1) then Inl (BadMinLevel (cf_MinLevel c1))
         else let c2 = (if cf_RingCapacity c1 = 0 then c1\<lparr>cf_RingCapacity := 2 ^ 16\<rparr> else c1);
                  c3 = (if cf_MaxEventBytes c2 = 0 then c2\<lparr>cf_MaxEventBytes := 2 ^ 20\<rparr> else c2)
         in if cf_MaxEventBytes c3 < 1 then Inl BadMaxEvent
         else let c4 = (if cf_PoolClasses c3 = [] then c3\<lparr>cf_PoolClasses := default_pool_classes (cf_MaxEventBytes c3)\<rparr> else c3);
                  c5 = (if cf_AuditMode c4 = [] then c4\<lparr>cf_AuditMode := AuditOff\<rparr> else c4)
         in if cf_AuditMode c5 \<noteq> AuditOff \<and> cf_AuditMode c5 \<noteq> AuditSampled \<and> cf_AuditMode c5 \<noteq> AuditFull
            then Inl (BadAuditMode (cf_AuditMode c5)) else Inr c5)"

definition WithSink :: "'s option \<Rightarrow> 's app_Config \<Rightarrow> (app_error, 's app_Config) result" where
  "WithSink s c = (case s of None \<Rightarrow> Inl NilSink | Some _ \<Rightarrow> Inr (c\<lparr>cf_Sink := s\<rparr>))"

definition WithName :: "string \<Rightarrow> 's app_Config \<Rightarrow> (app_error, 's app_Config) result" where
  "WithName name c = (if name = [] then Inl EmptyName else Inr (c\<lparr>cf_Name := name\<rparr>))"

text \<open>The loop over the options; \<open>None\<close> is a nil option.\<close>

fun apply_options :: "('s app_Config \<Rightarrow> (app_error, 's app_Config) result) option list \<Rightarrow> 's app_Config \<Rightarrow>
    (app_error, 's app_Config) result" where
  "apply_options [] c = Inr c"
| "apply_options (None # os) c = apply_options os c"
| "apply_options (Some f # os) c = (case f c of Inl e \<Rightarrow> Inl e | Inr c1 \<Rightarrow> apply_options os c1)"

subsection \<open>State\<close>

record levelCounters =
  lv_attempts :: u64
  lv_accepted :: u64
  lv_dropped :: u64

text \<open>What the caller holds: a wrapper around a lease of some pool, of some appender.\<close>

record LeaseW =
  lw_appender :: "nat option"
  lw_inner :: "nat option"
  lw_id :: u64
  lw_logger :: string
  lw_transferred :: bool
  lw_released :: bool

text \<open>
  The queue, the pool and the sink are inside the flusher's machine. The array of four level counters is a list. The
  channel \<open>closeDone\<close> is a boolean; \<open>ap_closer\<close> is where the goroutine started by \<open>Close\<close> is.
\<close>

datatype close_pc = CloseIdle | CloseQueue | CloseStop | CloseWait | ClosePool "flusher_error option" | CloseEnded

record 's Appender =
  ap_ident :: nat
  ap_config :: "'s app_Config"
  ap_mach :: "'s fmach"
  ap_closed :: bool
  ap_sequence :: u64
  ap_publishAttempts :: u64
  ap_accepted :: u64
  ap_rejectedFull :: u64
  ap_rejectedClosed :: u64
  ap_rejectedOversized :: u64
  ap_rejectedInvalid :: u64
  ap_filtered :: u64
  ap_levels :: "levelCounters list"
  ap_closeOnce :: bool
  ap_closeDone :: bool
  ap_closeErr :: "flusher_error option"
  ap_closer :: close_pc
  ap_wrappers :: "LeaseW list"

abbreviation ap_pool :: "'s Appender \<Rightarrow> BytePool" where
  "ap_pool a \<equiv> fl_pool (fm_flusher (ap_mach a))"

abbreviation ap_queue :: "'s Appender \<Rightarrow> nat Queue" where
  "ap_queue a \<equiv> fl_queue (fm_flusher (ap_mach a))"

definition set_pool :: "BytePool \<Rightarrow> 's Appender \<Rightarrow> 's Appender" where
  "set_pool p a = a\<lparr>ap_mach := (ap_mach a)\<lparr>fm_flusher := (fm_flusher (ap_mach a))\<lparr>fl_pool := p\<rparr>\<rparr>\<rparr>"

definition set_queue :: "nat Queue \<Rightarrow> 's Appender \<Rightarrow> 's Appender" where
  "set_queue q a = a\<lparr>ap_mach := (ap_mach a)\<lparr>fm_flusher := (fm_flusher (ap_mach a))\<lparr>fl_queue := q\<rparr>\<rparr>\<rparr>"

definition app_pool_config :: "'s app_Config \<Rightarrow> pool_Config" where
  "app_pool_config c = \<lparr>Classes = cf_PoolClasses c, MaxBytes = cf_MaxEventBytes c, AuditMode = cf_AuditMode c,
     SampleEvery = cf_AuditSampleEvery c, LeaseTimeout = sint (cf_LeaseTimeout c), ScanInterval = sint (cf_AuditScanInterval c),
     HistoryLimit = cf_AuditHistoryLimit c, StackDepth = cf_AuditStackDepth c, ProjectRoot = cf_ProjectRoot c\<rparr>"

definition app_flusher_config :: "'s app_Config \<Rightarrow> flusher_Config" where
  "app_flusher_config c = \<lparr>fq_BatchSize = cf_BatchSize c, fq_FlushInterval = cf_FlushInterval c, fq_PollInterval = cf_PollInterval c,
     fq_RetryBackoff = cf_RetryBackoff c, fq_MaxRetryBackoff = cf_MaxRetryBackoff c\<rparr>"

definition new_appender :: "nat \<Rightarrow> 's app_Config \<Rightarrow> 's fmach \<Rightarrow> 's Appender" where
  "new_appender ident c m = \<lparr>ap_ident = ident, ap_config = c, ap_mach = m, ap_closed = False, ap_sequence = 0, ap_publishAttempts = 0,
     ap_accepted = 0, ap_rejectedFull = 0, ap_rejectedClosed = 0, ap_rejectedOversized = 0, ap_rejectedInvalid = 0, ap_filtered = 0,
     ap_levels = replicate 4 \<lparr>lv_attempts = 0, lv_accepted = 0, lv_dropped = 0\<rparr>, ap_closeOnce = False, ap_closeDone = False,
     ap_closeErr = None, ap_closer = CloseIdle, ap_wrappers = []\<rparr>"

text \<open>\<open>ident\<close> names the new appender and its pool; \<open>stderr\<close> is the sink used when none is given.\<close>

definition app_New :: "nat \<Rightarrow> 's \<Rightarrow> 's app_Config \<Rightarrow> ('s app_Config \<Rightarrow> (app_error, 's app_Config) result) option list \<Rightarrow>
    (app_error, 's Appender) result" where
  "app_New ident stderr config options =
     (case apply_options options config of Inl e \<Rightarrow> Inl e
      | Inr c0 \<Rightarrow> (let c1 = (if cf_Sink c0 = None then c0\<lparr>cf_Sink := Some stderr\<rparr> else c0) in
          (case app_normalized c1 of Inl e \<Rightarrow> Inl e
           | Inr c \<Rightarrow> (case ring_New (cf_RingCapacity c) of Inl e \<Rightarrow> Inl (AppRing e)
           | Inr q \<Rightarrow> (case pool_New ident (app_pool_config c) of Inl e \<Rightarrow> Inl (AppPool e)
           | Inr p \<Rightarrow> (case flusher_New (Some q) (Some p) (cf_Sink c) (app_flusher_config c) of Inl e \<Rightarrow> Inl (AppFlusher e)
           | Inr f \<Rightarrow> Inr (new_appender ident c (flusher_Start \<lparr>fm_flusher = f, fm_run = run_locals (fl_config f), fm_pc = NotStarted\<rparr>))))))))"

subsection \<open>Counters\<close>

definition count_level :: "Level \<Rightarrow> (levelCounters \<Rightarrow> levelCounters) \<Rightarrow> 's Appender \<Rightarrow> 's Appender" where
  "count_level l g a = a\<lparr>ap_levels := (ap_levels a)[unat l := g (ap_levels a ! unat l)]\<rparr>"

definition level_attempt :: "Level \<Rightarrow> 's Appender \<Rightarrow> 's Appender" where
  "level_attempt l a = count_level l (\<lambda>c. c\<lparr>lv_attempts := lv_attempts c + 1\<rparr>) (a\<lparr>ap_publishAttempts := ap_publishAttempts a + 1\<rparr>)"

definition level_dropped :: "Level \<Rightarrow> 's Appender \<Rightarrow> 's Appender" where
  "level_dropped l a = count_level l (\<lambda>c. c\<lparr>lv_dropped := lv_dropped c + 1\<rparr>) a"

definition level_accepted :: "Level \<Rightarrow> 's Appender \<Rightarrow> 's Appender" where
  "level_accepted l a = count_level l (\<lambda>c. c\<lparr>lv_accepted := lv_accepted c + 1\<rparr>) (a\<lparr>ap_accepted := ap_accepted a + 1\<rparr>)"

text \<open>A rejected publication: its counter, the level's drop, the answer.\<close>

fun reject :: "app_result \<Rightarrow> Level \<Rightarrow> 's Appender \<Rightarrow> 's Appender \<times> app_result" where
  "reject QueueFull l a = (level_dropped l (a\<lparr>ap_rejectedFull := ap_rejectedFull a + 1\<rparr>), QueueFull)"
| "reject Closed l a = (level_dropped l (a\<lparr>ap_rejectedClosed := ap_rejectedClosed a + 1\<rparr>), Closed)"
| "reject Oversized l a = (level_dropped l (a\<lparr>ap_rejectedOversized := ap_rejectedOversized a + 1\<rparr>), Oversized)"
| "reject r l a = (level_dropped l (a\<lparr>ap_rejectedInvalid := ap_rejectedInvalid a + 1\<rparr>), InvalidLease)"

subsection \<open>Leases\<close>

definition lease_ID :: "'s Appender \<Rightarrow> nat \<Rightarrow> u64" where
  "lease_ID a i = l_id (p_leases (ap_pool a) ! i)"

definition LeaseW_Len :: "'s Appender \<Rightarrow> LeaseW option \<Rightarrow> int" where
  "LeaseW_Len a w = (case w of None \<Rightarrow> 0 | Some l \<Rightarrow> Lease_Len (ap_pool a) (lw_inner l))"

definition LeaseW_Capacity :: "'s Appender \<Rightarrow> LeaseW option \<Rightarrow> int" where
  "LeaseW_Capacity a w = (case w of None \<Rightarrow> 0 | Some l \<Rightarrow> Lease_Capacity (ap_pool a) (lw_inner l))"

definition LeaseW_ClassSize :: "'s Appender \<Rightarrow> LeaseW option \<Rightarrow> int" where
  "LeaseW_ClassSize a w = (case w of None \<Rightarrow> 0 | Some l \<Rightarrow> Lease_ClassSize (ap_pool a) (lw_inner l))"

definition get_wrapper :: "'s Appender \<Rightarrow> nat option \<Rightarrow> LeaseW option" where
  "get_wrapper a w = (case w of None \<Rightarrow> None | Some i \<Rightarrow> Some (ap_wrappers a ! i))"

definition LeaseW_ID :: "LeaseW option \<Rightarrow> u64" where
  "LeaseW_ID w = (case w of None \<Rightarrow> 0 | Some l \<Rightarrow> lw_id l)"

text \<open>The guard of the writing operations, then the operation of the pool lease on the wrapper's own pool.\<close>

definition guarded :: "(lease_ptr \<Rightarrow> BytePool \<Rightarrow> BytePool \<times> pool_error option) \<Rightarrow> nat option \<Rightarrow> 's Appender \<Rightarrow> 's Appender \<times> app_error option" where
  "guarded op w a = (case get_wrapper a w of
       None \<Rightarrow> (a, Some ErrInvalidLease)
     | Some l \<Rightarrow> if lw_transferred l \<or> lw_released l then (a, Some ErrInvalidLease)
         else (case op (lw_inner l) (ap_pool a) of (p, e) \<Rightarrow> (set_pool p a, map_option AppPool e)))"

definition LeaseW_Write :: "bytes \<Rightarrow> nat option \<Rightarrow> 's Appender \<Rightarrow> 's Appender \<times> (app_error, int) result" where
  "LeaseW_Write data w a = (case guarded (\<lambda>r. Append r data) w a of
     (a1, Some e) \<Rightarrow> (a1, Inl e) | (a1, None) \<Rightarrow> (a1, Inr (int (length data))))"

definition LeaseW_SetBytes :: "bytes \<Rightarrow> nat option \<Rightarrow> 's Appender \<Rightarrow> 's Appender \<times> app_error option" where
  "LeaseW_SetBytes data w a = guarded (\<lambda>r. SetBytes r data) w a"

definition LeaseW_Commit :: "int \<Rightarrow> nat option \<Rightarrow> 's Appender \<Rightarrow> 's Appender \<times> app_error option" where
  "LeaseW_Commit n w a = guarded (\<lambda>r. Resize r n) w a"

definition LeaseW_Buffer :: "'s Appender \<Rightarrow> nat option \<Rightarrow> (app_error, bytes) result" where
  "LeaseW_Buffer a w = (case get_wrapper a w of
       None \<Rightarrow> Inl ErrInvalidLease
     | Some l \<Rightarrow> if lw_transferred l \<or> lw_released l then Inl ErrInvalidLease
         else (case Writable (ap_pool a) (lw_inner l) of Inl e \<Rightarrow> Inl (AppPool e) | Inr b \<Rightarrow> Inr b))"

definition LeaseW_SetAuditContext :: "Level \<Rightarrow> string \<Rightarrow> nat option \<Rightarrow> 's Appender \<Rightarrow> 's Appender \<times> app_error option" where
  "LeaseW_SetAuditContext level logger w a = (case w of
       None \<Rightarrow> (a, Some ErrInvalidLease)
     | Some i \<Rightarrow> (let l = ap_wrappers a ! i in
         if lw_inner l = None \<or> lw_transferred l \<or> lw_released l \<or> \<not> Level_valid level then (a, Some ErrInvalidLease)
         else let l1 = (if logger \<noteq> [] then l\<lparr>lw_logger := logger\<rparr> else l);
                  a1 = a\<lparr>ap_wrappers := (ap_wrappers a)[i := l1]\<rparr>
         in (case SetAuditContext (lw_inner l1) \<lparr>ac_Level = Level_String level, ac_Logger = lw_logger l1, ac_CallerSkip = 0\<rparr> (ap_pool a1) of
               (p, e) \<Rightarrow> (set_pool p a1, map_option AppPool e))))"

text \<open>\<open>Release\<close> of a wrapper; with the wrapper's new value, so that it also serves the wrapper local to \<open>log\<close>.\<close>

definition release_wrapper :: "int \<Rightarrow> LeaseW \<Rightarrow> 's Appender \<Rightarrow> 's Appender \<times> LeaseW \<times> app_error option" where
  "release_wrapper now l a =
     (if lw_appender l = None then (a, l, Some ErrInvalidLease)
      else case lw_inner l of None \<Rightarrow> (a, l, Some ErrInvalidLease)
      | Some i \<Rightarrow>
          if lw_id l \<noteq> lease_ID a i then (a, l, Some ErrInvalidLease)
          else if lw_transferred l then (a, l, Some ErrLeaseTransferred)
          else if lw_released l then (a, l, Some (AppPool ErrDoubleReturn))
          else (case Release (Some (p_ident (ap_pool a), i)) now (ap_pool a) of
                  (p, e) \<Rightarrow> (set_pool p a, l\<lparr>lw_released := True\<rparr>, map_option AppPool e)))"

definition LeaseW_Release :: "int \<Rightarrow> nat option \<Rightarrow> 's Appender \<Rightarrow> 's Appender \<times> app_error option" where
  "LeaseW_Release now w a = (case w of None \<Rightarrow> (a, Some ErrInvalidLease)
     | Some i \<Rightarrow> (case release_wrapper now (ap_wrappers a ! i) a of
         (a1, l1, e) \<Rightarrow> (a1\<lparr>ap_wrappers := (ap_wrappers a1)[i := l1]\<rparr>, e)))"

definition app_acquire :: "acquire_env \<Rightarrow> int \<Rightarrow> Level option \<Rightarrow> 's Appender \<Rightarrow> 's Appender \<times> (app_error, nat) result" where
  "app_acquire env cap level a =
     (if ap_closed a then (a, Inl ErrAppClosed)
      else let ctx = \<lparr>ac_Level = (case level of None \<Rightarrow> [] | Some l \<Rightarrow> Level_String l), ac_Logger = cf_Name (ap_config a), ac_CallerSkip = 2\<rparr>
      in (case acquire env cap ctx (ap_pool a) of
            (p, Inl e) \<Rightarrow> (set_pool p a, Inl (AppPool e))
          | (p, Inr i) \<Rightarrow>
              (let a1 = set_pool p a;
                   l = \<lparr>lw_appender = Some (ap_ident a), lw_inner = Some i, lw_id = lease_ID a1 i, lw_logger = cf_Name (ap_config a),
                        lw_transferred = False, lw_released = False\<rparr>
               in (a1\<lparr>ap_wrappers := ap_wrappers a1 @ [l]\<rparr>, Inr (length (ap_wrappers a1))))))"

definition app_Acquire :: "acquire_env \<Rightarrow> int \<Rightarrow> 's Appender \<Rightarrow> 's Appender \<times> (app_error, nat) result" where
  "app_Acquire env cap a = app_acquire env cap None a"

definition app_AcquireFor :: "acquire_env \<Rightarrow> Level \<Rightarrow> int \<Rightarrow> 's Appender \<Rightarrow> 's Appender \<times> (app_error, nat) result" where
  "app_AcquireFor env level cap a =
     (if \<not> Level_valid level then (a, Inl ErrInvalidLease) else app_acquire env cap (Some level) a)"

subsection \<open>Publication\<close>

definition invalid_publish :: "'s Appender \<Rightarrow> 's Appender \<times> app_result" where
  "invalid_publish a = (a\<lparr>ap_publishAttempts := ap_publishAttempts a + 1, ap_rejectedInvalid := ap_rejectedInvalid a + 1\<rparr>, InvalidLease)"

fun refusal_of :: "PublishResult \<Rightarrow> app_result" where
  "refusal_of PublishFull = QueueFull"
| "refusal_of PublishClosed = Closed"
| "refusal_of r = InvalidLease"

text \<open>The lease is queued, then offered to the ring; a refused lease is borrowed again.\<close>

definition offer_lease :: "Level \<Rightarrow> nat \<Rightarrow> LeaseW \<Rightarrow> 's Appender \<Rightarrow> 's Appender \<times> LeaseW \<times> app_result" where
  "offer_lease level i l a =
     (case MarkQueued (Some i) (ap_pool a) of
        (p, Some e) \<Rightarrow> (case reject InvalidLease level (set_pool p a) of (a1, r) \<Rightarrow> (a1, l, r))
      | (p, None) \<Rightarrow>
          (let a1 = set_pool p a
           in case TryPublish (Some i) (ap_queue a1) of
                (q, PublishAccepted) \<Rightarrow> (level_accepted level (set_queue q a1), l\<lparr>lw_transferred := True\<rparr>, Accepted)
              | (q, res) \<Rightarrow>
                  (let a2 = set_queue q a1
                   in case reject (refusal_of res) level (set_pool (fst (RollbackQueued (Some i) (ap_pool a2))) a2) of
                        (a3, r) \<Rightarrow> (a3, l, r))))"

text \<open>\<open>TryPublishLease\<close> on the wrapper itself, which need not be one of this appender.\<close>

definition publish_wrapper :: "Level \<Rightarrow> LeaseW \<Rightarrow> 's Appender \<Rightarrow> 's Appender \<times> LeaseW \<times> app_result" where
  "publish_wrapper level l a =
     (case lw_inner l of
        None \<Rightarrow> (case invalid_publish a of (a1, r) \<Rightarrow> (a1, l, r))
      | Some i \<Rightarrow>
          if \<not> Level_valid level \<or> lw_appender l \<noteq> Some (ap_ident a) \<or> lw_id l \<noteq> lease_ID a i \<or> lw_released l \<or>
             lw_transferred l \<or> Lease_Len (ap_pool a) (Some i) \<le> 0
          then (case invalid_publish a of (a1, r) \<Rightarrow> (a1, l, r))
          else if level < cf_MinLevel (ap_config a) then (a\<lparr>ap_filtered := ap_filtered a + 1\<rparr>, l, Filtered)
          else let a1 = level_attempt level a
          in if ap_closed a1 then (case reject Closed level a1 of (a2, r) \<Rightarrow> (a2, l, r))
          else if Lease_Len (ap_pool a1) (Some i) > cf_MaxEventBytes (ap_config a1)
            then (case reject Oversized level a1 of (a2, r) \<Rightarrow> (a2, l, r))
          else case SetAuditContext (Some i) \<lparr>ac_Level = Level_String level, ac_Logger = lw_logger l, ac_CallerSkip = 0\<rparr> (ap_pool a1) of
              (p, Some e) \<Rightarrow> (case reject InvalidLease level (set_pool p a1) of (a2, r) \<Rightarrow> (a2, l, r))
            | (p, None) \<Rightarrow> offer_lease level i l (set_pool p a1))"

definition TryPublishLease :: "Level \<Rightarrow> nat option \<Rightarrow> 's Appender \<Rightarrow> 's Appender \<times> app_result" where
  "TryPublishLease level w a = (case w of None \<Rightarrow> invalid_publish a
     | Some k \<Rightarrow> (case publish_wrapper level (ap_wrappers a ! k) a of
         (a1, l1, r) \<Rightarrow> (a1\<lparr>ap_wrappers := (ap_wrappers a1)[k := l1]\<rparr>, r)))"

subsection \<open>Logging\<close>

text \<open>What one call meets: the clock, the caller's frame, the runtime's part of \<open>acquire\<close>, the time of a release.\<close>

record log_env =
  lg_timestamp :: bytes
  lg_unixNano :: int
  lg_caller :: "callerRecord option"
  lg_acquire :: acquire_env
  lg_release :: int

definition app_event :: "log_env \<Rightarrow> u64 \<Rightarrow> string \<Rightarrow> Level \<Rightarrow> bytes \<Rightarrow> 'v Field list \<Rightarrow> 'v eventRecord" where
  "app_event env seqno name level message fs = \<lparr>ev_Sequence = seqno, ev_Timestamp = lg_timestamp env,
     ev_TimestampUnixNano = lg_unixNano env, ev_Level = ascii (Level_String level), ev_Logger = ascii name, ev_Message = message,
     ev_Caller = lg_caller env, ev_Fields = fs\<rparr>"

fun result_of_error :: "pool_error \<Rightarrow> app_result" where
  "result_of_error ErrTooLarge = Oversized"
| "result_of_error ErrClosed = Closed"
| "result_of_error e = InvalidLease"

text \<open>The end of \<open>log\<close>: a lease for the encoded event, filled, published, given back when it was not accepted.\<close>

definition log_encoded :: "log_env \<Rightarrow> string \<Rightarrow> Level \<Rightarrow> bytes \<Rightarrow> 's Appender \<Rightarrow> 's Appender \<times> app_result" where
  "log_encoded env name level encoded a =
     (case acquire (lg_acquire env) (int (length encoded)) \<lparr>ac_Level = Level_String level, ac_Logger = name, ac_CallerSkip = 2\<rparr> (ap_pool a) of
        (p, Inl e) \<Rightarrow> reject (result_of_error e) level (level_attempt level (set_pool p a))
      | (p, Inr i) \<Rightarrow>
          (case SetBytes (Some i) encoded p of
             (p1, Some e) \<Rightarrow>
               reject InvalidLease level (level_attempt level (set_pool (fst (Release (Some (p_ident p1, i)) (lg_release env) p1)) a))
           | (p1, None) \<Rightarrow>
               (let a1 = set_pool p1 a;
                    l = \<lparr>lw_appender = Some (ap_ident a1), lw_inner = Some i, lw_id = lease_ID a1 i, lw_logger = name,
                         lw_transferred = False, lw_released = False\<rparr>
                in case publish_wrapper level l a1 of (a2, l2, r) \<Rightarrow>
                     if r = Accepted then (a2, r) else (fst (release_wrapper (lg_release env) l2 a2), r))))"

definition app_log :: "('v \<Rightarrow> bytes option) \<Rightarrow> log_env \<Rightarrow> string \<Rightarrow> Level \<Rightarrow> bytes \<Rightarrow> 'v Field list \<Rightarrow> 's Appender \<Rightarrow>
    's Appender \<times> app_result" where
  "app_log enc env name level message fs a =
     (if \<not> Level_valid level then invalid_publish a
      else if level < cf_MinLevel (ap_config a) then (a\<lparr>ap_filtered := ap_filtered a + 1\<rparr>, Filtered)
      else if ap_closed a then reject Closed level (level_attempt level a)
      else let a1 = a\<lparr>ap_sequence := ap_sequence a + 1\<rparr>
      in case json_event enc (app_event env (ap_sequence a1) name level message fs) of
           None \<Rightarrow> reject InvalidLease level (level_attempt level a1)
         | Some body \<Rightarrow>
             (let encoded = body @ [10]
              in if int (length encoded) > cf_MaxEventBytes (ap_config a1) then reject Oversized level (level_attempt level a1)
                 else log_encoded env name level encoded a1))"

text \<open>The methods of the appender and of its named loggers; \<open>sprintf\<close> is \<open>fmt.Sprintf\<close>.\<close>

definition app_Log :: "('v \<Rightarrow> bytes option) \<Rightarrow> log_env \<Rightarrow> Level \<Rightarrow> bytes \<Rightarrow> 'v Field list \<Rightarrow> 's Appender \<Rightarrow> 's Appender \<times> app_result" where
  "app_Log enc env level message fs a = app_log enc env (cf_Name (ap_config a)) level message fs a"

definition app_Debug :: "('v \<Rightarrow> bytes option) \<Rightarrow> log_env \<Rightarrow> bytes \<Rightarrow> 'v Field list \<Rightarrow> 's Appender \<Rightarrow> 's Appender \<times> app_result" where
  "app_Debug enc env message fs a = app_log enc env (cf_Name (ap_config a)) DebugLevel message fs a"

definition app_Info :: "('v \<Rightarrow> bytes option) \<Rightarrow> log_env \<Rightarrow> bytes \<Rightarrow> 'v Field list \<Rightarrow> 's Appender \<Rightarrow> 's Appender \<times> app_result" where
  "app_Info enc env message fs a = app_log enc env (cf_Name (ap_config a)) InfoLevel message fs a"

definition app_Warn :: "('v \<Rightarrow> bytes option) \<Rightarrow> log_env \<Rightarrow> bytes \<Rightarrow> 'v Field list \<Rightarrow> 's Appender \<Rightarrow> 's Appender \<times> app_result" where
  "app_Warn enc env message fs a = app_log enc env (cf_Name (ap_config a)) WarnLevel message fs a"

definition app_Error :: "('v \<Rightarrow> bytes option) \<Rightarrow> log_env \<Rightarrow> bytes \<Rightarrow> 'v Field list \<Rightarrow> 's Appender \<Rightarrow> 's Appender \<times> app_result" where
  "app_Error enc env message fs a = app_log enc env (cf_Name (ap_config a)) ErrorLevel message fs a"

definition app_Debugf :: "('f \<Rightarrow> 'x \<Rightarrow> bytes) \<Rightarrow> ('v \<Rightarrow> bytes option) \<Rightarrow> log_env \<Rightarrow> 'f \<Rightarrow> 'x \<Rightarrow> 's Appender \<Rightarrow> 's Appender \<times> app_result" where
  "app_Debugf sprintf enc env format args a = app_log enc env (cf_Name (ap_config a)) DebugLevel (sprintf format args) [] a"

definition app_Infof :: "('f \<Rightarrow> 'x \<Rightarrow> bytes) \<Rightarrow> ('v \<Rightarrow> bytes option) \<Rightarrow> log_env \<Rightarrow> 'f \<Rightarrow> 'x \<Rightarrow> 's Appender \<Rightarrow> 's Appender \<times> app_result" where
  "app_Infof sprintf enc env format args a = app_log enc env (cf_Name (ap_config a)) InfoLevel (sprintf format args) [] a"

definition app_Warnf :: "('f \<Rightarrow> 'x \<Rightarrow> bytes) \<Rightarrow> ('v \<Rightarrow> bytes option) \<Rightarrow> log_env \<Rightarrow> 'f \<Rightarrow> 'x \<Rightarrow> 's Appender \<Rightarrow> 's Appender \<times> app_result" where
  "app_Warnf sprintf enc env format args a = app_log enc env (cf_Name (ap_config a)) WarnLevel (sprintf format args) [] a"

definition app_Errorf :: "('f \<Rightarrow> 'x \<Rightarrow> bytes) \<Rightarrow> ('v \<Rightarrow> bytes option) \<Rightarrow> log_env \<Rightarrow> 'f \<Rightarrow> 'x \<Rightarrow> 's Appender \<Rightarrow> 's Appender \<times> app_result" where
  "app_Errorf sprintf enc env format args a = app_log enc env (cf_Name (ap_config a)) ErrorLevel (sprintf format args) [] a"

text \<open>A logger (\<^verbatim>\<open>logger.go\<close>) is its name; \<open>Named\<close> makes one.\<close>

definition app_Named :: "string \<Rightarrow> 's Appender \<Rightarrow> string" where
  "app_Named name a = (if name = [] then cf_Name (ap_config a) else name)"

definition Logger_Debug :: "('v \<Rightarrow> bytes option) \<Rightarrow> log_env \<Rightarrow> string \<Rightarrow> bytes \<Rightarrow> 'v Field list \<Rightarrow> 's Appender \<Rightarrow> 's Appender \<times> app_result" where
  "Logger_Debug enc env logger message fs a = app_log enc env logger DebugLevel message fs a"

definition Logger_Info :: "('v \<Rightarrow> bytes option) \<Rightarrow> log_env \<Rightarrow> string \<Rightarrow> bytes \<Rightarrow> 'v Field list \<Rightarrow> 's Appender \<Rightarrow> 's Appender \<times> app_result" where
  "Logger_Info enc env logger message fs a = app_log enc env logger InfoLevel message fs a"

definition Logger_Warn :: "('v \<Rightarrow> bytes option) \<Rightarrow> log_env \<Rightarrow> string \<Rightarrow> bytes \<Rightarrow> 'v Field list \<Rightarrow> 's Appender \<Rightarrow> 's Appender \<times> app_result" where
  "Logger_Warn enc env logger message fs a = app_log enc env logger WarnLevel message fs a"

definition Logger_Error :: "('v \<Rightarrow> bytes option) \<Rightarrow> log_env \<Rightarrow> string \<Rightarrow> bytes \<Rightarrow> 'v Field list \<Rightarrow> 's Appender \<Rightarrow> 's Appender \<times> app_result" where
  "Logger_Error enc env logger message fs a = app_log enc env logger ErrorLevel message fs a"

definition Logger_Debugf :: "('f \<Rightarrow> 'x \<Rightarrow> bytes) \<Rightarrow> ('v \<Rightarrow> bytes option) \<Rightarrow> log_env \<Rightarrow> string \<Rightarrow> 'f \<Rightarrow> 'x \<Rightarrow> 's Appender \<Rightarrow> 's Appender \<times> app_result" where
  "Logger_Debugf sprintf enc env logger format args a = app_log enc env logger DebugLevel (sprintf format args) [] a"

definition Logger_Infof :: "('f \<Rightarrow> 'x \<Rightarrow> bytes) \<Rightarrow> ('v \<Rightarrow> bytes option) \<Rightarrow> log_env \<Rightarrow> string \<Rightarrow> 'f \<Rightarrow> 'x \<Rightarrow> 's Appender \<Rightarrow> 's Appender \<times> app_result" where
  "Logger_Infof sprintf enc env logger format args a = app_log enc env logger InfoLevel (sprintf format args) [] a"

definition Logger_Warnf :: "('f \<Rightarrow> 'x \<Rightarrow> bytes) \<Rightarrow> ('v \<Rightarrow> bytes option) \<Rightarrow> log_env \<Rightarrow> string \<Rightarrow> 'f \<Rightarrow> 'x \<Rightarrow> 's Appender \<Rightarrow> 's Appender \<times> app_result" where
  "Logger_Warnf sprintf enc env logger format args a = app_log enc env logger WarnLevel (sprintf format args) [] a"

definition Logger_Errorf :: "('f \<Rightarrow> 'x \<Rightarrow> bytes) \<Rightarrow> ('v \<Rightarrow> bytes option) \<Rightarrow> log_env \<Rightarrow> string \<Rightarrow> 'f \<Rightarrow> 'x \<Rightarrow> 's Appender \<Rightarrow> 's Appender \<times> app_result" where
  "Logger_Errorf sprintf enc env logger format args a = app_log enc env logger ErrorLevel (sprintf format args) [] a"

definition trim_newline :: "bytes \<Rightarrow> bytes" where
  "trim_newline data = (if data \<noteq> [] \<and> last data = 10 then butlast data else data)"

definition LogWriter_Write :: "('v \<Rightarrow> bytes option) \<Rightarrow> log_env \<Rightarrow> Level \<Rightarrow> bytes \<Rightarrow> 's Appender \<Rightarrow> 's Appender \<times> (app_result, int) result" where
  "LogWriter_Write enc env level data a = (case app_Log enc env level (trim_newline data) [] a of
     (a1, r) \<Rightarrow> (a1, if r \<noteq> Accepted \<and> r \<noteq> Filtered then Inl r else Inr (int (length data))))"

subsection \<open>Statistics\<close>

record LevelStats =
  ls_Attempts :: u64
  ls_Accepted :: u64
  ls_Dropped :: u64

record app_Stats =
  st_State :: string
  st_PublishAttempts :: u64
  st_Accepted :: u64
  st_RejectedFull :: u64
  st_RejectedClosed :: u64
  st_RejectedOversized :: u64
  st_RejectedInvalid :: u64
  st_Filtered :: u64
  st_ByLevel :: "(string \<times> LevelStats) list"
  st_Ring :: ring_Stats
  st_Pool :: pool_Stats
  st_Flusher :: flusher_Stats
  st_Closed :: bool

definition level_stats :: "'s Appender \<Rightarrow> Level \<Rightarrow> string \<times> LevelStats" where
  "level_stats a l = (let c = ap_levels a ! unat l
     in (Level_String l, \<lparr>ls_Attempts = lv_attempts c, ls_Accepted = lv_accepted c, ls_Dropped = lv_dropped c\<rparr>))"

definition app_stats :: "'s Appender \<Rightarrow> app_Stats" where
  "app_stats a = (let fs = flusher_stats (fm_flusher (ap_mach a)) in
     \<lparr>st_State = (if fls_Closed fs then ''CLOSED'' else if ap_closed a then ''CLOSING'' else ''OPEN''),
      st_PublishAttempts = ap_publishAttempts a, st_Accepted = ap_accepted a, st_RejectedFull = ap_rejectedFull a,
      st_RejectedClosed = ap_rejectedClosed a, st_RejectedOversized = ap_rejectedOversized a,
      st_RejectedInvalid = ap_rejectedInvalid a, st_Filtered = ap_filtered a,
      st_ByLevel = map (level_stats a) [DebugLevel, InfoLevel, WarnLevel, ErrorLevel], st_Ring = ring_stats (ap_queue a),
      st_Pool = pool_stats (ap_pool a), st_Flusher = fs, st_Closed = fls_Closed fs\<rparr>)"

definition app_SnapshotLeasesBefore :: "int \<Rightarrow> string \<Rightarrow> u64 \<Rightarrow> int \<Rightarrow> 's Appender \<Rightarrow> LeaseSnapshot list" where
  "app_SnapshotLeasesBefore now state beforeID limit a = SnapshotLeasesBefore (ap_pool a) state beforeID limit now"

definition app_SnapshotLeases :: "int \<Rightarrow> string \<Rightarrow> int \<Rightarrow> 's Appender \<Rightarrow> LeaseSnapshot list" where
  "app_SnapshotLeases now state limit a = SnapshotLeases (ap_pool a) state limit now"

definition app_LeaseByID :: "int \<Rightarrow> u64 \<Rightarrow> 's Appender \<Rightarrow> LeaseSnapshot option" where
  "app_LeaseByID now ident a = LeaseByID (ap_pool a) ident now"

subsection \<open>\<open>Close\<close>\<close>

definition app_Close_begin :: "'s Appender \<Rightarrow> 's Appender" where
  "app_Close_begin a = (if ap_closeOnce a then a else a\<lparr>ap_closeOnce := True, ap_closed := True, ap_closer := CloseQueue\<rparr>)"

text \<open>
  One step of the goroutine: the flusher's \<open>Close\<close>, then the pool's, then the error and \<open>closeDone\<close>. It waits for the
  flusher or, when \<open>cause\<close> is given, for the context, whichever is ready; \<open>None\<close>: it is not ready.
\<close>

definition close_step :: "nat option \<Rightarrow> 's Appender \<Rightarrow> 's Appender option" where
  "close_step cause a = (case ap_closer a of
       CloseIdle \<Rightarrow> None
     | CloseEnded \<Rightarrow> None
     | CloseQueue \<Rightarrow> Some (a\<lparr>ap_mach := close_queue (ap_mach a), ap_closer := CloseStop\<rparr>)
     | CloseStop \<Rightarrow> Some (a\<lparr>ap_mach := close_stop (ap_mach a), ap_closer := CloseWait\<rparr>)
     | CloseWait \<Rightarrow> (case cause of
           Some c \<Rightarrow> (case close_timeout c (ap_mach a) of (m, e) \<Rightarrow> Some (a\<lparr>ap_mach := m, ap_closer := ClosePool (Some e)\<rparr>))
         | None \<Rightarrow> (case close_result (fm_flusher (ap_mach a)) of None \<Rightarrow> None | Some e \<Rightarrow> Some (a\<lparr>ap_closer := ClosePool e\<rparr>)))
     | ClosePool e \<Rightarrow> Some ((set_pool (pool_Close (ap_pool a)) a)\<lparr>ap_closeErr := e, ap_closeDone := True, ap_closer := CloseEnded\<rparr>))"

text \<open>What \<open>Close\<close> answers; \<open>cause\<close> is given when its context is done. \<open>None\<close>: it waits.\<close>

definition app_Close_return :: "nat option \<Rightarrow> 's Appender \<Rightarrow> flusher_error option option" where
  "app_Close_return cause a =
     (if ap_closeDone a then Some (ap_closeErr a)
      else case cause of None \<Rightarrow> None
      | Some c \<Rightarrow> Some (Some (CloseTimeoutError (Depth (ap_queue a)) (fl_inFlight (fm_flusher (ap_mach a))) c)))"

end
