(* ===== verification/Appender_Steps.thy ===== *)
theory Appender_Steps
  imports Appender
begin

text \<open>
  The appender, its callers, the flusher and \<open>Close\<close> together: every step of the appender is a sequence of steps of the
  flusher's world (\<open>Flusher_Delivery\<close>), so what holds there holds for whole log calls.
\<close>

subsection \<open>Pool operations of a caller on one lease\<close>

definition only_lease :: "nat \<Rightarrow> BytePool \<Rightarrow> BytePool \<Rightarrow> bool" where
  "only_lease i p p' \<longleftrightarrow> pool_inv p' \<and> p_ident p' = p_ident p \<and> length (p_leases p) \<le> length (p_leases p') \<and>
     (\<forall>x < length (p_leases p). l_id (p_leases p' ! x) = l_id (p_leases p ! x) \<and> (x \<noteq> i \<longrightarrow> lease_view p' x = lease_view p x))"

lemma only_lease_refl: "pool_inv p \<Longrightarrow> only_lease i p p"
  by (simp add: only_lease_def)

lemma only_lease_trans: "only_lease i p p1 \<Longrightarrow> only_lease i p1 p2 \<Longrightarrow> only_lease i p p2"
  unfolding only_lease_def by fastforce

lemma only_lease_state:
  assumes "only_lease i p p'" "x < length (p_leases p)" "x \<noteq> i"
  shows "l_state (p_leases p' ! x) = l_state (p_leases p ! x)"
  using assms by (simp add: only_lease_def lease_view_def)

lemma only_lease_rely:
  assumes "only_lease i p p'" "A \<subseteq> {..<length (p_leases p)}" "i \<notin> A" "i < length (p_leases p) \<longrightarrow> l_state (p_leases p ! i) \<noteq> StateReturned"
  shows "pool_rely A p p'"
proof -
  have "l_state (p_leases p' ! a) = StateReturned" if "a < length (p_leases p)" "l_state (p_leases p ! a) = StateReturned" for a
    using only_lease_state [OF assms(1) that(1)] that assms(4) by (cases "a = i") auto
  then show ?thesis using assms unfolding pool_rely_def only_lease_def by blast
qed

text \<open>A change of the lease record that keeps its number and its block.\<close>

lemma set_lease_view:
  assumes "x \<noteq> i"
  shows "lease_view (set_lease i l p) x = lease_view p x"
  using assms by (simp add: view_unfold set_lease_def lease_payload_def block_data_def cong: option.case_cong)

lemma set_lease_only:
  assumes "pool_inv (set_lease i l p)" "l_id l = l_id (p_leases p ! i)"
  shows "only_lease i p (set_lease i l p)"
proof -
  have "l_id (p_leases (set_lease i l p) ! x) = l_id (p_leases p ! x)" if "x < length (p_leases p)" for x
    using assms(2) that by (cases "x = i") (simp_all add: set_lease_def)
  moreover have "length (p_leases (set_lease i l p)) = length (p_leases p)" "p_ident (set_lease i l p) = p_ident p"
    by (simp_all add: set_lease_def)
  ultimately show ?thesis using assms(1) set_lease_view [of _ i l p] by (simp add: only_lease_def)
qed

lemma Resize_only:
  assumes "pool_inv p" "i < length (p_leases p)"
  shows "only_lease i p (fst (Resize (Some i) n p))" "l_state (p_leases (fst (Resize (Some i) n p)) ! i) = l_state (p_leases p ! i)"
proof -
  have inv: "pool_inv (fst (Resize (Some i) n p))" using assms by (intro Resize_inv) simp_all
  have "fst (Resize (Some i) n p) = p \<or> fst (Resize (Some i) n p) = set_lease i ((p_leases p ! i)\<lparr>l_length := n\<rparr>) p"
    by (auto simp: Resize_def Let_def)
  then show "only_lease i p (fst (Resize (Some i) n p))" using inv assms(1) by (elim disjE) (simp_all add: only_lease_refl set_lease_only)
  show "l_state (p_leases (fst (Resize (Some i) n p)) ! i) = l_state (p_leases p ! i)"
    using assms(2) by (auto simp: Resize_def Let_def set_lease_def)
qed

lemma write_ids:
  "map l_id (p_leases (fst (Append r d p))) = map l_id (p_leases p)" "map l_id (p_leases (fst (SetBytes r d p))) = map l_id (p_leases p)"
  "p_ident (fst (Append r d p)) = p_ident p" "p_ident (fst (SetBytes r d p)) = p_ident p"
  by (auto simp: Append_def SetBytes_def Let_def set_lease_def set_block_def map_update split: option.splits)
    (metis list_update_id map_update nth_map linorder_not_le list_update_beyond length_map)+

lemma ids_nth:
  assumes "map l_id xs = map l_id ys"
  shows "length xs = length ys" "x < length ys \<Longrightarrow> l_id (xs ! x) = l_id (ys ! x)"
  using assms by (metis length_map, metis length_map nth_map)

lemma Append_only:
  assumes "pool_inv p" "i < length (p_leases p)"
  shows "only_lease i p (fst (Append (Some i) d p))" "l_state (p_leases (fst (Append (Some i) d p)) ! i) = l_state (p_leases p ! i)"
proof -
  obtain q r where q: "Append (Some i) d p = (q, r)" by fastforce
  obtain s pl c where v: "lease_view p i = (s, pl, c)" by (rule prod_cases3)
  note S = Append_spec [OF assms q v]
  have "pool_inv q" using Append_inv [OF assms(1), of "Some i" d] assms(2) q by simp
  moreover have "map l_id (p_leases q) = map l_id (p_leases p)" "p_ident q = p_ident p"
    using write_ids(1,3) [of "Some i" d p] q by simp_all
  ultimately show "only_lease i p (fst (Append (Some i) d p))" using S ids_nth [of "p_leases q" "p_leases p"] by (simp add: only_lease_def q)
  have "fst (lease_view q i) = fst (lease_view p i)" using S v by (auto split: if_splits)
  then show "l_state (p_leases (fst (Append (Some i) d p)) ! i) = l_state (p_leases p ! i)" by (simp add: lease_view_def q)
qed

lemma SetBytes_only:
  assumes "pool_inv p" "i < length (p_leases p)"
  shows "only_lease i p (fst (SetBytes (Some i) d p))" "l_state (p_leases (fst (SetBytes (Some i) d p)) ! i) = l_state (p_leases p ! i)"
    "snd (SetBytes (Some i) d p) = None \<Longrightarrow> Payload (fst (SetBytes (Some i) d p)) (Some i) = d"
proof -
  obtain q r where q: "SetBytes (Some i) d p = (q, r)" by fastforce
  obtain s pl c where v: "lease_view p i = (s, pl, c)" by (rule prod_cases3)
  note S = SetBytes_spec [OF assms q v]
  have "pool_inv q" using SetBytes_inv [OF assms(1), of "Some i" d] assms(2) q by simp
  moreover have "map l_id (p_leases q) = map l_id (p_leases p)" "p_ident q = p_ident p"
    using write_ids(2,4) [of "Some i" d p] q by simp_all
  ultimately show "only_lease i p (fst (SetBytes (Some i) d p))" using S ids_nth [of "p_leases q" "p_leases p"] by (simp add: only_lease_def q)
  have "fst (lease_view q i) = fst (lease_view p i)" using S v by (auto split: if_splits)
  then show "l_state (p_leases (fst (SetBytes (Some i) d p)) ! i) = l_state (p_leases p ! i)" by (simp add: lease_view_def q)
  show "Payload (fst (SetBytes (Some i) d p)) (Some i) = d" if "snd (SetBytes (Some i) d p) = None"
    using S that v by (auto simp: q lease_view_def split: if_splits)
qed

lemma SetAuditContext_only:
  assumes "pool_inv p" "SetAuditContext (Some i) c p = (p', e)"
  shows "only_lease x p p'" "p_leases p' = p_leases p" "lease_view p' y = lease_view p y" "p_ident p' = p_ident p"
proof -
  have p': "p' = fst (SetAuditContext (Some i) c p)" using assms(2) by simp
  have core: "pool_core p p'" unfolding p' by (rule SetAuditContext_core)
  then show L: "p_leases p' = p_leases p" by (simp add: pool_core_def)
  have blk: "p_blocks p' = p_blocks p" using core by (simp add: pool_core_def)
  show V: "lease_view p' y = lease_view p y" for y
    by (simp add: view_unfold L lease_payload_def block_data_def blk cong: option.case_cong)
  show I: "p_ident p' = p_ident p" using assms(2) by (auto simp: SetAuditContext_def Let_def split: if_splits)
  show "only_lease x p p'" using pool_core_invI [OF assms(1) core] L V I by (simp add: only_lease_def)
qed

lemma MarkQueued_only:
  assumes "pool_inv p" "i < length (p_leases p)" "l_state (p_leases p ! i) = StateBorrowed" "MarkQueued (Some i) p = (p', e)"
  shows "e = None" "only_lease i p p'" "l_state (p_leases p' ! i) = StateQueued" "Payload p' (Some i) = Payload p (Some i)"
    "Lease_Capacity p' (Some i) = Lease_Capacity p (Some i)" "length (p_leases p') = length (p_leases p)"
proof -
  have inv: "pool_inv p'" using MarkQueued_inv [OF assms(1), of "Some i"] assms(2,4) by simp
  obtain l where p': "p' = set_lease i l p" and e: "e = None" and l: "l_id l = l_id (p_leases p ! i)" "l_state l = StateQueued"
    "l_block l = l_block (p_leases p ! i)" "l_length l = l_length (p_leases p ! i)"
    using assms(3,4) by (auto simp: MarkQueued_def Let_def)
  show "e = None" by (rule e)
  show "only_lease i p p'" using set_lease_only [of i l p] inv l(1) by (simp add: p')
  show "l_state (p_leases p' ! i) = StateQueued" "length (p_leases p') = length (p_leases p)"
    using assms(2) l(2) by (simp_all add: p' set_lease_def)
  show "Payload p' (Some i) = Payload p (Some i)" "Lease_Capacity p' (Some i) = Lease_Capacity p (Some i)"
    using assms(2,3) l
    by (simp_all add: p' set_lease_def Payload_def lease_payload_def block_data_def Lease_Capacity_def cong: option.case_cong)
qed

lemma RollbackQueued_only:
  assumes "pool_inv p" "i < length (p_leases p)" "l_state (p_leases p ! i) = StateQueued" "RollbackQueued (Some i) p = (p', e)"
  shows "e = None" "only_lease i p p'" "l_state (p_leases p' ! i) = StateBorrowed" "Payload p' (Some i) = Payload p (Some i)"
    "Lease_Capacity p' (Some i) = Lease_Capacity p (Some i)" "length (p_leases p') = length (p_leases p)"
proof -
  have inv: "pool_inv p'" using RollbackQueued_inv [OF assms(1), of "Some i"] assms(2,4) by simp
  obtain l where p': "p' = set_lease i l p" and e: "e = None" and l: "l_id l = l_id (p_leases p ! i)" "l_state l = StateBorrowed"
    "l_block l = l_block (p_leases p ! i)" "l_length l = l_length (p_leases p ! i)"
    using assms(3,4) by (auto simp: RollbackQueued_def Let_def)
  show "e = None" by (rule e)
  show "only_lease i p p'" using set_lease_only [of i l p] inv l(1) by (simp add: p')
  show "l_state (p_leases p' ! i) = StateBorrowed" "length (p_leases p') = length (p_leases p)"
    using assms(2) l(2) by (simp_all add: p' set_lease_def)
  show "Payload p' (Some i) = Payload p (Some i)" "Lease_Capacity p' (Some i) = Lease_Capacity p (Some i)"
    using assms(2,3) l
    by (simp_all add: p' set_lease_def Payload_def lease_payload_def block_data_def Lease_Capacity_def cong: option.case_cong)
qed

lemma Release_ids:
  "map l_id (p_leases (fst (Release r now p))) = map l_id (p_leases p)" "p_ident (fst (Release r now p)) = p_ident p"
proof -
  have upd: "map l_id (xs[i := l]) = map l_id xs" if "i < length xs \<Longrightarrow> l_id l = l_id (xs ! i)" for xs :: "Lease list" and i l
    using that by (cases "i < length xs") (auto simp: map_update list_update_beyond intro: list_update_same_conv [THEN iffD2])
  have set: "map l_id (p_leases (set_lease i l q)) = map l_id (p_leases q)" if "l_id l = l_id (p_leases q ! i)" for i l q
    using that by (simp add: set_lease_def upd)
  have blk: "map l_id (p_leases (release_block i q)) = map l_id (p_leases q)" for i q
    by (auto simp: release_block_def Let_def set)
  show "map l_id (p_leases (fst (Release r now p))) = map l_id (p_leases p)"
    by (cases r) (auto simp: Release_def Let_def blk set detectMutation_def split: LeaseState.splits)
  show "p_ident (fst (Release r now p)) = p_ident p"
    by (cases r) (auto simp: Release_def Let_def split: LeaseState.splits)
qed

lemma Release_only:
  assumes "pool_inv p" "i < length (p_leases p)" "l_state (p_leases p ! i) = StateBorrowed" "Release (Some (p_ident p, i)) now p = (p', e)"
  shows "e = None" "only_lease i p p'" "l_state (p_leases p' ! i) = StateReturned" "length (p_leases p') = length (p_leases p)"
proof -
  have v: "valid_ref p (Some (p_ident p, i))" using assms(2) by (simp add: valid_ref_def)
  have p': "p' = fst (Release (Some (p_ident p, i)) now p)" "e = snd (Release (Some (p_ident p, i)) now p)" using assms(4) by simp_all
  show e: "e = None" using Release_success(1) [OF assms(1) v] assms(3) p' by simp
  have inv: "pool_inv p'" using Release_inv [of p "Some (p_ident p, i)"] assms(1,2) p' by simp
  note st = Release_states [OF v, of now, folded p']
  show "l_state (p_leases p' ! i) = StateReturned" using st(2) [of i] e by simp
  show "length (p_leases p') = length (p_leases p)" by (rule st(1))
  have "lease_view p' x = lease_view p x" if "x \<noteq> i" for x
    using Release_other [OF v that, of now, folded p'] by (simp add: view_unfold lease_payload_def block_data_def cong: option.case_cong)
  then show "only_lease i p p'"
    using inv Release_ids [of "Some (p_ident p, i)" now p, folded p'] st(1) ids_nth(2) [of "p_leases p'" "p_leases p"]
    by (simp add: only_lease_def)
qed

lemma acquire_only:
  assumes "pool_inv p" "acquire env cap c p = (p', r)"
  shows "only_lease x p p'" "r = Inr i \<Longrightarrow> i = length (p_leases p) \<and> length (p_leases p') = Suc i \<and> l_state (p_leases p' ! i) = StateBorrowed"
proof -
  note S = acquire_spec [OF assms]
  have inv: "pool_inv p'" using acquire_inv [OF assms(1), of env cap c] assms(2) by simp
  have frame: "p_leases (fst (acquire_block env cap p)) = p_leases p" "p_ident (fst (acquire_block env cap p)) = p_ident p"
    by (auto simp: acquire_block_def Let_def split: option.splits)
  have id: "p_ident p' = p_ident p" using assms(2) frame(2) by (auto simp: acquire_def Let_def split: if_splits prod.splits)
  have L: "p_leases p' = p_leases p \<and> (\<exists>e. r = Inl e) \<or> (\<exists>l. p_leases p' = p_leases p @ [l] \<and> l_state l = StateBorrowed \<and> r = Inr (length (p_leases p)))"
    using assms(2) frame(1) by (auto simp: acquire_def Let_def split: if_splits prod.splits)
  then have "l_id (p_leases p' ! x) = l_id (p_leases p ! x)" if "x < length (p_leases p)" for x using that by (auto simp: nth_append)
  then show "only_lease x p p'" using inv id S L unfolding only_lease_def by auto
  show "r = Inr i \<Longrightarrow> i = length (p_leases p) \<and> length (p_leases p') = Suc i \<and> l_state (p_leases p' ! i) = StateBorrowed" using L by auto
qed

subsection \<open>What a call leaves alone\<close>

definition app_frame :: "'s Appender \<Rightarrow> 's Appender \<Rightarrow> bool" where
  "app_frame a a' \<longleftrightarrow> ap_ident a' = ap_ident a \<and> ap_config a' = ap_config a \<and> ap_closed a' = ap_closed a \<and>
     ap_closeOnce a' = ap_closeOnce a \<and> ap_closeDone a' = ap_closeDone a \<and> ap_closeErr a' = ap_closeErr a \<and>
     ap_closer a' = ap_closer a \<and> length (ap_levels a') = length (ap_levels a)"

lemma app_frame_refl [simp]: "app_frame a a"
  by (simp add: app_frame_def)

lemma app_frame_trans: "app_frame a b \<Longrightarrow> app_frame b c \<Longrightarrow> app_frame a c"
  by (simp add: app_frame_def)

lemma set_pool_simps [simp]:
  "ap_pool (set_pool p a) = p" "ap_queue (set_pool p a) = ap_queue a" "app_frame (set_pool p a) b = app_frame a b"
  "app_frame b (set_pool p a) = app_frame b a" "ap_wrappers (set_pool p a) = ap_wrappers a" "fm_run (ap_mach (set_pool p a)) = fm_run (ap_mach a)"
  "fm_pc (ap_mach (set_pool p a)) = fm_pc (ap_mach a)" "ap_config (set_pool p a) = ap_config a" "ap_closed (set_pool p a) = ap_closed a"
  "ap_ident (set_pool p a) = ap_ident a"
  by (simp_all add: set_pool_def app_frame_def)

lemma set_queue_simps [simp]:
  "ap_pool (set_queue q a) = ap_pool a" "ap_queue (set_queue q a) = q" "app_frame (set_queue q a) b = app_frame a b"
  "app_frame b (set_queue q a) = app_frame b a" "ap_wrappers (set_queue q a) = ap_wrappers a" "fm_run (ap_mach (set_queue q a)) = fm_run (ap_mach a)"
  "fm_pc (ap_mach (set_queue q a)) = fm_pc (ap_mach a)"
  by (simp_all add: set_queue_def app_frame_def)

lemma level_frame [simp]:
  "ap_mach (level_attempt l a) = ap_mach a" "ap_mach (level_dropped l a) = ap_mach a" "ap_mach (level_accepted l a) = ap_mach a"
  "ap_wrappers (level_attempt l a) = ap_wrappers a" "ap_wrappers (level_dropped l a) = ap_wrappers a" "ap_wrappers (level_accepted l a) = ap_wrappers a"
  "app_frame b (level_attempt l a) = app_frame b a" "app_frame b (level_dropped l a) = app_frame b a" "app_frame b (level_accepted l a) = app_frame b a"
  "app_frame (level_attempt l a) b = app_frame a b" "ap_config (level_attempt l a) = ap_config a" "ap_closed (level_attempt l a) = ap_closed a" "ap_ident (level_attempt l a) = ap_ident a"
  by (simp_all add: level_attempt_def level_dropped_def level_accepted_def count_level_def app_frame_def)

lemma reject_frame:
  assumes "reject r l a = (a', r')"
  shows "ap_mach a' = ap_mach a" "ap_wrappers a' = ap_wrappers a" "app_frame b a' = app_frame b a" "r' \<noteq> Accepted" "r' \<noteq> Filtered"
    "r = QueueFull \<Longrightarrow> r' = QueueFull" "r = Closed \<Longrightarrow> r' = Closed" "r = Oversized \<Longrightarrow> r' = Oversized" "r = InvalidLease \<Longrightarrow> r' = InvalidLease"
proof -
  have cnt: "app_frame b (a\<lparr>ap_rejectedFull := n\<rparr>) = app_frame b a" "app_frame b (a\<lparr>ap_rejectedClosed := n\<rparr>) = app_frame b a"
    "app_frame b (a\<lparr>ap_rejectedOversized := n\<rparr>) = app_frame b a" "app_frame b (a\<lparr>ap_rejectedInvalid := n\<rparr>) = app_frame b a" for n
    by (simp_all add: app_frame_def)
  show "ap_mach a' = ap_mach a" "ap_wrappers a' = ap_wrappers a" "app_frame b a' = app_frame b a" "r' \<noteq> Accepted" "r' \<noteq> Filtered"
    "r = QueueFull \<Longrightarrow> r' = QueueFull" "r = Closed \<Longrightarrow> r' = Closed" "r = Oversized \<Longrightarrow> r' = Oversized" "r = InvalidLease \<Longrightarrow> r' = InvalidLease"
    using assms cnt by (cases r; auto)+
qed

subsection \<open>One publication\<close>

lemma view_of_parts:
  assumes "l_state (p_leases p' ! i) = l_state (p_leases p ! i)" "Payload p' (Some i) = Payload p (Some i)" "Lease_Capacity p' (Some i) = Lease_Capacity p (Some i)"
  shows "lease_view p' i = lease_view p i"
  using assms by (simp add: lease_view_def)

lemma not_owned:
  assumes "owner_inv p q pending {} gone" "l_state (p_leases p ! i) = StateBorrowed"
  shows "i \<notin> set (pending @ ring_items q)" "set (pending @ ring_items q) \<subseteq> {..<length (p_leases p)}"
  using assms by (auto simp: owner_inv_def)

text \<open>
  Offering a borrowed lease to an open ring is a sequence of steps of the flusher's world; when the ring is full the lease is
  afterwards as it was.
\<close>

lemma offer_sim:
  fixes a :: "'s Appender"
  assumes ow: "owner_inv (ap_pool a) (ap_queue a) (rn_pending (fm_run (ap_mach a))) {} gone" and w: "fw_mach w = ap_mach a" "fw_passed w = {}"
    and i: "i < length (p_leases (ap_pool a))" "l_state (p_leases (ap_pool a) ! i) = StateBorrowed" and op: "\<not> q_closed (ap_queue a)"
    and off: "offer_lease level i l a = (a', l', r)"
  shows "fw_steps bs w (w\<lparr>fw_mach := ap_mach a', fw_accepted := fw_accepted w @ (if r = Accepted then entries (ap_pool a) [i] else [])\<rparr>)"
    "only_lease i (ap_pool a) (ap_pool a')" "app_frame a a'" "ap_wrappers a' = ap_wrappers a"
    "r = Accepted \<and> l' = l\<lparr>lw_transferred := True\<rparr> \<and> l_state (p_leases (ap_pool a') ! i) = StateQueued \<or>
     r = QueueFull \<and> l' = l \<and> lease_view (ap_pool a') i = lease_view (ap_pool a) i"
    "length (p_leases (ap_pool a')) = length (p_leases (ap_pool a))"
proof -
  let ?p = "ap_pool a" and ?q = "ap_queue a" and ?pend = "rn_pending (fm_run (ap_mach a))"
  have inv: "pool_inv ?p" "ring_inv ?q" using owner_invD [OF ow] by simp_all
  note no = not_owned [OF ow i(2)]
  obtain p1 e where mq: "MarkQueued (Some i) ?p = (p1, e)" by fastforce
  note M = MarkQueued_only [OF inv(1) i mq]
  have rely1: "pool_rely (set (?pend @ ring_items ?q)) ?p p1"
    by (rule only_lease_rely [OF M(2) no(2,1)]) (simp add: i)
  define w1 where "w1 = with_flusher ((fw_flusher w)\<lparr>fl_pool := p1\<rparr>) w"
  have s1: "fw_step bs w w1"
    unfolding w1_def by (rule fw_pool) (use rely1 w in \<open>simp add: fw_owned_def\<close>)
  let ?q1 = "?q\<lparr>publishAttempts := publishAttempts ?q + 1\<rparr>"
  define w2 where "w2 = (with_flusher ((fw_flusher w1)\<lparr>fl_queue := ?q1\<rparr>) w1)\<lparr>fw_passed := {i}\<rparr>"
  have w1: "fl_queue (fw_flusher w1) = ?q" "fl_pool (fw_flusher w1) = p1" "fw_passed w1 = {}" "fw_owned w1 = set (?pend @ ring_items ?q)"
    using w by (simp_all add: w1_def with_flusher_def fw_owned_def)
  have s2: "fw_step bs w1 w2"
    unfolding w2_def using fw_check [of w1 i bs] w1 op i(1) M(3,6) no(1) by simp
  have w2: "fl_queue (fw_flusher w2) = ?q1" "fl_pool (fw_flusher w2) = p1" "fw_passed w2 = {i}"
    using w1 by (simp_all add: w2_def with_flusher_def)
  have s12: "fw_steps bs w w2" using s1 s2 by (meson r_into_rtranclp rtranclp.rtrancl_into_rtrancl)
  note T = publish_is_check_and_claim [OF inv(2) op, of i]
  have goal: "fw_steps bs w (w\<lparr>fw_mach := ap_mach a', fw_accepted := fw_accepted w @ (if r = Accepted then entries ?p [i] else [])\<rparr>) \<and>
    only_lease i ?p (ap_pool a') \<and> app_frame a a' \<and> ap_wrappers a' = ap_wrappers a \<and>
    (r = Accepted \<and> l' = l\<lparr>lw_transferred := True\<rparr> \<and> l_state (p_leases (ap_pool a') ! i) = StateQueued \<or>
     r = QueueFull \<and> l' = l \<and> lease_view (ap_pool a') i = lease_view ?p i) \<and>
    length (p_leases (ap_pool a')) = length (p_leases ?p)"
  proof (cases "ring_len ?q1 < unat (capacity ?q1)")
    case True
    have eq: "a' = level_accepted level (set_queue (publish_accept i ?q1) (set_pool p1 a))" "r = Accepted" "l' = l\<lparr>lw_transferred := True\<rparr>"
      using off mq M(1) T True by (simp_all add: offer_lease_def Let_def)
    define w3 where "w3 = (with_flusher ((fw_flusher w2)\<lparr>fl_queue := publish_accept i ?q1\<rparr>) w2)
      \<lparr>fw_passed := fw_passed w2 - {i}, fw_accepted := fw_accepted w2 @ entries p1 [i]\<rparr>"
    have "fw_step bs w2 w3" unfolding w3_def using fw_claim [of i w2 bs] w2 True by simp
    then have "fw_steps bs w w3" using s12 by (meson rtranclp.rtrancl_into_rtrancl)
    moreover have "w3 = w\<lparr>fw_mach := ap_mach a', fw_accepted := fw_accepted w @ entries ?p [i]\<rparr>"
      using w M(4) by (cases w) (simp add: w3_def w2_def w1_def with_flusher_def eq set_queue_def set_pool_def)
    ultimately show ?thesis using eq M by simp
  next
    case False
    then have full: "ring_len ?q1 = unat (capacity ?q1)" using ring_invD(2) [OF inv(2)] by simp
    let ?q2 = "?q1\<lparr>rejectedFull := rejectedFull ?q1 + 1\<rparr>"
    obtain p2 e2 where rb: "RollbackQueued (Some i) p1 = (p2, e2)" by fastforce
    have inv1: "pool_inv p1" "i < length (p_leases p1)" using M(2,6) i(1) by (simp_all add: only_lease_def)
    note R = RollbackQueued_only [OF inv1 M(3) rb]
    let ?a2 = "set_pool p2 (set_queue ?q2 (set_pool p1 a))"
    have rej: "reject QueueFull level ?a2 = (a', r)" and l': "l' = l"
      using off mq M(1) T False rb by (auto simp: offer_lease_def Let_def split: prod.splits)
    note F = reject_frame [OF rej]
    define w3 where "w3 = (with_flusher ((fw_flusher w2)\<lparr>fl_queue := ?q2\<rparr>) w2)\<lparr>fw_passed := fw_passed w2 - {i}\<rparr>"
    have t3: "fw_step bs w2 w3" unfolding w3_def using fw_full [of i w2 bs] w2 full by simp
    have w3: "fl_pool (fw_flusher w3) = p1" "fw_owned w3 = set (?pend @ ring_items ?q)"
      using w by (simp_all add: w3_def w2_def w1_def with_flusher_def fw_owned_def)
    define w4 where "w4 = with_flusher ((fw_flusher w3)\<lparr>fl_pool := p2\<rparr>) w3"
    have "pool_rely (set (?pend @ ring_items ?q)) p1 p2"
      by (rule only_lease_rely [OF R(2) _ no(1)]) (use no(2) M(3,6) in simp_all)
    then have "fw_step bs w3 w4" unfolding w4_def using fw_pool [of w3 p2 bs] w3 by simp
    then have "fw_steps bs w w4" using s12 t3 by (meson rtranclp.rtrancl_into_rtrancl)
    moreover have "w4 = w\<lparr>fw_mach := ap_mach a', fw_accepted := fw_accepted w @ []\<rparr>"
      using w F(1) by (cases w) (simp add: w4_def w3_def w2_def w1_def with_flusher_def set_queue_def set_pool_def)
    moreover have pool': "ap_pool a' = p2" using F(1) by simp
    moreover have "lease_view p2 i = lease_view ?p i"
      by (rule view_of_parts) (use R(3-5) M(4,5) i(2) in simp_all)
    moreover have "only_lease i ?p p2" by (rule only_lease_trans [OF M(2) R(2)])
    ultimately show ?thesis using F l' R(6) M(6) by simp
  qed
  then show "fw_steps bs w (w\<lparr>fw_mach := ap_mach a', fw_accepted := fw_accepted w @ (if r = Accepted then entries ?p [i] else [])\<rparr>)"
    "only_lease i ?p (ap_pool a')" "app_frame a a'" "ap_wrappers a' = ap_wrappers a"
    "r = Accepted \<and> l' = l\<lparr>lw_transferred := True\<rparr> \<and> l_state (p_leases (ap_pool a') ! i) = StateQueued \<or>
     r = QueueFull \<and> l' = l \<and> lease_view (ap_pool a') i = lease_view ?p i"
    "length (p_leases (ap_pool a')) = length (p_leases ?p)"
    by blast+
qed

lemma fworld_stay: "fw_mach w = m \<Longrightarrow> w\<lparr>fw_mach := m, fw_accepted := fw_accepted w @ []\<rparr> = w"
  by (cases w) simp

lemma invalid_frame:
  assumes "invalid_publish a = (a', r)"
  shows "ap_mach a' = ap_mach a" "ap_wrappers a' = ap_wrappers a" "app_frame b a' = app_frame b a" "r = InvalidLease"
  using assms by (auto simp: invalid_publish_def app_frame_def)

text \<open>
  The outcome of a publication of lease \<open>i\<close>: accepted, and then the caller's wrapper is marked and the lease queued; or refused, and then
  wrapper and lease are as before.
\<close>

definition publish_outcome :: "nat \<Rightarrow> LeaseW \<Rightarrow> 's Appender \<Rightarrow> 's Appender \<Rightarrow> LeaseW \<Rightarrow> app_result \<Rightarrow> bool" where
  "publish_outcome i l a a' l' r \<longleftrightarrow> only_lease i (ap_pool a) (ap_pool a') \<and> app_frame a a' \<and> ap_wrappers a' = ap_wrappers a \<and>
     length (p_leases (ap_pool a')) = length (p_leases (ap_pool a)) \<and>
     (if r = Accepted then l' = l\<lparr>lw_transferred := True\<rparr> \<and> l_state (p_leases (ap_pool a') ! i) = StateQueued \<and>
        \<not> lw_transferred l \<and> \<not> lw_released l \<and> \<not> ap_closed a \<and> 0 < Lease_Len (ap_pool a) (Some i) \<and>
        Lease_Len (ap_pool a) (Some i) \<le> cf_MaxEventBytes (ap_config a)
      else l' = l \<and> lease_view (ap_pool a') i = lease_view (ap_pool a) i)"

definition publish_sim :: "('e, 'c, 's) BatchSink \<Rightarrow> 's fworld \<Rightarrow> 's Appender \<Rightarrow> (nat \<times> bytes) list \<Rightarrow> bool" where
  "publish_sim bs w a' new \<longleftrightarrow> fw_steps bs w (w\<lparr>fw_mach := ap_mach a', fw_accepted := fw_accepted w @ new\<rparr>)"

lemma publish_sim_stay: "fw_mach w = ap_mach a' \<Longrightarrow> publish_sim bs w a' []"
  unfolding publish_sim_def by (subst fworld_stay) simp_all

lemma publish_refused:
  assumes "pool_inv (ap_pool a)" "ap_mach a' = ap_mach a" "ap_wrappers a' = ap_wrappers a" "app_frame a a'" "r \<noteq> Accepted" "fw_mach w = ap_mach a"
  shows "publish_outcome i l a a' l r" "publish_sim bs w a' (if r = Accepted then entries (ap_pool a) [i] else [])"
  using assms publish_sim_stay [of w a' bs] by (simp_all add: publish_outcome_def only_lease_refl)

lemma pool_step_sim:
  assumes "fw_mach w = ap_mach a" "pool_rely (fw_owned w) (ap_pool a) p'"
  shows "fw_step bs w (w\<lparr>fw_mach := ap_mach (set_pool p' a)\<rparr>)"
  using fw_pool [of w p' bs] assms by (simp add: with_flusher_def set_pool_def)

lemma publish_wrapper_sim:
  fixes a :: "'s Appender"
  assumes ow: "owner_inv (ap_pool a) (ap_queue a) (rn_pending (fm_run (ap_mach a))) {} gone" and w: "fw_mach w = ap_mach a" "fw_passed w = {}"
    and i: "lw_inner l = Some i" "i < length (p_leases (ap_pool a))"
      "\<not> lw_transferred l \<Longrightarrow> \<not> lw_released l \<Longrightarrow> l_state (p_leases (ap_pool a) ! i) = StateBorrowed"
    and op: "q_closed (ap_queue a) \<Longrightarrow> ap_closed a" and pub: "publish_wrapper level l a = (a', l', r)"
  shows "publish_outcome i l a a' l' r" "publish_sim bs w a' (if r = Accepted then entries (ap_pool a) [i] else [])"
proof -
  note inv = owner_invD(2) [OF ow]
  let ?bad = "\<not> Level_valid level \<or> lw_appender l \<noteq> Some (ap_ident a) \<or> lw_id l \<noteq> lease_ID a i \<or> lw_released l \<or>
     lw_transferred l \<or> Lease_Len (ap_pool a) (Some i) \<le> 0"
  have refused: "publish_outcome i l a a' l' r \<and> publish_sim bs w a' (if r = Accepted then entries (ap_pool a) [i] else [])" if "ap_mach a' = ap_mach a" "ap_wrappers a' = ap_wrappers a" "app_frame a a'" "r \<noteq> Accepted" "l' = l"
    unfolding that(5) using publish_refused [OF inv that(1-4) w(1)] by blast
  consider "?bad" | "\<not> ?bad" "level < cf_MinLevel (ap_config a) \<or> ap_closed a \<or> Lease_Len (ap_pool a) (Some i) > cf_MaxEventBytes (ap_config a)"
    | "\<not> ?bad" "\<not> (level < cf_MinLevel (ap_config a) \<or> ap_closed a \<or> Lease_Len (ap_pool a) (Some i) > cf_MaxEventBytes (ap_config a))" by blast
  then have "publish_outcome i l a a' l' r \<and> publish_sim bs w a' (if r = Accepted then entries (ap_pool a) [i] else [])"
  proof cases
    case 1
    then show ?thesis
      using refused invalid_frame [of a a' r] pub i(1) by (auto simp: publish_wrapper_def split: prod.splits)
  next
    case 2
    show ?thesis
    proof (cases "level < cf_MinLevel (ap_config a)")
      case True
      then have "a' = a\<lparr>ap_filtered := ap_filtered a + 1\<rparr>" "r = Filtered" "l' = l"
        using pub i(1) 2(1) by (auto simp: publish_wrapper_def Let_def)
      then show ?thesis by (intro refused) (simp_all add: app_frame_def)
    next
      case False
      then have "\<exists>res. reject res level (level_attempt level a) = (a', r) \<and> l' = l"
        using pub i(1) 2 by (auto simp: publish_wrapper_def Let_def simp del: reject.simps split: prod.splits if_splits)
      then obtain res where "reject res level (level_attempt level a) = (a', r)" "l' = l" by blast
      then show ?thesis by (intro refused) (simp_all add: reject_frame)
    qed
  next
    case 3
    have st: "l_state (p_leases (ap_pool a) ! i) = StateBorrowed" using i(3) 3 by blast
    obtain p e where sc: "SetAuditContext (Some i) \<lparr>ac_Level = Level_String level, ac_Logger = lw_logger l, ac_CallerSkip = 0\<rparr> (ap_pool a) = (p, e)"
      by fastforce
    note S = SetAuditContext_only [OF inv sc]
    have e: "e = None" using sc st by (auto simp: SetAuditContext_def Let_def split: if_splits)
    let ?a1 = "set_pool p (level_attempt level a)"
    have off: "offer_lease level i l ?a1 = (a', l', r)"
      using pub 3 i(1) sc e by (simp add: publish_wrapper_def Let_def)
    have rely: "pool_rely A (ap_pool a) p" if "A \<subseteq> {..<length (p_leases (ap_pool a))}" "i \<notin> A" for A
      by (rule only_lease_rely [OF S(1) [of i] that]) (simp add: st)
    note no = not_owned [OF ow st]
    have rl: "pool_rely (set (rn_pending (fm_run (ap_mach a)) @ ring_items (ap_queue a)) \<union> {}) (ap_pool a) p"
      using rely no by simp
    have ow1: "owner_inv (ap_pool ?a1) (ap_queue ?a1) (rn_pending (fm_run (ap_mach ?a1))) {} gone"
      using owner_rely(1) [OF ow rl] by simp
    define w1 where "w1 = w\<lparr>fw_mach := ap_mach (set_pool p a)\<rparr>"
    have "fw_step bs w w1" unfolding w1_def
      by (rule pool_step_sim [OF w(1)]) (use rl w in \<open>simp add: fw_owned_def\<close>)
    moreover have mach: "ap_mach ?a1 = ap_mach (set_pool p a)" by (simp add: set_pool_def)
    then have w1: "fw_mach w1 = ap_mach ?a1" "fw_passed w1 = {}" "fw_accepted w1 = fw_accepted w" using w(2) by (simp_all add: w1_def)
    have i1: "i < length (p_leases (ap_pool ?a1))" "l_state (p_leases (ap_pool ?a1) ! i) = StateBorrowed" "\<not> q_closed (ap_queue ?a1)"
      using i(2) st S(2) op 3 by auto
    note O = offer_sim [OF ow1 w1(1,2) i1 off]
    have ent: "entries (ap_pool ?a1) [i] = entries (ap_pool a) [i]" using S(3) [of i] by (simp add: lease_view_def)
    have "w1\<lparr>fw_mach := m, fw_accepted := x\<rparr> = w\<lparr>fw_mach := m, fw_accepted := x\<rparr>" for m x by (simp add: w1_def)
    then have "fw_steps bs w1 (w\<lparr>fw_mach := ap_mach a', fw_accepted := fw_accepted w @ (if r = Accepted then entries (ap_pool a) [i] else [])\<rparr>)"
      using O(1) [of bs] unfolding w1(3) ent by simp
    ultimately have sim: "publish_sim bs w a' (if r = Accepted then entries (ap_pool a) [i] else [])"
      unfolding publish_sim_def by (rule converse_rtranclp_into_rtranclp)
    have "only_lease i (ap_pool a) (ap_pool a')" using only_lease_trans [OF S(1) O(2) [simplified]] .
    then have "publish_outcome i l a a' l' r"
      using O(3-6) 3 S(2,3) unfolding publish_outcome_def by (auto simp: not_le)
    then show ?thesis using sim by blast
  qed
  then show "publish_outcome i l a a' l' r" "publish_sim bs w a' (if r = Accepted then entries (ap_pool a) [i] else [])" by blast+
qed

text \<open>A caller's use of the pool on a lease that is not queued: one step of the flusher's world.\<close>

lemma only_lease_sim:
  assumes "owner_inv (ap_pool a) (ap_queue a) (rn_pending (fm_run (ap_mach a))) {} gone" "fw_mach w = ap_mach a" "fw_passed w = {}"
    "only_lease i (ap_pool a) p'" "i < length (p_leases (ap_pool a)) \<longrightarrow> l_state (p_leases (ap_pool a) ! i) = StateBorrowed"
  shows "fw_step bs w (w\<lparr>fw_mach := ap_mach (set_pool p' a)\<rparr>)"
    "owner_inv p' (ap_queue a) (rn_pending (fm_run (ap_mach a))) {} gone"
proof -
  have i: "i \<notin> set (rn_pending (fm_run (ap_mach a)) @ ring_items (ap_queue a))"
    "set (rn_pending (fm_run (ap_mach a)) @ ring_items (ap_queue a)) \<subseteq> {..<length (p_leases (ap_pool a))}"
    using assms(1,5) unfolding owner_inv_def by (cases "i < length (p_leases (ap_pool a))"; auto)+
  have rely: "pool_rely (set (rn_pending (fm_run (ap_mach a)) @ ring_items (ap_queue a)) \<union> {}) (ap_pool a) p'"
    using only_lease_rely [OF assms(4) i(2,1)] assms(5) by simp
  show "fw_step bs w (w\<lparr>fw_mach := ap_mach (set_pool p' a)\<rparr>)"
    by (rule pool_step_sim [OF assms(2)]) (use rely assms(2,3) in \<open>simp add: fw_owned_def\<close>)
  show "owner_inv p' (ap_queue a) (rn_pending (fm_run (ap_mach a))) {} gone" by (rule owner_rely(1) [OF assms(1) rely])
qed

lemma release_wrapper_only:
  assumes "pool_inv (ap_pool a)" "release_wrapper now l a = (a', l', e)"
    "\<And>i. lw_inner l = Some i \<Longrightarrow> \<not> lw_transferred l \<Longrightarrow> \<not> lw_released l \<Longrightarrow> i < length (p_leases (ap_pool a)) \<and> l_state (p_leases (ap_pool a) ! i) = StateBorrowed"
  shows "a' = a \<and> l' = l \<or> (\<exists>i p'. lw_inner l = Some i \<and> \<not> lw_transferred l \<and> \<not> lw_released l \<and> a' = set_pool p' a \<and> only_lease i (ap_pool a) p' \<and>
    l' = l\<lparr>lw_released := True\<rparr> \<and> e = None \<and> l_state (p_leases p' ! i) = StateReturned \<and> length (p_leases p') = length (p_leases (ap_pool a)))"
proof (cases "a' = a \<and> l' = l")
  case False
  have "lw_inner l \<noteq> None"
  proof
    assume "lw_inner l = None"
    then have "release_wrapper now l a = (a, l, Some ErrInvalidLease)" by (simp add: release_wrapper_def)
    then show False using assms(2) False by simp
  qed
  then obtain i where inner: "lw_inner l = Some i" by blast
  let ?rel = "Release (Some (p_ident (ap_pool a), i)) now (ap_pool a)"
  have i: "lw_inner l = Some i" "\<not> lw_transferred l" "\<not> lw_released l"
    using assms(2) False inner by (simp_all add: release_wrapper_def split: if_splits)
  have rel: "a' = set_pool (fst ?rel) a" "l' = l\<lparr>lw_released := True\<rparr>" "e = map_option AppPool (snd ?rel)"
    using assms(2) False i by (simp_all add: release_wrapper_def split_beta split: if_splits)
  note R = Release_only [OF assms(1) assms(3) [OF i, THEN conjunct1] assms(3) [OF i, THEN conjunct2] prod.collapse [symmetric], of now]
  show ?thesis using i rel R by (intro disjI2 exI [of _ i] exI [of _ "fst (Release (Some (p_ident (ap_pool a), i)) now (ap_pool a))"]) simp
qed simp

lemma fw_owner:
  assumes "fw_inv out pend ok base w" "fw_mach w = ap_mach a" "fw_passed w = {}"
  shows "owner_inv (ap_pool a) (ap_queue a) (rn_pending (fm_run (ap_mach a))) {} (fst ` set (fw_delivered w @ fw_abandoned w))"
  using fw_goodD(1) [OF assms(1) [unfolded fw_inv_def]] assms(2,3) by simp

lemma publish_sim_step:
  assumes "fw_step bs w (w\<lparr>fw_mach := ap_mach a1\<rparr>)" "publish_sim bs (w\<lparr>fw_mach := ap_mach a1\<rparr>) a2 new"
  shows "publish_sim bs w a2 new"
  using converse_rtranclp_into_rtranclp [OF assms(1) assms(2) [unfolded publish_sim_def]] by (simp add: publish_sim_def)

lemma publish_sim_then:
  assumes "publish_sim bs w a1 []" "fw_step bs (w\<lparr>fw_mach := ap_mach a1\<rparr>) (w\<lparr>fw_mach := ap_mach a2\<rparr>)"
  shows "publish_sim bs w a2 []"
  using rtranclp.rtrancl_into_rtrancl [of "fw_step bs" w "w\<lparr>fw_mach := ap_mach a1\<rparr>" "w\<lparr>fw_mach := ap_mach a2\<rparr>"] assms
  by (simp add: publish_sim_def)

lemma publish_sim_one:
  assumes "fw_step bs w (w\<lparr>fw_mach := ap_mach a'\<rparr>)"
  shows "publish_sim bs w a' []"
  using assms by (simp add: publish_sim_def r_into_rtranclp)

text \<open>The end of \<open>log\<close>: the new lease is accepted with the encoded event as its payload, or nothing is accepted.\<close>

context batch_sink
begin

lemma log_encoded_sim:
  assumes fw: "fw_inv out pend ok base w" "bs_WriteBatch bs = wr" "bs_Flush bs = fl" "bs_Close bs = cl"
    and w: "fw_mach w = ap_mach a" "fw_passed w = {}" and op: "q_closed (ap_queue a) \<Longrightarrow> ap_closed a"
    and log: "log_encoded env name level encoded a = (a', r)"
  shows "publish_sim bs w a' (if r = Accepted then [(length (p_leases (ap_pool a)), encoded)] else []) \<and>
    only_lease (length (p_leases (ap_pool a))) (ap_pool a) (ap_pool a') \<and> app_frame a a' \<and> ap_wrappers a' = ap_wrappers a"
proof -
  let ?n = "length (p_leases (ap_pool a))"
  note ow = fw_owner [OF fw(1) w]
  note inv = owner_invD(2) [OF ow]
  have quiet: ?thesis if "only_lease ?n (ap_pool a) p'" "ap_mach a' = ap_mach (set_pool p' a)" "app_frame a a'" "ap_wrappers a' = ap_wrappers a"
    "r \<noteq> Accepted" for p'
  proof -
    have "fw_step bs w (w\<lparr>fw_mach := ap_mach a'\<rparr>)"
      unfolding that(2) by (rule only_lease_sim(1) [OF ow w that(1)]) simp
    moreover have "ap_pool a' = p'" using that(2) by simp
    ultimately show ?thesis using publish_sim_one [of bs w a'] that(1,3-5) by simp
  qed
  let ?c = "\<lparr>ac_Level = Level_String level, ac_Logger = name, ac_CallerSkip = 2\<rparr>"
  obtain p res where acq: "acquire (lg_acquire env) (int (length encoded)) ?c (ap_pool a) = (p, res)" by fastforce
  note A = acquire_only [OF inv acq]
  show ?thesis
  proof (cases res)
    case (Inl e)
    then have "reject (result_of_error e) level (level_attempt level (set_pool p a)) = (a', r)"
      using log acq by (simp add: log_encoded_def)
    from reject_frame [OF this] show ?thesis by (intro quiet [OF A(1)]) simp_all
  next
    case (Inr i)
    have i: "i = ?n" "length (p_leases p) = Suc ?n" "l_state (p_leases p ! ?n) = StateBorrowed" using A(2) [OF Inr] by auto
    have invp: "pool_inv p" "?n < length (p_leases p)" using A(1) i by (simp_all add: only_lease_def)
    obtain p1 e where sb: "SetBytes (Some ?n) encoded p = (p1, e)" by fastforce
    note S = SetBytes_only [OF invp, of encoded, unfolded sb fst_conv snd_conv]
    have o1: "only_lease ?n (ap_pool a) p1" by (rule only_lease_trans [OF A(1) S(1)])
    have inv1: "pool_inv p1" "?n < length (p_leases p1)" "l_state (p_leases p1 ! ?n) = StateBorrowed"
      using S(1,2) i(2,3) by (simp_all add: only_lease_def)
    show ?thesis
    proof (cases e)
      case (Some x)
      obtain p2 e2 where rel: "Release (Some (p_ident p1, ?n)) (lg_release env) p1 = (p2, e2)" by fastforce
      note R = Release_only [OF inv1 rel]
      have "reject InvalidLease level (level_attempt level (set_pool p2 a)) = (a', r)"
        using log acq Inr i(1) sb Some rel by (simp add: log_encoded_def)
      from reject_frame [OF this] show ?thesis by (intro quiet [OF only_lease_trans [OF o1 R(2)]]) simp_all
    next
      case None
      let ?a1 = "set_pool p1 a"
      define l where "l = \<lparr>lw_appender = Some (ap_ident ?a1), lw_inner = Some ?n, lw_id = lease_ID ?a1 ?n, lw_logger = name,
        lw_transferred = False, lw_released = False\<rparr>"
      obtain a2 l2 r2 where pub: "publish_wrapper level l ?a1 = (a2, l2, r2)" by (rule prod_cases3)
      have end_: "a' = (if r2 = Accepted then a2 else fst (release_wrapper (lg_release env) l2 a2))" "r = r2"
        using log acq Inr i(1) sb None pub unfolding log_encoded_def l_def by (simp_all split: if_splits)
      have s1: "fw_step bs w (w\<lparr>fw_mach := ap_mach ?a1\<rparr>)" by (rule only_lease_sim(1) [OF ow w o1]) simp
      let ?w1 = "w\<lparr>fw_mach := ap_mach ?a1\<rparr>"
      have fw1: "fw_inv out pend ok base ?w1" by (rule fw_step_inv [OF s1 fw])
      have w1: "fw_mach ?w1 = ap_mach ?a1" "fw_passed ?w1 = {}" using w(2) by simp_all
      have l: "lw_inner l = Some ?n" "lw_transferred l = False" "lw_released l = False" by (simp_all add: l_def)
      have b1: "?n < length (p_leases (ap_pool ?a1))" "l_state (p_leases (ap_pool ?a1) ! ?n) = StateBorrowed" using inv1 by simp_all
      have op1: "q_closed (ap_queue ?a1) \<Longrightarrow> ap_closed ?a1" using op by simp
      note P = publish_wrapper_sim [OF fw_owner [OF fw1 w1] w1 l(1) b1 op1 pub]
      have ent: "entries (ap_pool ?a1) [?n] = [(?n, encoded)]" using S(3) None by simp
      have o2: "only_lease ?n (ap_pool a) (ap_pool a2)" "app_frame a a2" "ap_wrappers a2 = ap_wrappers a"
        using P(1) only_lease_trans [OF o1] by (simp_all add: publish_outcome_def)
      have sim: "publish_sim bs w a2 (if r = Accepted then [(?n, encoded)] else [])"
        using publish_sim_step [OF s1 P(2)] unfolding ent end_(2) .
      show ?thesis
      proof (cases "r = Accepted")
        case True
        then show ?thesis using end_ sim o2 by simp
      next
        case False
        have l2: "l2 = l" "lease_view (ap_pool a2) ?n = lease_view p1 ?n" "?n < length (p_leases (ap_pool a2))"
          using P(1) False end_(2) inv1(2) by (simp_all add: publish_outcome_def)
        have b2: "l_state (p_leases (ap_pool a2) ! ?n) = StateBorrowed" using l2(2) inv1(3) by (simp add: lease_view_def)
        have fw2: "fw_inv out pend ok base (w\<lparr>fw_mach := ap_mach a2\<rparr>)"
          using fw_steps_inv [OF _ fw] sim False by (simp add: publish_sim_def)
        note ow2 = fw_owner [OF fw2, of a2, simplified, OF w(2)]
        obtain l3 e3 where rw: "release_wrapper (lg_release env) l2 a2 = (a', l3, e3)"
          using end_ False by (metis fst_conv prod_cases3)
        from release_wrapper_only [OF owner_invD(2) [OF ow2] rw] l2 l b2
        have "a' = a2 \<or> (\<exists>p'. a' = set_pool p' a2 \<and> only_lease ?n (ap_pool a2) p')" by auto
        then show ?thesis
        proof
          assume "a' = a2"
          then show ?thesis using sim o2 by simp
        next
          assume "\<exists>p'. a' = set_pool p' a2 \<and> only_lease ?n (ap_pool a2) p'"
          then obtain p' where p': "a' = set_pool p' a2" "only_lease ?n (ap_pool a2) p'" by blast
          have "fw_step bs (w\<lparr>fw_mach := ap_mach a2\<rparr>) ((w\<lparr>fw_mach := ap_mach a2\<rparr>)\<lparr>fw_mach := ap_mach (set_pool p' a2)\<rparr>)"
            by (rule only_lease_sim(1) [OF ow2 _ _ p'(2)]) (use w(2) b2 in simp_all)
          then have step: "fw_step bs (w\<lparr>fw_mach := ap_mach a2\<rparr>) (w\<lparr>fw_mach := ap_mach (set_pool p' a2)\<rparr>)" by simp
          have sim2: "publish_sim bs w a2 []" using sim False by simp
          have "publish_sim bs w a' []" unfolding p'(1) by (rule publish_sim_then [OF sim2 step])
          then show ?thesis using p' o2 False only_lease_trans [OF o2(1) p'(2)] by simp
        qed
      qed
    qed
  qed
qed

end

subsection \<open>What a call leaves of the machine\<close>

definition same_run :: "'s Appender \<Rightarrow> 's Appender \<Rightarrow> bool" where
  "same_run a a' \<longleftrightarrow> fm_run (ap_mach a') = fm_run (ap_mach a) \<and> fm_pc (ap_mach a') = fm_pc (ap_mach a) \<and>
     q_closed (ap_queue a') = q_closed (ap_queue a) \<and> fl_stop (fm_flusher (ap_mach a')) = fl_stop (fm_flusher (ap_mach a)) \<and>
     fl_started (fm_flusher (ap_mach a')) = fl_started (fm_flusher (ap_mach a))"

lemma same_run_trans: "same_run a b \<Longrightarrow> same_run b c \<Longrightarrow> same_run a c"
  by (simp add: same_run_def)

lemma same_run_mach: "ap_mach a' = ap_mach a \<Longrightarrow> same_run a a'"
  by (simp add: same_run_def)

lemma same_run_pool [simp]: "same_run a (set_pool p b) = same_run a b" "same_run (set_pool p b) a = same_run b a"
  by (simp_all add: same_run_def set_pool_def)

lemma same_run_queue: "q_closed q = q_closed (ap_queue b) \<Longrightarrow> same_run a (set_queue q b) = same_run a b"
  by (simp add: same_run_def set_queue_def)

lemma publish_loop_closed [simp]: "q_closed (fst (publish_loop n x q)) = q_closed q"
  by (induction n x q rule: publish_loop.induct)
    (auto simp: Let_def store_sequence_def store_value_def observeHighWater_def clamp_depth_def split: if_splits)

lemma TryPublish_closed [simp]: "q_closed (fst (TryPublish x q)) = q_closed q"
  by (auto simp: TryPublish_def Let_def split: option.splits)

lemma offer_same_run:
  assumes "offer_lease level i l a = (a', l', r)"
  shows "same_run a a'"
proof -
  obtain p e where mq: "MarkQueued (Some i) (ap_pool a) = (p, e)" by fastforce
  obtain q res where tp: "TryPublish (Some i) (ap_queue a) = (q, res)" by fastforce
  have q: "q_closed q = q_closed (ap_queue a)" using TryPublish_closed [of "Some i" "ap_queue a"] tp by simp
  have rej: "same_run a a1" if "reject x level b = (a1, r1)" "same_run a b" for x b a1 and r1 :: app_result
    using same_run_trans [OF that(2) same_run_mach [OF reject_frame(1) [OF that(1)]]] .
  have base: "same_run a (set_pool p a)" "same_run a (set_queue q (set_pool p a))"
    using q by (simp_all add: same_run_queue same_run_mach)
  show ?thesis
  proof (cases e)
    case (Some x)
    then have "reject InvalidLease level (set_pool p a) = (a', r)"
      using assms mq by (simp add: offer_lease_def del: reject.simps split: prod.splits)
    then show ?thesis using base(1) by (rule rej)
  next
    case None
    show ?thesis
    proof (cases "res = PublishAccepted")
      case True
      then have "a' = level_accepted level (set_queue q (set_pool p a))" using assms mq tp None by (simp add: offer_lease_def Let_def)
      then show ?thesis using same_run_trans [OF base(2) same_run_mach] by simp
    next
      case False
      let ?a2 = "set_queue q (set_pool p a)"
      have "\<exists>x. reject x level (set_pool (fst (RollbackQueued (Some i) (ap_pool ?a2))) ?a2) = (a', r)"
        using assms mq tp None False by (cases res) (auto simp: offer_lease_def Let_def simp del: reject.simps split: prod.splits)
      then show ?thesis using rej base(2) by fastforce
    qed
  qed
qed

lemma publish_same_run:
  assumes "publish_wrapper level l a = (a', l', r)"
  shows "same_run a a'"
proof -
  have rej: "same_run a a1" if "reject x level b = (a1, r1)" "same_run a b" for x b a1 and r1 :: app_result
    using same_run_trans [OF that(2) same_run_mach [OF reject_frame(1) [OF that(1)]]] .
  have inv: "same_run a a1" if "invalid_publish a = (a1, r1)" for a1 and r1 :: app_result
    using same_run_mach [OF invalid_frame(1) [OF that]] .
  have off: "same_run a a1" if "offer_lease level i l (set_pool p (level_attempt level a)) = (a1, l1, r1)" for i p a1 l1 and r1 :: app_result
    using same_run_trans [OF _ offer_same_run [OF that]] by (simp add: same_run_mach)
  have att: "same_run a (level_attempt level a)" "same_run a (set_pool p (level_attempt level a))" "same_run a (a\<lparr>ap_filtered := n\<rparr>)" for p n
    by (simp_all add: same_run_mach)
  show ?thesis
    using assms unfolding publish_wrapper_def Let_def
    by (auto simp del: reject.simps split: option.splits prod.splits if_splits intro: rej inv off att)
qed

end
