(* ===== verification/Appender_Calls.thy ===== *)
theory Appender_Calls
  imports Appender_Steps
begin

text \<open>
  The calls of the appender's users, each a step, the well-formedness every call keeps, and that every call is a sequence of
  steps of the flusher's world in which exactly what it was answered \<open>Accepted\<close> for is accepted.
\<close>

subsection \<open>Calls\<close>

datatype 'v call =
    CallAcquire acquire_env int
  | CallAcquireFor acquire_env Level int
  | CallWrite bytes "nat option"
  | CallSetBytes bytes "nat option"
  | CallCommit int "nat option"
  | CallFill nat u8 "nat option"
  | CallContext Level string "nat option"
  | CallRelease int "nat option"
  | CallPublish Level "nat option"
  | CallLog log_env string Level bytes "'v Field list"

text \<open>The caller's write of one byte into the slice that \<open>Buffer\<close> returns.\<close>

definition fill_buffer :: "nat \<Rightarrow> u8 \<Rightarrow> nat option \<Rightarrow> 's Appender \<Rightarrow> 's Appender" where
  "fill_buffer n v w a = (case LeaseW_Buffer a w of Inl e \<Rightarrow> a
     | Inr _ \<Rightarrow> (case get_wrapper a w of None \<Rightarrow> a | Some l \<Rightarrow> (case lw_inner l of None \<Rightarrow> a
         | Some i \<Rightarrow> (case l_block (p_leases (ap_pool a) ! i) of None \<Rightarrow> a | Some b \<Rightarrow> set_pool (poke b n v (ap_pool a)) a))))"

fun do_call :: "('v \<Rightarrow> bytes option) \<Rightarrow> 'v call \<Rightarrow> 's Appender \<Rightarrow> 's Appender \<times> app_result option" where
  "do_call enc (CallAcquire env cap) a = (fst (app_Acquire env cap a), None)"
| "do_call enc (CallAcquireFor env level cap) a = (fst (app_AcquireFor env level cap a), None)"
| "do_call enc (CallWrite data w) a = (fst (LeaseW_Write data w a), None)"
| "do_call enc (CallSetBytes data w) a = (fst (LeaseW_SetBytes data w a), None)"
| "do_call enc (CallCommit n w) a = (fst (LeaseW_Commit n w a), None)"
| "do_call enc (CallFill n v w) a = (fill_buffer n v w a, None)"
| "do_call enc (CallContext level logger w) a = (fst (LeaseW_SetAuditContext level logger w a), None)"
| "do_call enc (CallRelease now w) a = (fst (LeaseW_Release now w a), None)"
| "do_call enc (CallPublish level w) a = (case TryPublishLease level w a of (a', r) \<Rightarrow> (a', Some r))"
| "do_call enc (CallLog env name level message fs) a = (case app_log enc env name level message fs a of (a', r) \<Rightarrow> (a', Some r))"

text \<open>A pointer to a wrapper came from an earlier call.\<close>

definition wrapper_ptr :: "'s Appender \<Rightarrow> nat option \<Rightarrow> bool" where
  "wrapper_ptr a w \<longleftrightarrow> (case w of None \<Rightarrow> True | Some k \<Rightarrow> k < length (ap_wrappers a))"

fun call_valid :: "'v call \<Rightarrow> 's Appender \<Rightarrow> bool" where
  "call_valid (CallWrite data w) a = wrapper_ptr a w"
| "call_valid (CallSetBytes data w) a = wrapper_ptr a w"
| "call_valid (CallCommit n w) a = wrapper_ptr a w"
| "call_valid (CallFill n v w) a = wrapper_ptr a w"
| "call_valid (CallContext level logger w) a = wrapper_ptr a w"
| "call_valid (CallRelease now w) a = wrapper_ptr a w"
| "call_valid (CallPublish level w) a = wrapper_ptr a w"
| "call_valid _ a = True"

text \<open>What a call offers for publication: the lease and the bytes.\<close>

fun call_payload :: "('v \<Rightarrow> bytes option) \<Rightarrow> 'v call \<Rightarrow> 's Appender \<Rightarrow> (nat \<times> bytes) list" where
  "call_payload enc (CallPublish level (Some k)) a = (case lw_inner (ap_wrappers a ! k) of None \<Rightarrow> [] | Some i \<Rightarrow> entries (ap_pool a) [i])"
| "call_payload enc (CallLog env name level message fs) a = (case json_event enc (app_event env (ap_sequence a + 1) name level message fs) of
       None \<Rightarrow> [] | Some body \<Rightarrow> [(length (p_leases (ap_pool a)), body @ [10])])"
| "call_payload enc _ a = []"

subsection \<open>Well-formed appenders\<close>

definition wrapper_ok :: "nat \<Rightarrow> BytePool \<Rightarrow> LeaseW \<Rightarrow> bool" where
  "wrapper_ok ident p l \<longleftrightarrow> (case lw_inner l of None \<Rightarrow> False
     | Some i \<Rightarrow> i < length (p_leases p) \<and> lw_appender l = Some ident \<and> lw_id l = l_id (p_leases p ! i) \<and>
         \<not> (lw_transferred l \<and> lw_released l) \<and>
         l_state (p_leases p ! i) \<in> (if lw_transferred l then {StateQueued, StateInFlight, StateReturned}
           else if lw_released l then {StateReturned} else {StateBorrowed}))"

definition closer_ok :: "'s Appender \<Rightarrow> bool" where
  "closer_ok a \<longleftrightarrow> ap_closeOnce a = ap_closed a \<and> (ap_closer a = CloseIdle \<longleftrightarrow> \<not> ap_closed a) \<and>
     ap_closeDone a = (ap_closer a = CloseEnded) \<and> q_closed (ap_queue a) = (ap_closer a \<notin> {CloseIdle, CloseQueue}) \<and>
     fl_stop (fm_flusher (ap_mach a)) = (ap_closer a \<notin> {CloseIdle, CloseQueue, CloseStop}) \<and> fl_started (fm_flusher (ap_mach a))"

definition app_ok :: "'s Appender \<Rightarrow> bool" where
  "app_ok a \<longleftrightarrow> length (ap_levels a) = 4 \<and> p_ident (ap_pool a) = ap_ident a \<and> closer_ok a \<and> distinct (map lw_inner (ap_wrappers a)) \<and>
     (\<forall>l\<in>set (ap_wrappers a). wrapper_ok (ap_ident a) (ap_pool a) l)"

lemma wrapper_okD:
  assumes "wrapper_ok ident p l"
  obtains i where "lw_inner l = Some i" "i < length (p_leases p)" "lw_appender l = Some ident" "lw_id l = l_id (p_leases p ! i)"
    "\<not> lw_transferred l \<and> \<not> lw_released l \<longrightarrow> l_state (p_leases p ! i) = StateBorrowed" "\<not> (lw_transferred l \<and> lw_released l)"
proof (cases "lw_inner l")
  case (Some i)
  then have i: "i < length (p_leases p)" "lw_appender l = Some ident" "lw_id l = l_id (p_leases p ! i)" "\<not> (lw_transferred l \<and> lw_released l)"
    "\<not> lw_transferred l \<and> \<not> lw_released l \<longrightarrow> l_state (p_leases p ! i) = StateBorrowed"
    using assms by (auto simp: wrapper_ok_def)
  show thesis by (rule that [OF Some i(1,2,3,5,4)])
qed (use assms in \<open>simp add: wrapper_ok_def\<close>)

lemma wrapper_ok_cong:
  assumes "wrapper_ok ident p l" "length (p_leases p) \<le> length (p_leases p')"
    "\<And>i. lw_inner l = Some i \<Longrightarrow> i < length (p_leases p) \<Longrightarrow> l_id (p_leases p' ! i) = l_id (p_leases p ! i) \<and> l_state (p_leases p' ! i) = l_state (p_leases p ! i)"
  shows "wrapper_ok ident p' l"
  using assms unfolding wrapper_ok_def by (cases "lw_inner l") auto

lemma closer_ok_frame:
  assumes "app_frame a a'" "same_run a a'" "closer_ok a"
  shows "closer_ok a'"
  using assms unfolding app_frame_def same_run_def closer_ok_def by metis

text \<open>A call on the lease of one wrapper, or on none, keeps the appender well-formed.\<close>

lemma app_ok_update:
  assumes ok: "app_ok a" and fr: "app_frame a a'" "same_run a a'" and only: "only_lease i (ap_pool a) (ap_pool a')"
    and k: "k < length (ap_wrappers a)" "lw_inner (ap_wrappers a ! k) = Some i" "ap_wrappers a' = (ap_wrappers a)[k := l]"
    "lw_inner l = Some i" "wrapper_ok (ap_ident a) (ap_pool a') l"
  shows "app_ok a'"
proof -
  have w: "wrapper_ok (ap_ident a) (ap_pool a') x" if x: "x \<in> set (ap_wrappers a)" "lw_inner x \<noteq> Some i" for x
  proof (rule wrapper_ok_cong)
    show "wrapper_ok (ap_ident a) (ap_pool a) x" using ok x(1) by (simp add: app_ok_def)
    show "length (p_leases (ap_pool a)) \<le> length (p_leases (ap_pool a'))" using only by (simp add: only_lease_def)
    show "l_id (p_leases (ap_pool a') ! j) = l_id (p_leases (ap_pool a) ! j) \<and> l_state (p_leases (ap_pool a') ! j) = l_state (p_leases (ap_pool a) ! j)"
      if "lw_inner x = Some j" "j < length (p_leases (ap_pool a))" for j
      using only_lease_state [OF only that(2)] only that x(2) by (auto simp: only_lease_def)
  qed
  have "map lw_inner ((ap_wrappers a)[k := l]) = map lw_inner (ap_wrappers a)"
    using k(1,2,4) by (simp add: map_update list_update_same_conv)
  moreover have "wrapper_ok (ap_ident a) (ap_pool a') x" if x: "x \<in> set ((ap_wrappers a)[k := l])" for x
  proof -
    obtain j where j: "j < length (ap_wrappers a)" "x = (ap_wrappers a)[k := l] ! j" using x by (auto simp: in_set_conv_nth)
    show ?thesis
    proof (cases "j = k")
      case True
      then show ?thesis using j k(1,5) by simp
    next
      case False
      have "distinct (map lw_inner (ap_wrappers a))" using ok by (simp add: app_ok_def)
      then have "lw_inner (ap_wrappers a ! j) \<noteq> lw_inner (ap_wrappers a ! k)"
        using False j(1) k(1) by (simp add: distinct_conv_nth)
      then show ?thesis using w j False k(2) by simp
    qed
  qed
  moreover have "p_ident (ap_pool a') = p_ident (ap_pool a)" using only by (simp add: only_lease_def)
  ultimately show ?thesis
    using ok closer_ok_frame [OF fr] fr(1) k(3) unfolding app_ok_def app_frame_def by metis
qed

lemma app_ok_outside:
  assumes ok: "app_ok a" and fr: "app_frame a a'" "same_run a a'" and only: "only_lease i (ap_pool a) (ap_pool a')"
    and i: "length (p_leases (ap_pool a)) \<le> i" and w: "ap_wrappers a' = ap_wrappers a @ ws" "length ws \<le> 1"
    "\<And>l. l \<in> set ws \<Longrightarrow> wrapper_ok (ap_ident a) (ap_pool a') l \<and> lw_inner l = Some i"
  shows "app_ok a'"
proof -
  have keep: "wrapper_ok (ap_ident a) (ap_pool a') x" if x: "x \<in> set (ap_wrappers a)" for x
  proof (rule wrapper_ok_cong)
    show "wrapper_ok (ap_ident a) (ap_pool a) x" using ok x(1) by (simp add: app_ok_def)
    show "length (p_leases (ap_pool a)) \<le> length (p_leases (ap_pool a'))" using only by (simp add: only_lease_def)
    show "l_id (p_leases (ap_pool a') ! j) = l_id (p_leases (ap_pool a) ! j) \<and> l_state (p_leases (ap_pool a') ! j) = l_state (p_leases (ap_pool a) ! j)"
      if "lw_inner x = Some j" "j < length (p_leases (ap_pool a))" for j
      using only_lease_state [OF only that(2)] only that i by (auto simp: only_lease_def)
  qed
  have "lw_inner x \<noteq> Some i" if "x \<in> set (ap_wrappers a)" for x
    using ok that i by (auto simp: app_ok_def wrapper_ok_def split: option.splits)
  moreover have "ws = [] \<or> (\<exists>l. ws = [l] \<and> lw_inner l = Some i)"
    using w(2,3) by (cases ws) auto
  ultimately have "distinct (map lw_inner (ap_wrappers a @ ws))"
    using ok by (auto simp: app_ok_def)
  moreover have "p_ident (ap_pool a') = p_ident (ap_pool a)" using only by (simp add: only_lease_def)
  ultimately show ?thesis
    using ok closer_ok_frame [OF fr] fr(1) w(1,3) keep unfolding app_ok_def app_frame_def by (simp add: ball_Un)
qed

subsection \<open>Calls are steps of the flusher's world\<close>

definition call_sim :: "('e, 'c, 's) BatchSink \<Rightarrow> 's fworld \<Rightarrow> 's Appender \<Rightarrow> (nat \<times> bytes) list \<Rightarrow> bool" where
  "call_sim bs w a' new \<longleftrightarrow> publish_sim bs w a' new \<and> app_ok a'"

lemma call_sim_stay: "app_ok a \<Longrightarrow> fw_mach w = ap_mach a \<Longrightarrow> call_sim bs w a []"
  by (simp add: call_sim_def publish_sim_stay)

lemma call_sim_counters:
  assumes "app_ok a" "fw_mach w = ap_mach a" "ap_mach a' = ap_mach a" "app_frame a a'" "ap_wrappers a' = ap_wrappers a"
  shows "call_sim bs w a' []"
proof -
  have "closer_ok a'" using closer_ok_frame [OF assms(4) same_run_mach [OF assms(3)]] assms(1) by (simp add: app_ok_def)
  then have "app_ok a'" using assms unfolding app_ok_def app_frame_def by simp
  then show ?thesis using assms(2,3) by (intro call_sim_stay) simp_all
qed

text \<open>A pool operation on the borrowed lease of wrapper \<open>k\<close>, whose wrapper becomes \<open>l'\<close>.\<close>

lemma lease_op_sim:
  assumes ow: "owner_inv (ap_pool a) (ap_queue a) (rn_pending (fm_run (ap_mach a))) {} gone" and w: "fw_mach w = ap_mach a" "fw_passed w = {}"
    and ok: "app_ok a" and k: "k < length (ap_wrappers a)" and l: "ap_wrappers a ! k = l" "\<not> lw_transferred l" "\<not> lw_released l" "lw_inner l = Some i"
    and p': "only_lease i (ap_pool a) p'" "ap_mach a' = ap_mach (set_pool p' a)" "app_frame a a'"
    and l': "ap_wrappers a' = (ap_wrappers a)[k := l']" "lw_inner l' = lw_inner l" "lw_appender l' = lw_appender l" "lw_id l' = lw_id l"
      "\<not> lw_transferred l'" "l_state (p_leases p' ! i) = (if lw_released l' then StateReturned else StateBorrowed)"
  shows "call_sim bs w a' []"
proof -
  have wok: "wrapper_ok (ap_ident a) (ap_pool a) l" using ok k l(1) by (force simp: app_ok_def)
  then have i: "i < length (p_leases (ap_pool a))" "l_state (p_leases (ap_pool a) ! i) = StateBorrowed" "lw_appender l = Some (ap_ident a)"
    "lw_id l = l_id (p_leases (ap_pool a) ! i)" using l by (auto simp: wrapper_ok_def)
  have step: "fw_step bs w (w\<lparr>fw_mach := ap_mach a'\<rparr>)"
    unfolding p'(2) by (rule only_lease_sim(1) [OF ow w p'(1)]) (simp add: i)
  have pool: "ap_pool a' = p'" using p'(2) by simp
  have o: "length (p_leases (ap_pool a)) \<le> length (p_leases p')" "l_id (p_leases p' ! i) = l_id (p_leases (ap_pool a) ! i)"
    using p'(1) i(1) by (simp_all add: only_lease_def)
  have "wrapper_ok (ap_ident a) p' l'" using i o l l' by (simp add: wrapper_ok_def)
  moreover have "same_run a a'" using p'(2) by (simp add: same_run_def set_pool_def)
  ultimately have "app_ok a'" using app_ok_update [OF ok p'(3) _ _ k, of i l'] l l' p'(1) pool by simp
  then show ?thesis using publish_sim_one [OF step] by (simp add: call_sim_def)
qed

lemma guarded_sim:
  assumes ow: "owner_inv (ap_pool a) (ap_queue a) (rn_pending (fm_run (ap_mach a))) {} gone" and w: "fw_mach w = ap_mach a" "fw_passed w = {}"
    and ok: "app_ok a" and ptr: "wrapper_ptr a w0" and run: "guarded f w0 a = (a', e)"
    and f: "\<And>i p. pool_inv p \<Longrightarrow> i < length (p_leases p) \<Longrightarrow> l_state (p_leases p ! i) = StateBorrowed \<Longrightarrow>
      only_lease i p (fst (f (Some i) p)) \<and> l_state (p_leases (fst (f (Some i) p)) ! i) = StateBorrowed"
  shows "call_sim bs w a' []"
proof (cases "a' = a")
  case True
  then show ?thesis using call_sim_stay [OF ok w(1)] by simp
next
  case False
  obtain k where k: "w0 = Some k" "k < length (ap_wrappers a)"
    using run False ptr by (cases w0) (auto simp: guarded_def get_wrapper_def wrapper_ptr_def)
  let ?l = "ap_wrappers a ! k"
  have l: "\<not> lw_transferred ?l" "\<not> lw_released ?l" "a' = set_pool (fst (f (lw_inner ?l) (ap_pool a))) a"
    using run False k by (auto simp: guarded_def get_wrapper_def split: if_splits prod.splits)
  have "wrapper_ok (ap_ident a) (ap_pool a) ?l" using ok k by (simp add: app_ok_def)
  then obtain i where i: "lw_inner ?l = Some i" "i < length (p_leases (ap_pool a))" "l_state (p_leases (ap_pool a) ! i) = StateBorrowed"
    using l(1,2) by (auto elim: wrapper_okD)
  note F = f [OF owner_invD(2) [OF ow] i(2,3)]
  show ?thesis
    by (rule lease_op_sim [OF ow w ok k(2) refl l(1,2) i(1), of "fst (f (Some i) (ap_pool a))" _ ?l])
      (use F l i in simp_all)
qed

lemma poke_only:
  assumes "pool_inv p" "i < length (p_leases p)" "l_state (p_leases p ! i) = StateBorrowed" "l_block (p_leases p ! i) = Some b"
  shows "only_lease i p (poke b n v p)" "p_leases (poke b n v p) = p_leases p"
proof -
  show L: "p_leases (poke b n v p) = p_leases p" by (simp add: poke_def)
  have inv: "pool_inv (poke b n v p)" unfolding poke_def by (rule set_block_inv [OF assms(1)]) simp
  have "lease_view (poke b n v p) x = lease_view p x" if "x < length (p_leases p)" "x \<noteq> i" for x
  proof -
    have "l_block (p_leases p ! x) \<noteq> Some b" using held_unique [OF assms(1,2) that(1) that(2) [symmetric] assms(4)] .
    then have "block_data (poke b n v p) (p_leases p ! x) = block_data p (p_leases p ! x)"
      by (auto simp: block_data_def poke_def set_block_def split: option.splits)
    then show ?thesis by (simp add: view_unfold L lease_payload_def)
  qed
  moreover have "p_ident (poke b n v p) = p_ident p" by (simp add: poke_def set_block_def)
  ultimately show "only_lease i p (poke b n v p)" using inv L by (simp add: only_lease_def)
qed

lemma fill_buffer_sim:
  assumes ow: "owner_inv (ap_pool a) (ap_queue a) (rn_pending (fm_run (ap_mach a))) {} gone" and w: "fw_mach w = ap_mach a" "fw_passed w = {}"
    and ok: "app_ok a" and ptr: "wrapper_ptr a w0"
  shows "call_sim bs w (fill_buffer n v w0 a) []"
proof (cases "fill_buffer n v w0 a = a")
  case True
  then show ?thesis using call_sim_stay [OF ok w(1)] by simp
next
  case False
  obtain k where k: "w0 = Some k" "k < length (ap_wrappers a)"
    using False ptr by (cases w0) (auto simp: fill_buffer_def LeaseW_Buffer_def get_wrapper_def wrapper_ptr_def)
  let ?l = "ap_wrappers a ! k"
  have l: "\<not> lw_transferred ?l" "\<not> lw_released ?l" using False k by (auto simp: fill_buffer_def LeaseW_Buffer_def get_wrapper_def)
  have "wrapper_ok (ap_ident a) (ap_pool a) ?l" using ok k by (simp add: app_ok_def)
  then obtain i where i: "lw_inner ?l = Some i" "i < length (p_leases (ap_pool a))" "l_state (p_leases (ap_pool a) ! i) = StateBorrowed"
    using l by (auto elim: wrapper_okD)
  obtain b where b: "l_block (p_leases (ap_pool a) ! i) = Some b" "fill_buffer n v w0 a = set_pool (poke b n v (ap_pool a)) a"
    using False k l i by (auto simp: fill_buffer_def LeaseW_Buffer_def get_wrapper_def Writable_def split: option.splits)
  note P = poke_only [OF owner_invD(2) [OF ow] i(2,3) b(1), of n v]
  show ?thesis unfolding b(2)
    by (rule lease_op_sim [OF ow w ok k(2) refl l i(1) P(1), of _ ?l]) (use P(2) i l in simp_all)
qed

lemma context_sim:
  assumes ow: "owner_inv (ap_pool a) (ap_queue a) (rn_pending (fm_run (ap_mach a))) {} gone" and w: "fw_mach w = ap_mach a" "fw_passed w = {}"
    and ok: "app_ok a" and ptr: "wrapper_ptr a w0" and run: "LeaseW_SetAuditContext level logger w0 a = (a', e)"
  shows "call_sim bs w a' []"
proof (cases "a' = a")
  case True
  then show ?thesis using call_sim_stay [OF ok w(1)] by simp
next
  case False
  obtain k where k: "w0 = Some k" "k < length (ap_wrappers a)"
    using run False ptr by (cases w0) (auto simp: LeaseW_SetAuditContext_def wrapper_ptr_def)
  let ?l = "ap_wrappers a ! k"
  have l: "\<not> lw_transferred ?l" "\<not> lw_released ?l" using run False k by (auto simp: LeaseW_SetAuditContext_def Let_def split: if_splits)
  have "wrapper_ok (ap_ident a) (ap_pool a) ?l" using ok k by (simp add: app_ok_def)
  then obtain i where i: "lw_inner ?l = Some i" "i < length (p_leases (ap_pool a))" "l_state (p_leases (ap_pool a) ! i) = StateBorrowed"
    using l by (auto elim: wrapper_okD)
  define l1 where "l1 = (if logger \<noteq> [] then ?l\<lparr>lw_logger := logger\<rparr> else ?l)"
  have l1: "lw_inner l1 = Some i" "lw_appender l1 = lw_appender ?l" "lw_id l1 = lw_id ?l" "\<not> lw_transferred l1" "\<not> lw_released l1"
    using l i(1) by (simp_all add: l1_def)
  let ?c = "\<lparr>ac_Level = Level_String level, ac_Logger = lw_logger l1, ac_CallerSkip = 0\<rparr>"
  let ?a1 = "a\<lparr>ap_wrappers := (ap_wrappers a)[k := l1]\<rparr>"
  obtain p x where sc: "SetAuditContext (Some i) ?c (ap_pool a) = (p, x)" by fastforce
  note S = SetAuditContext_only [OF owner_invD(2) [OF ow] sc]
  have a': "a' = set_pool p ?a1"
    using run False k l i sc l1(1) unfolding LeaseW_SetAuditContext_def l1_def by (auto simp: Let_def split: if_splits)
  have "ap_mach a' = ap_mach (set_pool p a)" "app_frame a a'" "ap_wrappers a' = (ap_wrappers a)[k := l1]"
    by (simp_all add: a' app_frame_def set_pool_def)
  then show ?thesis
    by (intro lease_op_sim [OF ow w ok k(2) refl l i(1) S(1), of _ l1]) (use S(2) i l1 in simp_all)
qed

lemma release_sim:
  assumes ow: "owner_inv (ap_pool a) (ap_queue a) (rn_pending (fm_run (ap_mach a))) {} gone" and w: "fw_mach w = ap_mach a" "fw_passed w = {}"
    and ok: "app_ok a" and ptr: "wrapper_ptr a w0" and run: "LeaseW_Release now w0 a = (a', e)"
  shows "call_sim bs w a' []"
proof (cases w0)
  case None
  then show ?thesis using call_sim_stay [OF ok w(1)] run by (simp add: LeaseW_Release_def)
next
  case (Some k)
  have k: "k < length (ap_wrappers a)" using ptr Some by (simp add: wrapper_ptr_def)
  let ?l = "ap_wrappers a ! k"
  obtain a1 l1 e1 where rw: "release_wrapper now ?l a = (a1, l1, e1)" by (rule prod_cases3)
  have a': "a' = a1\<lparr>ap_wrappers := (ap_wrappers a1)[k := l1]\<rparr>" using run Some rw by (simp add: LeaseW_Release_def)
  have wok: "wrapper_ok (ap_ident a) (ap_pool a) ?l" using ok k by (simp add: app_ok_def)
  have bor: "i < length (p_leases (ap_pool a)) \<and> l_state (p_leases (ap_pool a) ! i) = StateBorrowed"
    if "lw_inner ?l = Some i" "\<not> lw_transferred ?l" "\<not> lw_released ?l" for i
    using wok that by (simp add: wrapper_ok_def)
  from release_wrapper_only [OF owner_invD(2) [OF ow] rw bor]
  consider "a1 = a" "l1 = ?l" | i p' where "lw_inner ?l = Some i" "\<not> lw_transferred ?l" "\<not> lw_released ?l" "a1 = set_pool p' a"
    "only_lease i (ap_pool a) p'" "l1 = ?l\<lparr>lw_released := True\<rparr>" "l_state (p_leases p' ! i) = StateReturned" by auto
  then show ?thesis
  proof cases
    case 1
    then show ?thesis using call_sim_stay [OF ok w(1)] a' by simp
  next
    case 2
    have "ap_mach a' = ap_mach (set_pool p' a)" "app_frame a a'" "ap_wrappers a' = (ap_wrappers a)[k := l1]"
      by (simp_all add: a' 2(4) app_frame_def set_pool_def)
    then show ?thesis
      by (intro lease_op_sim [OF ow w ok k refl 2(2,3,1,5), of _ l1]) (use 2 in simp_all)
  qed
qed

lemma acquire_sim:
  assumes ow: "owner_inv (ap_pool a) (ap_queue a) (rn_pending (fm_run (ap_mach a))) {} gone" and w: "fw_mach w = ap_mach a" "fw_passed w = {}"
    and ok: "app_ok a" and run: "app_acquire env cap level a = (a', e)"
  shows "call_sim bs w a' []"
proof (cases "ap_closed a")
  case True
  then show ?thesis using call_sim_stay [OF ok w(1)] run by (simp add: app_acquire_def)
next
  case False
  let ?n = "length (p_leases (ap_pool a))"
  obtain c p res where acq: "acquire env cap c (ap_pool a) = (p, res)"
    and c: "c = \<lparr>ac_Level = (case level of None \<Rightarrow> [] | Some l \<Rightarrow> Level_String l), ac_Logger = cf_Name (ap_config a), ac_CallerSkip = 2\<rparr>"
    by (metis surj_pair)
  note A = acquire_only [OF owner_invD(2) [OF ow] acq]
  have step: "fw_step bs w (w\<lparr>fw_mach := ap_mach (set_pool p a)\<rparr>)" by (rule only_lease_sim(1) [OF ow w A(1) [of ?n]]) simp
  have mach: "ap_mach a' = ap_mach (set_pool p a)" "app_frame a a'"
    using run False acq c by (auto simp: app_acquire_def Let_def app_frame_def set_pool_def split: sum.splits)
  have sr: "same_run a a'" using mach(1) by (simp add: same_run_def set_pool_def)
  have pool: "only_lease ?n (ap_pool a) (ap_pool a')" using A(1) mach(1) by simp
  have "\<exists>ws. ap_wrappers a' = ap_wrappers a @ ws \<and> length ws \<le> 1 \<and>
      (\<forall>l\<in>set ws. wrapper_ok (ap_ident a) (ap_pool a') l \<and> lw_inner l = Some ?n)"
  proof (cases res)
    case (Inl x)
    then show ?thesis using run False acq c by (auto simp: app_acquire_def Let_def)
  next
    case (Inr i)
    note I = A(2) [OF Inr]
    have "ap_wrappers a' = ap_wrappers a @ [\<lparr>lw_appender = Some (ap_ident a), lw_inner = Some i, lw_id = lease_ID (set_pool p a) i,
        lw_logger = cf_Name (ap_config a), lw_transferred = False, lw_released = False\<rparr>]" "ap_pool a' = p"
      using run False acq c Inr mach(1) by (simp_all add: app_acquire_def Let_def) auto
    moreover have "l_state (p_leases p ! ?n) = StateBorrowed" "i = ?n" "length (p_leases p) = Suc ?n" using I by auto
    ultimately show ?thesis by (simp add: wrapper_ok_def lease_ID_def)
  qed
  then obtain ws where ws: "ap_wrappers a' = ap_wrappers a @ ws" "length ws \<le> 1"
    "\<And>l. l \<in> set ws \<Longrightarrow> wrapper_ok (ap_ident a) (ap_pool a') l \<and> lw_inner l = Some ?n" by blast
  have "app_ok a'" by (rule app_ok_outside [OF ok mach(2) sr pool order_refl ws])
  then show ?thesis using publish_sim_one [of bs w a'] step mach(1) by (simp add: call_sim_def)
qed

lemma publish_call_sim:
  assumes ow: "owner_inv (ap_pool a) (ap_queue a) (rn_pending (fm_run (ap_mach a))) {} gone" and w: "fw_mach w = ap_mach a" "fw_passed w = {}"
    and ok: "app_ok a" and ptr: "wrapper_ptr a w0" and run: "TryPublishLease level w0 a = (a', r)"
  shows "call_sim bs w a' (if r = Accepted then call_payload enc (CallPublish level w0) a else [])"
proof (cases w0)
  case None
  then have "invalid_publish a = (a', r)" using run by (simp add: TryPublishLease_def)
  from invalid_frame [OF this] show ?thesis using call_sim_counters [OF ok w(1), of a' bs] by simp
next
  case (Some k)
  have k: "k < length (ap_wrappers a)" using ptr Some by (simp add: wrapper_ptr_def)
  let ?l = "ap_wrappers a ! k"
  obtain a1 l1 r1 where pw: "publish_wrapper level ?l a = (a1, l1, r1)" by (rule prod_cases3)
  have a': "a' = a1\<lparr>ap_wrappers := (ap_wrappers a1)[k := l1]\<rparr>" "r = r1" using run Some pw by (simp_all add: TryPublishLease_def)
  have wok: "wrapper_ok (ap_ident a) (ap_pool a) ?l" using ok k by (simp add: app_ok_def)
  then obtain i where i: "lw_inner ?l = Some i" "i < length (p_leases (ap_pool a))"
    "\<not> lw_transferred ?l \<Longrightarrow> \<not> lw_released ?l \<Longrightarrow> l_state (p_leases (ap_pool a) ! i) = StateBorrowed"
    by (elim wrapper_okD) blast
  have op: "q_closed (ap_queue a) \<Longrightarrow> ap_closed a" using ok by (auto simp: app_ok_def closer_ok_def)
  note P = publish_wrapper_sim [OF ow w i op pw]
  have o: "only_lease i (ap_pool a) (ap_pool a1)" "app_frame a a1" "ap_wrappers a1 = ap_wrappers a"
    "length (p_leases (ap_pool a1)) = length (p_leases (ap_pool a))" using P(1) by (simp_all add: publish_outcome_def)
  have parts: "lw_appender ?l = Some (ap_ident a)" "lw_id ?l = l_id (p_leases (ap_pool a) ! i)" using wok i(1) by (simp_all add: wrapper_ok_def)
  have "wrapper_ok (ap_ident a) (ap_pool a1) l1"
  proof (cases "r1 = Accepted")
    case True
    then have "l1 = ?l\<lparr>lw_transferred := True\<rparr>" "l_state (p_leases (ap_pool a1) ! i) = StateQueued" "\<not> lw_released ?l"
      using P(1) by (simp_all add: publish_outcome_def)
    then show ?thesis using i(1,2) o parts by (simp add: wrapper_ok_def only_lease_def)
  next
    case False
    then have same: "l1 = ?l" "lease_view (ap_pool a1) i = lease_view (ap_pool a) i" using P(1) by (simp_all add: publish_outcome_def)
    show ?thesis unfolding same(1)
      by (rule wrapper_ok_cong [OF wok]) (use i(1) o same(2) in \<open>simp_all add: only_lease_def lease_view_def\<close>)
  qed
  moreover have "app_frame a a'" using o(2) by (simp add: a' app_frame_def)
  moreover have "same_run a a'" using publish_same_run [OF pw] by (simp add: a' same_run_def)
  moreover have "lw_inner l1 = Some i" using P(1) i(1) by (simp add: publish_outcome_def split: if_splits)
  ultimately have "app_ok a'" using app_ok_update [OF ok _ _ _ k i(1), of a' l1] o(1,3) by (simp add: a')
  moreover have "publish_sim bs w a' (if r = Accepted then entries (ap_pool a) [i] else [])"
    using P(2) [of bs] unfolding publish_sim_def a' by simp
  ultimately show ?thesis using i(1) by (cases "r = Accepted") (simp_all add: call_sim_def Some)
qed

subsection \<open>Every call\<close>

lemma log_pool_same_run:
  assumes "log_encoded env name level encoded a = (a', r)"
  shows "same_run a a'"
proof -
  have rej: "same_run a a1" if "reject x level b = (a1, r1)" "same_run a b" for x b a1 and r1 :: app_result
    using same_run_trans [OF that(2) same_run_mach [OF reject_frame(1) [OF that(1)]]] .
  have att: "same_run a (level_attempt level (set_pool p a))" for p by (simp add: same_run_def set_pool_def level_attempt_def count_level_def)
  have pub: "same_run a a1" if "publish_wrapper level l (set_pool p a) = (a1, l1, r1)" for l p a1 l1 and r1 :: app_result
    using publish_same_run [OF that] by simp
  have rel: "same_run a (fst (release_wrapper now l b))" if "same_run a b" for now l b
    using that by (auto simp: release_wrapper_def split: option.splits prod.splits)
  show ?thesis
    using assms unfolding log_encoded_def Let_def
    by (auto simp del: reject.simps split: sum.splits prod.splits option.splits if_splits intro: rej att pub rel)
qed

context batch_sink
begin

lemma log_sim:
  assumes fw: "fw_inv out pend ok base w" "bs_WriteBatch bs = wr" "bs_Flush bs = fl" "bs_Close bs = cl"
    and w: "fw_mach w = ap_mach a" "fw_passed w = {}" and aok: "app_ok a"
    and run: "app_log enc env name level message fs a = (a', r)"
  shows "call_sim bs w a' (if r = Accepted then call_payload enc (CallLog env name level message fs) a else [])"
proof -
  let ?a1 = "a\<lparr>ap_sequence := ap_sequence a + 1\<rparr>"
  have op: "q_closed (ap_queue a) \<Longrightarrow> ap_closed a" using aok by (auto simp: app_ok_def closer_ok_def)
  have quiet: ?thesis if "ap_mach a' = ap_mach a" "app_frame a a'" "ap_wrappers a' = ap_wrappers a" "r \<noteq> Accepted"
    using call_sim_counters [OF aok w(1) that(1-3)] that(4) by simp
  have refuse: ?thesis if "reject x level (level_attempt level b) = (a', r)" "b = a \<or> b = ?a1" for x b
  proof (rule quiet)
    have "app_frame a b" "ap_mach b = ap_mach a" "ap_wrappers b = ap_wrappers a" using that(2) by (auto simp: app_frame_def)
    then show "ap_mach a' = ap_mach a" "app_frame a a'" "ap_wrappers a' = ap_wrappers a" "r \<noteq> Accepted"
      using reject_frame [OF that(1)] by simp_all
  qed
  show ?thesis
  proof (cases "\<not> Level_valid level \<or> level < cf_MinLevel (ap_config a) \<or> ap_closed a")
    case True
    show ?thesis
    proof (cases "\<not> Level_valid level")
      case bad: True
      have "invalid_publish a = (a', r)" using run unfolding app_log_def if_P [OF bad] .
      from invalid_frame [OF this] show ?thesis by (intro quiet) simp_all
    next
      case good: False
      show ?thesis
      proof (cases "level < cf_MinLevel (ap_config a)")
        case low: True
        have "(a\<lparr>ap_filtered := ap_filtered a + 1\<rparr>, Filtered) = (a', r)" using run unfolding app_log_def if_not_P [OF good] if_P [OF low] .
        then have "a' = a\<lparr>ap_filtered := ap_filtered a + 1\<rparr>" "r = Filtered" by blast+
        then show ?thesis by (intro quiet) (simp_all add: app_frame_def)
      next
        case high: False
        have shut: "ap_closed a" using True good high by simp
        have "reject Closed level (level_attempt level a) = (a', r)"
          using run unfolding app_log_def if_not_P [OF good] if_not_P [OF high] if_P [OF shut] .
        then show ?thesis by (rule refuse) simp
      qed
    qed
  next
    case False
    show ?thesis
    proof (cases "json_event enc (app_event env (ap_sequence ?a1) name level message fs)")
      case None
      then have "reject InvalidLease level (level_attempt level ?a1) = (a', r)"
        using run False by (simp add: app_log_def Let_def del: reject.simps)
      then show ?thesis by (rule refuse) simp
    next
      case (Some body)
      let ?enc = "body @ [10]"
      show ?thesis
      proof (cases "int (length ?enc) > cf_MaxEventBytes (ap_config a)")
        case True
        then have "reject Oversized level (level_attempt level ?a1) = (a', r)"
          using run False Some by (simp add: app_log_def Let_def del: reject.simps)
        then show ?thesis by (rule refuse) simp
      next
        case False
        then have log: "log_encoded env name level ?enc ?a1 = (a', r)"
          using run \<open>\<not> (\<not> Level_valid level \<or> level < cf_MinLevel (ap_config a) \<or> ap_closed a)\<close> Some by (simp add: app_log_def Let_def)
        have w1: "fw_mach w = ap_mach ?a1" "q_closed (ap_queue ?a1) \<Longrightarrow> ap_closed ?a1" using w(1) op by simp_all
        have L: "publish_sim bs w a' (if r = Accepted then [(length (p_leases (ap_pool ?a1)), ?enc)] else [])"
          "only_lease (length (p_leases (ap_pool ?a1))) (ap_pool ?a1) (ap_pool a')" "app_frame ?a1 a'" "ap_wrappers a' = ap_wrappers ?a1"
          using log_encoded_sim [OF fw w1(1) w(2) w1(2) log] by blast+
        have fr: "app_frame a a'" "same_run a a'" using L(3) log_pool_same_run [OF log] by (simp_all add: app_frame_def same_run_def)
        have "app_ok a'"
          by (rule app_ok_outside [OF aok fr, of "length (p_leases (ap_pool a))" "[]"]) (use L(2,4) in simp_all)
        then show ?thesis using L(1) Some by (cases "r = Accepted") (simp_all add: call_sim_def)
      qed
    qed
  qed
qed

lemma do_call_sim:
  assumes fw: "fw_inv out pend ok base w" "bs_WriteBatch bs = wr" "bs_Flush bs = fl" "bs_Close bs = cl"
    and w: "fw_mach w = ap_mach a" "fw_passed w = {}" and aok: "app_ok a" and val: "call_valid c a"
    and run: "do_call enc c a = (a', r)"
  shows "call_sim bs w a' (if r = Some Accepted then call_payload enc c a else [])"
proof -
  note ow = fw_owner [OF fw(1) w]
  have keep: "only_lease i p (fst (Append (Some i) d p)) \<and> l_state (p_leases (fst (Append (Some i) d p)) ! i) = StateBorrowed"
    "only_lease i p (fst (SetBytes (Some i) d p)) \<and> l_state (p_leases (fst (SetBytes (Some i) d p)) ! i) = StateBorrowed"
    "only_lease i p (fst (Resize (Some i) n p)) \<and> l_state (p_leases (fst (Resize (Some i) n p)) ! i) = StateBorrowed"
    if "pool_inv p" "i < length (p_leases p)" "l_state (p_leases p ! i) = StateBorrowed" for i p d n
    using Append_only [OF that(1,2)] SetBytes_only [OF that(1,2)] Resize_only [OF that(1,2)] that(3) by simp_all
  note guard = guarded_sim [OF ow w aok]
  show ?thesis
  proof (cases c)
    case (CallAcquire env cap)
    have "app_acquire env cap None a = (a', snd (app_acquire env cap None a))" using run CallAcquire by (auto simp: app_Acquire_def)
    from acquire_sim [OF ow w aok this] show ?thesis using run CallAcquire by simp
  next
    case (CallAcquireFor env level cap)
    show ?thesis
    proof (cases "Level_valid level")
      case True
      then have "app_acquire env cap (Some level) a = (a', snd (app_acquire env cap (Some level) a))"
        using run CallAcquireFor by (auto simp: app_AcquireFor_def)
      from acquire_sim [OF ow w aok this] show ?thesis using run CallAcquireFor by simp
    next
      case False
      then show ?thesis using run CallAcquireFor call_sim_stay [OF aok w(1)] by (simp add: app_AcquireFor_def)
    qed
  next
    case (CallWrite data w0)
    have a': "fst (guarded (\<lambda>r. Append r data) w0 a) = a'" and r: "r = None"
      using run unfolding CallWrite LeaseW_Write_def do_call.simps by (simp_all add: split_beta split: option.splits)
    have g: "guarded (\<lambda>r. Append r data) w0 a = (a', snd (guarded (\<lambda>r. Append r data) w0 a))" by (simp add: prod_eq_iff a')
    have p: "wrapper_ptr a w0" using val CallWrite by simp
    have "call_sim bs w a' []" by (rule guard [OF p g]) (rule keep(1); assumption)
    then show ?thesis by (simp add: r)
  next
    case (CallSetBytes data w0)
    have g: "guarded (\<lambda>r. SetBytes r data) w0 a = (a', snd (guarded (\<lambda>r. SetBytes r data) w0 a))"
      using run unfolding CallSetBytes LeaseW_SetBytes_def do_call.simps by (simp add: prod_eq_iff)
    have p: "wrapper_ptr a w0" using val CallSetBytes by simp
    have "call_sim bs w a' []" by (rule guard [OF p g]) (rule keep(2); assumption)
    then show ?thesis using run CallSetBytes by simp
  next
    case (CallCommit n w0)
    have g: "guarded (\<lambda>r. Resize r n) w0 a = (a', snd (guarded (\<lambda>r. Resize r n) w0 a))"
      using run unfolding CallCommit LeaseW_Commit_def do_call.simps by (simp add: prod_eq_iff)
    have p: "wrapper_ptr a w0" using val CallCommit by simp
    have "call_sim bs w a' []" by (rule guard [OF p g]) (rule keep(3); assumption)
    then show ?thesis using run CallCommit by simp
  next
    case (CallFill n v w0)
    then show ?thesis using fill_buffer_sim [OF ow w aok, of w0] val run by auto
  next
    case (CallContext level logger w0)
    have "LeaseW_SetAuditContext level logger w0 a = (a', snd (LeaseW_SetAuditContext level logger w0 a))"
      using run unfolding CallContext do_call.simps by (simp add: prod_eq_iff)
    from context_sim [OF ow w aok _ this] show ?thesis using run val CallContext by simp
  next
    case (CallRelease now w0)
    have "LeaseW_Release now w0 a = (a', snd (LeaseW_Release now w0 a))"
      using run unfolding CallRelease do_call.simps by (simp add: prod_eq_iff)
    from release_sim [OF ow w aok _ this] show ?thesis using run val CallRelease by simp
  next
    case (CallPublish level w0)
    obtain x where x: "TryPublishLease level w0 a = (a', x)" "r = Some x" using run CallPublish by (auto split: prod.splits)
    have "wrapper_ptr a w0" using val CallPublish by simp
    from publish_call_sim [OF ow w aok this x(1), of bs enc] show ?thesis using x(2) CallPublish by (cases "x = Accepted") simp_all
  next
    case (CallLog env name level message fs)
    obtain x where x: "app_log enc env name level message fs a = (a', x)" "r = Some x" using run CallLog by (auto split: prod.splits)
    from log_sim [OF fw w aok x(1)] show ?thesis using x(2) CallLog by (cases "x = Accepted") simp_all
  qed
qed

end

end
