(* ===== verification/Appender_Delivery.thy ===== *)
theory Appender_Delivery
  imports Appender_Calls
begin

text \<open>
  The appender beside its flusher, its \<open>Close\<close> goroutine and its pool's scanner: the reachable states, and what holds in them.
\<close>

subsection \<open>Steps\<close>

record 's aworld =
  aw_app :: "'s Appender"
  aw_accepted :: "(nat \<times> bytes) list"
  aw_delivered :: "(nat \<times> bytes) list"
  aw_abandoned :: "(nat \<times> bytes) list"

text \<open>\<open>al\<close> says which calls the users make.\<close>

inductive app_step :: "('v call \<Rightarrow> bool) \<Rightarrow> ('v \<Rightarrow> bytes option) \<Rightarrow> ('e, 'c, 's) BatchSink \<Rightarrow> 's aworld \<Rightarrow> 's aworld \<Rightarrow> bool"
  for al enc bs where
  as_call: "al c \<Longrightarrow> call_valid c (aw_app w) \<Longrightarrow> do_call enc c (aw_app w) = (a', r) \<Longrightarrow>
    app_step al enc bs w (w\<lparr>aw_app := a', aw_accepted := aw_accepted w @ (if r = Some Accepted then call_payload enc c (aw_app w) else [])\<rparr>)"
| as_run: "run_step bs env (ap_mach (aw_app w)) = Some m' \<Longrightarrow>
    app_step al enc bs w (w\<lparr>aw_app := (aw_app w)\<lparr>ap_mach := m'\<rparr>, aw_delivered := aw_delivered w @ newly_delivered (ap_mach (aw_app w)) m',
      aw_abandoned := aw_abandoned w @ newly_abandoned (ap_mach (aw_app w)) m'\<rparr>)"
| as_scan: "app_step al enc bs w (w\<lparr>aw_app := set_pool (fst (ScanOverdue now (ap_pool (aw_app w)))) (aw_app w)\<rparr>)"
| as_close: "app_step al enc bs w (w\<lparr>aw_app := app_Close_begin (aw_app w)\<rparr>)"
| as_closer: "close_step cause (aw_app w) = Some a' \<Longrightarrow> app_step al enc bs w (w\<lparr>aw_app := a'\<rparr>)"

abbreviation app_steps :: "('v call \<Rightarrow> bool) \<Rightarrow> ('v \<Rightarrow> bytes option) \<Rightarrow> ('e, 'c, 's) BatchSink \<Rightarrow> 's aworld \<Rightarrow> 's aworld \<Rightarrow> bool" where
  "app_steps al enc bs \<equiv> (app_step al enc bs)\<^sup>*\<^sup>*"

definition aworld_of :: "'s Appender \<Rightarrow> 's aworld" where
  "aworld_of a = \<lparr>aw_app = a, aw_accepted = [], aw_delivered = [], aw_abandoned = []\<rparr>"

text \<open>The flusher's world a state of the appender stands for: no publication is under way between two steps.\<close>

definition fworld_of :: "'s aworld \<Rightarrow> 's fworld" where
  "fworld_of w = \<lparr>fw_mach = ap_mach (aw_app w), fw_passed = {}, fw_accepted = aw_accepted w, fw_delivered = aw_delivered w,
     fw_abandoned = aw_abandoned w\<rparr>"

lemma fworld_of_simps [simp]:
  "fw_mach (fworld_of w) = ap_mach (aw_app w)" "fw_passed (fworld_of w) = {}" "fw_accepted (fworld_of w) = aw_accepted w"
  "fw_delivered (fworld_of w) = aw_delivered w" "fw_abandoned (fworld_of w) = aw_abandoned w"
  by (simp_all add: fworld_of_def)

subsection \<open>The flusher and the leases of the callers\<close>

text \<open>What the flusher does to the pool: no lease becomes borrowed or stops being so, none changes its number.\<close>

definition lease_advance :: "BytePool \<Rightarrow> BytePool \<Rightarrow> bool" where
  "lease_advance p p' \<longleftrightarrow> map l_id (p_leases p') = map l_id (p_leases p) \<and> p_ident p' = p_ident p \<and>
     (\<forall>x < length (p_leases p). (l_state (p_leases p' ! x) = StateBorrowed \<longleftrightarrow> l_state (p_leases p ! x) = StateBorrowed) \<and>
        (l_state (p_leases p ! x) = StateReturned \<longrightarrow> l_state (p_leases p' ! x) = StateReturned))"

lemma lease_advance_refl [simp]: "lease_advance p p"
  by (simp add: lease_advance_def)

lemma lease_advance_len: "lease_advance p p' \<Longrightarrow> length (p_leases p') = length (p_leases p)"
  unfolding lease_advance_def by (metis length_map)

lemma lease_advance_trans: "lease_advance p p1 \<Longrightarrow> lease_advance p1 p2 \<Longrightarrow> lease_advance p p2"
  using lease_advance_len [of p p1] by (simp add: lease_advance_def)

lemma MarkInFlight_advance:
  assumes "a < length (p_leases p)"
  shows "lease_advance p (fst (MarkInFlight (Some a) p))"
proof -
  have "map l_id (p_leases (fst (MarkInFlight (Some a) p))) = map l_id (p_leases p)" "p_ident (fst (MarkInFlight (Some a) p)) = p_ident p"
    using assms by (auto simp: MarkInFlight_def Let_def state_error_def split_beta detectMutation_def set_lease_def map_update list_update_same_conv
        split: prod.splits)
  then show ?thesis using MarkInFlight_state [OF assms] unfolding lease_advance_def by simp
qed

lemma release_advance:
  assumes "a < length (p_leases (fl_pool f))" "l_state (p_leases (fl_pool f) ! a) \<noteq> StateBorrowed"
  shows "\<exists>p'. fst (release_lease now a f) = f\<lparr>fl_pool := p'\<rparr> \<and> lease_advance (fl_pool f) p'"
proof -
  let ?p = "fl_pool f" and ?r = "Some (p_ident (fl_pool f), a)"
  have v: "valid_ref ?p ?r" using assms(1) by (simp add: valid_ref_def)
  note st = Release_states [OF v, of now]
  have "lease_advance ?p (fst (Release ?r now ?p))"
    unfolding lease_advance_def using Release_ids [of ?r now ?p] st(2) st(3) [of a] assms(2) by auto
  then show ?thesis by (auto simp: release_lease_def split: prod.splits)
qed

lemma fold_release_advance:
  fixes f :: "'s Flusher"
  assumes "\<forall>a\<in>set as. a < length (p_leases (fl_pool f)) \<and> l_state (p_leases (fl_pool f) ! a) \<noteq> StateBorrowed"
  shows "lease_advance (fl_pool f) (fl_pool (abandon now as f))" "lease_advance (fl_pool f) (fl_pool (fst (fold (deliver_one now) as (f, n))))"
proof -
  have step: "lease_advance (fl_pool f) (fl_pool g) \<and> (\<forall>x\<in>set as. x < length (p_leases (fl_pool g)) \<and> l_state (p_leases (fl_pool g) ! x) \<noteq> StateBorrowed)"
    if "\<forall>x\<in>set (a # as). x < length (p_leases (fl_pool f)) \<and> l_state (p_leases (fl_pool f) ! x) \<noteq> StateBorrowed"
      "fl_pool g = fl_pool (fst (release_lease now a f))" for f g :: "'s Flusher" and a as
  proof -
    have a: "a < length (p_leases (fl_pool f))" "l_state (p_leases (fl_pool f) ! a) \<noteq> StateBorrowed" using that(1) by simp_all
    obtain p' where "fst (release_lease now a f) = f\<lparr>fl_pool := p'\<rparr>" "lease_advance (fl_pool f) p'"
      using release_advance [OF a] by blast
    then show ?thesis using that lease_advance_len [of "fl_pool f" p'] by (auto simp: lease_advance_def)
  qed
  show "lease_advance (fl_pool f) (fl_pool (abandon now as f))"
    using assms
  proof (induction as arbitrary: f)
    case (Cons a as)
    note S = step [OF Cons.prems refl]
    show ?case using lease_advance_trans [OF _ Cons.IH] S by (simp add: abandon_def)
  qed (simp add: abandon_def)
  show "lease_advance (fl_pool f) (fl_pool (fst (fold (deliver_one now) as (f, n))))"
    using assms
  proof (induction as arbitrary: f n)
    case (Cons a as)
    have "fl_pool (fst (deliver_one now a (f, n))) = fl_pool (fst (release_lease now a f))"
      by (simp add: deliver_one_def split_beta)
    note S = step [OF Cons.prems this]
    show ?case using lease_advance_trans [OF _ Cons.IH [of "fst (deliver_one now a (f, n))" "snd (deliver_one now a (f, n))"]] S by simp
  qed simp
qed

definition calm :: "'s Flusher \<Rightarrow> 's Flusher \<Rightarrow> bool" where
  "calm f f' \<longleftrightarrow> lease_advance (fl_pool f) (fl_pool f') \<and> fl_stop f' = fl_stop f \<and> fl_started f' = fl_started f"

lemma calm_refl [simp]: "calm f f"
  by (simp add: calm_def)

lemma release_lease_flags [simp]:
  "fl_stop (fst (release_lease now a f)) = fl_stop f" "fl_started (fst (release_lease now a f)) = fl_started f"
  by (simp_all add: release_lease_def split: prod.splits)

lemma abandon_flags [simp]:
  "fl_stop (abandon now as f) = fl_stop f" "fl_started (abandon now as f) = fl_started f"
  unfolding abandon_def by (induction as arbitrary: f) simp_all

lemma deliver_flags: "fl_stop (fst (fold (deliver_one now) as (f, n))) = fl_stop f \<and> fl_started (fst (fold (deliver_one now) as (f, n))) = fl_started f"
proof (induction as arbitrary: f n)
  case (Cons a as)
  obtain f1 n1 where d: "deliver_one now a (f, n) = (f1, n1)" by fastforce
  then have "fl_stop f1 = fl_stop f" "fl_started f1 = fl_started f"
    by (auto simp: deliver_one_def release_lease_def split: prod.splits)
  then show ?case using Cons.IH d by simp
qed simp

lemma run_return_flags: "calm f (run_return e g) = calm f g"
  by (simp add: calm_def)

lemma release_lease_calm:
  assumes "calm f g" "a < length (p_leases (fl_pool g))" "l_state (p_leases (fl_pool g) ! a) \<noteq> StateBorrowed"
  shows "calm f (fst (release_lease now a g))"
  using assms(1) release_advance [OF assms(2,3), of now] lease_advance_trans by (fastforce simp: calm_def)

lemma flush_done_calm:
  assumes "calm f g" "\<forall>a\<in>set (rn_pending r). a < length (p_leases (fl_pool g)) \<and> l_state (p_leases (fl_pool g) ! a) \<noteq> StateBorrowed"
  shows "calm f (fst (flush_done now g r))"
  using assms(1) lease_advance_trans [OF _ fold_release_advance(2) [OF assms(2), of now 0]] deliver_flags [of now "rn_pending r" g 0]
  by (simp add: calm_def flush_done_def clearLastError_def split_beta)

lemma run_flush_calm:
  assumes run: "run_flush bs e f r = Some (f', r', again)"
    and pend: "\<forall>a\<in>set (rn_pending r). a < length (p_leases (fl_pool f)) \<and> l_state (p_leases (fl_pool f) ! a) \<noteq> StateBorrowed"
  shows "calm f f'"
proof (cases "should_flush (fe_now e) f r")
  case False
  then show ?thesis using run by (simp add: run_flush_def)
next
  case True
  obtain s err where w: "bs_WriteBatch bs (fe_sink e) (payloads (fl_pool f) (rn_pending r)) (fl_sink f) = Some (s, err)"
    using run True by (auto simp: run_flush_def Let_def split: option.splits)
  define g where "g = (if rn_retrying r then f\<lparr>fl_retries := fl_retries f + 1\<rparr> else f)\<lparr>fl_sink := s, fl_lastFlushNanos := fe_nanos e,
    fl_totalFlushNanos := fl_totalFlushNanos (if rn_retrying r then f\<lparr>fl_retries := fl_retries f + 1\<rparr> else f) + fe_nanos e\<rparr>"
  have g: "calm f g" "fl_pool g = fl_pool f" by (simp_all add: g_def calm_def)
  show ?thesis
  proof (cases err)
    case None
    then have "f' = fst (flush_done (fe_release e) g r)"
      using run True w by (simp add: run_flush_def Let_def g_def split_beta)
    then show ?thesis using flush_done_calm [OF g(1)] pend g(2) by simp
  next
    case (Some x)
    then have "f' = fst (flush_failed x (fe_after e) g r)"
      using run True w by (simp add: run_flush_def Let_def g_def split_beta)
    then show ?thesis using g(1) by (simp add: flush_failed_def calm_def)
  qed
qed

lemma mark_calm:
  assumes "a < length (p_leases (fl_pool f))" "fl_pool g = fst (MarkInFlight (Some a) (fl_pool f))" "fl_stop g = fl_stop f" "fl_started g = fl_started f"
  shows "calm f g" "a < length (p_leases (fl_pool g))"
  using MarkInFlight_advance [OF assms(1)] lease_advance_len [OF MarkInFlight_advance [OF assms(1)]] assms by (simp_all add: calm_def)

lemma run_step_calm:
  assumes run: "run_step bs env m = Some m'"
    and ow: "owner_inv (fl_pool (fm_flusher m)) (fl_queue (fm_flusher m)) (rn_pending (fm_run m)) passed gone"
  shows "calm (fm_flusher m) (fm_flusher m')"
proof -
  let ?f = "fm_flusher m" and ?r = "fm_run m"
  have pend: "\<forall>a\<in>set (rn_pending ?r). a < length (p_leases (fl_pool ?f)) \<and> l_state (p_leases (fl_pool ?f) ! a) \<noteq> StateBorrowed"
    using ow by (auto simp: owner_inv_def)
  note T = TryConsume_cases [OF owner_invD(1) [OF ow]]
  show ?thesis
  proof (cases "fm_pc m")
    case Select
    have p: "rn_pending (run_select (rv_pick env) ?f ?r) = rn_pending ?r"
      by (simp add: run_select_def Let_def take_abort_def take_stop_def)
    have "calm ?f (abandon (rv_now env) (rn_pending ?r) ?f)" using fold_release_advance(1) [OF pend] by (simp add: calm_def)
    then show ?thesis using run Select p by (auto simp: run_step_def Let_def split: if_splits)
  next
    case Draining
    show ?thesis
    proof (cases "ring_items (fl_queue ?f)")
      case Nil
      moreover obtain s e where c: "bs_Close bs (rv_closeAnswer env) (fl_sink ?f) = (s, e)" by fastforce
      ultimately have "fm_flusher m' = run_return (map_option SinkErr e) (?f\<lparr>fl_inFlight := 0, fl_sink := s\<rparr>)"
        using run Draining T by (auto simp: run_step_def Let_def step_draining_def)
      then show ?thesis by (simp add: calm_def)
    next
      case (Cons a rest)
      have a: "a < length (p_leases (fl_pool ?f))" "l_state (p_leases (fl_pool ?f) ! a) = StateQueued" using ow Cons by (auto simp: owner_inv_def)
      let ?g = "?f\<lparr>fl_queue := consume_accept (fl_queue ?f), fl_pool := fst (MarkInFlight (Some a) (fl_pool ?f))\<rparr>"
      note M = mark_calm [OF a(1), of ?g]
      have "l_state (p_leases (fl_pool ?g) ! a) \<noteq> StateBorrowed" using MarkInFlight_state [OF a(1), of a] a(2) by simp
      then have "calm ?f (fst (release_lease (rv_now env) a ?g))" using release_lease_calm [OF M(1)] M(2) by simp
      then show ?thesis using run Draining T Cons by (auto simp: run_step_def Let_def step_draining_def)
    qed
  next
    case Consume
    show ?thesis
    proof (cases "ring_items (fl_queue ?f)")
      case Nil
      then show ?thesis using run Consume T by (auto simp: run_step_def run_consume_def Let_def calm_def split: if_splits)
    next
      case (Cons a rest)
      have a: "a < length (p_leases (fl_pool ?f))" "l_state (p_leases (fl_pool ?f) ! a) = StateQueued" using ow Cons by (auto simp: owner_inv_def)
      obtain p e where mk: "MarkInFlight (Some a) (fl_pool ?f) = (p, e)" by fastforce
      note O = owner_consume [OF ow Cons mk]
      have "calm ?f (recordError x (?f\<lparr>fl_queue := q, fl_pool := p\<rparr>))" for x q
        using mark_calm(1) [OF a(1), of "recordError x (?f\<lparr>fl_queue := q, fl_pool := p\<rparr>)"] mk by simp
      then show ?thesis using run Consume T Cons mk O(2)
        by (auto simp: run_step_def run_consume_def Let_def split: if_splits) (simp_all add: calm_def)
    qed
  next
    case Decide
    then obtain f1 r1 again where "run_flush bs (rv_flush env) ?f ?r = Some (f1, r1, again)" "fm_flusher m' = f1"
      using run by (auto simp: run_step_def split: option.splits)
    then show ?thesis using run_flush_calm [OF _ pend] by auto
  next
    case Settle
    then show ?thesis using run
      by (auto simp: run_step_def Let_def step_settle_def run_return_flags split: prod.splits option.splits if_splits) (simp_all add: calm_def)
  next
    case Wait
    then show ?thesis using run by (auto simp: run_step_def Let_def split: option.splits)
  qed (use run in \<open>simp_all add: run_step_def\<close>)
qed

subsection \<open>Every step is a sequence of steps of the flusher's world\<close>

lemma wrapper_advance:
  assumes "wrapper_ok ident p l" "lease_advance p p'" "pool_inv p'"
  shows "wrapper_ok ident p' l"
proof -
  obtain i where i: "lw_inner l = Some i" "i < length (p_leases p)" using assms(1) by (auto elim: wrapper_okD)
  have len: "length (p_leases p') = length (p_leases p)" by (rule lease_advance_len [OF assms(2)])
  have "l_id (p_leases p' ! i) = l_id (p_leases p ! i)"
    using assms(2) i(2) ids_nth(2) [of "p_leases p'" "p_leases p" i] by (simp add: lease_advance_def)
  moreover have "l_state (p_leases p' ! i) \<noteq> StateUnknown" using lease_okD(2) [OF assms(3) _ refl] i(2) len by simp
  then have "l_state (p_leases p' ! i) \<in> {StateBorrowed, StateQueued, StateInFlight, StateReturned}" by (cases "l_state (p_leases p' ! i)") auto
  moreover have "l_state (p_leases p' ! i) = StateBorrowed \<longleftrightarrow> l_state (p_leases p ! i) = StateBorrowed"
    "l_state (p_leases p ! i) = StateReturned \<longrightarrow> l_state (p_leases p' ! i) = StateReturned"
    using assms(2) i(2) by (simp_all add: lease_advance_def)
  ultimately show ?thesis using assms(1) i len by (auto simp: wrapper_ok_def split: if_splits)
qed

lemma app_ok_machine:
  assumes ok: "app_ok a" and a': "ap_wrappers a' = ap_wrappers a" "ap_ident a' = ap_ident a" "length (ap_levels a') = length (ap_levels a)"
    and p: "lease_advance (ap_pool a) (ap_pool a')" "pool_inv (ap_pool a')" and c: "closer_ok a'"
  shows "app_ok a'"
proof -
  have "p_ident (ap_pool a') = p_ident (ap_pool a)" using p(1) by (simp add: lease_advance_def)
  then show ?thesis using ok a' wrapper_advance [OF _ p] c by (simp add: app_ok_def)
qed

lemma scan_frame:
  assumes "pool_inv p"
  shows "only_lease i p (fst (ScanOverdue now p))" "p_leases (fst (ScanOverdue now p)) = p_leases p"
    "p_ident (fst (ScanOverdue now p)) = p_ident p"
proof -
  let ?q = "fst (ScanOverdue now p)"
  have core: "pool_core p ?q" using scanOverdue_core [of p now] by (auto simp: ScanOverdue_def pool_core_def)
  have id: "p_ident ?q = p_ident p" by (auto simp: ScanOverdue_def scanOverdue_def Let_def)
  have L: "p_leases ?q = p_leases p" "p_blocks ?q = p_blocks p" using core by (simp_all add: pool_core_def)
  show "p_leases ?q = p_leases p" "p_ident ?q = p_ident p" by (fact L(1), fact id)
  have "lease_view ?q x = lease_view p x" for x by (simp add: view_unfold L lease_payload_def block_data_def cong: option.case_cong)
  then show "only_lease i p ?q" using pool_core_invI [OF assms core] id L by (simp add: only_lease_def)
qed

lemma pool_only_step:
  assumes ow: "owner_inv (ap_pool a) (ap_queue a) (rn_pending (fm_run (ap_mach a))) {} gone" and w: "fw_mach w = ap_mach a" "fw_passed w = {}"
    and o: "only_lease (length (p_leases (ap_pool a))) (ap_pool a) p'" "p_leases p' = p_leases (ap_pool a)" "p_ident p' = p_ident (ap_pool a)"
    and ok: "app_ok a"
  shows "fw_step bs w (w\<lparr>fw_mach := ap_mach (set_pool p' a)\<rparr>)" "app_ok (set_pool p' a)"
proof -
  show "fw_step bs w (w\<lparr>fw_mach := ap_mach (set_pool p' a)\<rparr>)" by (rule only_lease_sim(1) [OF ow w o(1)]) simp
  have "closer_ok a" using ok by (simp add: app_ok_def)
  then have "closer_ok (set_pool p' a)" by (simp add: closer_ok_def set_pool_def)
  moreover have "lease_advance (ap_pool a) p'" using o by (simp add: lease_advance_def)
  moreover have "pool_inv p'" using o(1) by (simp add: only_lease_def)
  ultimately show "app_ok (set_pool p' a)" using app_ok_machine [OF ok, of "set_pool p' a"] by (simp add: set_pool_def)
qed

lemma close_step_sim:
  assumes ow: "owner_inv (ap_pool a) (ap_queue a) (rn_pending (fm_run (ap_mach a))) {} gone" and w: "fw_mach w = ap_mach a" "fw_passed w = {}"
    and ok: "app_ok a" and step: "close_step cause a = Some a'"
  shows "fw_steps bs w (w\<lparr>fw_mach := ap_mach a'\<rparr>) \<and> app_ok a'"
proof -
  have cl: "closer_ok a" using ok by (simp add: app_ok_def)
  have inv: "pool_inv (ap_pool a)" by (rule owner_invD(2) [OF ow])
  have same: "app_ok b" if "ap_wrappers b = ap_wrappers a" "ap_ident b = ap_ident a" "ap_levels b = ap_levels a" "ap_pool b = ap_pool a" "closer_ok b" for b
    using app_ok_machine [OF ok that(1,2) _ _ _ that(5)] that(3,4) inv by simp
  have stay: "w\<lparr>fw_mach := ap_mach a\<rparr> = w" using w(1) by (cases w) simp
  show ?thesis
  proof (cases "ap_closer a")
    case CloseQueue
    have st: "fl_started (fm_flusher (ap_mach a))" using cl by (simp add: closer_ok_def)
    have a': "a' = a\<lparr>ap_mach := close_queue (ap_mach a), ap_closer := CloseStop\<rparr>" using step CloseQueue by (simp add: close_step_def)
    have "fw_step bs w (w\<lparr>fw_mach := ap_mach a'\<rparr>)" using fw_close [of bs w] w(1) by (simp add: a')
    moreover have "app_ok a'"
      by (rule same) (use cl CloseQueue st in \<open>auto simp: a' close_queue_def flusher_Start_def Let_def ring_Close_def closer_ok_def\<close>)
    ultimately show ?thesis by (simp add: r_into_rtranclp)
  next
    case CloseStop
    have a': "a' = a\<lparr>ap_mach := close_stop (ap_mach a), ap_closer := CloseWait\<rparr>" using step CloseStop by (simp add: close_step_def)
    have "fw_step bs w (w\<lparr>fw_mach := ap_mach a'\<rparr>)" using fw_stop [of w bs] w(1) cl CloseStop by (simp add: a' closer_ok_def)
    moreover have "app_ok a'" by (rule same) (use cl CloseStop in \<open>auto simp: a' close_stop_def closer_ok_def\<close>)
    ultimately show ?thesis by (simp add: r_into_rtranclp)
  next
    case CloseWait
    show ?thesis
    proof (cases cause)
      case None
      then obtain e where a': "a' = a\<lparr>ap_closer := ClosePool e\<rparr>" using step CloseWait by (auto simp: close_step_def split: option.splits)
      have "app_ok a'" by (rule same) (use cl CloseWait in \<open>auto simp: a' closer_ok_def\<close>)
      then show ?thesis using stay by (simp add: a')
    next
      case (Some c)
      obtain m e where m: "close_timeout c (ap_mach a) = (m, e)" by fastforce
      have a': "a' = a\<lparr>ap_mach := m, ap_closer := ClosePool (Some e)\<rparr>" using step CloseWait Some m by (simp add: close_step_def)
      have "fw_step bs w (w\<lparr>fw_mach := ap_mach a'\<rparr>)" using fw_timeout [of w bs c] w(1) cl CloseWait m by (simp add: a' closer_ok_def)
      moreover have "app_ok a'" by (rule same) (use cl CloseWait m in \<open>auto simp: a' close_timeout_def Let_def closer_ok_def\<close>)
      ultimately show ?thesis by (simp add: r_into_rtranclp)
    qed
  next
    case (ClosePool e)
    let ?p = "pool_Close (ap_pool a)"
    have a': "a' = (set_pool ?p a)\<lparr>ap_closeErr := e, ap_closeDone := True, ap_closer := CloseEnded\<rparr>"
      using step ClosePool by (simp add: close_step_def)
    have "lease_view ?p x = lease_view (ap_pool a) x" for x
      by (simp add: view_unfold pool_Close_def lease_payload_def block_data_def cong: option.case_cong)
    then have o: "only_lease (length (p_leases (ap_pool a))) (ap_pool a) ?p" using inv by (simp add: only_lease_def pool_Close_def)
    note P = pool_only_step [OF ow w o _ _ ok]
    have "fw_step bs w (w\<lparr>fw_mach := ap_mach a'\<rparr>)" using P(1) [of bs] by (simp add: a' pool_Close_def)
    moreover have "app_ok (set_pool ?p a)" using P(2) by (simp add: pool_Close_def)
    then have "app_ok a'" using ClosePool by (auto simp: a' app_ok_def closer_ok_def set_pool_def)
    ultimately show ?thesis by (simp add: r_into_rtranclp)
  qed (use step in \<open>simp_all add: close_step_def\<close>)
qed

context batch_sink
begin

lemma app_step_sim:
  assumes step: "app_step al enc bs w w'" and fw: "fw_inv out pend ok base (fworld_of w)" "bs_WriteBatch bs = wr" "bs_Flush bs = fl" "bs_Close bs = cl"
    and aok: "app_ok (aw_app w)"
  shows "fw_steps bs (fworld_of w) (fworld_of w') \<and> app_ok (aw_app w')"
proof -
  let ?a = "aw_app w"
  have w: "fw_mach (fworld_of w) = ap_mach ?a" "fw_passed (fworld_of w) = {}" by simp_all
  note ow = fw_owner [OF fw(1) w]
  show ?thesis
    using step
  proof cases
    case (as_call c a' r)
    have "call_sim bs (fworld_of w) a' (if r = Some Accepted then call_payload enc c ?a else [])"
      by (rule do_call_sim [OF fw w aok as_call(3,4)])
    then show ?thesis unfolding call_sim_def publish_sim_def as_call(1) by (simp add: fworld_of_def)
  next
    case (as_run env m')
    have ow': "owner_inv (fl_pool (fm_flusher (ap_mach ?a))) (fl_queue (fm_flusher (ap_mach ?a))) (rn_pending (fm_run (ap_mach ?a))) {}
        (fst ` set (fw_delivered (fworld_of w) @ fw_abandoned (fworld_of w)))" using ow by simp
    have fs: "fw_step bs (fworld_of w) (fworld_of w')"
      using fw_run [of bs env "fworld_of w" m'] as_run by (simp add: fworld_of_def)
    have calm: "calm (fm_flusher (ap_mach ?a)) (fm_flusher m')" by (rule run_step_calm [OF as_run(2) ow'])
    have "fw_inv out pend ok base (fworld_of w')" by (rule fw_step_inv [OF fs fw])
    then have inv: "pool_inv (ap_pool (aw_app w'))" using owner_invD(2) [OF fw_owner [of _ _ _ _ _ "aw_app w'"]] by fastforce
    have closed: "q_closed (fl_queue (fm_flusher m')) = q_closed (ap_queue ?a)"
      by (rule run_step_queue(1) [OF as_run(2) owner_invD(1) [OF ow']])
    have "closer_ok ?a" using aok by (simp add: app_ok_def)
    then have "closer_ok (aw_app w')" using calm closed as_run(1) by (simp add: closer_ok_def calm_def)
    then have "app_ok (aw_app w')" using app_ok_machine [OF aok, of "aw_app w'"] inv calm as_run(1) by (simp add: calm_def)
    then show ?thesis using fs by (simp add: r_into_rtranclp)
  next
    case (as_scan now)
    note S = scan_frame [OF owner_invD(2) [OF ow], where now = now]
    have P: "fw_step bs (fworld_of w) (fworld_of w\<lparr>fw_mach := ap_mach (set_pool (fst (ScanOverdue now (ap_pool ?a))) ?a)\<rparr>)"
      "app_ok (set_pool (fst (ScanOverdue now (ap_pool ?a))) ?a)"
      by (rule pool_only_step [OF ow w S aok])+
    then show ?thesis unfolding as_scan by (simp add: fworld_of_def r_into_rtranclp)
  next
    case as_close
    have "closer_ok ?a" using aok by (simp add: app_ok_def)
    then have "app_ok (app_Close_begin ?a)" using aok by (auto simp: app_Close_begin_def app_ok_def closer_ok_def)
    moreover have "ap_mach (app_Close_begin ?a) = ap_mach ?a" by (simp add: app_Close_begin_def)
    ultimately show ?thesis unfolding as_close by (simp add: fworld_of_def)
  next
    case (as_closer cause a')
    have C: "fw_steps bs (fworld_of w) (fworld_of w\<lparr>fw_mach := ap_mach a'\<rparr>) \<and> app_ok a'"
      by (rule close_step_sim [OF ow w aok as_closer(2)])
    then show ?thesis unfolding as_closer(1) by (simp add: fworld_of_def)
  qed
qed

lemma app_steps_sim:
  assumes steps: "app_steps al enc bs w w'" and fw: "fw_inv out pend ok base (fworld_of w)" "bs_WriteBatch bs = wr" "bs_Flush bs = fl" "bs_Close bs = cl"
    and aok: "app_ok (aw_app w)"
  shows "fw_steps bs (fworld_of w) (fworld_of w') \<and> app_ok (aw_app w') \<and> fw_inv out pend ok base (fworld_of w')"
  using steps
proof (induction rule: rtranclp_induct)
  case base
  then show ?case using fw aok by simp
next
  case (step u v)
  have u: "fw_steps bs (fworld_of w) (fworld_of u)" "app_ok (aw_app u)" "fw_inv out pend ok base (fworld_of u)" using step.IH by auto
  have S: "fw_steps bs (fworld_of u) (fworld_of v) \<and> app_ok (aw_app v)" by (rule app_step_sim [OF step.hyps(2) u(3) fw(2-4) u(2)])
  then have "fw_inv out pend ok base (fworld_of v)" using fw_steps_inv [OF _ u(3) fw(2-4)] by blast
  then show ?case using S u(1) by (meson rtranclp_trans)
qed

end

subsection \<open>From \<open>New\<close> on\<close>

definition app_world :: "nat \<Rightarrow> WriterSink \<Rightarrow> WriterSink app_Config \<Rightarrow> (WriterSink app_Config \<Rightarrow> (app_error, WriterSink app_Config) result) option list \<Rightarrow>
    ('v call \<Rightarrow> bool) \<Rightarrow> ('v \<Rightarrow> bytes option) \<Rightarrow> WriterSink aworld \<Rightarrow> bool" where
  "app_world ident stderr config options al enc w \<longleftrightarrow> (\<exists>a0. app_New ident stderr config options = Inr a0 \<and>
     fl_sink (fm_flusher (ap_mach a0)) = NewWriter \<and> app_steps al enc writer_batch_sink (aworld_of a0) w)"

lemma app_New_parts:
  assumes "app_New ident stderr config options = Inr a0"
  obtains c q p s f where "ring_New (cf_RingCapacity c) = Inr q" "pool_New ident (app_pool_config c) = Inr p"
    "flusher_New (Some q) (Some p) (Some s) (app_flusher_config c) = Inr f" "ap_mach a0 = flusher_Start (fw_mach (world_of f))"
    "a0 = new_appender ident c (ap_mach a0)" "\<not> fl_started f" "fl_queue f = q" "fl_pool f = p" "fl_sink f = s" "\<not> fl_stop f"
proof -
  obtain c q p f where c: "ring_New (cf_RingCapacity c) = Inr q" "pool_New ident (app_pool_config c) = Inr p"
    "flusher_New (Some q) (Some p) (cf_Sink c) (app_flusher_config c) = Inr f"
    "a0 = new_appender ident c (flusher_Start \<lparr>fm_flusher = f, fm_run = run_locals (fl_config f), fm_pc = NotStarted\<rparr>)"
    using assms by (auto simp: app_New_def Let_def split: sum.splits)
  obtain s where s: "cf_Sink c = Some s" using c(3) by (cases "cf_Sink c") (auto simp: flusher_New_def)
  have "\<not> fl_started f" "fl_queue f = q" "fl_pool f = p" "fl_sink f = s" "\<not> fl_stop f"
    using c(3) s by (auto simp: flusher_New_def split: sum.splits)
  then show thesis using that [of c q p s f] c s by (simp add: new_appender_def world_of_def)
qed

lemma new_app_ok:
  assumes "app_New ident stderr config options = Inr a0"
  shows "app_ok a0"
  using assms
proof (rule app_New_parts)
  fix c q p s f
  assume new: "ring_New (cf_RingCapacity c) = Inr q" "pool_New ident (app_pool_config c) = Inr p"
    and m: "ap_mach a0 = flusher_Start (fw_mach (world_of f))" "a0 = new_appender ident c (ap_mach a0)"
    and f: "\<not> fl_started f" "fl_queue f = q" "fl_pool f = p" "\<not> fl_stop f"
  have a0: "ap_ident a0 = ident" "ap_wrappers a0 = []" "length (ap_levels a0) = 4" "ap_closed a0 = False" "ap_closeOnce a0 = False"
    "ap_closeDone a0 = False" "ap_closer a0 = CloseIdle" by (subst m(2), simp add: new_appender_def)+
  have "ap_pool a0 = p" "ap_queue a0 = q" "fl_started (fm_flusher (ap_mach a0))" "\<not> fl_stop (fm_flusher (ap_mach a0))"
    using f by (simp_all add: m(1) flusher_Start_def world_of_def)
  moreover have "\<not> q_closed q" using new(1) by (auto simp: ring_New_def split: if_splits)
  ultimately show "app_ok a0" using a0 pool_New_inv(3) [OF new(2)] by (simp add: app_ok_def closer_ok_def)
qed

lemma new_app_closer: "app_New ident stderr config options = Inr a0 \<Longrightarrow> ap_closer a0 = CloseIdle"
  by (auto simp: app_New_def new_appender_def Let_def split: sum.splits)

lemma app_world_facts:
  assumes "app_world ident stderr config options al enc w"
  obtains q p f c where "flusher_New (Some q) (Some p) (Some NewWriter) c = Inr f" "ring_inv q" "ring_items q = []" "pool_inv p"
    "fw_steps writer_batch_sink (world_of f) (fworld_of w)" "app_ok (aw_app w)" "fw_inv ws_out ws_pend ws_ok [] (fworld_of w)"
proof -
  obtain a0 where a0: "app_New ident stderr config options = Inr a0" "fl_sink (fm_flusher (ap_mach a0)) = NewWriter"
    "app_steps al enc writer_batch_sink (aworld_of a0) w" using assms by (auto simp: app_world_def)
  obtain c q p s f where new: "ring_New (cf_RingCapacity c) = Inr q" "pool_New ident (app_pool_config c) = Inr p"
    "flusher_New (Some q) (Some p) (Some s) (app_flusher_config c) = Inr f" "ap_mach a0 = flusher_Start (fw_mach (world_of f))"
    "a0 = new_appender ident c (ap_mach a0)" "\<not> fl_started f" "fl_queue f = q" "fl_pool f = p" "fl_sink f = s" "\<not> fl_stop f"
    by (rule app_New_parts [OF a0(1)])
  have s: "s = NewWriter" using a0(2) new(4,9) by (simp add: flusher_Start_def world_of_def split: if_splits)
  have q: "ring_inv q" "ring_items q = []" and p: "pool_inv p" using ring_New_inv [OF new(1)] pool_New_inv [OF new(2)] by simp_all
  note f = new(3) [unfolded s]
  have "fworld_of (aworld_of a0) = (world_of f)\<lparr>fw_mach := flusher_Start (fw_mach (world_of f))\<rparr>"
    using new(4) by (simp add: fworld_of_def aworld_of_def world_of_def)
  then have start: "fw_steps writer_batch_sink (world_of f) (fworld_of (aworld_of a0))"
    using fw_start [of writer_batch_sink "world_of f"] by (simp add: r_into_rtranclp)
  have i0: "fw_inv ws_out ws_pend ws_ok [] (fworld_of (aworld_of a0))" by (rule writer_world_inv [OF f q p start])
  have "fw_steps writer_batch_sink (fworld_of (aworld_of a0)) (fworld_of w) \<and> app_ok (aw_app w) \<and> fw_inv ws_out ws_pend ws_ok [] (fworld_of w)"
    by (rule wbatch.app_steps_sim [OF a0(3) i0]) (simp_all add: new_app_ok [OF a0(1)] aworld_of_def)
  then show thesis using that [OF f q p] start by (meson rtranclp_trans)
qed

text \<open>
  C10. Well-formedness: in every state reachable from \<open>New\<close>, whatever the users, the flusher, \<open>Close\<close> and the scanner do, the appender has its four
  level counters; every lease wrapper points to a lease of the appender's own pool with the same number, no two to the same lease;
  a wrapper neither transferred nor released has a borrowed lease, a transferred one a queued, in-flight or returned lease,
  a released one a returned lease; and the flags of \<open>Close\<close> agree with its progress.
\<close>

theorem appender_well_formed:
  assumes "app_world ident stderr config options al enc w"
  shows "app_ok (aw_app w) \<and> pool_inv (ap_pool (aw_app w)) \<and> ring_inv (ap_queue (aw_app w))"
proof -
  obtain f :: "WriterSink Flusher" where w: "app_ok (aw_app w)" "fw_inv ws_out ws_pend ws_ok [] (fworld_of w)"
    by (rule app_world_facts [OF assms]) blast
  show ?thesis using w(1) owner_invD(1,2) [OF fw_owner [OF w(2), of "aw_app w"]] by simp
qed

text \<open>
  C9. Refinement: every run of the appender, with whole log and publish calls as its steps, is a run of the flusher's world in which the same leases
  with the same payloads are accepted, delivered and abandoned.
\<close>

theorem appender_refines_flusher:
  assumes "app_world ident stderr config options al enc w"
  shows "\<exists>q p f c. flusher_New (Some q) (Some p) (Some NewWriter) c = Inr f \<and> ring_inv q \<and> ring_items q = [] \<and> pool_inv p \<and>
    fw_steps writer_batch_sink (world_of f) (fworld_of w)"
  by (rule app_world_facts [OF assms]) blast

subsection \<open>An orderly end\<close>

lemma set_pool_run: "same_run a (set_pool p a)"
  by (simp add: same_run_mach)

lemma same_run_wrappers: "same_run a (b\<lparr>ap_wrappers := ws\<rparr>) = same_run a b"
  by (simp add: same_run_def)

lemma guarded_same_run: "same_run a (fst (guarded f w a))"
  by (auto simp: guarded_def set_pool_run same_run_mach split: option.splits prod.splits)

lemma do_call_same_run:
  assumes "do_call enc c a = (a', r)"
  shows "same_run a a'"
proof (cases c)
  case (CallAcquire env cap)
  then show ?thesis
    using assms by (auto simp: app_Acquire_def app_acquire_def Let_def same_run_def set_pool_def split: prod.splits sum.splits if_splits)
next
  case (CallAcquireFor env level cap)
  then show ?thesis
    using assms by (auto simp: app_AcquireFor_def app_acquire_def Let_def same_run_def set_pool_def split: prod.splits sum.splits if_splits)
next
  case (CallWrite data w)
  have "fst (LeaseW_Write data w a) = fst (guarded (\<lambda>r. Append r data) w a)" by (simp add: LeaseW_Write_def split_beta split: option.splits)
  then show ?thesis using assms CallWrite guarded_same_run [of a "\<lambda>r. Append r data" w] by simp
next
  case (CallSetBytes data w)
  then show ?thesis using assms guarded_same_run [of a "\<lambda>r. SetBytes r data" w] by (simp add: LeaseW_SetBytes_def)
next
  case (CallCommit n w)
  then show ?thesis using assms guarded_same_run [of a "\<lambda>r. Resize r n" w] by (simp add: LeaseW_Commit_def)
next
  case (CallFill n v w)
  then show ?thesis using assms by (auto simp: fill_buffer_def set_pool_run same_run_mach split: sum.splits option.splits)
next
  case (CallContext level logger w)
  have "same_run a (fst (LeaseW_SetAuditContext level logger w a))"
    by (auto simp: LeaseW_SetAuditContext_def Let_def same_run_def set_pool_def split: option.splits prod.splits)
  then show ?thesis using assms CallContext by simp
next
  case (CallRelease now w)
  have rel: "same_run a (fst (release_wrapper now l a))" for l
    by (auto simp: release_wrapper_def set_pool_run same_run_mach split: option.splits prod.splits)
  have "same_run a (fst (LeaseW_Release now w a))"
    using rel by (cases w) (simp_all add: LeaseW_Release_def split_beta same_run_wrappers same_run_mach)
  then show ?thesis using assms CallRelease by simp
next
  case (CallPublish level w)
  show ?thesis
  proof (cases w)
    case None
    then show ?thesis using assms CallPublish by (auto simp: TryPublishLease_def invalid_publish_def same_run_def)
  next
    case (Some k)
    obtain a1 l1 r1 where pw: "publish_wrapper level (ap_wrappers a ! k) a = (a1, l1, r1)" by (rule prod_cases3)
    then show ?thesis using assms CallPublish Some publish_same_run [OF pw] by (auto simp: TryPublishLease_def same_run_def)
  qed
next
  case (CallLog env name level message fs)
  have rej: "same_run a (fst (reject x level b))" if "same_run a b" for x b
    using same_run_trans [OF that same_run_mach] reject_frame(1) [of x level b] by (metis prod.collapse)
  have att: "same_run a (level_attempt level a)" "same_run a (level_attempt level (a\<lparr>ap_sequence := n\<rparr>))" for n
    by (simp_all add: same_run_def)
  have log: "same_run a (fst (log_encoded env name level e (a\<lparr>ap_sequence := n\<rparr>)))" for e n
  proof -
    have "same_run (a\<lparr>ap_sequence := n\<rparr>) (fst (log_encoded env name level e (a\<lparr>ap_sequence := n\<rparr>)))"
      by (rule log_pool_same_run [of env name level e _ _ "snd (log_encoded env name level e (a\<lparr>ap_sequence := n\<rparr>))"]) simp
    then show ?thesis by (simp add: same_run_def)
  qed
  have "same_run a (fst (app_log enc env name level message fs a))"
    using rej [OF att(1)] rej [OF att(2)] log unfolding app_log_def Let_def
    by (auto simp: invalid_publish_def same_run_mach simp del: reject.simps split: option.splits)
  then show ?thesis using assms CallLog by (auto split: prod.splits)
qed

lemma closing_not_ended:
  assumes "app_step al enc bs w w'" "\<not> q_closed (ap_queue (aw_app w))" "q_closed (ap_queue (aw_app w'))" "ring_inv (ap_queue (aw_app w))"
    "fm_pc (ap_mach (aw_app w)) \<noteq> Ended"
  shows "fm_pc (ap_mach (aw_app w')) \<noteq> Ended"
  using assms(1)
proof cases
  case (as_call c a' r)
  then show ?thesis using do_call_same_run [OF as_call(4)] assms(2,3) by (simp add: same_run_def)
next
  case (as_run env m')
  then show ?thesis using run_step_queue(1) [OF as_run(2) assms(4)] assms(2,3) by simp
next
  case (as_scan now)
  then show ?thesis using assms(2,3) by simp
next
  case as_close
  then show ?thesis using assms(2,3) by (simp add: app_Close_begin_def split: if_splits)
next
  case (as_closer cause a')
  then show ?thesis
    using assms(2,3,5) by (auto simp: close_step_def close_queue_def flusher_Start_def Let_def close_stop_def close_timeout_def
        set_pool_def split: close_pc.splits option.splits if_splits)
qed

context batch_sink
begin

lemma settled_run:
  assumes "fw_steps bs w1 w2" "settled_world w1" "fw_inv out pend ok base w1" "bs_WriteBatch bs = wr" "bs_Flush bs = fl" "bs_Close bs = cl"
  shows "settled_world w2"
  using assms(1-3)
proof (induction rule: rtranclp_induct)
  case (step w w')
  then have "fw_inv out pend ok base w" using fw_steps_inv [OF _ _ assms(4-6)] by blast
  then show ?case using settled_step [OF step.hyps(2)] step by blast
qed

lemma settled_app:
  assumes steps: "app_steps al enc bs w w'" and fw: "fw_inv out pend ok base (fworld_of w)" and aok: "app_ok (aw_app w)"
    and start: "\<not> q_closed (ap_queue (aw_app w))" and bs: "bs_WriteBatch bs = wr" "bs_Flush bs = fl" "bs_Close bs = cl"
  shows "q_closed (ap_queue (aw_app w')) \<longrightarrow> settled_world (fworld_of w')"
  using steps
proof (induction rule: rtranclp_induct)
  case base
  then show ?case using start by simp
next
  case (step u v)
  have u: "fw_inv out pend ok base (fworld_of u)" "app_ok (aw_app u)"
    using app_steps_sim [OF step.hyps(1) fw bs aok] by simp_all
  have uv: "fw_steps bs (fworld_of u) (fworld_of v)" using app_step_sim [OF step.hyps(2) u(1) bs u(2)] by simp
  show ?case
  proof
    assume v: "q_closed (ap_queue (aw_app v))"
    show "settled_world (fworld_of v)"
    proof (cases "q_closed (ap_queue (aw_app u))")
      case True
      then show ?thesis using settled_run [OF uv _ u(1) bs] step.IH by simp
    next
      case False
      have fl: "fw_flags (fm_flusher (ap_mach (aw_app u))) (fm_run (ap_mach (aw_app u))) (fm_pc (ap_mach (aw_app u)))"
        using fw_goodD(3) [OF u(1) [unfolded fw_inv_def]] by simp
      have "fm_pc (ap_mach (aw_app u)) \<noteq> Ended" using fl False by (auto simp: fw_flags_def)
      moreover have "ring_inv (ap_queue (aw_app u))" using owner_invD(1) [OF fw_owner [OF u(1), of "aw_app u"]] by simp
      ultimately have "fm_pc (ap_mach (aw_app v)) \<noteq> Ended" using closing_not_ended [OF step.hyps(2) False v] by simp
      then show ?thesis using v by (simp add: settled_world_def)
    qed
  qed
qed

text \<open>A new appender over a sink that has nothing pending.\<close>

lemma new_world_inv:
  fixes bs :: "('a, 'c, 'b) BatchSink"
  assumes "app_New ident stderr config options = Inr a0" "fl_sink (fm_flusher (ap_mach a0)) = s" "ok s" "pend s = None"
    and bs: "bs_WriteBatch bs = wr" "bs_Flush bs = fl" "bs_Close bs = cl"
  shows "fw_inv out pend ok (out s) (fworld_of (aworld_of a0))"
proof -
  obtain c q p s' f where new: "ring_New (cf_RingCapacity c) = Inr q" "pool_New ident (app_pool_config c) = Inr p"
    "flusher_New (Some q) (Some p) (Some s') (app_flusher_config c) = Inr f" "ap_mach a0 = flusher_Start (fw_mach (world_of f))"
    "a0 = new_appender ident c (ap_mach a0)" "\<not> fl_started f" "fl_queue f = q" "fl_pool f = p" "fl_sink f = s'" "\<not> fl_stop f"
    by (rule app_New_parts [OF assms(1)])
  have s: "s' = s" using assms(2) new(4,9) by (simp add: flusher_Start_def world_of_def split: if_splits)
  have q: "ring_inv q" "ring_items q = []" and p: "pool_inv p" using ring_New_inv [OF new(1)] pool_New_inv [OF new(2)] by simp_all
  have "fworld_of (aworld_of a0) = (world_of f)\<lparr>fw_mach := flusher_Start (fw_mach (world_of f))\<rparr>"
    using new(4) by (simp add: fworld_of_def aworld_of_def world_of_def)
  then have "fw_steps bs (world_of f) (fworld_of (aworld_of a0))" using fw_start [of bs "world_of f"] by (simp add: r_into_rtranclp)
  then show ?thesis using fw_steps_inv [OF _ world_of_inv [OF new(3) [unfolded s] q p assms(3,4)] bs] by blast
qed

lemma ended_run:
  fixes bs :: "('a, 'c, 'b) BatchSink"
  assumes new: "app_New ident stderr config options = Inr a0" "fl_sink (fm_flusher (ap_mach a0)) = s" "ok s" "pend s = None"
    and bs: "bs_WriteBatch bs = wr" "bs_Flush bs = fl" "bs_Close bs = cl"
    and run: "app_steps al enc bs (aworld_of a0) w" "fm_pc (ap_mach (aw_app w)) = Ended" "\<not> fl_abort (fm_flusher (ap_mach (aw_app w)))"
  shows "out (fl_sink (fm_flusher (ap_mach (aw_app w)))) = out s @ concat (map snd (aw_accepted w)) \<and> aw_delivered w = aw_accepted w \<and>
    (\<forall>e\<in>set (aw_accepted w). l_state (p_leases (ap_pool (aw_app w)) ! fst e) = StateReturned)"
proof -
  have i0: "fw_inv out pend ok (out s) (fworld_of (aworld_of a0))" by (rule new_world_inv [OF new bs])
  have ok0: "app_ok a0" by (rule new_app_ok [OF new(1)])
  then have a0: "app_ok (aw_app (aworld_of a0))" by (simp add: aworld_of_def)
  have "ap_closer a0 = CloseIdle" by (rule new_app_closer [OF new(1)])
  then have "\<not> q_closed (ap_queue (aw_app (aworld_of a0)))" using ok0 by (simp add: aworld_of_def app_ok_def closer_ok_def)
  then have set: "q_closed (ap_queue (aw_app w)) \<longrightarrow> settled_world (fworld_of w)"
    by (rule settled_app [OF run(1) i0 a0 _ bs])
  have i: "fw_inv out pend ok (out s) (fworld_of w)" using app_steps_sim [OF run(1) i0 bs a0] by blast
  note G = fw_goodD [OF i [unfolded fw_inv_def], simplified]
  have r: "rn_pending (fm_run (ap_mach (aw_app w))) = []" "\<not> rn_aborting (fm_run (ap_mach (aw_app w)))" "q_closed (ap_queue (aw_app w))"
    using G(3) run(2,3) by (auto simp: fw_flags_def)
  have empty: "ring_items (ap_queue (aw_app w)) = []" using set r(3) run(2) by (simp add: settled_world_def)
  have s: "out (fl_sink (fm_flusher (ap_mach (aw_app w)))) = out s @ concat (map snd (aw_delivered w))" "aw_abandoned w = []"
    using G(5) r by (simp_all add: fw_sink_def payloads_def)
  have eq: "aw_accepted w = aw_delivered w" using G(2) unfolding r(1) empty s(2) by simp
  have "\<forall>e\<in>set (aw_delivered w). l_state (p_leases (ap_pool (aw_app w)) ! fst e) = StateReturned"
    using G(1) unfolding owner_inv_def by simp
  then show ?thesis using s(1) unfolding eq by simp
qed

end

text \<open>At any time the output is the beginning of what was accepted.\<close>

lemma written_prefix:
  assumes "fw_inv ws_out ws_pend ws_ok [] w"
  shows "\<exists>n. ws_out (fl_sink (fw_flusher w)) = take n (concat (map snd (fw_accepted w)))"
proof -
  note G = fw_goodD [OF assms [unfolded fw_inv_def]]
  let ?del = "concat (map snd (fw_delivered w))" and ?abn = "concat (map snd (fw_abandoned w))"
    and ?pend = "concat (payloads (fl_pool (fw_flusher w)) (rn_pending (fm_run (fw_mach w))))"
  have acc: "concat (map snd (fw_accepted w)) = ?del @ ?abn @ ?pend @ concat (payloads (fl_pool (fw_flusher w)) (ring_items (fl_queue (fw_flusher w))))"
    unfolding G(2) by simp
  have "\<exists>n. ws_out (fl_sink (fw_flusher w)) = ?del @ take n ?abn \<or> ws_out (fl_sink (fw_flusher w)) = ?del @ take n ?pend \<and> fw_abandoned w = []"
    using G(5) by (auto simp: fw_sink_def split: if_splits)
  then obtain n where "ws_out (fl_sink (fw_flusher w)) = ?del @ take n ?abn \<or> ws_out (fl_sink (fw_flusher w)) = ?del @ take n ?pend \<and> fw_abandoned w = []"
    by blast
  then have "ws_out (fl_sink (fw_flusher w)) = take (length ?del + min n (length ?abn)) (concat (map snd (fw_accepted w))) \<or>
    ws_out (fl_sink (fw_flusher w)) = take (length ?del + min n (length ?pend)) (concat (map snd (fw_accepted w)))"
    unfolding acc by (auto simp: min_def)
  then show ?thesis by blast
qed

text \<open>At the end of the flusher, unless it was aborted, everything accepted was delivered.\<close>

lemma ended_app:
  assumes "app_world ident stderr config options al enc w" "fm_pc (ap_mach (aw_app w)) = Ended" "\<not> fl_abort (fm_flusher (ap_mach (aw_app w)))"
  shows "ws_out (fl_sink (fm_flusher (ap_mach (aw_app w)))) = concat (map snd (aw_accepted w)) \<and> aw_delivered w = aw_accepted w \<and>
    (\<forall>e\<in>set (aw_accepted w). l_state (p_leases (ap_pool (aw_app w)) ! fst e) = StateReturned)"
proof -
  obtain a0 where a0: "app_New ident stderr config options = Inr a0" "fl_sink (fm_flusher (ap_mach a0)) = NewWriter"
    "app_steps al enc writer_batch_sink (aworld_of a0) w" using assms(1) by (auto simp: app_world_def)
  have "ws_out NewWriter = []" by (simp add: NewWriter_def)
  then show ?thesis using wbatch.ended_run [OF a0(1,2) NewWriter_ok(1,2) _ _ _ a0(3) assms(2,3)] by simp
qed

lemma ended_output:
  assumes "app_world ident stderr config options al enc w" "fm_pc (ap_mach (aw_app w)) = Ended" "\<not> fl_abort (fm_flusher (ap_mach (aw_app w)))"
  shows "ws_out (fl_sink (fm_flusher (ap_mach (aw_app w)))) = concat (map snd (aw_accepted w))"
  using ended_app [OF assms] by blast


subsection \<open>A concrete run\<close>

definition demo_app_config :: "WriterSink app_Config" where
  "demo_app_config = \<lparr>cf_Name = ''demo'', cf_MinLevel = 1, cf_RingCapacity = 4, cf_BatchSize = 2, cf_FlushInterval = 0, cf_PollInterval = 0,
     cf_RetryBackoff = 0, cf_MaxRetryBackoff = 0, cf_MaxEventBytes = 200, cf_PoolClasses = [2], cf_AuditMode = [], cf_AuditSampleEvery = 0,
     cf_LeaseTimeout = 0, cf_AuditScanInterval = 0, cf_AuditHistoryLimit = 0, cf_AuditStackDepth = 0, cf_ProjectRoot = [], cf_Sink = None\<rparr>"

definition demo_app :: "WriterSink Appender" where
  "demo_app = projr (app_New 7 NewWriter demo_app_config [])"

lemmas app_eval = app_New_def demo_app_config_def app_normalized_def Level_valid_def ErrorLevel_def Let_def
    ring_New_def maxCapacity_def pool_New_def pool_normalized_def default_classes_and_mode_def default_limits_def app_pool_config_def AuditMode_valid_def
     flusher_New_def flusher_normalized_def flusher_defaults_def app_flusher_config_def Millisecond_def Second_def newAuditRegistry_def
     new_appender_def flusher_Start_def

lemma demo_app_New: "app_New 7 NewWriter demo_app_config [] = Inr demo_app"
  by (simp add: demo_app_def app_eval AuditOff_def AuditFull_def AuditSampled_def)

lemma demo_app_eq: "demo_app = new_appender 7 (demo_app_config\<lparr>cf_PoolClasses := [2], cf_AuditMode := ''OFF'', cf_Sink := Some NewWriter\<rparr>) (ap_mach demo_app)"
  by (simp add: demo_app_def app_eval AuditOff_def AuditFull_def AuditSampled_def)

lemma demo_app_machine: "ap_pool demo_app = \<lparr>p_ident = 7, p_config = \<lparr>Classes = [2], MaxBytes = 200, AuditMode = ''OFF'', SampleEvery = 100, LeaseTimeout = 2000000000,
     ScanInterval = 100000000, HistoryLimit = 1000, StackDepth = 24, ProjectRoot = []\<rparr>,
     p_classes = [\<lparr>sl_size = 2, sl_store = [], sl_borrowed = 0, sl_inUse = 0, sl_hits = 0, sl_misses = 0\<rparr>],
     p_nextID = 0, p_closed = False, p_borrowed = 0, p_returned = 0, p_outstanding = 0,
     p_poolHits = 0, p_poolMisses = 0, p_oversized = 0, p_largeAllocations = 0, p_doubleReturns = 0,
     p_invalidReturns = 0, p_stateErrors = 0, p_useAfterPublish = 0, p_overdue = 0,
     p_audit = \<lparr>r_stackDepth = 24, r_historyLimit = 1000, r_active = [], r_history = []\<rparr>,
     p_leases = [], p_blocks = []\<rparr>" "ap_queue demo_app = ring4" "fm_run (ap_mach demo_app) = run_locals (fl_config (fm_flusher (ap_mach demo_app)))"
     "fl_config (fm_flusher (ap_mach demo_app)) = \<lparr>fq_BatchSize = 2, fq_FlushInterval = 50 * Millisecond, fq_PollInterval = 100000,
     fq_RetryBackoff = 10 * Millisecond, fq_MaxRetryBackoff = Second\<rparr>"
    "fl_sink (fm_flusher (ap_mach demo_app)) = NewWriter" "\<not> fl_abort (fm_flusher (ap_mach demo_app))" "fm_pc (ap_mach demo_app) = Select"
  by (simp_all add: demo_app_def app_eval AuditOff_def AuditFull_def AuditSampled_def ring4_def)


lemma demo_app_fields: "ap_closed demo_app = False" "ap_config demo_app = demo_app_config\<lparr>cf_PoolClasses := [2], cf_AuditMode := ''OFF'', cf_Sink := Some NewWriter\<rparr>" "ap_wrappers demo_app = []" "ap_ident demo_app = 7"
  by (subst demo_app_eq, simp add: new_appender_def)+

definition demo_a1 where "demo_a1 = fst (do_call (\<lambda>_ :: unit. None) (CallAcquire (demo_env None) 2) demo_app)"
definition demo_a2 where "demo_a2 = fst (do_call (\<lambda>_ :: unit. None) (CallWrite [5, 6] (Some 0)) demo_a1)"
definition demo_a3 where "demo_a3 = fst (do_call (\<lambda>_ :: unit. None) (CallPublish 1 (Some 0)) demo_a2)"

definition demo_lease :: "LeaseState \<Rightarrow> int \<Rightarrow> Lease" where
  "demo_lease s n = \<lparr>l_id = 1, l_block = Some 0, l_class = 0, l_length = n, l_state = s, l_tracked = False, l_checksum = 0, l_mutated = False,
     l_borrowed = 100, l_deadline = 2000000100\<rparr>"
definition demo_wrapper :: "LeaseW" where
  "demo_wrapper = \<lparr>lw_appender = Some 7, lw_inner = Some 0, lw_id = 1, lw_logger = ''demo'', lw_transferred = False, lw_released = False\<rparr>"

definition demo_mach :: "WriterSink Appender \<Rightarrow> bool" where
  "demo_mach a \<longleftrightarrow> fm_run (ap_mach a) = run_locals (fl_config (fm_flusher (ap_mach a))) \<and> fq_BatchSize (fl_config (fm_flusher (ap_mach a))) = 2 \<and>
     fl_sink (fm_flusher (ap_mach a)) = NewWriter \<and> \<not> fl_abort (fm_flusher (ap_mach a)) \<and> fm_pc (ap_mach a) = Select"

lemma demo_acquired: "p_leases (ap_pool demo_a1) = [demo_lease StateBorrowed 0]" "p_blocks (ap_pool demo_a1) = [[0, 0]]" "ap_wrappers demo_a1 = [demo_wrapper]"
  "demo_mach demo_a1" "ap_queue demo_a1 = ring4" "app_frame demo_app demo_a1"
  by (simp_all add: demo_a1_def app_Acquire_def app_acquire_def demo_app_fields demo_app_machine acquire_def acquire_block_def classFor_def store_get_def next_lease_id_def shouldTrack_def Let_def
    AuditOff_def AuditFull_def AuditSampled_def demo_env_def lease_ID_def demo_lease_def demo_wrapper_def demo_app_config_def numeral_eq_Suc replicate_Suc app_frame_def set_pool_def demo_mach_def)

lemma demo_written: "p_leases (ap_pool demo_a2) = [demo_lease StateBorrowed 2]" "p_blocks (ap_pool demo_a2) = [[5, 6]]" "ap_wrappers demo_a2 = [demo_wrapper]"
  "demo_mach demo_a2" "ap_queue demo_a2 = ring4" "app_frame demo_app demo_a2"
  using demo_acquired by (simp_all add: demo_a2_def LeaseW_Write_def guarded_def get_wrapper_def Append_def Let_def demo_wrapper_def demo_lease_def block_data_def copy_at_def set_lease_def set_block_def
     app_frame_def set_pool_def demo_mach_def split_beta split: option.splits)

lemma ring4_publish: "\<exists>q. TryPublish (Some 0) ring4 = (q, PublishAccepted) \<and> ring_items q = [0]"
proof -
  let ?q = "ring4\<lparr>publishAttempts := publishAttempts ring4 + 1\<rparr>"
  have q: "ring_inv ?q" "ring_items ?q = []" "capacity ?q = 4" using ring4_ok by simp_all
  have "ring_len ?q = 0" using q(2) length_ring_items by (metis list.size(3))
  then have room: "ring_len ?q < unat (capacity ?q)" using q(3) by simp
  then show ?thesis
    using publish_is_check_and_claim [OF ring4_ok(1,4), of 0] ring_items_publish_accept [OF q(1) room, of 0] q(2) by (simp add: Let_def)
qed

lemma demo_published: "do_call (\<lambda>_ :: unit. None) (CallPublish 1 (Some 0)) demo_a2 = (demo_a3, Some Accepted)"
   "ring_items (ap_queue demo_a3) = [0]" "p_leases (ap_pool demo_a3) = [demo_lease StateQueued 2]" "p_blocks (ap_pool demo_a3) = [[5, 6]]"
   "demo_mach demo_a3" "app_frame demo_app demo_a3"
proof -
  obtain q where q: "TryPublish (Some 0) ring4 = (q, PublishAccepted)" "ring_items q = [0]" using ring4_publish by blast
  have f: "ap_config demo_a2 = ap_config demo_app" "ap_ident demo_a2 = 7" "ap_closed demo_a2 = False"
    using demo_written(6) demo_app_fields by (simp_all add: app_frame_def)
  have call: "TryPublishLease 1 (Some 0) demo_a2 =
    ((level_accepted 1 (set_queue q (set_pool ((ap_pool demo_a2)\<lparr>p_leases := [demo_lease StateQueued 2]\<rparr>) (level_attempt 1 demo_a2))))
        \<lparr>ap_wrappers := [demo_wrapper\<lparr>lw_transferred := True\<rparr>]\<rparr>, Accepted)"
    using q demo_written f demo_app_fields
    by (simp add: TryPublishLease_def publish_wrapper_def demo_wrapper_def Level_valid_def ErrorLevel_def lease_ID_def demo_lease_def Lease_Len_def
       demo_app_config_def Let_def SetAuditContext_def offer_lease_def MarkQueued_def set_lease_def set_pool_def)
  show "do_call (\<lambda>_ :: unit. None) (CallPublish 1 (Some 0)) demo_a2 = (demo_a3, Some Accepted)"
    using call by (simp add: demo_a3_def)
  show  "ring_items (ap_queue demo_a3) = [0]" "p_leases (ap_pool demo_a3) = [demo_lease StateQueued 2]" "p_blocks (ap_pool demo_a3) = [[5, 6]]"
   "demo_mach demo_a3" "app_frame demo_app demo_a3"
    using call q(2) demo_written by (simp_all add: demo_a3_def app_frame_def set_pool_def demo_mach_def set_queue_def level_accepted_def level_attempt_def count_level_def)
qed

text \<open>The machine runs on inside the appender.\<close>

lemma app_run_clean:
  assumes "run_clean bs envs (ap_mach (aw_app w)) = Some m'"
  shows "\<exists>w'. app_steps al enc bs w w' \<and> ap_mach (aw_app w') = m' \<and> aw_accepted w' = aw_accepted w"
  using assms
proof (induction envs arbitrary: w)
  case (Cons e es)
  show ?case
  proof (cases "fm_pc (ap_mach (aw_app w)) = Ended")
    case False
    then obtain m1 where m1: "run_step bs e (ap_mach (aw_app w)) = Some m1" "run_clean bs es m1 = Some m'"
      using Cons.prems by (auto split: option.splits if_splits)
    let ?w = "w\<lparr>aw_app := (aw_app w)\<lparr>ap_mach := m1\<rparr>, aw_delivered := aw_delivered w @ newly_delivered (ap_mach (aw_app w)) m1,
      aw_abandoned := aw_abandoned w @ newly_abandoned (ap_mach (aw_app w)) m1\<rparr>"
    have step: "app_step al enc bs w ?w" by (rule as_run [OF m1(1)])
    obtain w' where w': "app_steps al enc bs ?w w'" "ap_mach (aw_app w') = m'" "aw_accepted w' = aw_accepted w"
      using Cons.IH [of ?w] m1(2) by auto
    have "app_steps al enc bs w w'" by (rule converse_rtranclp_into_rtranclp [of "app_step al enc bs", OF step w'(1)])
    then show ?thesis using w' by blast
  qed (use Cons.prems in auto)
qed auto

text \<open>One lease acquired, written, published; \<open>Close\<close>; the flusher's run to its end.\<close>

lemma demo_calls:
  "app_steps (\<lambda>_. True) (\<lambda>_ :: unit. None) writer_batch_sink (aworld_of demo_app) ((aworld_of demo_app)\<lparr>aw_app := demo_a3, aw_accepted := [(0, [5, 6])]\<rparr>)"
proof -
  let ?w = "\<lambda>a acc. (aworld_of demo_app)\<lparr>aw_app := a, aw_accepted := acc\<rparr>" and ?enc = "\<lambda>_ :: unit. None"
  let ?S = "app_step (\<lambda>_. True) ?enc writer_batch_sink"
  have "snd (do_call ?enc (CallAcquire (demo_env None) 2) demo_app) = None" "snd (do_call ?enc (CallWrite [5, 6] (Some 0)) demo_a1) = None" by simp_all
  then have c: "do_call ?enc (CallAcquire (demo_env None) 2) demo_app = (demo_a1, None)" "do_call ?enc (CallWrite [5, 6] (Some 0)) demo_a1 = (demo_a2, None)"
    by (simp_all add: demo_a1_def demo_a2_def)
  have s1: "?S (aworld_of demo_app) (?w demo_a1 [])"
    using as_call [of "\<lambda>_. True" "CallAcquire (demo_env None) 2" "aworld_of demo_app" ?enc demo_a1 None writer_batch_sink] c(1)
    by (simp add: aworld_of_def)
  have s2: "?S (?w demo_a1 []) (?w demo_a2 [])"
    using as_call [of "\<lambda>_. True" "CallWrite [5, 6] (Some 0)" "?w demo_a1 []" ?enc demo_a2 None writer_batch_sink] c(2) demo_acquired(3)
    by (simp add: aworld_of_def wrapper_ptr_def)
  have pay: "call_payload ?enc (CallPublish 1 (Some 0)) demo_a2 = [(0, [5, 6])]"
    using demo_written by (simp add: demo_wrapper_def demo_lease_def Payload_def lease_payload_def block_data_def)
  have s3: "?S (?w demo_a2 []) (?w demo_a3 [(0, [5, 6])])"
    using as_call [of "\<lambda>_. True" "CallPublish 1 (Some 0)" "?w demo_a2 []" ?enc demo_a3 "Some Accepted" writer_batch_sink] demo_published(1) demo_written(3) pay
    by (simp add: aworld_of_def wrapper_ptr_def)
  show ?thesis using s1 s2 s3 by (meson rtranclp.rtrancl_into_rtrancl r_into_rtranclp)
qed

lemma demo_closing:
  fixes w0 :: "WriterSink aworld" and enc :: "unit \<Rightarrow> bytes option"
  assumes "aw_app w0 = demo_a3"
  shows "\<exists>w. app_steps al enc writer_batch_sink w0 w \<and> demo_mach (aw_app w) \<and> ring_items (ap_queue (aw_app w)) = [0] \<and>
    ap_pool (aw_app w) = ap_pool demo_a3 \<and> fl_stop (fm_flusher (ap_mach (aw_app w))) \<and> aw_accepted w = aw_accepted w0"
proof -
  let ?S = "app_step al enc writer_batch_sink"
  have f: "ap_closeOnce demo_a3 = False" "fl_started (fm_flusher (ap_mach demo_a3))"
  proof -
    have "app_ok demo_app" by (rule new_app_ok [OF demo_app_New])
    then have "ap_closeOnce demo_app = False" using demo_app_fields by (simp add: app_ok_def closer_ok_def)
    then show "ap_closeOnce demo_a3 = False" using demo_published(6) by (simp add: app_frame_def)
    have "app_world 7 NewWriter demo_app_config [] (\<lambda>_. True) (\<lambda>_ :: unit. None) ((aworld_of demo_app)\<lparr>aw_app := demo_a3, aw_accepted := [(0, [5, 6])]\<rparr>)"
      using demo_app_New demo_calls demo_app_machine(5) by (auto simp: app_world_def)
    from app_world_facts [OF this] have "app_ok demo_a3" by (metis aworld.select_convs(1) aworld.surjective aworld.update_convs(1,2))
    then show "fl_started (fm_flusher (ap_mach demo_a3))" by (simp add: app_ok_def closer_ok_def)
  qed
  define b1 where "b1 = app_Close_begin demo_a3"
  define b2 where "b2 = b1\<lparr>ap_mach := close_queue (ap_mach b1), ap_closer := CloseStop\<rparr>"
  define b3 where "b3 = b2\<lparr>ap_mach := close_stop (ap_mach b2), ap_closer := CloseWait\<rparr>"
  have b1: "ap_mach b1 = ap_mach demo_a3" "ap_closer b1 = CloseQueue" using f(1) by (simp_all add: b1_def app_Close_begin_def)
  have s1: "?S w0 (w0\<lparr>aw_app := b1\<rparr>)" using as_close [of al enc writer_batch_sink w0] assms by (simp add: b1_def)
  have "close_step None (aw_app (w0\<lparr>aw_app := b1\<rparr>)) = Some b2" using b1 by (simp add: close_step_def b2_def)
  from as_closer [OF this] have s2: "?S (w0\<lparr>aw_app := b1\<rparr>) (w0\<lparr>aw_app := b2\<rparr>)" by simp
  have "close_step None (aw_app (w0\<lparr>aw_app := b2\<rparr>)) = Some b3" by (simp add: close_step_def b2_def b3_def)
  from as_closer [OF this] have s3: "?S (w0\<lparr>aw_app := b2\<rparr>) (w0\<lparr>aw_app := b3\<rparr>)" by simp
  have m: "ap_mach b3 = close_stop (close_queue (ap_mach demo_a3))" using b1 by (simp add: b3_def b2_def)
  have "demo_mach b3" "ring_items (ap_queue b3) = [0]" "ap_pool b3 = ap_pool demo_a3" "fl_stop (fm_flusher (ap_mach b3))"
    using demo_published(2,5) f(2) by (simp_all add: m demo_mach_def close_stop_def close_queue_def flusher_Start_def Let_def ring_Close_def)
  moreover have "app_steps al enc writer_batch_sink w0 (w0\<lparr>aw_app := b3\<rparr>)" using s1 s2 s3 by (meson rtranclp.rtrancl_into_rtrancl r_into_rtranclp)
  ultimately show ?thesis by (intro exI [of _ "w0\<lparr>aw_app := b3\<rparr>"]) simp
qed

lemma demo_end_world:
  "\<exists>w. app_world 7 NewWriter demo_app_config [] (\<lambda>_. True) (\<lambda>_ :: unit. None) w \<and> fm_pc (ap_mach (aw_app w)) = Ended \<and>
    \<not> fl_abort (fm_flusher (ap_mach (aw_app w))) \<and> aw_accepted w = [(0, [5, 6])]"
proof -
  let ?w0 = "(aworld_of demo_app)\<lparr>aw_app := demo_a3, aw_accepted := [(0, [5, 6])]\<rparr>"
  obtain w1 where w1: "app_steps (\<lambda>_. True) (\<lambda>_ :: unit. None) writer_batch_sink ?w0 w1" "demo_mach (aw_app w1)"
    "ring_items (ap_queue (aw_app w1)) = [0]" "ap_pool (aw_app w1) = ap_pool demo_a3" "fl_stop (fm_flusher (ap_mach (aw_app w1)))"
    "aw_accepted w1 = aw_accepted ?w0"
    using demo_closing [of ?w0] by auto
  have s1: "app_steps (\<lambda>_. True) (\<lambda>_ :: unit. None) writer_batch_sink (aworld_of demo_app) w1" using demo_calls w1(1) by (rule rtranclp_trans)
  then have "app_world 7 NewWriter demo_app_config [] (\<lambda>_. True) (\<lambda>_ :: unit. None) w1"
    using demo_app_New demo_app_machine(5) by (auto simp: app_world_def)
  then have i: "fw_inv ws_out ws_pend ws_ok [] (fworld_of w1)" by (rule app_world_facts)
  have pay: "Payload (ap_pool (aw_app w1)) (Some 0) = [5, 6]"
    using w1(4) demo_published(3,4) by (simp add: Payload_def lease_payload_def block_data_def demo_lease_def)
  obtain m' where m': "run_clean writer_batch_sink (replicate 4 one_write @ replicate 4 idle_env) (ap_mach (aw_app w1)) = Some m'"
    "fm_pc m' = Ended" "\<not> fl_abort (fm_flusher m')"
    using message_run [OF i, of "fl_config (fm_flusher (ap_mach (aw_app w1)))" 0] w1(2,3,5) pay unfolding demo_mach_def fworld_of_simps by auto
  obtain w where w: "app_steps (\<lambda>_. True) (\<lambda>_ :: unit. None) writer_batch_sink w1 w" "ap_mach (aw_app w) = m'" "aw_accepted w = aw_accepted w1"
    using app_run_clean [OF m'(1)] by blast
  have "app_steps (\<lambda>_. True) (\<lambda>_ :: unit. None) writer_batch_sink (aworld_of demo_app) w" using s1 w(1) by (rule rtranclp_trans)
  then have "app_world 7 NewWriter demo_app_config [] (\<lambda>_. True) (\<lambda>_ :: unit. None) w"
    using demo_app_New demo_app_machine(5) by (auto simp: app_world_def)
  then show ?thesis using m' w w1(6) by (intro exI [of _ w]) simp
qed

lemma appender_well_formed_witness:
  "\<exists>w. aw_accepted w = [(0, [5, 6])] \<and> app_ok (aw_app (w :: WriterSink aworld))"
proof -
  obtain w where w: "app_world 7 NewWriter demo_app_config [] (\<lambda>_. True) (\<lambda>_ :: unit. None) w" "aw_accepted w = [(0, [5, 6])]"
    using demo_end_world by blast
  from appender_well_formed [OF w(1)] w(2) show ?thesis by blast
qed

lemma appender_refines_flusher_witness:
  "\<exists>w f. aw_accepted w = [(0, [5, 6])] \<and> fw_steps writer_batch_sink (world_of f) (fworld_of w)"
proof -
  obtain w where w: "app_world 7 NewWriter demo_app_config [] (\<lambda>_. True) (\<lambda>_ :: unit. None) w" "aw_accepted w = [(0, [5, 6])]"
    using demo_end_world by blast
  from appender_refines_flusher [OF w(1)] w(2) show ?thesis by blast
qed


end
