(* ===== verification/Appender_Properties.thy ===== *)
theory Appender_Properties
  imports Appender_Delivery
begin

text \<open>
  What the users of the appender can rely on besides delivery: its statistics are exact, and an output that only log calls
  feed is a sequence of whole lines, each the JSON text of one accepted event.
\<close>

subsection \<open>Counters\<close>

text \<open>Every attempt is accepted or counted under one reason; every attempt at a level is accepted or dropped there.\<close>

definition counts_ok :: "'s Appender \<Rightarrow> bool" where
  "counts_ok a \<longleftrightarrow> length (ap_levels a) = 4 \<and>
     ap_publishAttempts a = ap_accepted a + ap_rejectedFull a + ap_rejectedClosed a + ap_rejectedOversized a + ap_rejectedInvalid a \<and>
     (\<forall>c\<in>set (ap_levels a). lv_attempts c = lv_accepted c + lv_dropped c) \<and> ap_accepted a = sum_list (map lv_accepted (ap_levels a))"

text \<open>Only the counters matter.\<close>

definition same_counts :: "'s Appender \<Rightarrow> 's Appender \<Rightarrow> bool" where
  "same_counts a b \<longleftrightarrow> ap_levels b = ap_levels a \<and> ap_publishAttempts b = ap_publishAttempts a \<and> ap_accepted b = ap_accepted a \<and>
     ap_rejectedFull b = ap_rejectedFull a \<and> ap_rejectedClosed b = ap_rejectedClosed a \<and> ap_rejectedOversized b = ap_rejectedOversized a \<and>
     ap_rejectedInvalid b = ap_rejectedInvalid a"

lemma same_counts_refl [simp]: "same_counts a a"
  by (simp add: same_counts_def)

lemma same_counts_ok: "same_counts a b \<Longrightarrow> counts_ok b = counts_ok a"
  by (simp add: same_counts_def counts_ok_def)

lemma same_counts_simps [simp]:
  "same_counts a (set_pool p b) = same_counts a b" "same_counts a (set_queue q b) = same_counts a b"
  "same_counts a (b\<lparr>ap_wrappers := ws\<rparr>) = same_counts a b" "same_counts a (b\<lparr>ap_mach := m\<rparr>) = same_counts a b"
  "same_counts a (b\<lparr>ap_filtered := f\<rparr>) = same_counts a b" "same_counts a (b\<lparr>ap_sequence := sq\<rparr>) = same_counts a b"
  "same_counts a (b\<lparr>ap_closer := c\<rparr>) = same_counts a b" "same_counts a (b\<lparr>ap_closeErr := e\<rparr>) = same_counts a b"
  "same_counts a (b\<lparr>ap_closeDone := d\<rparr>) = same_counts a b" "same_counts a (b\<lparr>ap_closeOnce := d\<rparr>) = same_counts a b"
  "same_counts a (b\<lparr>ap_closed := d\<rparr>) = same_counts a b"
  by (simp_all add: same_counts_def set_pool_def set_queue_def)

text \<open>How a publication is counted: \<open>n\<close> is what it adds to the accepted ones.\<close>

definition counted :: "'s Appender \<Rightarrow> 's Appender \<Rightarrow> app_result \<Rightarrow> bool" where
  "counted a a' r \<longleftrightarrow> (counts_ok a \<longrightarrow> counts_ok a') \<and> ap_accepted a' = ap_accepted a + (if r = Accepted then 1 else 0)"

text \<open>The level counters after one more attempt at level \<open>i\<close> that was accepted or dropped.\<close>

definition levels_ok :: "levelCounters list \<Rightarrow> u64 \<Rightarrow> bool" where
  "levels_ok ls n \<longleftrightarrow> length ls = 4 \<and> (\<forall>c\<in>set ls. lv_attempts c = lv_accepted c + lv_dropped c) \<and> n = sum_list (map lv_accepted ls)"

lemma sum_list_add:
  assumes "i < length xs"
  shows "sum_list (xs[i := xs ! i + d]) = sum_list xs + (d :: u64)"
  using assms by (induction xs arbitrary: i) (auto split: nat.split simp: ac_simps)

lemma levels_ok_update:
  assumes "levels_ok ls n" "i < 4" "lv_accepted c = lv_accepted (ls ! i) + d" "lv_attempts c = lv_accepted c + lv_dropped c"
  shows "levels_ok (ls[i := c]) (n + d)"
proof -
  have "sum_list ((map lv_accepted ls)[i := map lv_accepted ls ! i + d]) = sum_list (map lv_accepted ls) + d"
    using assms(1,2) by (intro sum_list_add) (simp add: levels_ok_def)
  moreover have "map lv_accepted (ls[i := c]) = (map lv_accepted ls)[i := map lv_accepted ls ! i + d]"
    using assms by (simp add: levels_ok_def map_update)
  moreover have "\<forall>x\<in>set (ls[i := c]). lv_attempts x = lv_accepted x + lv_dropped x"
    using assms(1,4) set_update_subset_insert [of ls i c] by (auto simp: levels_ok_def)
  ultimately show ?thesis using assms(1) by (simp add: levels_ok_def)
qed

lemma counts_levels: "counts_ok a \<longleftrightarrow> levels_ok (ap_levels a) (ap_accepted a) \<and>
    ap_publishAttempts a = ap_accepted a + ap_rejectedFull a + ap_rejectedClosed a + ap_rejectedOversized a + ap_rejectedInvalid a"
  by (auto simp: counts_ok_def levels_ok_def)

lemma Level_index:
  assumes "Level_valid level"
  shows "unat level < 4"
  using assms by (simp add: Level_valid_def ErrorLevel_def word_le_nat_alt)

lemma attempted_level:
  assumes "counts_ok a" "Level_valid level"
  shows "lv_attempts (ap_levels a ! unat level) = lv_accepted (ap_levels a ! unat level) + lv_dropped (ap_levels a ! unat level)"
    "unat level < length (ap_levels a)"
  using assms Level_index [OF assms(2)] by (auto simp: counts_ok_def)

lemma accepted_counted:
  assumes "same_counts (level_attempt level a) b" "Level_valid level"
  shows "counted a (level_accepted level b) Accepted"
proof -
  let ?c = "ap_levels a ! unat level"
  have "levels_ok ((ap_levels a)[unat level := ?c\<lparr>lv_attempts := lv_attempts ?c + 1, lv_accepted := lv_accepted ?c + 1\<rparr>]) (ap_accepted a + 1)"
    if "counts_ok a"
    by (rule levels_ok_update)
      (use that attempted_level [OF that assms(2)] Level_index [OF assms(2)] in \<open>auto simp: counts_levels\<close>)
  moreover have "unat level < length (ap_levels a)" if "counts_ok a" by (rule attempted_level(2) [OF that assms(2)])
  ultimately show ?thesis
    using assms(1) unfolding counted_def same_counts_def level_attempt_def level_accepted_def count_level_def counts_levels
    by auto
qed

lemma reject_counted:
  assumes "same_counts (level_attempt level a) b" "Level_valid level"
  shows "counted a (fst (reject r level b)) (snd (reject r level b))"
proof -
  let ?c = "ap_levels a ! unat level"
  have "levels_ok ((ap_levels a)[unat level := ?c\<lparr>lv_attempts := lv_attempts ?c + 1, lv_dropped := lv_dropped ?c + 1\<rparr>]) (ap_accepted a + 0)"
    if "counts_ok a"
    by (rule levels_ok_update)
      (use that attempted_level [OF that assms(2)] Level_index [OF assms(2)] in \<open>auto simp: counts_levels\<close>)
  moreover have "unat level < length (ap_levels a)" if "counts_ok a" by (rule attempted_level(2) [OF that assms(2)])
  ultimately show ?thesis
    using assms(1) unfolding counted_def same_counts_def level_attempt_def level_dropped_def count_level_def counts_levels
    by (cases r) (auto simp: level_dropped_def count_level_def)
qed

lemma stay_counted: "same_counts a a' \<Longrightarrow> r \<noteq> Accepted \<Longrightarrow> counted a a' r"
  using same_counts_ok [of a a'] by (simp add: counted_def same_counts_def)

lemma invalid_counted: "same_counts a b \<Longrightarrow> counted a (fst (invalid_publish b)) (snd (invalid_publish b))"
  by (auto simp: invalid_publish_def counted_def counts_ok_def same_counts_def)

lemma counted_after: "counted a b r \<Longrightarrow> same_counts b c \<Longrightarrow> counted a c r"
  using same_counts_ok [of b c] by (auto simp: counted_def same_counts_def)

lemma counted_before: "counted b c r \<Longrightarrow> same_counts a b \<Longrightarrow> counted a c r"
  using same_counts_ok [of a b] by (auto simp: counted_def same_counts_def)

lemma reject_not_accepted: "snd (reject r level a) \<noteq> Accepted"
  by (cases r) auto

lemma offer_counted:
  assumes "same_counts (level_attempt level a) b" "Level_valid level" "offer_lease level i l b = (a', l', r)"
  shows "counted a a' r"
proof (cases "MarkQueued (Some i) (ap_pool b)")
  case (Pair p e)
  show ?thesis
  proof (cases e)
    case None
    obtain q res where q: "TryPublish (Some i) (ap_queue (set_pool p b)) = (q, res)" by force
    show ?thesis
    proof (cases "res = PublishAccepted")
      case True
      then show ?thesis
        using assms(3) Pair None q accepted_counted [of level a "set_queue q (set_pool p b)", OF _ assms(2)] assms(1)
        by (auto simp: offer_lease_def Let_def)
    next
      case False
      let ?c = "set_pool (fst (RollbackQueued (Some i) (ap_pool (set_queue q (set_pool p b))))) (set_queue q (set_pool p b))"
      have "offer_lease level i l b = (case reject (refusal_of res) level ?c of (a3, r) \<Rightarrow> (a3, l, r))"
        using False Pair None q by (simp add: offer_lease_def Let_def split: PublishResult.splits)
      then show ?thesis
        using assms(3) reject_counted [of level a ?c "refusal_of res", OF _ assms(2)] assms(1) by (auto simp: split_beta)
    qed
  next
    case (Some x)
    then show ?thesis
      using assms(3) Pair reject_counted [of level a "set_pool p b" InvalidLease, OF _ assms(2)] assms(1)
      by (auto simp: offer_lease_def split_beta)
  qed
qed

lemma publish_counted:
  assumes "publish_wrapper level l a = (a', l', r)"
  shows "counted a a' r"
proof (cases "lw_inner l")
  case None
  then show ?thesis using assms invalid_counted [of a a] by (auto simp: publish_wrapper_def split_beta)
next
  case (Some i)
  let ?bad = "\<not> Level_valid level \<or> lw_appender l \<noteq> Some (ap_ident a) \<or> lw_id l \<noteq> lease_ID a i \<or> lw_released l \<or>
             lw_transferred l \<or> Lease_Len (ap_pool a) (Some i) \<le> 0"
  let ?b = "level_attempt level a"
  let ?set = "SetAuditContext (Some i) \<lparr>ac_Level = Level_String level, ac_Logger = lw_logger l, ac_CallerSkip = 0\<rparr> (ap_pool ?b)"
  consider (bad) ?bad | (low) "\<not> ?bad" "level < cf_MinLevel (ap_config a)"
    | (shut) "\<not> ?bad" "\<not> level < cf_MinLevel (ap_config a)" "ap_closed ?b"
    | (big) "\<not> ?bad" "\<not> level < cf_MinLevel (ap_config a)" "\<not> ap_closed ?b" "Lease_Len (ap_pool ?b) (Some i) > cf_MaxEventBytes (ap_config ?b)"
    | (go) "\<not> ?bad" "\<not> level < cf_MinLevel (ap_config a)" "\<not> ap_closed ?b" "\<not> Lease_Len (ap_pool ?b) (Some i) > cf_MaxEventBytes (ap_config ?b)"
    by blast
  then show ?thesis
  proof cases
    case bad
    then show ?thesis using assms Some invalid_counted [of a a] unfolding publish_wrapper_def by (auto simp: split_beta)
  next
    case low
    then have "(a', l', r) = (a\<lparr>ap_filtered := ap_filtered a + 1\<rparr>, l, Filtered)"
      using assms Some unfolding publish_wrapper_def by (simp add: if_not_P)
    then show ?thesis by (auto intro: stay_counted)
  next
    case shut
    then have "(a', r) = reject Closed level ?b"
      using assms Some unfolding publish_wrapper_def Let_def by (auto simp: split_beta)
    then show ?thesis using reject_counted [of level a ?b Closed] shut(1) by (cases "reject Closed level ?b") auto
  next
    case big
    then have "(a', r) = reject Oversized level ?b"
      using assms Some unfolding publish_wrapper_def Let_def by (auto simp: split_beta)
    then show ?thesis using reject_counted [of level a ?b Oversized] big(1) by (cases "reject Oversized level ?b") auto
  next
    case go
    have eq: "publish_wrapper level l a = (case ?set of
        (p, Some e) \<Rightarrow> (case reject InvalidLease level (set_pool p ?b) of (a2, r) \<Rightarrow> (a2, l, r))
      | (p, None) \<Rightarrow> offer_lease level i l (set_pool p ?b))"
      using go Some unfolding publish_wrapper_def Let_def by (simp del: reject.simps)
    obtain p e where set: "?set = (p, e)" by force
    show ?thesis
    proof (cases e)
      case None
      then show ?thesis using offer_counted [of level a "set_pool p ?b" i l a' l' r] assms eq set go(1) by simp
    next
      case (Some x)
      then have "(a', r) = reject InvalidLease level (set_pool p ?b)" using assms eq set by (auto simp: split_beta)
      then show ?thesis
        using reject_counted [of level a "set_pool p ?b" InvalidLease] go(1) by (cases "reject InvalidLease level (set_pool p ?b)") auto
    qed
  qed
qed

lemma release_same_counts: "same_counts a (fst (release_wrapper now l a))"
  by (auto simp: release_wrapper_def split: option.splits prod.splits)

lemma log_encoded_counted:
  assumes "Level_valid level" "log_encoded env name level encoded a = (a', r)"
  shows "counted a a' r"
proof -
  let ?acq = "acquire (lg_acquire env) (int (length encoded)) \<lparr>ac_Level = Level_String level, ac_Logger = name, ac_CallerSkip = 2\<rparr> (ap_pool a)"
  have rej: "counted a a' r" if "(a', r) = reject x level (level_attempt level (set_pool p a))" for x p
    using that reject_counted [of level "set_pool p a" "level_attempt level (set_pool p a)" x, OF _ assms(1)]
      counted_before [of "set_pool p a" a' r a] by (cases "reject x level (level_attempt level (set_pool p a))") auto
  obtain p u where acq: "?acq = (p, u)" by force
  show ?thesis
  proof (cases u)
    case (Inl e)
    then show ?thesis using assms(2) acq by (intro rej [of "result_of_error e" p]) (simp add: log_encoded_def)
  next
    case (Inr i)
    obtain p1 e where set: "SetBytes (Some i) encoded p = (p1, e)" by force
    show ?thesis
    proof (cases e)
      case (Some x)
      then show ?thesis using assms(2) acq Inr set
        by (intro rej [of InvalidLease "fst (Release (Some (p_ident p1, i)) (lg_release env) p1)"]) (simp add: log_encoded_def)
    next
      case None
      let ?a1 = "set_pool p1 a"
      let ?l = "\<lparr>lw_appender = Some (ap_ident ?a1), lw_inner = Some i, lw_id = lease_ID ?a1 i, lw_logger = name,
                         lw_transferred = False, lw_released = False\<rparr>"
      obtain a2 l2 r2 where pub: "publish_wrapper level ?l ?a1 = (a2, l2, r2)" by (metis prod_cases3)
      have "(a', r) = (if r2 = Accepted then (a2, r2) else (fst (release_wrapper (lg_release env) l2 a2), r2))"
        using assms(2) acq Inr set None pub by (simp add: log_encoded_def Let_def)
      then have "r = r2" "same_counts a2 a'" using release_same_counts [of a2 "lg_release env" l2] by (auto split: if_splits)
      then show ?thesis
        using counted_after [OF counted_before [OF publish_counted [OF pub], of a]] by simp
    qed
  qed
qed

lemma log_counted:
  assumes "app_log enc env name level message fs a = (a', r)"
  shows "counted a a' r"
proof -
  let ?a1 = "a\<lparr>ap_sequence := ap_sequence a + 1\<rparr>"
  have rej: "counted a a' r" if "(a', r) = reject x level (level_attempt level b)" "same_counts a b" "Level_valid level" for x b
    using that(1) reject_counted [of level b "level_attempt level b" x, OF _ that(3)] counted_before [of b a' r a] that(2)
    by (cases "reject x level (level_attempt level b)") auto
  consider (bad) "\<not> Level_valid level" | (low) "Level_valid level" "level < cf_MinLevel (ap_config a)"
    | (shut) "Level_valid level" "\<not> level < cf_MinLevel (ap_config a)" "ap_closed a"
    | (go) "Level_valid level" "\<not> level < cf_MinLevel (ap_config a)" "\<not> ap_closed a" by blast
  then show ?thesis
  proof cases
    case bad
    then show ?thesis using assms invalid_counted [of a a] by (cases "invalid_publish a") (auto simp: app_log_def)
  next
    case low
    then show ?thesis using assms by (auto simp: app_log_def intro: stay_counted)
  next
    case shut
    then show ?thesis using assms by (intro rej [of Closed a]) (simp_all add: app_log_def)
  next
    case go
    let ?j = "json_event enc (app_event env (ap_sequence ?a1) name level message fs)"
    show ?thesis
    proof (cases ?j)
      case None
      then show ?thesis using assms go by (intro rej [of InvalidLease ?a1]) (simp_all add: app_log_def Let_def)
    next
      case (Some body)
      show ?thesis
      proof (cases "int (length (body @ [10])) > cf_MaxEventBytes (ap_config ?a1)")
        case True
        then show ?thesis using assms go Some by (intro rej [of Oversized ?a1]) (simp_all add: app_log_def Let_def)
      next
        case False
        then have "log_encoded env name level (body @ [10]) ?a1 = (a', r)" using assms go Some by (simp add: app_log_def Let_def)
        from counted_before [OF log_encoded_counted [OF go(1) this], of a] show ?thesis by simp
      qed
    qed
  qed
qed

lemma guarded_same_counts: "same_counts a (fst (guarded f w a))"
  by (auto simp: guarded_def split: option.splits prod.splits)

lemma call_counted:
  assumes "do_call enc c a = (a', r)"
  shows "(counts_ok a \<longrightarrow> counts_ok a') \<and> ap_accepted a' = ap_accepted a + (if r = Some Accepted then 1 else 0)"
proof -
  have stay: ?thesis if "same_counts a a'" "r = None"
    using that same_counts_ok [OF that(1)] by (simp add: same_counts_def)
  show ?thesis
  proof (cases c)
    case (CallAcquire env cap)
    then show ?thesis using assms
      by (intro stay) (auto simp: app_Acquire_def app_acquire_def Let_def split: prod.splits sum.splits if_splits)
  next
    case (CallAcquireFor env level cap)
    then show ?thesis using assms
      by (intro stay) (auto simp: app_AcquireFor_def app_acquire_def Let_def split: prod.splits sum.splits if_splits)
  next
    case (CallWrite data w)
    have "fst (LeaseW_Write data w a) = fst (guarded (\<lambda>r. Append r data) w a)" by (simp add: LeaseW_Write_def split_beta split: option.splits)
    then show ?thesis using assms CallWrite guarded_same_counts [of a "\<lambda>r. Append r data" w] by (intro stay) auto
  next
    case (CallSetBytes data w)
    then show ?thesis using assms guarded_same_counts [of a "\<lambda>r. SetBytes r data" w] by (intro stay) (auto simp: LeaseW_SetBytes_def)
  next
    case (CallCommit n w)
    then show ?thesis using assms guarded_same_counts [of a "\<lambda>r. Resize r n" w] by (intro stay) (auto simp: LeaseW_Commit_def)
  next
    case (CallFill n v w)
    then show ?thesis using assms by (intro stay) (auto simp: fill_buffer_def split: option.splits sum.splits)
  next
    case (CallContext level logger w)
    then show ?thesis using assms
      by (intro stay) (auto simp: LeaseW_SetAuditContext_def Let_def split: option.splits prod.splits if_splits)
  next
    case (CallRelease now w)
    have "same_counts a (fst (LeaseW_Release now w a))"
      using release_same_counts by (auto simp: LeaseW_Release_def split_beta split: option.splits)
    then show ?thesis using assms CallRelease by (intro stay) auto
  next
    case (CallPublish level w)
    obtain r' where r: "TryPublishLease level w a = (a', r')" "r = Some r'" using assms CallPublish by (auto split: prod.splits)
    have "counted a a' r'"
    proof (cases w)
      case None
      then show ?thesis using r(1) invalid_counted [of a a] by (simp add: TryPublishLease_def)
    next
      case (Some k)
      obtain a1 l1 r1 where pub: "publish_wrapper level (ap_wrappers a ! k) a = (a1, l1, r1)" by (metis prod_cases3)
      then have "a' = a1\<lparr>ap_wrappers := (ap_wrappers a1)[k := l1]\<rparr>" "r' = r1" using r(1) Some by (simp_all add: TryPublishLease_def)
      then show ?thesis using counted_after [OF publish_counted [OF pub]] by simp
    qed
    then show ?thesis using r(2) by (simp add: counted_def)
  next
    case (CallLog env name level message fs)
    then obtain r' where r: "app_log enc env name level message fs a = (a', r')" "r = Some r'" using assms by (auto split: prod.splits)
    show ?thesis using log_counted [OF r(1)] r(2) by (simp add: counted_def)
  qed
qed

lemma accepted_payload:
  assumes "do_call enc c a = (a', Some Accepted)"
  shows "length (call_payload enc c a) = 1"
proof (cases c)
  case (CallPublish level w)
  then obtain k where w: "w = Some k" using assms by (cases w) (auto simp: TryPublishLease_def invalid_publish_def)
  have "lw_inner (ap_wrappers a ! k) \<noteq> None"
  proof
    assume "lw_inner (ap_wrappers a ! k) = None"
    then have "snd (TryPublishLease level w a) = InvalidLease" by (simp add: w TryPublishLease_def publish_wrapper_def invalid_publish_def)
    then show False using assms CallPublish by (simp add: split_beta)
  qed
  then show ?thesis using CallPublish w by auto
next
  case (CallLog env name level message fs)
  have "json_event enc (app_event env (ap_sequence a + 1) name level message fs) \<noteq> None"
  proof
    assume none: "json_event enc (app_event env (ap_sequence a + 1) name level message fs) = None"
    obtain r where "app_log enc env name level message fs a = (a', r)" "r = Accepted" using assms CallLog by (auto split: prod.splits)
    then show False using none by (auto simp: app_log_def invalid_publish_def Let_def split: if_splits)
  qed
  then show ?thesis using CallLog by auto
qed (use assms in simp_all)

subsection \<open>The statistics\<close>

definition world_counts :: "'s aworld \<Rightarrow> bool" where
  "world_counts w \<longleftrightarrow> counts_ok (aw_app w) \<and> ap_accepted (aw_app w) = of_nat (length (aw_accepted w))"

lemma close_step_counts:
  assumes "close_step cause a = Some a'"
  shows "same_counts a a'"
  using assms by (auto simp: close_step_def split: close_pc.splits option.splits prod.splits)

lemma app_step_counts:
  assumes "app_step al enc bs w w'" "world_counts w"
  shows "world_counts w'"
  using assms
proof (cases rule: app_step.cases)
  case (as_call c a' r)
  note C = call_counted [OF as_call(4)]
  show ?thesis
  proof (cases "r = Some Accepted")
    case True
    then have "length (call_payload enc c (aw_app w)) = 1" using accepted_payload as_call(4) by metis
    then show ?thesis using C assms(2) as_call(1) True by (simp add: world_counts_def)
  next
    case False
    then show ?thesis using C assms(2) as_call(1) by (simp add: world_counts_def)
  qed
next
  case (as_closer cause a')
  have "same_counts (aw_app w) a'" by (rule close_step_counts [OF as_closer(2)])
  then show ?thesis using assms(2) as_closer(1) same_counts_ok [of "aw_app w" a'] by (simp add: world_counts_def) (simp add: same_counts_def)
qed (auto simp: world_counts_def counts_ok_def set_pool_def app_Close_begin_def)

lemma new_world_counts:
  assumes "app_New ident stderr config options = Inr a"
  shows "world_counts (aworld_of a)"
proof -
  obtain c where a: "a = new_appender ident c (ap_mach a)" by (rule app_New_parts [OF assms]) blast
  have "world_counts (aworld_of (new_appender ident c m))" for m
    by (simp add: world_counts_def counts_ok_def aworld_of_def new_appender_def numeral_eq_Suc)
  then show ?thesis by (subst a)
qed

lemma app_world_counts:
  assumes "app_world ident stderr config options al enc w"
  shows "world_counts w"
proof -
  obtain a0 where a0: "app_New ident stderr config options = Inr a0" "app_steps al enc writer_batch_sink (aworld_of a0) w"
    using assms by (auto simp: app_world_def)
  show ?thesis using a0(2)
    by (induction rule: rtranclp_induct) (auto intro: new_world_counts [OF a0(1)] app_step_counts)
qed


subsection \<open>Lines\<close>

lemma lines_of_part: "one_line l \<Longrightarrow> lines_of cur l = []"
  by (induction l arbitrary: cur) auto

text \<open>A part of a text of whole lines has the first of these lines, and perhaps the beginning of the next.\<close>

lemma lines_of_take:
  assumes "\<forall>x\<in>set xs. \<exists>l. one_line l \<and> x = l @ [10]"
  shows "\<exists>k. lines_of [] (take n (concat xs)) = take k xs"
  using assms
proof (induction xs arbitrary: n)
  case (Cons x xs)
  obtain l where l: "one_line l" "x = l @ [10]" using Cons.prems by auto
  show ?case
  proof (cases "n \<le> length l")
    case True
    have "one_line (take n l)" using l(1) by (auto simp: one_line_def dest: in_set_takeD)
    then have "lines_of [] (take n (concat (x # xs))) = take 0 (x # xs)" using True l(2) lines_of_part by simp
    then show ?thesis by blast
  next
    case False
    then have "take n (concat (x # xs)) = l @ 10 # take (n - length x) (concat xs)" using l(2)
      by (simp add: take_Cons' Suc_diff_Suc)
    moreover obtain k where "lines_of [] (take (n - length x) (concat xs)) = take k xs" using Cons.IH Cons.prems by auto
    ultimately have "lines_of [] (take n (concat (x # xs))) = take (Suc k) (x # xs)" using lines_of_line [OF l(1)] l(2) by simp
    then show ?thesis by blast
  qed
qed auto

text \<open>Users who log and, perhaps, hold leases, but publish none of their own.\<close>

definition logs_only :: "'v call \<Rightarrow> bool" where
  "logs_only c \<longleftrightarrow> (case c of CallPublish level w \<Rightarrow> False | _ \<Rightarrow> True)"

definition event_line :: "('v \<Rightarrow> bytes option) \<Rightarrow> bytes \<Rightarrow> bool" where
  "event_line enc x \<longleftrightarrow> (\<exists>e body. json_event enc e = Some body \<and> x = body @ [10])"

lemma logged_payload:
  assumes "logs_only c" "e \<in> set (call_payload enc c a)"
  shows "event_line enc (snd e)"
  using assms by (cases c) (auto simp: logs_only_def event_line_def split: option.splits)

lemma accepted_event_lines:
  assumes "app_steps logs_only enc bs w0 w" "\<forall>e\<in>set (aw_accepted w0). event_line enc (snd e)"
  shows "\<forall>e\<in>set (aw_accepted w). event_line enc (snd e)"
  using assms
proof (induction rule: rtranclp_induct)
  case (step u v)
  show ?case using step.hyps(2) step.IH step.prems logged_payload
    by (cases rule: app_step.cases) (auto split: if_splits)
qed


subsection \<open>A logged event\<close>

definition demo_log :: "log_env" where
  "demo_log = \<lparr>lg_timestamp = ascii ''t'', lg_unixNano = 5, lg_caller = None, lg_acquire = demo_env None, lg_release = 200\<rparr>"

definition demo_call :: "unit call" where
  "demo_call = CallLog demo_log ''demo'' InfoLevel [104, 10, 105] []"

definition demo_body :: "bytes" where
  "demo_body = the (json_event (\<lambda>_ :: unit. None) (app_event demo_log 1 ''demo'' InfoLevel [104, 10, 105] []))"

lemma demo_body_eval: "json_event (\<lambda>_ :: unit. None) (app_event demo_log 1 ''demo'' InfoLevel [104, 10, 105] []) = Some demo_body"
    "length demo_body = 114"
  by code_simp+

lemma demo_log_encoded: "\<exists>a. log_encoded demo_log ''demo'' InfoLevel (demo_body @ [10]) (demo_app\<lparr>ap_sequence := 1\<rparr>) = (a, Accepted)"
proof -
  obtain q where q: "TryPublish (Some 0) ring4 = (q, PublishAccepted)" using ring4_publish by blast
  show ?thesis
    using q by (simp add: log_encoded_def publish_wrapper_def acquire_def acquire_block_def classFor_def next_lease_id_def shouldTrack_def
      demo_app_machine demo_app_fields demo_app_config_def demo_log_def demo_env_def demo_body_eval(2) Let_def SetBytes_def block_data_def copy_at_def
      set_lease_def set_block_def lease_ID_def Level_valid_def InfoLevel_def ErrorLevel_def Lease_Len_def SetAuditContext_def offer_lease_def
      MarkQueued_def set_pool_def AuditOff_def AuditFull_def AuditSampled_def)
qed

lemma demo_logged: "\<exists>a. do_call (\<lambda>_ :: unit. None) demo_call demo_app = (a, Some Accepted)"
proof -
  have sq: "ap_sequence demo_app = 0" by (subst demo_app_eq) (simp add: new_appender_def)
  obtain a where a: "log_encoded demo_log ''demo'' InfoLevel (demo_body @ [10]) (demo_app\<lparr>ap_sequence := 1\<rparr>) = (a, Accepted)"
    using demo_log_encoded by blast
  have "app_log (\<lambda>_ :: unit. None) demo_log ''demo'' InfoLevel [104, 10, 105] [] demo_app = (a, Accepted)"
    using a by (simp add: app_log_def Let_def sq demo_app_fields demo_app_config_def demo_body_eval InfoLevel_def Level_valid_def ErrorLevel_def
        demo_body_eval [unfolded InfoLevel_def])
  then show ?thesis by (simp add: demo_call_def)
qed

lemma demo_log_world:
  "\<exists>w. app_world 7 NewWriter demo_app_config [] logs_only (\<lambda>_ :: unit. None) w \<and> aw_accepted w = [(0, demo_body @ [10])]"
proof -
  obtain a where a: "do_call (\<lambda>_ :: unit. None) demo_call demo_app = (a, Some Accepted)" using demo_logged by blast
  have pay: "call_payload (\<lambda>_ :: unit. None) demo_call demo_app = [(0, demo_body @ [10])]"
  proof -
    have "ap_sequence demo_app = 0" by (subst demo_app_eq) (simp add: new_appender_def)
    then show ?thesis by (simp add: demo_call_def demo_body_eval demo_app_machine)
  qed
  have "app_step logs_only (\<lambda>_ :: unit. None) writer_batch_sink (aworld_of demo_app) ((aworld_of demo_app)\<lparr>aw_app := a, aw_accepted := [(0, demo_body @ [10])]\<rparr>)"
    using as_call [of logs_only demo_call "aworld_of demo_app" "\<lambda>_ :: unit. None" a "Some Accepted" writer_batch_sink] a pay
    by (simp add: aworld_of_def logs_only_def demo_call_def)
  then show ?thesis using demo_app_New demo_app_machine(5)
    by (intro exI [of _ "(aworld_of demo_app)\<lparr>aw_app := a, aw_accepted := [(0, demo_body @ [10])]\<rparr>"]) (auto simp: app_world_def)
qed



end
