(* ===== verification/Network_Delivery.thy ===== *)
theory Network_Delivery
  imports Flusher_Delivery Protocol_Client File_Sink
begin

text \<open>
  What stops the flusher: a sink that refuses the batch in hand each time. The flusher over the protocol client
  (\<^verbatim>\<open>sink/network.go\<close> over \<^verbatim>\<open>protocol/client.go\<close>) is stopped by a batch that does not fit one frame, for it cuts its batches by
  their number of records only; the flusher over a file sink that another writer shares, by a batch of that other writer left unfinished.
\<close>

subsection \<open>The flusher stays\<close>

text \<open>A batch in hand that is full or being retried, and that the sink in its present state refuses.\<close>

definition stuck :: "('s \<Rightarrow> bool) \<Rightarrow> (bytes list \<Rightarrow> bool) \<Rightarrow> nat list \<Rightarrow> 's fworld \<Rightarrow> bool" where
  "stuck idle refused as w \<longleftrightarrow> as \<noteq> [] \<and> rn_pending (fm_run (fw_mach w)) = as \<and> refused (payloads (fl_pool (fw_flusher w)) as) \<and>
     idle (fl_sink (fw_flusher w)) \<and> fm_pc (fw_mach w) \<in> {Select, Consume, Decide, Settle, Wait} \<and> fl_started (fw_flusher w) \<and>
     (rn_retrying (fm_run (fw_mach w)) \<or> fq_BatchSize (fl_config (fw_flusher w)) \<le> int (length as)) \<and>
     (rn_aborting (fm_run (fw_mach w)) \<longrightarrow> fl_abort (fw_flusher w) \<and> fm_pc (fw_mach w) = Select)"

text \<open>After a \<open>Close\<close> that timed out the goroutine only gives up what is left.\<close>

definition given_up :: "'s fworld \<Rightarrow> bool" where
  "given_up w \<longleftrightarrow> fl_abort (fw_flusher w) \<and> fl_started (fw_flusher w) \<and> rn_aborting (fm_run (fw_mach w)) \<and>
     fm_pc (fw_mach w) \<in> {Draining, Ended}"

lemma abandon_keeps: "fl_abort (abandon now as f) = fl_abort f" "fl_started (abandon now as f) = fl_started f"
proof -
  have "fl_abort (abandon now as f) = fl_abort f \<and> fl_started (abandon now as f) = fl_started f"
    unfolding abandon_def by (induction as arbitrary: f) (simp_all add: release_lease_def split: prod.splits)
  then show "fl_abort (abandon now as f) = fl_abort f" "fl_started (abandon now as f) = fl_started f" by simp_all
qed

lemma given_up_run:
  assumes "given_up w" "run_step bs env (fw_mach w) = Some m'"
  shows "newly_delivered (fw_mach w) m' = [] \<and> given_up (w\<lparr>fw_mach := m'\<rparr>)"
proof -
  have pc: "fm_pc (fw_mach w) = Draining" using assms by (auto simp: given_up_def run_step_def Let_def)
  obtain f1 going where d: "step_draining bs env (fw_flusher w) = (f1, going)" by force
  have "fl_abort f1 = fl_abort (fw_flusher w) \<and> fl_started f1 = fl_started (fw_flusher w)"
    using d by (auto simp: step_draining_def release_lease_def split: prod.splits option.splits)
  then show ?thesis using assms d pc by (auto simp: run_step_def Let_def given_up_def newly_delivered_def split: if_splits)
qed

text \<open>The sink's side: a state it does not leave by refusing these batches.\<close>

locale refusing_sink =
  fixes bs :: "('e, 'c, 's) BatchSink"
    and idle :: "'s \<Rightarrow> bool"
    and refused :: "bytes list \<Rightarrow> bool"
  assumes refuses: "idle a \<Longrightarrow> refused rs \<Longrightarrow> \<exists>a' x. bs_WriteBatch bs e rs a = Some (a', Some x) \<and> idle a'"
begin

lemma stuck_run:
  assumes "stuck idle refused as w" "run_step bs env (fw_mach w) = Some m'"
  shows "newly_delivered (fw_mach w) m' = [] \<and> (stuck idle refused as (w\<lparr>fw_mach := m'\<rparr>) \<or> given_up (w\<lparr>fw_mach := m'\<rparr>))"
proof -
  let ?m = "fw_mach w"
  note S = assms(1) [unfolded stuck_def]
  have len: "length (rn_pending (fm_run ?m)) \<noteq> 0" using S by auto
  consider "fm_pc ?m = Select" | "fm_pc ?m = Consume" | "fm_pc ?m = Decide" | "fm_pc ?m = Settle" | "fm_pc ?m = Wait"
    using S by blast
  then show ?thesis
  proof cases
    case 1
    define r1 where "r1 = run_select (rv_pick env) (fm_flusher ?m) (fm_run ?m)"
    have r1: "rn_pending r1 = as" "rn_retrying r1 = rn_retrying (fm_run ?m)" "rn_aborting r1 \<Longrightarrow> fl_abort (fm_flusher ?m)"
      using S by (simp_all add: r1_def run_select_def take_abort_def take_stop_def Let_def split: if_splits)
    show ?thesis
    proof (cases "rn_aborting r1")
      case True
      then have "m' = \<lparr>fm_flusher = abandon (rv_now env) as (fm_flusher ?m), fm_run = r1\<lparr>rn_pending := []\<rparr>, fm_pc = Draining\<rparr>"
        using assms(2) 1 r1(1) by (simp add: run_step_def Let_def r1_def [symmetric])
      then show ?thesis using S r1(3) True 1 by (simp add: given_up_def newly_delivered_def abandon_keeps)
    next
      case False
      then have "m' = \<lparr>fm_flusher = fm_flusher ?m, fm_run = r1, fm_pc = Consume\<rparr>"
        using assms(2) 1 by (simp add: run_step_def Let_def r1_def [symmetric])
      then show ?thesis using S r1 False 1 by (simp add: stuck_def newly_delivered_def)
    qed
  next
    case 2
    show ?thesis
      using S assms(2) 2 by (auto simp: run_step_def stuck_def newly_delivered_def run_consume_def Let_def split: if_splits)
  next
    case 3
    show ?thesis
    proof (cases "should_flush (fe_now (rv_flush env)) (fm_flusher ?m) (fm_run ?m)")
      case True
      let ?rs = "payloads (fl_pool (fm_flusher ?m)) (rn_pending (fm_run ?m))"
      have "idle (fl_sink (fm_flusher ?m))" "refused ?rs" using S by simp_all
      then obtain a' e where w: "bs_WriteBatch bs (fe_sink (rv_flush env)) ?rs (fl_sink (fm_flusher ?m)) = Some (a', Some e)"
        "idle a'" using refuses by blast
      show ?thesis
        using S assms(2) 3 True w
        by (auto simp: run_step_def Let_def stuck_def newly_delivered_def run_flush_def flush_failed_def recordError_def)
    next
      case False
      then show ?thesis using S assms(2) 3 by (auto simp: run_step_def Let_def stuck_def newly_delivered_def run_flush_def)
    qed
  next
    case 4
    then show ?thesis using S assms(2) len by (auto simp: run_step_def Let_def stuck_def newly_delivered_def step_settle_def)
  next
    case 5
    then show ?thesis
      using S assms(2) by (auto simp: run_step_def Let_def stuck_def newly_delivered_def run_wait_def take_abort_def take_stop_def
          split: wake.splits if_splits)
  qed
qed

lemma stuck_step:
  assumes "fw_step bs w w'" "stuck idle refused as w \<or> given_up w"
  shows "fw_delivered w' = fw_delivered w \<and> (stuck idle refused as w' \<or> given_up w')"
  using assms(1)
proof (cases rule: fw_step.cases)
  case (fw_run env m')
  have same: "stuck idle refused as w' = stuck idle refused as (w\<lparr>fw_mach := m'\<rparr>)" "given_up w' = given_up (w\<lparr>fw_mach := m'\<rparr>)"
    by (simp_all add: fw_run(1) stuck_def given_up_def)
  show ?thesis using assms(2) stuck_run [OF _ fw_run(2)] given_up_run [OF _ fw_run(2)] unfolding same by (auto simp: fw_run(1))
next
  case fw_start
  then show ?thesis using assms(2) by (auto simp: flusher_Start_def stuck_def given_up_def)
next
  case fw_close
  then show ?thesis using assms(2) by (auto simp: close_queue_def flusher_Start_def Let_def stuck_def given_up_def)
next
  case fw_stop
  then show ?thesis using assms(2) by (auto simp: close_stop_def stuck_def given_up_def)
next
  case (fw_timeout cause)
  then show ?thesis using assms(2) by (auto simp: close_timeout_def Let_def stuck_def given_up_def)
next
  case (fw_pool p')
  have "payloads p' as = payloads (fl_pool (fw_flusher w)) as" if "rn_pending (fm_run (fw_mach w)) = as"
    using that by (intro payloads_rely [OF fw_pool(2)]) (auto simp: fw_owned_def)
  then show ?thesis using assms(2) fw_pool(1) by (auto simp: with_flusher_def stuck_def given_up_def)
qed (use assms(2) in \<open>auto simp: with_flusher_def stuck_def given_up_def\<close>)

lemma stuck_steps:
  assumes "fw_steps bs w w'" "stuck idle refused as w"
  shows "fw_delivered w' = fw_delivered w \<and> (fm_pc (fw_mach w') = Ended \<longrightarrow> fl_abort (fw_flusher w')) \<and>
    (\<not> fl_abort (fw_flusher w') \<longrightarrow> rn_pending (fm_run (fw_mach w')) = as)"
proof -
  have "fw_delivered w' = fw_delivered w \<and> (stuck idle refused as w' \<or> given_up w')"
    using assms(1)
  proof (induction rule: rtranclp_induct)
    case (step u v)
    then show ?case using stuck_step [OF step.hyps(2), of as] by auto
  qed (use assms(2) in simp)
  then show ?thesis by (auto simp: stuck_def given_up_def)
qed

end

subsection \<open>The network sink\<close>

text \<open>\<open>emb\<close> is the error of the client as the flusher sees it.\<close>

definition network_batch_sink :: "(client_error \<Rightarrow> sink_error) \<Rightarrow>
    ((nat \<Rightarrow> attempt_env) \<times> u64 option, nat option, Client option) BatchSink" where
  "network_batch_sink emb = \<lparr>
     bs_WriteBatch = (\<lambda>(env, now) rs a. Some (na_WriteBatch (\<lambda>t rs. case Send env now rs t of (t', _, e) \<Rightarrow> (t', map_option emb e)) rs a)),
     bs_Flush = (\<lambda>_. na_Flush),
     bs_Close = (\<lambda>k. na_Close (\<lambda>t. case Client_Close k t of (t', e) \<Rightarrow> (t', map_option IOError e)))\<rparr>"

text \<open>Records that no frame within the limits can carry; slices have lengths a Go \<open>int\<close> can hold.\<close>

definition unframeable :: "Limits \<Rightarrow> bytes list \<Rightarrow> bool" where
  "unframeable l rs \<longleftrightarrow> go_len rs \<and> (\<forall>r\<in>set rs. go_len r) \<and> \<not> (length rs \<le> unat (MaxRecords l) \<and> records_ok l rs)"

lemma unframeable_encode:
  assumes "unframeable l rs"
  shows "\<exists>e. NewEncodedBatch c b now rs l = Inl e"
proof (cases "Limits_Validate l")
  case None
  show ?thesis
  proof (cases now)
    case (Some nanos)
    have "\<not> frame_ok l c b nanos rs" using assms by (auto simp: unframeable_def frame_ok_def)
    then show ?thesis using NewEncodedBatch_eq [of rs l c b nanos] assms None Some by (simp add: unframeable_def)
  qed (simp add: NewEncodedBatch_def None)
qed (simp add: NewEncodedBatch_def)

text \<open>The client after it has refused such a batch is as ready, or as closed, as before.\<close>

definition idle_client :: "Limits \<Rightarrow> Client option \<Rightarrow> bool" where
  "idle_client l a \<longleftrightarrow> (case a of None \<Rightarrow> True | Some c \<Rightarrow> cl_pending c = None \<and> cc_Limits (cl_config c) = l)"

lemma network_refuses:
  assumes "idle_client l a" "unframeable l rs"
  obtains a' e where "bs_WriteBatch (network_batch_sink emb) env rs a = Some (a', Some e)" "idle_client l a'"
proof (cases a)
  case None
  then show thesis using that [of None ErrTransportNil] by (cases env) (simp add: network_batch_sink_def na_WriteBatch_def idle_client_def)
next
  case (Some c)
  obtain sc now where env: "env = (sc, now)" by force
  have c: "cl_pending c = None" "cc_Limits (cl_config c) = l" using assms(1) Some by (simp_all add: idle_client_def)
  obtain e where "NewEncodedBatch (cc_ClientID (cl_config c)) (next_batchID (cl_batchID c)) now rs l = Inl e"
    using unframeable_encode [OF assms(2)] by blast
  then obtain c' x where "Send sc now rs c = (c', [], Some x)" "cl_pending c' = None" "cc_Limits (cl_config c') = l"
    using c by (cases "cl_closed c") (auto simp: Send_def Let_def)
  then show thesis
    using that [of "Some c'" "emb x"] Some by (simp add: network_batch_sink_def na_WriteBatch_def idle_client_def env)
qed

interpretation net_refusing: refusing_sink "network_batch_sink emb" "idle_client l" "unframeable l" for emb l
  by unfold_locales (meson network_refuses)

text \<open>
  C30. A batch that no frame can carry stops the pipeline: once the flusher over a network sink has a full batch in hand whose records
  exceed the record or payload limit of the protocol, nothing is delivered any more, whatever the network, the collector, the producers
  and \<open>Close\<close> do; the goroutine ends only by a \<open>Close\<close> that times out, and abandons what was accepted.
\<close>

theorem oversized_batch_stops_pipeline:
  assumes "fw_steps (network_batch_sink emb) w w'" "stuck (idle_client l) (unframeable l) as w"
  shows "fw_delivered w' = fw_delivered w \<and> (fm_pc (fw_mach w') = Ended \<longrightarrow> fl_abort (fw_flusher w')) \<and>
    (\<not> fl_abort (fw_flusher w') \<longrightarrow> rn_pending (fm_run (fw_mach w')) = as)"
  by (rule net_refusing.stuck_steps [OF assms])

subsection \<open>A file that another writer shares\<close>

text \<open>The file sink holds an unfinished batch other than the flusher's.\<close>

definition foreign_batch :: "bytes list \<Rightarrow> FileSink \<Rightarrow> bool" where
  "foreign_batch rs0 s \<longleftrightarrow> bc_active (fs_pending s) \<and> bc_records (fs_pending s) = rs0"

lemma file_refuses:
  assumes "foreign_batch rs0 s" "rs \<noteq> rs0"
  shows "\<exists>s' x. fs_WriteBatch env rs s = Some (s', Some x) \<and> foreign_batch rs0 s'"
proof (cases "fs_file s = None \<or> c_closed (fs_counters s)")
  case False
  have "length rs0 \<noteq> length rs \<or> (\<exists>i < length rs. rs0 ! i \<noteq> rs ! i)" using assms(2) nth_equalityI by metis
  then have "cursor_begin rs (fs_pending s) = (fs_pending s, Some ErrBatchChanged)"
    using assms(1) by (auto simp: cursor_begin_def foreign_batch_def)
  then show ?thesis using False assms(1) by (simp add: fs_WriteBatch_def fs_fail_def foreign_batch_def)
qed (use assms(1) in \<open>simp add: fs_WriteBatch_def\<close>)

interpretation file_refusing: refusing_sink file_batch_sink "foreign_batch rs0" "\<lambda>rs. rs \<noteq> rs0" for rs0
  by unfold_locales (simp add: file_batch_sink_def, meson file_refuses)

text \<open>
  C31. An unfinished batch of another writer stops the pipeline: the daemon gives its collector and its appender the same file sink. Once a batch of
  the collector has failed in it (and the collector will not write that batch again), the appender's flusher with any other full batch in hand
  delivers nothing any more; it ends only by a \<open>Close\<close> that times out.
\<close>

theorem foreign_batch_stops_pipeline:
  assumes "fw_steps file_batch_sink w w'" "stuck (foreign_batch rs0) (\<lambda>rs. rs \<noteq> rs0) as w"
  shows "fw_delivered w' = fw_delivered w \<and> (fm_pc (fw_mach w') = Ended \<longrightarrow> fl_abort (fw_flusher w')) \<and>
    (\<not> fl_abort (fw_flusher w') \<longrightarrow> rn_pending (fm_run (fw_mach w')) = as)"
  by (rule file_refusing.stuck_steps [OF assms])

subsection \<open>A concrete batch\<close>

text \<open>Limits of five payload bytes; a record of two bytes needs six with its length prefix. Batches of one record.\<close>

definition tight_limits :: Limits where
  "tight_limits = \<lparr>MaxRecords = 8, MaxPayload = 5, MaxEventBytes = 5\<rparr>"

definition tight_client :: Client where
  "tight_client = example_client\<lparr>cl_config := (cl_config example_client)\<lparr>cc_Limits := tight_limits\<rparr>\<rparr>"

definition tight_flusher :: "Client option Flusher" where
  "tight_flusher = projr (flusher_New (Some ring4) (Some quiet_pool) (Some (Some tight_client)) (demo_flusher_config\<lparr>fq_BatchSize := 1\<rparr>))"

definition tight_world :: "Client option fworld" where
  "tight_world = (world_of tight_flusher)\<lparr>fw_mach := \<lparr>fm_flusher = tight_flusher\<lparr>fl_started := True\<rparr>,
     fm_run = (run_locals (fl_config tight_flusher))\<lparr>rn_pending := [0]\<rparr>, fm_pc = Decide\<rparr>, fw_accepted := [(0, [5, 6])]\<rparr>"

lemma tight_client_New: "NewClient (Inl 0) (cl_config tight_client) = Inr tight_client"
  by (simp add: tight_client_def NewClient_def example_client_def tight_limits_def positive_or_def Limits_Validate_def zero_limits_def Let_def Second_def)

lemma tight_world_stuck: "stuck (idle_client tight_limits) (unframeable tight_limits) [0] tight_world"
proof -
  have f: "fl_pool tight_flusher = quiet_pool" "fl_sink tight_flusher = Some tight_client" "fq_BatchSize (fl_config tight_flusher) = 1"
    by (simp_all add: tight_flusher_def flusher_New_def flusher_normalized_def flusher_defaults_def demo_flusher_config_def
      Millisecond_def Second_def)
  show ?thesis
    by (simp add: stuck_def tight_world_def run_locals_def f payloads_def quiet_pool_facts(4) idle_client_def tight_client_def example_client_def
        unframeable_def go_len_def records_ok_def tight_limits_def)
qed

lemma oversized_batch_stops_pipeline_witness:
  "\<exists>w'. fw_steps (network_batch_sink (\<lambda>_. IOError 0)) tight_world w' \<and> q_closed (fl_queue (fw_flusher w')) \<and>
     fw_accepted w' = [(0, [5, 6])] \<and> fw_delivered w' = []"
proof -
  let ?w = "tight_world\<lparr>fw_mach := close_queue (fw_mach tight_world)\<rparr>"
  have s: "fw_steps (network_batch_sink (\<lambda>_. IOError 0)) tight_world ?w" using fw_close by (rule r_into_rtranclp)
  have "fw_delivered ?w = []" using oversized_batch_stops_pipeline [OF s tight_world_stuck] by (simp add: tight_world_def world_of_def)
  then show ?thesis using s
    by (intro exI [of _ ?w]) (simp add: tight_world_def world_of_def close_queue_def flusher_Start_def Let_def ring_Close_def)
qed

text \<open>The collector's first write of two records fails after one byte; the flusher has a third record in hand.\<close>

definition shared_file :: FileSink where
  "shared_file = fst (the (fs_WriteBatch (hd demo_file_envs) demo_batch demo_file))"

lemma shared_file_write: "\<exists>e. fs_WriteBatch (hd demo_file_envs) demo_batch demo_file = Some (shared_file, Some e)" "foreign_batch demo_batch shared_file"
  by (simp_all add: shared_file_def file_eval sink_eval foreign_batch_def)

definition shared_world :: "FileSink fworld" where
  "shared_world = (let f = projr (flusher_New (Some ring4) (Some quiet_pool) (Some shared_file) (demo_flusher_config\<lparr>fq_BatchSize := 1\<rparr>))
     in (world_of f)\<lparr>fw_mach := \<lparr>fm_flusher = f\<lparr>fl_started := True\<rparr>, fm_run = (run_locals (fl_config f))\<lparr>rn_pending := [0]\<rparr>, fm_pc = Decide\<rparr>,
       fw_accepted := [(0, [5, 6])]\<rparr>)"

lemma shared_world_stuck: "stuck (foreign_batch demo_batch) (\<lambda>rs. rs \<noteq> demo_batch) [0] shared_world"
  by (simp add: stuck_def shared_world_def Let_def run_locals_def flusher_New_def flusher_normalized_def flusher_defaults_def demo_flusher_config_def
      Millisecond_def Second_def payloads_def quiet_pool_facts(4) shared_file_write(2)) (simp add: demo_batch_def)

lemma foreign_batch_stops_pipeline_witness:
  "\<exists>w'. fw_steps file_batch_sink shared_world w' \<and> q_closed (fl_queue (fw_flusher w')) \<and> fw_accepted w' = [(0, [5, 6])] \<and> fw_delivered w' = []"
proof -
  let ?w = "shared_world\<lparr>fw_mach := close_queue (fw_mach shared_world)\<rparr>"
  have s: "fw_steps file_batch_sink shared_world ?w" using fw_close by (rule r_into_rtranclp)
  have "fw_delivered ?w = []" using foreign_batch_stops_pipeline [OF s shared_world_stuck] by (simp add: shared_world_def world_of_def Let_def)
  then show ?thesis using s
    by (intro exI [of _ ?w]) (simp add: shared_world_def world_of_def close_queue_def flusher_Start_def Let_def ring_Close_def)
qed

end
