(* ===== verification/Float64.thy ===== *)
theory Float64
  imports Complex_Main Prelude "HOL-Library.Signed_Division"
begin

text \<open>
  The arithmetic of Go's \<open>float64\<close> on the values the program computes: finite numbers far from overflow and
  underflow. A float is the rational number it stands for; an operation is the exact one, rounded to a
  significand of 53 bits, to the even one of two that are equally near.
\<close>

type_synonym float64 = rat

definition pow2 :: "int \<Rightarrow> rat" where
  "pow2 e = (if 0 \<le> e then 2 ^ nat e else 1 / 2 ^ nat (- e))"

definition round_even :: "rat \<Rightarrow> int" where
  "round_even q = (let n = \<lfloor>q\<rfloor>; rest = q - of_int n in if rest < 1 / 2 \<or> rest = 1 / 2 \<and> even n then n else n + 1)"

text \<open>The number of binary digits.\<close>

function bit_len :: "int \<Rightarrow> int" where
  "bit_len n = (if n \<le> 0 then 0 else 1 + bit_len (n div 2))"
  by pat_completeness auto
termination by (relation "measure nat") auto

declare bit_len.simps [simp del]

text \<open>The exponent of the last bit of the significand of a positive number.\<close>

definition ulp_exponent :: "rat \<Rightarrow> int" where
  "ulp_exponent x = (case quotient_of x of (n, d) \<Rightarrow>
     (let k = bit_len n - bit_len d in if x < pow2 k then k - 53 else k - 52))"

definition fl64 :: "rat \<Rightarrow> float64" where
  "fl64 x = (if x = 0 then 0
     else let e = ulp_exponent (abs x) in sgn x * of_int (round_even (abs x / pow2 e)) * pow2 e)"

definition float64_of :: "u64 \<Rightarrow> float64" where
  "float64_of w = fl64 (of_nat (unat w))"

definition fmul :: "float64 \<Rightarrow> float64 \<Rightarrow> float64" where
  "fmul a b = fl64 (a * b)"

definition fdiv :: "float64 \<Rightarrow> float64 \<Rightarrow> float64" where
  "fdiv a b = fl64 (a / b)"

definition fadd :: "float64 \<Rightarrow> float64 \<Rightarrow> float64" where
  "fadd a b = fl64 (a + b)"

text \<open>The conversion \<open>uint64(f)\<close> of a float that is not negative drops the fraction.\<close>

definition u64_of_float :: "float64 \<Rightarrow> u64" where
  "u64_of_float f = of_int \<lfloor>f\<rfloor>"

text \<open>\<open>Duration.Seconds\<close>.\<close>

definition Duration_Seconds :: "duration \<Rightarrow> float64" where
  "Duration_Seconds d = (let sec = sint d sdiv 1000000000; nsec = sint d smod 1000000000
     in fadd (fl64 (of_int sec)) (fdiv (fl64 (of_int nsec)) 1000000000))"

lemma pow2_pos [simp]: "0 < pow2 e"
  by (simp add: pow2_def)

lemma round_even_near: "abs (of_int (round_even q) - q) \<le> 1 / 2"
proof -
  have "of_int \<lfloor>q\<rfloor> \<le> q" "q < of_int \<lfloor>q\<rfloor> + 1" by linarith+
  then show ?thesis by (auto simp: round_even_def Let_def)
qed

lemma round_even_nonneg: "0 \<le> q \<Longrightarrow> 0 \<le> round_even q"
  by (simp add: round_even_def Let_def)

lemma fl64_nonneg: "0 \<le> x \<Longrightarrow> 0 \<le> fl64 x"
  using round_even_nonneg [of "abs x / pow2 (ulp_exponent (abs x))"] by (simp add: fl64_def Let_def sgn_if less_imp_le)

lemma fl64_zero [simp]: "fl64 0 = 0"
  by (simp add: fl64_def)

end
