(* ===== verification/Telemetry.thy ===== *)
theory Telemetry
  imports Float64
begin

text \<open>
  The telemetry sampler (\<^verbatim>\<open>internal/telemetry/telemetry.go\<close>): snapshots, the one sampling goroutine \<open>Run\<close>, and any
  number of subscribers with their channels of capacity one. Every access to the atomics, the mutex and a channel is a step.
  The metrics read from the program and the runtime are inputs of a step; the fields of a snapshot that are only
  copied from them are kept in the records of the source.
\<close>

subsection \<open>Snapshots\<close>

record RingMetrics =
  rm_Capacity :: u64
  rm_Depth :: u64
  rm_WatermarkPercent :: float64
  rm_HighWatermark :: u64
  rm_PublishAttempts :: u64
  rm_Accepted :: u64
  rm_Consumed :: u64
  rm_DroppedTotal :: u64
  rm_DroppedByLevel :: "string \<rightharpoonup> u64"
  rm_PublishRate :: float64
  rm_ConsumeRate :: float64

record FlusherMetrics =
  fm_Batches :: u64
  fm_Records :: u64
  fm_Bytes :: u64
  fm_InFlight :: u64
  fm_LastBatchSize :: int
  fm_FlushP95Micros :: float64
  fm_Errors :: u64
  fm_Mode :: string

record PoolClass =
  pc_Size :: int
  pc_InUse :: u64
  pc_Available :: u64

record PoolMetrics =
  pm_BorrowedTotal :: u64
  pm_ReturnedTotal :: u64
  pm_Outstanding :: u64
  pm_Overdue :: u64
  pm_DoubleReturns :: u64
  pm_InvalidReturns :: u64
  pm_HitPercent :: float64
  pm_Classes :: "PoolClass list"

record CollectorMetrics =
  cm_Connections :: u64
  cm_AcceptedBatches :: u64
  cm_DuplicateBatches :: u64
  cm_InvalidFrames :: u64
  cm_Overloaded :: u64
  cm_SinkErrors :: u64

record RuntimeMetrics =
  tm_Goroutines :: int
  tm_HeapBytes :: u64
  tm_DemoMode :: bool
  tm_AuditMode :: string

record StatusMetrics =
  sm_Sink :: string
  sm_Collector :: string
  sm_Transport :: string

record Snapshot =
  sn_Sequence :: u64
  sn_SampledAt :: int
  sn_Ring :: RingMetrics
  sn_Flusher :: FlusherMetrics
  sn_Pool :: PoolMetrics
  sn_Collector :: CollectorMetrics
  sn_Runtime :: RuntimeMetrics
  sn_Status :: StatusMetrics

record RawSnapshot =
  rs_Ring :: RingMetrics
  rs_Flusher :: FlusherMetrics
  rs_Pool :: PoolMetrics
  rs_Collector :: CollectorMetrics
  rs_DemoMode :: bool
  rs_AuditMode :: string
  rs_Status :: StatusMetrics

definition counterRate :: "u64 \<Rightarrow> u64 \<Rightarrow> float64 \<Rightarrow> float64" where
  "counterRate current previous seconds = (if current < previous then 0 else fdiv (float64_of (current - previous)) seconds)"

definition normalizeLevels :: "(string \<rightharpoonup> u64) \<Rightarrow> string \<rightharpoonup> u64" where
  "normalizeLevels m = [''debug'' \<mapsto> 0, ''info'' \<mapsto> 0, ''warn'' \<mapsto> 0, ''error'' \<mapsto> 0] ++ m"

text \<open>The copy has maps and slices of its own; a missing slice and an empty one are the empty list.\<close>

definition cloneSnapshot :: "Snapshot \<Rightarrow> Snapshot" where
  "cloneSnapshot s = s\<lparr>sn_Ring := (sn_Ring s)\<lparr>rm_DroppedByLevel := normalizeLevels (rm_DroppedByLevel (sn_Ring s))\<rparr>\<rparr>"

text \<open>The rates since the previous snapshot; \<open>now\<close> and \<open>SampledAt\<close> are nanoseconds, their difference is a duration that saturates.\<close>

definition time_Sub :: "int \<Rightarrow> int \<Rightarrow> duration" where
  "time_Sub t u = word_of_int (max (- (2 ^ 63)) (min (2 ^ 63 - 1) (t - u)))"

definition ring_rates :: "Snapshot option \<Rightarrow> int \<Rightarrow> RingMetrics \<Rightarrow> RingMetrics" where
  "ring_rates previous now r =
     (case previous of None \<Rightarrow> r | Some p \<Rightarrow>
        (let seconds = Duration_Seconds (time_Sub now (sn_SampledAt p)) in
         if seconds > 0 then r\<lparr>rm_PublishRate := counterRate (rm_Accepted r) (rm_Accepted (sn_Ring p)) seconds,
             rm_ConsumeRate := counterRate (rm_Consumed r) (rm_Consumed (sn_Ring p)) seconds\<rparr>
         else r))"

definition ring_watermark :: "RingMetrics \<Rightarrow> RingMetrics" where
  "ring_watermark r = (if rm_Capacity r > 0
     then r\<lparr>rm_WatermarkPercent := fdiv (fmul (float64_of (rm_Depth r)) 100) (float64_of (rm_Capacity r))\<rparr> else r)"

text \<open>What one sample meets: the source's metrics, the clock, the runtime's numbers.\<close>

record sample_env =
  se_raw :: RawSnapshot
  se_now :: int
  se_goroutines :: int
  se_heap :: u64

definition make_snapshot :: "sample_env \<Rightarrow> Snapshot option \<Rightarrow> u64 \<Rightarrow> Snapshot" where
  "make_snapshot e previous sq =
     (let raw = se_raw e; ring = ring_rates previous (se_now e) (ring_watermark (rs_Ring raw));
          ring1 = ring\<lparr>rm_DroppedByLevel := normalizeLevels (rm_DroppedByLevel ring)\<rparr>
      in \<lparr>sn_Sequence = sq, sn_SampledAt = se_now e, sn_Ring = ring1, sn_Flusher = rs_Flusher raw, sn_Pool = rs_Pool raw,
          sn_Collector = rs_Collector raw, sn_Runtime = \<lparr>tm_Goroutines = se_goroutines e, tm_HeapBytes = se_heap e,
            tm_DemoMode = rs_DemoMode raw, tm_AuditMode = rs_AuditMode raw\<rparr>, sn_Status = rs_Status raw\<rparr>)"

lemma normalizeLevels_idem [simp]: "normalizeLevels (normalizeLevels m) = normalizeLevels m"
  by (auto simp: normalizeLevels_def map_add_def fun_eq_iff split: option.splits)

lemma make_snapshot_sequence [simp]: "sn_Sequence (make_snapshot e p sq) = sq"
  by (simp add: make_snapshot_def Let_def)

lemma cloneSnapshot_sequence [simp]: "sn_Sequence (cloneSnapshot s) = sn_Sequence s"
  by (simp add: cloneSnapshot_def)

lemma clone_make [simp]: "cloneSnapshot (make_snapshot e p sq) = make_snapshot e p sq"
  by (simp add: cloneSnapshot_def make_snapshot_def Let_def)

lemma cloneSnapshot_idem [simp]: "cloneSnapshot (cloneSnapshot s) = cloneSnapshot s"
  by (simp add: cloneSnapshot_def)

subsection \<open>The sampler\<close>

text \<open>
  Where the sampling goroutine is: waiting for its ticker, before it stores the snapshot, before it takes the mutex, or
  inside \<open>broadcast\<close> with the subscribers still to serve; for the one being served, before the first, second or third
  \<open>select\<close>. \<open>SamplerStopped\<close>: its context is done.
\<close>

datatype cast_pc = NextSub | DrainOld u64 | SendAgain u64

datatype sample_pc = SamplerWaits | SampleStore Snapshot | SampleLock Snapshot | Broadcast Snapshot "u64 set" cast_pc | SamplerStopped

text \<open>
  A call of \<open>Subscribe\<close> after its registration: before it reads the current snapshot, before it sends it, blocked in
  the send, or returned; then the subscriber may receive, until its context is done and its entry deleted.
\<close>

datatype sub_pc = NoSub | LoadCurrent | SendFirst Snapshot | SendBlocked Snapshot | SubOpen | SubLeft

record Sampler =
  sp_interval :: duration
  sp_maxClients :: int
  sp_sequence :: u64
  sp_current :: "Snapshot option"
  sp_subscribers :: "u64 set"
  sp_nextSubID :: u64
  sp_buffer :: "u64 \<Rightarrow> Snapshot option"
  sp_pc :: sample_pc
  sp_sub :: "u64 \<Rightarrow> sub_pc"
  sp_got :: "u64 \<Rightarrow> Snapshot list"

definition NewSampler :: "bool \<Rightarrow> duration \<Rightarrow> int \<Rightarrow> sample_env \<Rightarrow> Sampler option" where
  "NewSampler source interval maxClients e =
     (if \<not> source \<or> sint interval \<le> 0 \<or> maxClients \<le> 0 then None
      else Some \<lparr>sp_interval = interval, sp_maxClients = maxClients, sp_sequence = 1,
        sp_current = Some (cloneSnapshot (make_snapshot e None 1)), sp_subscribers = {}, sp_nextSubID = 0, sp_buffer = (\<lambda>_. None),
        sp_pc = SamplerWaits, sp_sub = (\<lambda>_. NoSub), sp_got = (\<lambda>_. [])\<rparr>)"

text \<open>\<open>Current\<close>; the zero snapshot is given by the caller, it is never needed after \<open>NewSampler\<close>.\<close>

definition sampler_Current :: "Snapshot \<Rightarrow> Sampler \<Rightarrow> Snapshot" where
  "sampler_Current zero s = (case sp_current s of None \<Rightarrow> zero | Some c \<Rightarrow> cloneSnapshot c)"

definition unlocked :: "Sampler \<Rightarrow> bool" where
  "unlocked s \<longleftrightarrow> (case sp_pc s of Broadcast _ _ _ \<Rightarrow> False | _ \<Rightarrow> True)"

text \<open>
  A receive from channel \<open>k\<close>, which holds a value: a send that is blocked on it completes, and its \<open>Subscribe\<close> returns.
\<close>

definition channel_receive :: "u64 \<Rightarrow> Sampler \<Rightarrow> Sampler" where
  "channel_receive k s = (case sp_sub s k of
       SendBlocked v \<Rightarrow> s\<lparr>sp_buffer := (sp_buffer s)(k \<mapsto> v), sp_sub := (sp_sub s)(k := SubOpen)\<rparr>
     | _ \<Rightarrow> s\<lparr>sp_buffer := (sp_buffer s)(k := None)\<rparr>)"

text \<open>One step of \<open>sample\<close>, called with the ticker's time; \<open>k\<close> is the subscriber that the range over the map gives next.\<close>

definition sample_step :: "sample_env \<Rightarrow> u64 \<Rightarrow> Sampler \<Rightarrow> Sampler option" where
  "sample_step e k s = (case sp_pc s of
       SamplerWaits \<Rightarrow> Some (s\<lparr>sp_sequence := sp_sequence s + 1, sp_pc := SampleStore (make_snapshot e (sp_current s) (sp_sequence s + 1))\<rparr>)
     | SampleStore v \<Rightarrow> Some (s\<lparr>sp_current := Some (cloneSnapshot v), sp_pc := SampleLock v\<rparr>)
     | SampleLock v \<Rightarrow> Some (s\<lparr>sp_pc := Broadcast v (sp_subscribers s) NextSub\<rparr>)
     | Broadcast v todo NextSub \<Rightarrow>
         if todo = {} then Some (s\<lparr>sp_pc := SamplerWaits\<rparr>)
         else if k \<notin> todo then None
         else if sp_buffer s k = None then Some (s\<lparr>sp_buffer := (sp_buffer s)(k \<mapsto> cloneSnapshot v), sp_pc := Broadcast v (todo - {k}) NextSub\<rparr>)
         else Some (s\<lparr>sp_pc := Broadcast v (todo - {k}) (DrainOld k)\<rparr>)
     | Broadcast v todo (DrainOld j) \<Rightarrow>
         (let s1 = (if sp_buffer s j = None then s else channel_receive j s) in Some (s1\<lparr>sp_pc := Broadcast v todo (SendAgain j)\<rparr>))
     | Broadcast v todo (SendAgain j) \<Rightarrow>
         (let s1 = (if sp_buffer s j = None then s\<lparr>sp_buffer := (sp_buffer s)(j \<mapsto> cloneSnapshot v)\<rparr> else s)
          in Some (s1\<lparr>sp_pc := Broadcast v todo NextSub\<rparr>))
     | SamplerStopped \<Rightarrow> None)"

text \<open>The registration in \<open>Subscribe\<close>: \<open>Inl\<close> is \<open>ErrTooManySubscribers\<close>, \<open>Inr\<close> the number of the new subscriber.\<close>

definition subscribe_begin :: "Sampler \<Rightarrow> Sampler \<times> (unit, u64) result" where
  "subscribe_begin s =
     (if int (card (sp_subscribers s)) \<ge> sp_maxClients s then (s, Inl ())
      else let k = sp_nextSubID s + 1
           in (s\<lparr>sp_nextSubID := k, sp_subscribers := insert k (sp_subscribers s), sp_buffer := (sp_buffer s)(k := None),
                 sp_sub := (sp_sub s)(k := LoadCurrent), sp_got := (sp_got s)(k := [])\<rparr>, Inr k))"

definition subscribe_step :: "Snapshot \<Rightarrow> u64 \<Rightarrow> Sampler \<Rightarrow> Sampler option" where
  "subscribe_step zero k s = (case sp_sub s k of
       LoadCurrent \<Rightarrow> Some (s\<lparr>sp_sub := (sp_sub s)(k := SendFirst (sampler_Current zero s))\<rparr>)
     | SendFirst v \<Rightarrow> if sp_buffer s k = None then Some (s\<lparr>sp_buffer := (sp_buffer s)(k \<mapsto> v), sp_sub := (sp_sub s)(k := SubOpen)\<rparr>)
         else Some (s\<lparr>sp_sub := (sp_sub s)(k := SendBlocked v)\<rparr>)
     | _ \<Rightarrow> None)"

text \<open>The subscriber receives; the goroutine started by \<open>Subscribe\<close> deletes its entry.\<close>

definition receive_step :: "u64 \<Rightarrow> Sampler \<Rightarrow> Sampler option" where
  "receive_step k s = (case (sp_sub s k, sp_buffer s k) of
       (SubOpen, Some v) \<Rightarrow> Some ((channel_receive k s)\<lparr>sp_got := (sp_got s)(k := sp_got s k @ [v])\<rparr>)
     | _ \<Rightarrow> None)"

definition leave_step :: "u64 \<Rightarrow> Sampler \<Rightarrow> Sampler" where
  "leave_step k s = s\<lparr>sp_subscribers := sp_subscribers s - {k}, sp_sub := (sp_sub s)(k := SubLeft)\<rparr>"

inductive tele_step :: "Snapshot \<Rightarrow> Sampler \<Rightarrow> Sampler \<Rightarrow> bool" for zero where
  ts_sample: "sample_step e k s = Some s' \<Longrightarrow> tele_step zero s s'"
| ts_stop: "sp_pc s = SamplerWaits \<Longrightarrow> tele_step zero s (s\<lparr>sp_pc := SamplerStopped\<rparr>)"
| ts_register: "unlocked s \<Longrightarrow> subscribe_begin s = (s', r) \<Longrightarrow> tele_step zero s s'"
| ts_subscribe: "subscribe_step zero k s = Some s' \<Longrightarrow> tele_step zero s s'"
| ts_receive: "receive_step k s = Some s' \<Longrightarrow> tele_step zero s s'"
| ts_leave: "unlocked s \<Longrightarrow> sp_sub s k = SubOpen \<Longrightarrow> tele_step zero s (leave_step k s)"

abbreviation tele_steps :: "Snapshot \<Rightarrow> Sampler \<Rightarrow> Sampler \<Rightarrow> bool" where
  "tele_steps zero \<equiv> (tele_step zero)\<^sup>*\<^sup>*"

subsection \<open>What holds in every run\<close>

definition snapshot_no :: "Snapshot \<Rightarrow> nat" where
  "snapshot_no v = unat (sn_Sequence v)"

definition current_no :: "Sampler \<Rightarrow> nat" where
  "current_no s = snapshot_no (the (sp_current s))"

lemma snapshot_no_simps [simp]: "snapshot_no (cloneSnapshot v) = snapshot_no v" "snapshot_no (make_snapshot e p sq) = unat sq"
  by (simp_all add: snapshot_no_def)

text \<open>Where the numbers of the goroutine's snapshot, of the current one and the counter stand to each other.\<close>

definition sample_inv :: "Sampler \<Rightarrow> bool" where
  "sample_inv s \<longleftrightarrow> sp_current s \<noteq> None \<and> (case sp_pc s of
       SampleStore v \<Rightarrow> snapshot_no v = unat (sp_sequence s) \<and> Suc (current_no s) = unat (sp_sequence s)
     | SampleLock v \<Rightarrow> snapshot_no v = unat (sp_sequence s) \<and> current_no s = unat (sp_sequence s)
     | Broadcast v todo ph \<Rightarrow> snapshot_no v = unat (sp_sequence s) \<and> current_no s = unat (sp_sequence s) \<and> todo \<subseteq> sp_subscribers s
     | _ \<Rightarrow> current_no s = unat (sp_sequence s))"

text \<open>Subscriber \<open>k\<close> receives in order; nothing on its way to it is newer than the current snapshot \<open>c\<close>.\<close>

definition sub_inv :: "nat \<Rightarrow> Snapshot option \<Rightarrow> sub_pc \<Rightarrow> Snapshot list \<Rightarrow> bool" where
  "sub_inv c b pc got \<longleftrightarrow> sorted (map snapshot_no got) \<and> (\<forall>x\<in>set got. snapshot_no x \<le> c) \<and>
     (case b of None \<Rightarrow> True | Some v \<Rightarrow> snapshot_no v \<le> c \<and> (\<forall>x\<in>set got. snapshot_no x \<le> snapshot_no v)) \<and>
     (case pc of SendFirst v \<Rightarrow> got = [] \<and> snapshot_no v \<le> c | SendBlocked v \<Rightarrow> got = [] \<and> snapshot_no v \<le> c \<and> b \<noteq> None
       | LoadCurrent \<Rightarrow> got = [] | _ \<Rightarrow> True)"

definition tele_inv :: "nat \<Rightarrow> Sampler \<Rightarrow> bool" where
  "tele_inv n s \<longleftrightarrow> finite (sp_subscribers s) \<and> int (card (sp_subscribers s)) \<le> sp_maxClients s \<and> unat (sp_sequence s) \<le> Suc n \<and>
     sample_inv s \<and> (\<forall>k. sub_inv (current_no s) (sp_buffer s k) (sp_sub s k) (sp_got s k))"

lemma sub_inv_mono: "sub_inv c b pc got \<Longrightarrow> c \<le> c' \<Longrightarrow> sub_inv c' b pc got"
  by (auto simp: sub_inv_def split: sub_pc.splits option.splits intro: order_trans)

lemma sub_inv_put:
  assumes "sub_inv c b pc got" "snapshot_no v = c"
  shows "sub_inv c (Some v) pc got"
  using assms by (auto simp: sub_inv_def split: sub_pc.splits)

lemma sub_inv_receive:
  assumes "sub_inv c (Some v) SubOpen got"
  shows "sub_inv c None SubOpen (got @ [v])"
  using assms by (auto simp: sub_inv_def sorted_append)

lemma channel_receive_fields [simp]:
  "sp_pc (channel_receive k s) = sp_pc s" "sp_current (channel_receive k s) = sp_current s" "sp_subscribers (channel_receive k s) = sp_subscribers s"
  "sp_sequence (channel_receive k s) = sp_sequence s" "sp_maxClients (channel_receive k s) = sp_maxClients s"
  "sp_got (channel_receive k s) = sp_got s" "current_no (channel_receive k s) = current_no s" "sp_nextSubID (channel_receive k s) = sp_nextSubID s"
  by (simp_all add: channel_receive_def current_no_def split: sub_pc.splits)

lemma channel_receive_sub:
  assumes "\<forall>k. sub_inv c (sp_buffer s k) (sp_sub s k) (sp_got s k)"
  shows "\<forall>k. sub_inv c (sp_buffer (channel_receive j s) k) (sp_sub (channel_receive j s) k) (sp_got s k)"
proof
  fix k
  show "sub_inv c (sp_buffer (channel_receive j s) k) (sp_sub (channel_receive j s) k) (sp_got s k)"
    using assms [rule_format, of k] by (cases "sp_sub s j") (auto simp: channel_receive_def sub_inv_def split: option.splits)
qed

lemma sample_tele_inv:
  assumes "tele_inv n s" "sample_step e k s = Some s'" "n < 2 ^ 64 - 2"
  shows "tele_inv (Suc n) s'"
proof -
  note I = assms(1) [unfolded tele_inv_def]
  have sub: "sub_inv (current_no s) (sp_buffer s k) (sp_sub s k) (sp_got s k)" for k using I by simp
  show ?thesis
  proof (cases "sp_pc s")
    case SamplerWaits
    have "unat (sp_sequence s + 1) = Suc (unat (sp_sequence s))" using I assms(3) by (simp add: unat_word_ariths)
    then show ?thesis using assms(2) SamplerWaits I
      by (auto simp: sample_step_def tele_inv_def sample_inv_def current_no_def)
  next
    case (SampleStore v)
    have "current_no s \<le> snapshot_no v" using I SampleStore by (simp add: sample_inv_def)
    then show ?thesis using assms(2) SampleStore I sub_inv_mono [OF sub]
      by (auto simp: sample_step_def tele_inv_def sample_inv_def current_no_def)
  next
    case (SampleLock v)
    then show ?thesis using assms(2) I by (auto simp: sample_step_def tele_inv_def sample_inv_def current_no_def)
  next
    case (Broadcast v todo ph)
    have v: "snapshot_no (cloneSnapshot v) = current_no s" using I Broadcast by (simp add: sample_inv_def)
    show ?thesis
    proof (cases ph)
      case NextSub
      then show ?thesis using assms(2) Broadcast I sub_inv_put [OF sub v]
        by (auto simp: sample_step_def tele_inv_def sample_inv_def current_no_def split: if_splits)
    next
      case (DrainOld j)
      show ?thesis using assms(2) Broadcast DrainOld I channel_receive_sub [of "current_no s" s j]
        by (auto simp: sample_step_def tele_inv_def sample_inv_def current_no_def Let_def split: if_splits)
    next
      case (SendAgain j)
      then show ?thesis using assms(2) Broadcast I sub_inv_put [OF sub v]
        by (auto simp: sample_step_def tele_inv_def sample_inv_def current_no_def Let_def split: if_splits)
    qed
  next
    case SamplerStopped
    then show ?thesis using assms(2) by (simp add: sample_step_def)
  qed
qed

lemma current_no_update [simp]: "current_no (s\<lparr>sp_buffer := a\<rparr>) = current_no s" "current_no (s\<lparr>sp_sub := b\<rparr>) = current_no s"
  "current_no (s\<lparr>sp_got := c\<rparr>) = current_no s" "current_no (s\<lparr>sp_pc := d\<rparr>) = current_no s" "current_no (s\<lparr>sp_subscribers := g\<rparr>) = current_no s"
  "current_no (s\<lparr>sp_nextSubID := h\<rparr>) = current_no s"
  by (simp_all add: current_no_def)

lemma sampler_Current_no: "sp_current s \<noteq> None \<Longrightarrow> snapshot_no (sampler_Current zero s) = current_no s"
  by (auto simp: sampler_Current_def current_no_def)

lemma sample_inv_subs:
  assumes "sample_inv s" "unlocked s"
  shows "sample_inv (s\<lparr>sp_subscribers := A\<rparr>)"
  using assms by (auto simp: sample_inv_def unlocked_def split: sample_pc.splits)

lemma register_inv:
  assumes "tele_inv n s" "unlocked s" "subscribe_begin s = (s', r)"
  shows "tele_inv (Suc n) s'"
proof (cases "int (card (sp_subscribers s)) \<ge> sp_maxClients s")
  case True
  then show ?thesis using assms by (auto simp: subscribe_begin_def tele_inv_def)
next
  case False
  let ?k = "sp_nextSubID s + 1"
  note I = assms(1) [unfolded tele_inv_def]
  have s': "s' = s\<lparr>sp_nextSubID := ?k, sp_subscribers := insert ?k (sp_subscribers s), sp_buffer := (sp_buffer s)(?k := None),
                 sp_sub := (sp_sub s)(?k := LoadCurrent), sp_got := (sp_got s)(?k := [])\<rparr>"
    using assms(3) False by (simp add: subscribe_begin_def Let_def)
  have "card (insert ?k (sp_subscribers s)) \<le> Suc (card (sp_subscribers s))" using I by (simp add: card_insert_if)
  moreover have "sample_inv s'" using sample_inv_subs [OF _ assms(2)] I by (auto simp: s' sample_inv_def split: sample_pc.splits)
  ultimately show ?thesis using I False by (auto simp: s' tele_inv_def sub_inv_def)
qed

lemma sample_inv_same:
  assumes "sample_inv s" "sp_current s' = sp_current s" "sp_pc s' = sp_pc s" "sp_sequence s' = sp_sequence s" "sp_subscribers s' = sp_subscribers s"
  shows "sample_inv s'"
  using assms by (auto simp: sample_inv_def current_no_def split: sample_pc.splits)

lemma tele_inv_one:
  assumes "tele_inv n s" "sp_current s' = sp_current s" "sp_pc s' = sp_pc s" "sp_sequence s' = sp_sequence s" "sp_subscribers s' = sp_subscribers s"
    "sp_maxClients s' = sp_maxClients s"
    "\<And>j. j \<noteq> k \<Longrightarrow> sp_buffer s' j = sp_buffer s j \<and> sp_sub s' j = sp_sub s j \<and> sp_got s' j = sp_got s j"
    "sub_inv (current_no s) (sp_buffer s' k) (sp_sub s' k) (sp_got s' k)"
  shows "tele_inv (Suc n) s'"
proof -
  have c: "current_no s' = current_no s" using assms(2) by (simp add: current_no_def)
  have "sub_inv (current_no s) (sp_buffer s' j) (sp_sub s' j) (sp_got s' j)" for j
    using assms(1,7,8) by (cases "j = k") (simp_all add: tele_inv_def)
  then show ?thesis using assms(1) sample_inv_same [of s s'] assms(2-6) c by (simp add: tele_inv_def)
qed

lemma subscribe_tele_inv:
  assumes "tele_inv n s" "subscribe_step zero k s = Some s'"
  shows "tele_inv (Suc n) s'"
proof -
  have sub: "sub_inv (current_no s) (sp_buffer s k) (sp_sub s k) (sp_got s k)" and cur: "sp_current s \<noteq> None"
    using assms(1) by (simp_all add: tele_inv_def sample_inv_def)
  show ?thesis
    by (rule tele_inv_one [OF assms(1), where k = k])
      (use assms(2) sub sampler_Current_no [OF cur, of zero] in
        \<open>auto simp: subscribe_step_def sub_inv_def split: sub_pc.splits if_splits option.splits\<close>)
qed

lemma receive_tele_inv:
  assumes "tele_inv n s" "receive_step k s = Some s'"
  shows "tele_inv (Suc n) s'"
proof -
  have sub: "sub_inv (current_no s) (sp_buffer s k) (sp_sub s k) (sp_got s k)" using assms(1) by (simp add: tele_inv_def)
  obtain v where v: "sp_sub s k = SubOpen" "sp_buffer s k = Some v" "s' = (channel_receive k s)\<lparr>sp_got := (sp_got s)(k := sp_got s k @ [v])\<rparr>"
    using assms(2) by (auto simp: receive_step_def split: sub_pc.splits option.splits)
  show ?thesis
    by (rule tele_inv_one [OF assms(1), where k = k])
      (use v sub sub_inv_receive [of "current_no s" v "sp_got s k"] in \<open>auto simp: channel_receive_def\<close>)
qed

lemma tele_step_inv:
  assumes "tele_inv n s" "tele_step zero s s'" "n < 2 ^ 64 - 2"
  shows "tele_inv (Suc n) s'"
  using assms(2)
proof (cases rule: tele_step.cases)
  case (ts_sample e k)
  then show ?thesis using sample_tele_inv [OF assms(1) _ assms(3)] by blast
next
  case ts_stop
  then show ?thesis using assms(1) by (auto simp: tele_inv_def sample_inv_def)
next
  case (ts_register r)
  then show ?thesis using register_inv [OF assms(1)] by blast
next
  case (ts_subscribe k)
  then show ?thesis using subscribe_tele_inv [OF assms(1)] by blast
next
  case (ts_receive k)
  then show ?thesis using receive_tele_inv [OF assms(1)] by blast
next
  case (ts_leave k)
  have "card (sp_subscribers s - {k}) \<le> card (sp_subscribers s)" using assms(1) by (intro card_mono) (auto simp: tele_inv_def)
  moreover have "sample_inv (leave_step k s)"
    using sample_inv_subs [of s "sp_subscribers s - {k}"] assms(1) ts_leave(2)
    by (auto simp: leave_step_def tele_inv_def sample_inv_def split: sample_pc.splits)
  ultimately show ?thesis using assms(1) ts_leave by (auto simp: leave_step_def tele_inv_def sub_inv_def)
qed

lemma new_tele_inv:
  assumes "NewSampler source interval maxClients e = Some s"
  shows "tele_inv 0 s"
  using assms by (auto simp: NewSampler_def tele_inv_def sample_inv_def current_no_def sub_inv_def split: if_splits)

lemma tele_run_inv:
  assumes "NewSampler source interval maxClients e = Some s0" "(tele_step zero ^^ n) s0 s" "n < 2 ^ 64 - 2"
  shows "tele_inv n s"
  using assms(2,3)
proof (induction n arbitrary: s)
  case 0
  then show ?case using new_tele_inv [OF assms(1)] by simp
next
  case (Suc n)
  then obtain s1 where "(tele_step zero ^^ n) s0 s1" "tele_step zero s1 s" by auto
  then show ?case using tele_step_inv [of n s1 zero s] Suc by simp
qed

lemma maxClients_kept:
  assumes "tele_step zero s s'"
  shows "sp_maxClients s' = sp_maxClients s"
  using assms
  by (cases rule: tele_step.cases)
    (auto simp: sample_step_def subscribe_begin_def subscribe_step_def receive_step_def leave_step_def Let_def
      split: sample_pc.splits cast_pc.splits sub_pc.splits option.splits if_splits)

lemma maxClients_run: "(tele_step zero ^^ n) s0 s \<Longrightarrow> sp_maxClients s = sp_maxClients s0"
  by (induction n arbitrary: s) (auto dest: maxClients_kept)

text \<open>
  C32. Subscribers: in every interleaving of the sampler with the callers of \<open>Subscribe\<close>, the readers of the channels and the
  departures, there are never more than \<open>maxClients\<close> subscribers, and each receives snapshots in the order of their sequence numbers (one
  may come twice), none newer than the current one (for runs too short for the 64-bit counter to wrap).
\<close>

theorem telemetry_in_order:
  assumes "NewSampler source interval maxClients e = Some s0" "(tele_step zero ^^ n) s0 s" "n < 2 ^ 64 - 2"
  shows "int (card (sp_subscribers s)) \<le> maxClients \<and> sorted (map snapshot_no (sp_got s k)) \<and>
    (\<forall>v\<in>set (sp_got s k). snapshot_no v \<le> current_no s) \<and> current_no s \<le> unat (sp_sequence s)"
proof -
  have "sp_maxClients s0 = maxClients" using assms(1) by (auto simp: NewSampler_def split: if_splits)
  then show ?thesis
    using tele_run_inv [OF assms] maxClients_run [OF assms(2)]
    by (auto simp: tele_inv_def sub_inv_def sample_inv_def split: sample_pc.splits)
qed

subsection \<open>The sampler never waits for a subscriber\<close>

definition broadcast_work :: "Sampler \<Rightarrow> nat" where
  "broadcast_work s = (case sp_pc s of Broadcast v todo ph \<Rightarrow> Suc (3 * card todo + (case ph of NextSub \<Rightarrow> 0 | SendAgain j \<Rightarrow> 1 | DrainOld j \<Rightarrow> 2)) | _ \<Rightarrow> 0)"

text \<open>
  Broadcasting ends, whatever the subscribers do: whenever the mutex is held for a broadcast the sampler has a next step, each of its steps
  brings it nearer to the release of the mutex, and no step of any subscriber takes it further away.
\<close>

theorem broadcast_never_blocks:
  assumes "NewSampler source interval maxClients e0 = Some s0" "(tele_step zero ^^ n) s0 s" "n < 2 ^ 64 - 2"
    "sp_pc s = Broadcast v todo ph"
  shows "(\<exists>k s'. sample_step e k s = Some s') \<and> (\<forall>k s'. sample_step e k s = Some s' \<longrightarrow> broadcast_work s' < broadcast_work s) \<and>
    (\<forall>s'. tele_step zero s s' \<longrightarrow> broadcast_work s' \<le> broadcast_work s)"
proof -
  have fin: "finite todo" using tele_run_inv [OF assms(1-3)] assms(4) by (auto simp: tele_inv_def sample_inv_def intro: finite_subset)
  have ex: "\<exists>k s'. sample_step e k s = Some s'"
    using assms(4) by (cases "todo = {}"; cases ph) (auto simp: sample_step_def Let_def split: if_splits)
  have less: "broadcast_work s' < broadcast_work s" if "sample_step e k s = Some s'" for e k s'
  proof (cases ph)
    case NextSub
    have "card (todo - {k}) < card todo" if "k \<in> todo" using that fin by (intro psubset_card_mono) auto
    then show ?thesis using that assms(4) NextSub by (auto simp: sample_step_def broadcast_work_def split: if_splits)
  qed (use that assms(4) in \<open>auto simp: sample_step_def broadcast_work_def Let_def split: if_splits\<close>)
  have "broadcast_work s' \<le> broadcast_work s" if "tele_step zero s s'" for s'
    using that
  proof (cases rule: tele_step.cases)
    case (ts_sample e k)
    then show ?thesis using less by (simp add: less_imp_le)
  qed (use assms(4) in \<open>auto simp: broadcast_work_def subscribe_begin_def subscribe_step_def receive_step_def leave_step_def Let_def
      split: sub_pc.splits option.splits if_splits\<close>)
  then show ?thesis using ex less by blast
qed

subsection \<open>Freshness\<close>

text \<open>A snapshot was broadcast to a subscriber whose call of \<open>Subscribe\<close> has not returned; runs in which that does not happen.\<close>

definition overtaken :: "Sampler \<Rightarrow> u64 \<Rightarrow> bool" where
  "overtaken s k \<longleftrightarrow> sp_buffer s k \<noteq> None \<and>
     (case sp_sub s k of LoadCurrent \<Rightarrow> True | SendFirst v \<Rightarrow> True | SendBlocked v \<Rightarrow> True | _ \<Rightarrow> False)"

definition calm_step :: "Snapshot \<Rightarrow> Sampler \<Rightarrow> Sampler \<Rightarrow> bool" where
  "calm_step zero s s' \<longleftrightarrow> tele_step zero s s' \<and> (\<forall>k. \<not> overtaken s' k)"

text \<open>The newest snapshot that subscriber \<open>k\<close> has received or can receive now.\<close>

definition newest :: "Sampler \<Rightarrow> u64 \<Rightarrow> Snapshot option" where
  "newest s k = (case sp_buffer s k of Some v \<Rightarrow> Some v | None \<Rightarrow> if sp_got s k = [] then None else Some (last (sp_got s k)))"

text \<open>The broadcast in progress, if there is one, is done with subscriber \<open>k\<close>.\<close>

definition served :: "sample_pc \<Rightarrow> u64 \<Rightarrow> bool" where
  "served pc k \<longleftrightarrow> (case pc of Broadcast v todo ph \<Rightarrow> k \<notin> todo \<and> ph \<noteq> DrainOld k \<and> ph \<noteq> SendAgain k | SampleLock v \<Rightarrow> False | _ \<Rightarrow> True)"

definition fresh_sub :: "Sampler \<Rightarrow> u64 \<Rightarrow> bool" where
  "fresh_sub s k \<longleftrightarrow> \<not> overtaken s k \<and> (case sp_sub s k of
       SubOpen \<Rightarrow> served (sp_pc s) k \<longrightarrow> newest s k = sp_current s
     | SendFirst v \<Rightarrow> served (sp_pc s) k \<longrightarrow> Some v = sp_current s
     | SendBlocked v \<Rightarrow> False | _ \<Rightarrow> True)"

definition broadcast_ok :: "Sampler \<Rightarrow> bool" where
  "broadcast_ok s \<longleftrightarrow> (case sp_pc s of SampleStore v \<Rightarrow> cloneSnapshot v = v | SampleLock v \<Rightarrow> sp_current s = Some v
       | Broadcast v todo ph \<Rightarrow> sp_current s = Some v \<and> todo \<subseteq> sp_subscribers s \<and>
           (case ph of NextSub \<Rightarrow> True | DrainOld i \<Rightarrow> sp_sub s i = SubOpen | SendAgain i \<Rightarrow> sp_sub s i = SubOpen \<and> sp_buffer s i = None)
       | _ \<Rightarrow> True)"

definition fresh_inv :: "Sampler \<Rightarrow> bool" where
  "fresh_inv s \<longleftrightarrow> (\<exists>c. sp_current s = Some c \<and> cloneSnapshot c = c) \<and> broadcast_ok s \<and>
     (\<forall>k. k \<in> sp_subscribers s \<longleftrightarrow> sp_sub s k \<notin> {NoSub, SubLeft}) \<and> (\<forall>k. fresh_sub s k)"

lemma fresh_invD:
  assumes "fresh_inv s"
  shows "\<exists>c. sp_current s = Some c \<and> cloneSnapshot c = c" "broadcast_ok s" "k \<in> sp_subscribers s \<longleftrightarrow> sp_sub s k \<notin> {NoSub, SubLeft}"
    "fresh_sub s k" "sp_sub s k \<noteq> SendBlocked v" "\<not> overtaken s k"
proof -
  show "\<exists>c. sp_current s = Some c \<and> cloneSnapshot c = c" "broadcast_ok s" "k \<in> sp_subscribers s \<longleftrightarrow> sp_sub s k \<notin> {NoSub, SubLeft}"
    using assms by (simp_all add: fresh_inv_def)
  show k: "fresh_sub s k" using assms by (simp add: fresh_inv_def)
  show "sp_sub s k \<noteq> SendBlocked v" "\<not> overtaken s k" using k by (auto simp: fresh_sub_def)
qed

lemma fresh_sub_other:
  assumes "fresh_sub s k" "sp_sub s' k = sp_sub s k" "sp_buffer s' k = sp_buffer s k" "sp_got s' k = sp_got s k"
    "served (sp_pc s') k \<Longrightarrow> served (sp_pc s) k" "sp_current s' = sp_current s"
  shows "fresh_sub s' k"
proof -
  have "newest s' k = newest s k" "overtaken s' k = overtaken s k" by (simp_all only: newest_def overtaken_def assms(2-4))
  then show ?thesis using assms(1,2,5,6) by (auto simp: fresh_sub_def split: sub_pc.splits)
qed

text \<open>A step that concerns one subscriber at most, with the goroutine and the current snapshot where they were.\<close>

lemma fresh_one:
  assumes "fresh_inv s" "sp_current s' = sp_current s" "sp_subscribers s' = sp_subscribers s" "broadcast_ok s'"
    "\<And>j. j \<noteq> k \<Longrightarrow> sp_buffer s' j = sp_buffer s j \<and> sp_sub s' j = sp_sub s j \<and> sp_got s' j = sp_got s j \<and> (served (sp_pc s') j \<longrightarrow> served (sp_pc s) j)"
    "sp_sub s' k \<notin> {NoSub, SubLeft} \<longleftrightarrow> sp_sub s k \<notin> {NoSub, SubLeft}" "fresh_sub s' k"
  shows "fresh_inv s'"
proof -
  have "fresh_sub s' j" for j
    using fresh_sub_other [OF fresh_invD(4) [OF assms(1), of j], of s'] assms(2,5,7) by (cases "j = k") auto
  moreover have "j \<in> sp_subscribers s' \<longleftrightarrow> sp_sub s' j \<notin> {NoSub, SubLeft}" for j
    using fresh_invD(3) [OF assms(1), of j] assms(3,5,6) by (cases "j = k") auto
  ultimately show ?thesis using fresh_invD(1) [OF assms(1)] assms(2,4) by (simp add: fresh_inv_def)
qed

lemma fresh_sample:
  assumes F: "fresh_inv s" and step: "sample_step e k s = Some s'" and calm: "\<forall>k. \<not> overtaken s' k"
  shows "fresh_inv s'"
proof (cases "sp_pc s")
  case SamplerWaits
  then show ?thesis
    by (intro fresh_one [OF F, where k = k]) (use step fresh_invD [OF F] SamplerWaits calm in
      \<open>auto simp: sample_step_def served_def broadcast_ok_def intro: fresh_sub_other [OF fresh_invD(4) [OF F]]\<close>)
next
  case (SampleStore v)
  have s': "s' = s\<lparr>sp_current := Some v, sp_pc := SampleLock v\<rparr>" "cloneSnapshot v = v"
    using step SampleStore fresh_invD(2) [OF F] by (auto simp: sample_step_def broadcast_ok_def)
  have "fresh_sub s' j" for j
    using s' calm fresh_invD(5) [OF F, of j] by (auto simp: fresh_sub_def served_def split: sub_pc.splits)
  then show ?thesis using s' fresh_invD(3) [OF F] by (simp add: fresh_inv_def broadcast_ok_def)
next
  case (SampleLock v)
  have s': "s' = s\<lparr>sp_pc := Broadcast v (sp_subscribers s) NextSub\<rparr>" "sp_current s = Some v"
    using step SampleLock fresh_invD(2) [OF F] by (auto simp: sample_step_def broadcast_ok_def)
  have "fresh_sub s' j" for j
    using s' calm fresh_invD(3,5) [OF F, of j] by (auto simp: fresh_sub_def served_def split: sub_pc.splits)
  then show ?thesis using s' fresh_invD(1,3) [OF F] by (simp add: fresh_inv_def broadcast_ok_def)
next
  case (Broadcast v todo ph)
  have v: "sp_current s = Some v" "cloneSnapshot v = v" "todo \<subseteq> sp_subscribers s"
    using fresh_invD(1,2) [OF F] Broadcast by (auto simp: broadcast_ok_def)
  show ?thesis
  proof (cases ph)
    case NextSub
    consider (done_all) "s' = s\<lparr>sp_pc := SamplerWaits\<rparr>" "todo = {}"
      | (put) "k \<in> todo" "sp_buffer s k = None" "s' = s\<lparr>sp_buffer := (sp_buffer s)(k \<mapsto> v), sp_pc := Broadcast v (todo - {k}) NextSub\<rparr>"
      | (full) "k \<in> todo" "sp_buffer s k \<noteq> None" "s' = s\<lparr>sp_pc := Broadcast v (todo - {k}) (DrainOld k)\<rparr>"
      using step Broadcast NextSub v by (auto simp: sample_step_def split: if_splits)
    then show ?thesis
    proof cases
      case done_all
      then show ?thesis
        by (intro fresh_one [OF F, where k = k])
          (auto simp: broadcast_ok_def served_def Broadcast NextSub intro: fresh_sub_other [OF fresh_invD(4) [OF F]])
    next
      case put
      have "fresh_sub s' k" using put v calm fresh_invD(5) [OF F, of k] by (auto simp: fresh_sub_def newest_def overtaken_def split: sub_pc.splits)
      then show ?thesis
        by (intro fresh_one [OF F, where k = k]) (use put v in \<open>auto simp: broadcast_ok_def served_def Broadcast NextSub\<close>)
    next
      case full
      have open_sub: "sp_sub s k = SubOpen"
        using full fresh_invD(3,6) [OF F, of k] v(3) by (cases "sp_sub s k") (auto simp: overtaken_def)
      have "fresh_sub s' k" using full open_sub calm by (auto simp: fresh_sub_def served_def)
      then show ?thesis
        by (intro fresh_one [OF F, where k = k]) (use full v open_sub in \<open>auto simp: broadcast_ok_def served_def Broadcast NextSub\<close>)
    qed
  next
    case (DrainOld i)
    have o: "sp_sub s i = SubOpen" using fresh_invD(2) [OF F] Broadcast DrainOld by (simp add: broadcast_ok_def)
    then have s': "s' = s\<lparr>sp_buffer := (sp_buffer s)(i := None), sp_pc := Broadcast v todo (SendAgain i)\<rparr>"
      using step Broadcast DrainOld
      by (cases "sp_buffer s i") (auto simp: sample_step_def Let_def channel_receive_def fun_upd_idem)
    have "fresh_sub s' i" using s' calm o by (auto simp: fresh_sub_def served_def)
    then show ?thesis
      by (intro fresh_one [OF F, where k = i]) (use s' v o in \<open>auto simp: broadcast_ok_def served_def Broadcast DrainOld\<close>)
  next
    case (SendAgain i)
    have o: "sp_sub s i = SubOpen" "sp_buffer s i = None" using fresh_invD(2) [OF F] Broadcast SendAgain by (simp_all add: broadcast_ok_def)
    then have s': "s' = s\<lparr>sp_buffer := (sp_buffer s)(i \<mapsto> v), sp_pc := Broadcast v todo NextSub\<rparr>"
      using step Broadcast SendAgain v by (simp add: sample_step_def Let_def)
    have "fresh_sub s' i" using s' calm o v by (auto simp: fresh_sub_def newest_def)
    then show ?thesis
      by (intro fresh_one [OF F, where k = i]) (use s' v o in \<open>auto simp: broadcast_ok_def served_def Broadcast SendAgain\<close>)
  qed
next
  case SamplerStopped
  then show ?thesis using step by (simp add: sample_step_def)
qed

lemma fresh_step:
  assumes F: "fresh_inv s" and step: "calm_step zero s s'"
  shows "fresh_inv s'"
proof -
  have calm: "\<forall>k. \<not> overtaken s' k" and t: "tele_step zero s s'" using step by (simp_all add: calm_step_def)
  obtain c where c: "sp_current s = Some c" "cloneSnapshot c = c" using fresh_invD(1) [OF F] by blast
  show ?thesis
    using t
  proof (cases rule: tele_step.cases)
    case (ts_sample e k)
    then show ?thesis by (intro fresh_sample [OF F _ calm])
  next
    case ts_stop
    then show ?thesis
      by (intro fresh_one [OF F, where k = 0])
        (auto simp: broadcast_ok_def served_def intro: fresh_sub_other [OF fresh_invD(4) [OF F]])
  next
    case (ts_register r)
    show ?thesis
    proof (cases "int (card (sp_subscribers s)) \<ge> sp_maxClients s")
      case True
      then show ?thesis using ts_register F by (simp add: subscribe_begin_def)
    next
      case False
      let ?k = "sp_nextSubID s + 1"
      have s': "s' = s\<lparr>sp_nextSubID := ?k, sp_subscribers := insert ?k (sp_subscribers s), sp_buffer := (sp_buffer s)(?k := None),
                     sp_sub := (sp_sub s)(?k := LoadCurrent), sp_got := (sp_got s)(?k := [])\<rparr>"
        using ts_register(2) False by (simp add: subscribe_begin_def Let_def)
      have "fresh_sub s' j" for j
      proof (cases "j = ?k")
        case False
        then show ?thesis by (intro fresh_sub_other [OF fresh_invD(4) [OF F]]) (simp_all add: s')
      qed (simp add: s' fresh_sub_def overtaken_def)
      moreover have "broadcast_ok s'"
        using fresh_invD(2) [OF F] ts_register(1) by (auto simp: s' broadcast_ok_def unlocked_def split: sample_pc.splits)
      ultimately show ?thesis using fresh_invD(1,3) [OF F] by (auto simp: s' fresh_inv_def)
    qed
  next
    case (ts_subscribe k)
    consider (load) "sp_sub s k = LoadCurrent" "s' = s\<lparr>sp_sub := (sp_sub s)(k := SendFirst c)\<rparr>"
      | (send) v where "sp_sub s k = SendFirst v" "sp_buffer s k = None" "s' = s\<lparr>sp_buffer := (sp_buffer s)(k \<mapsto> v), sp_sub := (sp_sub s)(k := SubOpen)\<rparr>"
      | (blocked) v where "sp_sub s k = SendFirst v" "sp_buffer s k \<noteq> None"
      using ts_subscribe c by (auto simp: subscribe_step_def sampler_Current_def split: sub_pc.splits if_splits)
    then show ?thesis
    proof cases
      case load
      have "fresh_sub s' k" using load calm c by (auto simp: fresh_sub_def)
      then show ?thesis
        by (intro fresh_one [OF F, where k = k])
          (use load fresh_invD(2) [OF F] in \<open>auto simp: broadcast_ok_def split: sample_pc.splits cast_pc.splits\<close>)
    next
      case send
      have "fresh_sub s' k" using send calm fresh_invD(4) [OF F, of k] c by (auto simp: fresh_sub_def newest_def)
      then show ?thesis
        by (intro fresh_one [OF F, where k = k])
          (use send fresh_invD(2) [OF F] in \<open>auto simp: broadcast_ok_def split: sample_pc.splits cast_pc.splits\<close>)
    next
      case blocked
      then show ?thesis using fresh_invD(6) [OF F, of k] by (simp add: overtaken_def)
    qed
  next
    case (ts_receive k)
    then obtain v where v: "sp_sub s k = SubOpen" "sp_buffer s k = Some v"
      "s' = (channel_receive k s)\<lparr>sp_got := (sp_got s)(k := sp_got s k @ [v])\<rparr>"
      by (auto simp: receive_step_def split: sub_pc.splits option.splits)
    have "fresh_sub s' k" using v calm fresh_invD(4) [OF F, of k] by (auto simp: fresh_sub_def newest_def channel_receive_def)
    then show ?thesis
      by (intro fresh_one [OF F, where k = k])
        (use v fresh_invD(2) [OF F] in \<open>auto simp: channel_receive_def broadcast_ok_def split: sample_pc.splits cast_pc.splits\<close>)
  next
    case (ts_leave k)
    have "fresh_sub s' j" for j
    proof (cases "j = k")
      case False
      then show ?thesis by (intro fresh_sub_other [OF fresh_invD(4) [OF F]]) (simp_all add: ts_leave leave_step_def)
    qed (simp add: ts_leave leave_step_def fresh_sub_def overtaken_def)
    moreover have "broadcast_ok s'"
      using fresh_invD(2) [OF F] ts_leave by (auto simp: leave_step_def broadcast_ok_def unlocked_def split: sample_pc.splits)
    ultimately show ?thesis using fresh_invD(1,3) [OF F] ts_leave by (auto simp: leave_step_def fresh_inv_def)
  qed
qed

lemma new_fresh:
  assumes "NewSampler source interval maxClients e = Some s0"
  shows "fresh_inv s0"
  using assms by (auto simp: NewSampler_def fresh_inv_def broadcast_ok_def fresh_sub_def overtaken_def split: if_splits)


subsection \<open>A subscription overtaken by a broadcast\<close>

text \<open>With the sampler stopped, a blocked \<open>Subscribe\<close> stays blocked.\<close>

lemma blocked_step:
  assumes "sp_pc s = SamplerStopped" "sp_sub s 1 = SendBlocked v" "1 \<le> unat (sp_nextSubID s)" "unat (sp_nextSubID s) < 2 ^ 64 - 1"
    "tele_step zero s s'"
  shows "sp_pc s' = SamplerStopped \<and> sp_sub s' 1 = SendBlocked v \<and> 1 \<le> unat (sp_nextSubID s') \<and> unat (sp_nextSubID s') \<le> Suc (unat (sp_nextSubID s))"
  using assms(5)
proof (cases rule: tele_step.cases)
  case (ts_register r)
  have "unat (sp_nextSubID s + 1) = Suc (unat (sp_nextSubID s))" using assms(4) by (simp add: unat_word_ariths)
  moreover from this have "sp_nextSubID s + 1 \<noteq> 1" using assms(3) by auto
  ultimately show ?thesis using ts_register assms(1-3) by (auto simp: subscribe_begin_def Let_def split: if_splits)
next
  case (ts_receive k)
  then show ?thesis using assms(1-3) by (auto simp: receive_step_def channel_receive_def split: sub_pc.splits option.splits)
qed (use assms(1-3) in \<open>auto simp: sample_step_def subscribe_step_def leave_step_def split: sub_pc.splits if_splits\<close>)

lemma blocked_run:
  assumes "sp_pc s = SamplerStopped" "sp_sub s 1 = SendBlocked v" "unat (sp_nextSubID s) = 1" "(tele_step zero ^^ n) s s'" "n < 2 ^ 64 - 2"
  shows "sp_pc s' = SamplerStopped \<and> sp_sub s' 1 = SendBlocked v \<and> 1 \<le> unat (sp_nextSubID s') \<and> unat (sp_nextSubID s') \<le> Suc n"
  using assms(4,5)
proof (induction n arbitrary: s')
  case (Suc n)
  then obtain s1 where s1: "(tele_step zero ^^ n) s s1" "tele_step zero s1 s'" by auto
  then show ?case using Suc.IH [OF s1(1)] Suc.prems(2) blocked_step [of s1 v zero s', OF _ _ _ _ s1(2)] by fastforce
qed (use assms(1-3) in simp)

text \<open>The first subscriber registers and reads the current snapshot; the next one is broadcast before it is sent.\<close>

definition overtaken_state :: "sample_env \<Rightarrow> Sampler \<Rightarrow> Sampler" where
  "overtaken_state e s0 = (let c = the (sp_current s0); v = make_snapshot e (sp_current s0) 2
     in s0\<lparr>sp_nextSubID := 1, sp_subscribers := {1}, sp_sequence := 2, sp_current := Some v,
           sp_buffer := (sp_buffer s0)(1 \<mapsto> v), sp_sub := (sp_sub s0)(1 := SendBlocked c), sp_got := (sp_got s0)(1 := [])\<rparr>)"

lemma overtaken_reached:
  assumes "NewSampler source interval maxClients e0 = Some s0"
  shows "tele_steps zero s0 (overtaken_state e s0)"
proof -
  let ?c = "make_snapshot e0 None 1" and ?v = "make_snapshot e (Some (make_snapshot e0 None 1)) 2"
  have s0: "sp_sequence s0 = 1" "sp_current s0 = Some ?c" "sp_subscribers s0 = {}" "sp_nextSubID s0 = 0" "sp_pc s0 = SamplerWaits" "0 < sp_maxClients s0"
    "sp_buffer s0 = (\<lambda>_. None)"
    using assms by (auto simp: NewSampler_def split: if_splits)
  define s1 where "s1 = s0\<lparr>sp_nextSubID := 1, sp_subscribers := {1}, sp_buffer := (sp_buffer s0)(1 := None),
    sp_sub := (sp_sub s0)(1 := LoadCurrent), sp_got := (sp_got s0)(1 := [])\<rparr>"
  define s2 where "s2 = s1\<lparr>sp_sub := (sp_sub s0)(1 := SendFirst ?c)\<rparr>"
  define s3 where "s3 = s2\<lparr>sp_sequence := 2, sp_pc := SampleStore ?v\<rparr>"
  define s4 where "s4 = s3\<lparr>sp_current := Some ?v, sp_pc := SampleLock ?v\<rparr>"
  define s5 where "s5 = s4\<lparr>sp_pc := Broadcast ?v {1} NextSub\<rparr>"
  define s6 where "s6 = s5\<lparr>sp_buffer := (sp_buffer s0)(1 \<mapsto> ?v), sp_pc := Broadcast ?v {} NextSub\<rparr>"
  define s7 where "s7 = s6\<lparr>sp_pc := SamplerWaits\<rparr>"
  have t1: "tele_step zero s0 s1"
    by (rule ts_register [where r = "Inr 1"]) (use s0 in \<open>simp_all add: s1_def unlocked_def subscribe_begin_def Let_def\<close>)
  have t2: "tele_step zero s1 s2"
    by (rule ts_subscribe [where k = 1]) (use s0 in \<open>simp add: s1_def s2_def subscribe_step_def sampler_Current_def\<close>)
  have t3: "tele_step zero s2 s3"
    by (rule ts_sample [where e = e and k = 0]) (use s0 in \<open>simp add: s1_def s2_def s3_def sample_step_def\<close>)
  have t4: "tele_step zero s3 s4" by (rule ts_sample [where e = e and k = 0]) (simp add: s3_def s4_def sample_step_def)
  have t5: "tele_step zero s4 s5"
    by (rule ts_sample [where e = e and k = 0]) (simp add: s1_def s2_def s3_def s4_def s5_def sample_step_def)
  have t6: "tele_step zero s5 s6"
    by (rule ts_sample [where e = e and k = 1]) (use s0 in \<open>simp add: s1_def s2_def s3_def s4_def s5_def s6_def sample_step_def\<close>)
  have t7: "tele_step zero s6 s7" by (rule ts_sample [where e = e and k = 0]) (simp add: s6_def s7_def sample_step_def)
  have t8: "tele_step zero s7 (overtaken_state e s0)"
    by (rule ts_subscribe [where k = 1])
      (use s0 in \<open>simp add: s1_def s2_def s3_def s4_def s5_def s6_def s7_def subscribe_step_def overtaken_state_def Let_def\<close>)
  show ?thesis using t1 t2 t3 t4 t5 t6 t7 t8 by (meson converse_rtranclp_into_rtranclp rtranclp.rtrancl_refl)
qed

text \<open>One sample later the old snapshot is in the channel, the newer ones are lost.\<close>

lemma stale_reached:
  assumes "NewSampler source interval maxClients e0 = Some s0"
  shows "\<exists>s. tele_steps zero s0 s \<and> sp_pc s = SamplerWaits \<and> sp_sub s 1 = SubOpen \<and> newest s 1 = sp_current s0 \<and>
    (\<exists>c. sp_current s = Some c \<and> sn_Sequence c = 3)"
proof -
  let ?c = "make_snapshot e0 None 1"
  define s1 where "s1 = overtaken_state e0 s0"
  define v where "v = make_snapshot e0 (sp_current s1) 3"
  have s0: "sp_current s0 = Some ?c" "sp_pc s0 = SamplerWaits" using assms by (auto simp: NewSampler_def split: if_splits)
  have s1: "sp_pc s1 = SamplerWaits" "sp_sequence s1 = 2" "sp_subscribers s1 = {1}" "sp_sub s1 1 = SendBlocked ?c"
      "sp_buffer s1 1 = Some (make_snapshot e0 (Some ?c) 2)"
    using s0 by (simp_all add: s1_def overtaken_state_def Let_def)
  define s2 where "s2 = s1\<lparr>sp_sequence := 3, sp_pc := SampleStore v\<rparr>"
  define s3 where "s3 = s2\<lparr>sp_current := Some v, sp_pc := SampleLock v\<rparr>"
  define s4 where "s4 = s3\<lparr>sp_pc := Broadcast v {1} NextSub\<rparr>"
  define s5 where "s5 = s4\<lparr>sp_pc := Broadcast v {} (DrainOld 1)\<rparr>"
  define s6 where "s6 = s5\<lparr>sp_buffer := (sp_buffer s1)(1 \<mapsto> ?c), sp_sub := (sp_sub s1)(1 := SubOpen), sp_pc := Broadcast v {} (SendAgain 1)\<rparr>"
  define s7 where "s7 = s6\<lparr>sp_pc := Broadcast v {} NextSub\<rparr>"
  define s8 where "s8 = s7\<lparr>sp_pc := SamplerWaits\<rparr>"
  have step: "sample_step e0 k s = Some s' \<Longrightarrow> tele_step zero s s'" for k s s' by (rule ts_sample)
  have t1: "tele_step zero s1 s2" by (rule step [where k = 0]) (simp add: s1 s2_def sample_step_def v_def)
  have t2: "tele_step zero s2 s3" by (rule step [where k = 0]) (simp add: s2_def s3_def sample_step_def v_def)
  have t3: "tele_step zero s3 s4" by (rule step [where k = 0]) (simp add: s1 s2_def s3_def s4_def sample_step_def)
  have t4: "tele_step zero s4 s5" by (rule step [where k = 1]) (use s1(5) in \<open>simp add: s2_def s3_def s4_def s5_def sample_step_def\<close>)
  have t5: "tele_step zero s5 s6" by (rule step [where k = 0])
    (use s1(5) in \<open>simp add: s1 s2_def s3_def s4_def s5_def s6_def sample_step_def Let_def channel_receive_def\<close>)
  have t6: "tele_step zero s6 s7" by (rule step [where k = 0]) (simp add: s6_def s7_def sample_step_def)
  have t7: "tele_step zero s7 s8" by (rule step [where k = 0]) (simp add: s7_def s8_def sample_step_def)
  have "tele_steps zero s1 s8" using t1 t2 t3 t4 t5 t6 t7 by (meson converse_rtranclp_into_rtranclp rtranclp.rtrancl_refl)
  then have "tele_steps zero s0 s8" using overtaken_reached [OF assms] s1_def by (metis rtranclp_trans)
  moreover have "sp_current s8 = Some v" "sn_Sequence v = 3" "newest s8 1 = Some ?c" "sp_pc s8 = SamplerWaits" "sp_sub s8 1 = SubOpen"
    by (simp_all add: s8_def s7_def s6_def s5_def s4_def s3_def newest_def v_def)
  ultimately show ?thesis using s0 by (intro exI [of _ s8]) simp
qed

text \<open>
  C34. A \<open>Subscribe\<close> overtaken by a broadcast blocks in its own send, although nobody has the channel yet to read from it: if the
  sampler stops it never returns, and if there is another sample its subscriber is handed the oldest snapshot while the two newer ones are lost.
\<close>

theorem subscribe_can_hang:
  assumes "NewSampler source interval maxClients e = Some s0"
  shows "(\<exists>s v. tele_steps zero s0 s \<and> sp_sub s 1 = SendBlocked v \<and>
      (\<forall>n s'. n < 2 ^ 64 - 2 \<longrightarrow> (tele_step zero ^^ n) s s' \<longrightarrow> sp_sub s' 1 = SendBlocked v)) \<and>
    (\<exists>s c. tele_steps zero s0 s \<and> sp_pc s = SamplerWaits \<and> sp_sub s 1 = SubOpen \<and> newest s 1 = sp_current s0 \<and>
      sp_current s = Some c \<and> sn_Sequence c = 3)"
proof
  let ?s = "(overtaken_state e s0)\<lparr>sp_pc := SamplerStopped\<rparr>"
  have w: "sp_pc (overtaken_state e s0) = SamplerWaits" using assms by (auto simp: NewSampler_def overtaken_state_def Let_def split: if_splits)
  have "tele_steps zero s0 ?s" using overtaken_reached [OF assms] ts_stop [OF w] by (rule rtranclp.rtrancl_into_rtrancl)
  moreover have b: "sp_pc ?s = SamplerStopped" "sp_sub ?s 1 = SendBlocked (the (sp_current s0))" "unat (sp_nextSubID ?s) = 1"
    by (simp_all add: overtaken_state_def Let_def)
  moreover have "sp_sub s' 1 = SendBlocked (the (sp_current s0))" if "n < 2 ^ 64 - 2" "(tele_step zero ^^ n) ?s s'" for n s'
    using blocked_run [OF b that(2,1)] by simp
  ultimately show "\<exists>s v. tele_steps zero s0 s \<and> sp_sub s 1 = SendBlocked v \<and>
      (\<forall>n s'. n < 2 ^ 64 - 2 \<longrightarrow> (tele_step zero ^^ n) s s' \<longrightarrow> sp_sub s' 1 = SendBlocked v)" by blast
  show "\<exists>s c. tele_steps zero s0 s \<and> sp_pc s = SamplerWaits \<and> sp_sub s 1 = SubOpen \<and> newest s 1 = sp_current s0 \<and>
      sp_current s = Some c \<and> sn_Sequence c = 3"
    using stale_reached [OF assms] by blast
qed

subsection \<open>A concrete sampler\<close>

definition demo_sample :: sample_env where
  "demo_sample = \<lparr>se_raw = \<lparr>
     rs_Ring = \<lparr>rm_Capacity = 4, rm_Depth = 1, rm_WatermarkPercent = 0, rm_HighWatermark = 1, rm_PublishAttempts = 1, rm_Accepted = 1,
       rm_Consumed = 0, rm_DroppedTotal = 0, rm_DroppedByLevel = Map.empty, rm_PublishRate = 0, rm_ConsumeRate = 0\<rparr>,
     rs_Flusher = \<lparr>fm_Batches = 0, fm_Records = 0, fm_Bytes = 0, fm_InFlight = 0, fm_LastBatchSize = 0, fm_FlushP95Micros = 0,
       fm_Errors = 0, fm_Mode = ''sequential''\<rparr>,
     rs_Pool = \<lparr>pm_BorrowedTotal = 1, pm_ReturnedTotal = 0, pm_Outstanding = 1, pm_Overdue = 0, pm_DoubleReturns = 0,
       pm_InvalidReturns = 0, pm_HitPercent = 0, pm_Classes = []\<rparr>,
     rs_Collector = \<lparr>cm_Connections = 0, cm_AcceptedBatches = 0, cm_DuplicateBatches = 0, cm_InvalidFrames = 0, cm_Overloaded = 0,
       cm_SinkErrors = 0\<rparr>,
     rs_DemoMode = False, rs_AuditMode = ''off'', rs_Status = \<lparr>sm_Sink = ''ok'', sm_Collector = ''listening'', sm_Transport = ''sse''\<rparr>\<rparr>,
     se_now = 10 ^ 9, se_goroutines = 5, se_heap = 4096\<rparr>"

definition demo_first :: Snapshot where
  "demo_first = make_snapshot demo_sample None 1"

definition demo_sampler :: Sampler where
  "demo_sampler = the (NewSampler True 100 2 demo_sample)"

lemma demo_sampler_New: "NewSampler True 100 2 demo_sample = Some demo_sampler"
  by (simp add: demo_sampler_def NewSampler_def)

definition demo_joined :: "sub_pc \<Rightarrow> Sampler" where
  "demo_joined pc = demo_sampler\<lparr>sp_nextSubID := 1, sp_subscribers := {1}, sp_sub := (\<lambda>_. NoSub)(1 := pc), sp_got := (\<lambda>_. [])(1 := [])\<rparr>"

definition demo_open :: Sampler where
  "demo_open = (demo_joined SubOpen)\<lparr>sp_buffer := (\<lambda>_. None)(1 \<mapsto> demo_first)\<rparr>"

definition demo_read :: Sampler where
  "demo_read = (demo_joined SubOpen)\<lparr>sp_buffer := (\<lambda>_. None)(1 := None), sp_got := (\<lambda>_. [])(1 := [demo_first])\<rparr>"

lemma demo_sampler_fields: "sp_current demo_sampler = Some demo_first" "sp_pc demo_sampler = SamplerWaits" "sp_buffer demo_sampler = (\<lambda>_. None)"
    "sp_sub demo_sampler = (\<lambda>_. NoSub)" "sp_got demo_sampler = (\<lambda>_. [])" "sp_maxClients demo_sampler = 2" "sp_subscribers demo_sampler = {}"
    "sp_nextSubID demo_sampler = 0" "cloneSnapshot demo_first = demo_first" "sp_sequence demo_sampler = 1"
  by (simp_all add: demo_sampler_def NewSampler_def demo_first_def)

lemma demo_subscription:
  "tele_step zero demo_sampler (demo_joined LoadCurrent)" "tele_step zero (demo_joined LoadCurrent) (demo_joined (SendFirst demo_first))"
  "tele_step zero (demo_joined (SendFirst demo_first)) demo_open" "tele_step zero demo_open demo_read"
proof -
  show "tele_step zero demo_sampler (demo_joined LoadCurrent)"
    by (rule ts_register [where r = "Inr 1"])
      (simp_all add: unlocked_def subscribe_begin_def demo_sampler_fields demo_joined_def Let_def fun_upd_idem)
  show "tele_step zero (demo_joined LoadCurrent) (demo_joined (SendFirst demo_first))"
    by (rule ts_subscribe [where k = 1]) (simp add: subscribe_step_def demo_joined_def demo_sampler_fields sampler_Current_def)
  show "tele_step zero (demo_joined (SendFirst demo_first)) demo_open"
    by (rule ts_subscribe [where k = 1]) (simp add: subscribe_step_def demo_joined_def demo_open_def demo_sampler_fields)
  show "tele_step zero demo_open demo_read"
    by (rule ts_receive [where k = 1])
      (simp add: receive_step_def channel_receive_def demo_joined_def demo_open_def demo_read_def demo_sampler_fields)
qed

lemma demo_runs: "(tele_step zero ^^ 4) demo_sampler demo_read" "(calm_step zero)\<^sup>*\<^sup>* demo_sampler demo_open"
proof -
  show "(tele_step zero ^^ 4) demo_sampler demo_read" using demo_subscription [of zero] by (auto simp: numeral_eq_Suc OO_def)
  have "calm_step zero demo_sampler (demo_joined LoadCurrent)" "calm_step zero (demo_joined LoadCurrent) (demo_joined (SendFirst demo_first))"
    "calm_step zero (demo_joined (SendFirst demo_first)) demo_open"
    using demo_subscription [of zero] by (simp_all add: calm_step_def overtaken_def demo_joined_def demo_open_def demo_sampler_fields)
  then show "(calm_step zero)\<^sup>*\<^sup>* demo_sampler demo_open" by (meson converse_rtranclp_into_rtranclp rtranclp.rtrancl_refl)
qed

lemma telemetry_in_order_witness:
  "sp_got demo_read 1 = [demo_first] \<and> snapshot_no demo_first \<le> current_no demo_read"
  using telemetry_in_order [OF demo_sampler_New demo_runs(1), of 1] by (simp add: demo_read_def)


lemma subscribe_can_hang_witness:
  "\<exists>s v. tele_steps demo_first demo_sampler s \<and> sp_sub s 1 = SendBlocked v"
  using subscribe_can_hang [OF demo_sampler_New] by blast

lemma broadcast_never_blocks_witness:
  "\<exists>s v. (tele_step demo_first ^^ 4) demo_sampler s \<and> sp_pc s = Broadcast v {1} NextSub \<and> (\<exists>k s'. sample_step demo_sample k s = Some s')"
proof -
  define v where "v = make_snapshot demo_sample (Some demo_first) 2"
  define s2 where "s2 = (demo_joined LoadCurrent)\<lparr>sp_sequence := 2, sp_pc := SampleStore v\<rparr>"
  define s3 where "s3 = s2\<lparr>sp_current := Some v, sp_pc := SampleLock v\<rparr>"
  define s4 where "s4 = s3\<lparr>sp_pc := Broadcast v {1} NextSub\<rparr>"
  have t2: "tele_step demo_first (demo_joined LoadCurrent) s2"
    by (rule ts_sample [where e = demo_sample and k = 0]) (simp add: s2_def demo_joined_def demo_sampler_fields sample_step_def v_def)
  have t3: "tele_step demo_first s2 s3"
    by (rule ts_sample [where e = demo_sample and k = 0]) (simp add: s2_def s3_def sample_step_def v_def)
  have t4: "tele_step demo_first s3 s4"
    by (rule ts_sample [where e = demo_sample and k = 0]) (simp add: s2_def s3_def s4_def demo_joined_def sample_step_def)
  have run: "(tele_step demo_first ^^ 4) demo_sampler s4" using demo_subscription(1) t2 t3 t4 by (auto simp: numeral_eq_Suc OO_def)
  have pc: "sp_pc s4 = Broadcast v {1} NextSub" by (simp add: s4_def)
  from broadcast_never_blocks [OF demo_sampler_New run _ pc, of demo_sample] run pc show ?thesis by auto
qed

end
