(* ===== verification/Go_Strconv.thy ===== *)
theory Go_Strconv
  imports Float64
begin

text \<open>
  The parts of Go's \<open>strconv\<close>, \<open>strings\<close>, \<open>time\<close> and \<open>net\<close> that the configuration reads its values with.
  A string is a list of bytes, here of characters with codes below 256.
\<close>

subsection \<open>Numbers\<close>

datatype num_error = NumSyntax | NumRange

definition code_of :: "char \<Rightarrow> nat" where
  "code_of c = of_char c"

definition is_digit :: "char \<Rightarrow> bool" where
  "is_digit c \<longleftrightarrow> 48 \<le> code_of c \<and> code_of c \<le> 57"

definition digit_value :: "char \<Rightarrow> int" where
  "digit_value c = int (code_of c) - 48"

text \<open>\<open>ParseUint\<close> in base 10 and 64 bits; the range is checked digit by digit.\<close>

fun uint_digits :: "string \<Rightarrow> int \<Rightarrow> (num_error, int) result" where
  "uint_digits [] n = Inr n"
| "uint_digits (c # cs) n =
     (if \<not> is_digit c then Inl NumSyntax
      else if n \<ge> (2 ^ 64 - 1) div 10 + 1 then Inl NumRange
      else if n * 10 + digit_value c > 2 ^ 64 - 1 then Inl NumRange
      else uint_digits cs (n * 10 + digit_value c))"

definition ParseUint :: "string \<Rightarrow> (num_error, int) result" where
  "ParseUint s = (if s = [] then Inl NumSyntax else uint_digits s 0)"

text \<open>\<open>ParseInt\<close> in base 10 and 64 bits, and \<open>Atoi\<close>, whose short cut for short strings gives the same.\<close>

definition ParseInt :: "string \<Rightarrow> (num_error, int) result" where
  "ParseInt s = (case s of [] \<Rightarrow> Inl NumSyntax
     | c # cs \<Rightarrow>
         (let neg = (c = CHR ''-''); digits = (if c = CHR ''+'' \<or> c = CHR ''-'' then cs else s)
          in case ParseUint digits of
               Inl e \<Rightarrow> Inl e
             | Inr n \<Rightarrow> if \<not> neg \<and> n \<ge> 2 ^ 63 then Inl NumRange else if neg \<and> n > 2 ^ 63 then Inl NumRange
                 else Inr (if neg then - n else n)))"

definition Atoi :: "string \<Rightarrow> (num_error, int) result" where
  "Atoi s = ParseInt s"

definition ParseBool :: "string \<Rightarrow> (num_error, bool) result" where
  "ParseBool s = (if s \<in> {''1'', ''t'', ''T'', ''true'', ''TRUE'', ''True''} then Inr True
     else if s \<in> {''0'', ''f'', ''F'', ''false'', ''FALSE'', ''False''} then Inr False else Inl NumSyntax)"

subsection \<open>White space\<close>

text \<open>The encodings of the characters that \<open>unicode.IsSpace\<close> accepts.\<close>

definition spaces :: "string list" where
  "spaces = map (map char_of) ([[9], [10], [11], [12], [13], [32], [0xC2, 0x85], [0xC2, 0xA0], [0xE1, 0x9A, 0x80]] @
     map (\<lambda>b. [0xE2, 0x80, b]) ([0x80 ..< 0x8B] @ [0xA8, 0xA9, 0xAF]) @ [[0xE2, 0x81, 0x9F], [0xE3, 0x80, 0x80 :: nat]])"

definition starts_with :: "string \<Rightarrow> string \<Rightarrow> bool" where
  "starts_with p s \<longleftrightarrow> take (length p) s = p"

text \<open>Drops any of the patterns from the front as long as there is one.\<close>

function drop_spaces :: "string list \<Rightarrow> string \<Rightarrow> string" where
  "drop_spaces ps s = (case List.find (\<lambda>p. p \<noteq> [] \<and> starts_with p s) ps of None \<Rightarrow> s
     | Some p \<Rightarrow> drop_spaces ps (drop (length p) s))"
  by pat_completeness auto
termination
proof (relation "measure (length \<circ> snd)")
  fix ps s p
  assume "List.find (\<lambda>p. p \<noteq> [] \<and> starts_with p s) ps = Some p"
  then have "p \<noteq> []" "take (length p) s = p" by (auto simp: find_Some_iff starts_with_def)
  then show "((ps, drop (length p) s), ps, s) \<in> measure (length \<circ> snd)" by (cases s) auto
qed simp

declare drop_spaces.simps [simp del]

text \<open>\<open>strings.TrimSpace\<close>.\<close>

definition TrimSpaceUTF8 :: "string \<Rightarrow> string" where
  "TrimSpaceUTF8 s = rev (drop_spaces (map rev spaces) (rev (drop_spaces spaces s)))"

subsection \<open>Durations\<close>

fun leading_int :: "string \<Rightarrow> int \<Rightarrow> (int \<times> string) option" where
  "leading_int [] x = Some (x, [])"
| "leading_int (c # cs) x =
     (if \<not> is_digit c then Some (x, c # cs)
      else if x > 2 ^ 63 div 10 then None
      else if x * 10 + digit_value c > 2 ^ 63 then None
      else leading_int cs (x * 10 + digit_value c))"

fun leading_fraction :: "string \<Rightarrow> int \<Rightarrow> float64 \<Rightarrow> bool \<Rightarrow> int \<times> float64 \<times> string" where
  "leading_fraction [] x scale overflow = (x, scale, [])"
| "leading_fraction (c # cs) x scale overflow =
     (if \<not> is_digit c then (x, scale, c # cs)
      else if overflow then leading_fraction cs x scale True
      else if x > (2 ^ 63 - 1) div 10 then leading_fraction cs x scale True
      else if x * 10 + digit_value c > 2 ^ 63 then leading_fraction cs x scale True
      else leading_fraction cs (x * 10 + digit_value c) (fmul scale 10) False)"

definition unit_map :: "string \<Rightarrow> int option" where
  "unit_map = map_of [(''ns'', 1), (''us'', 1000), ([char_of (0xC2 :: nat), char_of (0xB5 :: nat)] @ ''s'', 1000),
     ([char_of (0xCE :: nat), char_of (0xBC :: nat)] @ ''s'', 1000), (''ms'', 10 ^ 6), (''s'', 10 ^ 9), (''m'', 60 * 10 ^ 9),
     (''h'', 3600 * 10 ^ 9)]"

definition in_unit :: "char \<Rightarrow> bool" where
  "in_unit c \<longleftrightarrow> c \<noteq> CHR ''.'' \<and> \<not> is_digit c"

text \<open>One number with its unit: its nanoseconds and the rest.\<close>

definition duration_part :: "string \<Rightarrow> (u64 \<times> string) option" where
  "duration_part s =
     (if \<not> (s \<noteq> [] \<and> (hd s = CHR ''.'' \<or> is_digit (hd s))) then None
      else case leading_int s 0 of None \<Rightarrow> None
      | Some (v, s1) \<Rightarrow>
          (let pre = (length s1 \<noteq> length s);
               (f, scale, s2) = (if s1 \<noteq> [] \<and> hd s1 = CHR ''.'' then leading_fraction (tl s1) 0 1 False else (0, 1, s1));
               post = (s1 \<noteq> [] \<and> hd s1 = CHR ''.'' \<and> length s2 \<noteq> length (tl s1));
               u = takeWhile in_unit s2
           in if \<not> pre \<and> \<not> post then None
              else if u = [] then None
              else case unit_map u of None \<Rightarrow> None
              | Some unit \<Rightarrow>
                  if v > 2 ^ 63 div unit then None
                  else let v1 = of_int (v * unit) :: u64;
                           v2 = (if f > 0 then v1 + u64_of_float (fmul (fl64 (of_int f)) (fdiv (fl64 (of_int unit)) scale)) else v1)
                       in if f > 0 \<and> v2 > 2 ^ 63 then None else Some (v2, dropWhile in_unit s2)))"

lemma leading_int_length: "leading_int s x = Some (v, s1) \<Longrightarrow> length s1 \<le> length s"
  by (induction s x rule: leading_int.induct) (auto split: if_splits intro: le_SucI)

lemma leading_fraction_length: "leading_fraction s x sc ov = (f, scale, s2) \<Longrightarrow> length s2 \<le> length s"
  by (induction s x sc ov rule: leading_fraction.induct) (auto split: if_splits intro: le_SucI)

lemma duration_part_shorter:
  assumes "duration_part s = Some (v, r)"
  shows "length r < length s"
proof -
  obtain v0 s1 where s1: "leading_int s 0 = Some (v0, s1)"
    using assms by (auto simp: duration_part_def split: if_splits option.splits)
  obtain f scale s2 where s2: "(if s1 \<noteq> [] \<and> hd s1 = CHR ''.'' then leading_fraction (tl s1) 0 1 False else (0, 1, s1)) = (f, scale, s2)"
    by (metis prod_cases3)
  have len: "length s2 \<le> length s"
    using s2 leading_int_length [OF s1] leading_fraction_length [of "tl s1" 0 1 False f scale s2] by (auto split: if_splits)
  have "takeWhile in_unit s2 \<noteq> []" "r = dropWhile in_unit s2"
    using assms s1 s2 by (auto simp: duration_part_def Let_def split: if_splits option.splits)
  then have "length r < length s2"
    by (metis add_less_cancel_left add.right_neutral length_append length_greater_0_conv takeWhile_dropWhile_id add.commute)
  then show ?thesis using len by simp
qed

function duration_loop :: "string \<Rightarrow> u64 \<Rightarrow> u64 option" where
  "duration_loop s d = (if s = [] then Some d else case duration_part s of None \<Rightarrow> None
     | Some (v, r) \<Rightarrow> if d + v > 2 ^ 63 then None else duration_loop r (d + v))"
  by pat_completeness auto
termination by (relation "measure (length \<circ> fst)") (auto dest: duration_part_shorter)

declare duration_loop.simps [simp del]

definition ParseDuration :: "string \<Rightarrow> duration option" where
  "ParseDuration s0 =
     (let neg = (s0 \<noteq> [] \<and> hd s0 = CHR ''-'');
          s = (if s0 \<noteq> [] \<and> (hd s0 = CHR ''-'' \<or> hd s0 = CHR ''+'') then tl s0 else s0)
      in if s = ''0'' then Some 0
         else if s = [] then None
         else case duration_loop s 0 of None \<Rightarrow> None
         | Some d \<Rightarrow> if neg then Some (- d) else if d > 2 ^ 63 - 1 then None else Some d)"

subsection \<open>Addresses\<close>

definition index_of :: "char \<Rightarrow> string \<Rightarrow> nat option" where
  "index_of c s = (if c \<in> set s then Some (length (takeWhile (\<lambda>x. x \<noteq> c) s)) else None)"

definition last_index_of :: "char \<Rightarrow> string \<Rightarrow> nat option" where
  "last_index_of c s = map_option (\<lambda>i. length s - Suc i) (index_of c (rev s))"

text \<open>\<open>net.SplitHostPort\<close>; its errors are not told apart.\<close>

definition SplitHostPort :: "string \<Rightarrow> (string \<times> string) option" where
  "SplitHostPort s = (case last_index_of CHR '':'' s of None \<Rightarrow> None
     | Some i \<Rightarrow>
         (let parts = (if hd s = CHR ''['' then
                (case index_of CHR '']'' s of None \<Rightarrow> None
                 | Some e \<Rightarrow> if Suc e = i then Some (take (e - 1) (tl s), Suc 0, Suc e) else None)
              else if CHR '':'' \<in> set (take i s) then None else Some (take i s, 0, 0))
          in case parts of None \<Rightarrow> None
             | Some (host, j, k) \<Rightarrow>
                 if CHR ''['' \<in> set (drop j s) \<or> CHR '']'' \<in> set (drop k s) then None else Some (host, drop (Suc i) s)))"

end
