(* ===== verification/Config.thy ===== *)
theory Config
  imports Go_Strconv
begin

text \<open>
  The configuration of the daemon (\<^verbatim>\<open>internal/config/config.go\<close>): its defaults, its reading from environment variables and
  its validation. A Go \<open>int\<close> or \<open>int64\<close> is an integer here; what is read is within its range.
\<close>

subsection \<open>The settings\<close>

record Config =
  cfg_HTTPAddr :: string
  cfg_IngestAddr :: string
  cfg_RingCapacity :: u64
  cfg_BatchSize :: int
  cfg_FlushInterval :: duration
  cfg_MaxEventBytes :: int
  cfg_AuditMode :: string
  cfg_LeaseTimeout :: duration
  cfg_AuditInterval :: duration
  cfg_Sink :: string
  cfg_LogPath :: string
  cfg_NetworkAddr :: string
  cfg_NetworkDialTimeout :: duration
  cfg_NetworkIOTimeout :: duration
  cfg_NetworkRetryInitial :: duration
  cfg_NetworkRetryMaximum :: duration
  cfg_NetworkMaxAttempts :: int
  cfg_RotateBytes :: int
  cfg_SyncOnFlush :: bool
  cfg_DemoMode :: bool
  cfg_ContainerMode :: bool
  cfg_ProjectRoot :: string
  cfg_WebDir :: string
  cfg_ShutdownTimeout :: duration
  cfg_CollectorMaxConnections :: int
  cfg_CollectorReadTimeout :: duration
  cfg_CollectorDedupeEntries :: int
  cfg_ProtocolMaxRecords :: u32
  cfg_ProtocolMaxPayload :: u32
  cfg_TelemetryInterval :: duration
  cfg_SSEMaxClients :: int
  cfg_Version :: string

definition Defaults :: Config where
  "Defaults = \<lparr>
     cfg_HTTPAddr = ''127.0.0.1:28640'',
     cfg_IngestAddr = ''127.0.0.1:28641'',
     cfg_RingCapacity = 65536,
     cfg_BatchSize = 1024,
     cfg_FlushInterval = 50 * Millisecond,
     cfg_MaxEventBytes = 2 ^ 20,
     cfg_AuditMode = ''off'',
     cfg_LeaseTimeout = 2 * Second,
     cfg_AuditInterval = 100 * Millisecond,
     cfg_Sink = ''file'',
     cfg_LogPath = ''./data/minilogback.log'',
     cfg_NetworkAddr = ''127.0.0.1:28641'',
     cfg_NetworkDialTimeout = 2 * Second,
     cfg_NetworkIOTimeout = 5 * Second,
     cfg_NetworkRetryInitial = 50 * Millisecond,
     cfg_NetworkRetryMaximum = 2 * Second,
     cfg_NetworkMaxAttempts = 8,
     cfg_RotateBytes = 64 * 2 ^ 20,
     cfg_SyncOnFlush = False,
     cfg_DemoMode = False,
     cfg_ContainerMode = False,
     cfg_ProjectRoot = '''',
     cfg_WebDir = ''./frontend/dist'',
     cfg_ShutdownTimeout = 5 * Second,
     cfg_CollectorMaxConnections = 256,
     cfg_CollectorReadTimeout = 10 * Second,
     cfg_CollectorDedupeEntries = 100000,
     cfg_ProtocolMaxRecords = 1024,
     cfg_ProtocolMaxPayload = 16 * 2 ^ 20,
     cfg_TelemetryInterval = 100 * Millisecond,
     cfg_SSEMaxClients = 64,
     cfg_Version = ''dev''\<rparr>"

datatype config_error =
    BadNumber string num_error | BadDuration string | BadBool string | OverflowsUint32 string
  | BadAddress string string | BadPort string string | BadSetting string

type_synonym lookup = "string \<rightharpoonup> string"

subsection \<open>Reading one variable\<close>

definition stringValue :: "lookup \<Rightarrow> string \<Rightarrow> ((string \<Rightarrow> string) \<Rightarrow> Config \<Rightarrow> Config) \<Rightarrow> Config \<Rightarrow> Config" where
  "stringValue env key target c = (case env key of None \<Rightarrow> c | Some v \<Rightarrow> target (\<lambda>_. TrimSpaceUTF8 v) c)"

definition intValue :: "lookup \<Rightarrow> string \<Rightarrow> ((int \<Rightarrow> int) \<Rightarrow> Config \<Rightarrow> Config) \<Rightarrow> Config \<Rightarrow> (config_error, Config) result" where
  "intValue env key target c = (case env key of None \<Rightarrow> Inr c
     | Some v \<Rightarrow> (case Atoi v of Inl e \<Rightarrow> Inl (BadNumber key e) | Inr n \<Rightarrow> Inr (target (\<lambda>_. n) c)))"

definition int64Value :: "lookup \<Rightarrow> string \<Rightarrow> ((int \<Rightarrow> int) \<Rightarrow> Config \<Rightarrow> Config) \<Rightarrow> Config \<Rightarrow> (config_error, Config) result" where
  "int64Value env key target c = (case env key of None \<Rightarrow> Inr c
     | Some v \<Rightarrow> (case ParseInt v of Inl e \<Rightarrow> Inl (BadNumber key e) | Inr n \<Rightarrow> Inr (target (\<lambda>_. n) c)))"

definition uint64Value :: "lookup \<Rightarrow> string \<Rightarrow> ((u64 \<Rightarrow> u64) \<Rightarrow> Config \<Rightarrow> Config) \<Rightarrow> Config \<Rightarrow> (config_error, Config) result" where
  "uint64Value env key target c = (case env key of None \<Rightarrow> Inr c
     | Some v \<Rightarrow> (case ParseUint v of Inl e \<Rightarrow> Inl (BadNumber key e) | Inr n \<Rightarrow> Inr (target (\<lambda>_. word_of_int n) c)))"

text \<open>It reads the variable as 64 bits first; a variable that is not set leaves the target as it is.\<close>

definition uint32Value :: "lookup \<Rightarrow> string \<Rightarrow> ((u32 \<Rightarrow> u32) \<Rightarrow> Config \<Rightarrow> Config) \<Rightarrow> Config \<Rightarrow> (config_error, Config) result" where
  "uint32Value env key target c = (case env key of None \<Rightarrow> Inr c
     | Some v \<Rightarrow> (case ParseUint v of Inl e \<Rightarrow> Inl (BadNumber key e)
         | Inr n \<Rightarrow> if n > 2 ^ 32 - 1 then Inl (OverflowsUint32 key) else Inr (target (\<lambda>_. word_of_int n) c)))"

definition durationValue :: "lookup \<Rightarrow> string \<Rightarrow> ((duration \<Rightarrow> duration) \<Rightarrow> Config \<Rightarrow> Config) \<Rightarrow> Config \<Rightarrow> (config_error, Config) result" where
  "durationValue env key target c = (case env key of None \<Rightarrow> Inr c
     | Some v \<Rightarrow> (case ParseDuration v of None \<Rightarrow> Inl (BadDuration key) | Some d \<Rightarrow> Inr (target (\<lambda>_. d) c)))"

definition boolValue :: "lookup \<Rightarrow> string \<Rightarrow> ((bool \<Rightarrow> bool) \<Rightarrow> Config \<Rightarrow> Config) \<Rightarrow> Config \<Rightarrow> (config_error, Config) result" where
  "boolValue env key target c = (case env key of None \<Rightarrow> Inr c
     | Some v \<Rightarrow> (case ParseBool v of Inl e \<Rightarrow> Inl (BadBool key) | Inr b \<Rightarrow> Inr (target (\<lambda>_. b) c)))"

subsection \<open>Reading all of them\<close>

definition parse_strings :: "lookup \<Rightarrow> Config \<Rightarrow> Config" where
  "parse_strings env c =
    (stringValue env ''MINILOGBACK_VERSION'' cfg_Version_update
     (stringValue env ''MINILOGBACK_WEB_DIR'' cfg_WebDir_update
     (stringValue env ''MINILOGBACK_PROJECT_ROOT'' cfg_ProjectRoot_update
     (stringValue env ''MINILOGBACK_NETWORK_ADDR'' cfg_NetworkAddr_update
     (stringValue env ''MINILOGBACK_LOG_PATH'' cfg_LogPath_update
     (stringValue env ''MINILOGBACK_SINK'' cfg_Sink_update
     (stringValue env ''MINILOGBACK_AUDIT_MODE'' cfg_AuditMode_update
     (stringValue env ''MINILOGBACK_INGEST_ADDR'' cfg_IngestAddr_update
     (stringValue env ''MINILOGBACK_HTTP_ADDR'' cfg_HTTPAddr_update c)))))))))"

definition parsers :: "lookup \<Rightarrow> (Config \<Rightarrow> (config_error, Config) result) list" where
  "parsers env = [
     uint64Value env ''MINILOGBACK_RING_CAPACITY'' cfg_RingCapacity_update,
     intValue env ''MINILOGBACK_BATCH_SIZE'' cfg_BatchSize_update,
     durationValue env ''MINILOGBACK_FLUSH_INTERVAL'' cfg_FlushInterval_update,
     intValue env ''MINILOGBACK_MAX_EVENT_BYTES'' cfg_MaxEventBytes_update,
     durationValue env ''MINILOGBACK_LEASE_TIMEOUT'' cfg_LeaseTimeout_update,
     durationValue env ''MINILOGBACK_AUDIT_INTERVAL'' cfg_AuditInterval_update,
     durationValue env ''MINILOGBACK_NETWORK_DIAL_TIMEOUT'' cfg_NetworkDialTimeout_update,
     durationValue env ''MINILOGBACK_NETWORK_IO_TIMEOUT'' cfg_NetworkIOTimeout_update,
     durationValue env ''MINILOGBACK_NETWORK_RETRY_INITIAL'' cfg_NetworkRetryInitial_update,
     durationValue env ''MINILOGBACK_NETWORK_RETRY_MAXIMUM'' cfg_NetworkRetryMaximum_update,
     intValue env ''MINILOGBACK_NETWORK_MAX_ATTEMPTS'' cfg_NetworkMaxAttempts_update,
     int64Value env ''MINILOGBACK_ROTATE_BYTES'' cfg_RotateBytes_update,
     boolValue env ''MINILOGBACK_SYNC_ON_FLUSH'' cfg_SyncOnFlush_update,
     boolValue env ''MINILOGBACK_DEMO_MODE'' cfg_DemoMode_update,
     boolValue env ''MINILOGBACK_CONTAINER_MODE'' cfg_ContainerMode_update,
     durationValue env ''MINILOGBACK_SHUTDOWN_TIMEOUT'' cfg_ShutdownTimeout_update,
     intValue env ''MINILOGBACK_COLLECTOR_MAX_CONNECTIONS'' cfg_CollectorMaxConnections_update,
     durationValue env ''MINILOGBACK_COLLECTOR_READ_TIMEOUT'' cfg_CollectorReadTimeout_update,
     intValue env ''MINILOGBACK_COLLECTOR_DEDUPE_ENTRIES'' cfg_CollectorDedupeEntries_update,
     uint32Value env ''MINILOGBACK_PROTOCOL_MAX_RECORDS'' cfg_ProtocolMaxRecords_update,
     uint32Value env ''MINILOGBACK_PROTOCOL_MAX_PAYLOAD'' cfg_ProtocolMaxPayload_update,
     durationValue env ''MINILOGBACK_TELEMETRY_INTERVAL'' cfg_TelemetryInterval_update,
     intValue env ''MINILOGBACK_SSE_MAX_CLIENTS'' cfg_SSEMaxClients_update]"

fun run_parsers :: "(Config \<Rightarrow> (config_error, Config) result) list \<Rightarrow> Config \<Rightarrow> (config_error, Config) result" where
  "run_parsers [] c = Inr c"
| "run_parsers (p # ps) c = (case p c of Inl e \<Rightarrow> Inl e | Inr c1 \<Rightarrow> run_parsers ps c1)"

subsection \<open>Validation\<close>

definition validateAddress :: "string \<Rightarrow> string \<Rightarrow> config_error option" where
  "validateAddress key addr = (case SplitHostPort addr of None \<Rightarrow> Some (BadAddress key addr)
     | Some (_, port) \<Rightarrow> (case Atoi port of Inl _ \<Rightarrow> Some (BadPort key addr)
         | Inr n \<Rightarrow> if n < 1 \<or> n > 65535 then Some (BadPort key addr) else None))"

text \<open>The first two addresses are checked in the order in which the map gives them: \<open>http_first\<close>.\<close>

definition validate_listeners :: "bool \<Rightarrow> Config \<Rightarrow> config_error option" where
  "validate_listeners http_first c =
     (let h = validateAddress ''MINILOGBACK_HTTP_ADDR'' (cfg_HTTPAddr c); i = validateAddress ''MINILOGBACK_INGEST_ADDR'' (cfg_IngestAddr c)
      in if http_first then (if h \<noteq> None then h else i) else (if i \<noteq> None then i else h))"

definition Validate :: "bool \<Rightarrow> Config \<Rightarrow> config_error option" where
  "Validate http_first c =
     (let listeners = validate_listeners http_first c; bad = (\<lambda>m. Some (BadSetting m)) in
      if listeners \<noteq> None then listeners
      else if cfg_RingCapacity c < 2 \<or> cfg_RingCapacity c AND (cfg_RingCapacity c - 1) \<noteq> 0 then bad ''MINILOGBACK_RING_CAPACITY''
      else if cfg_BatchSize c < 1 \<or> (word_of_int (cfg_BatchSize c) :: u64) > cfg_RingCapacity c then bad ''MINILOGBACK_BATCH_SIZE''
      else if cfg_MaxEventBytes c < 1 \<or> (word_of_int (cfg_MaxEventBytes c) :: u64) > ucast (cfg_ProtocolMaxPayload c)
        then bad ''MINILOGBACK_MAX_EVENT_BYTES''
      else if cfg_ProtocolMaxRecords c = 0 \<or> cfg_ProtocolMaxPayload c = 0 then bad ''protocol limits must be positive''
      else if cfg_ProtocolMaxRecords c > 65536 \<or> cfg_ProtocolMaxPayload c > 67108864 \<or> cfg_MaxEventBytes c > 16777216
        then bad ''protocol limits exceed safe implementation bounds''
      else if sint (cfg_FlushInterval c) \<le> 0 \<or> sint (cfg_LeaseTimeout c) \<le> 0 \<or> sint (cfg_AuditInterval c) \<le> 0 \<or>
              sint (cfg_ShutdownTimeout c) \<le> 0 \<or> sint (cfg_TelemetryInterval c) \<le> 0 \<or> sint (cfg_CollectorReadTimeout c) \<le> 0
        then bad ''duration settings must be positive''
      else if cfg_AuditMode c \<noteq> ''off'' \<and> cfg_AuditMode c \<noteq> ''sampled'' \<and> cfg_AuditMode c \<noteq> ''full'' then bad ''MINILOGBACK_AUDIT_MODE''
      else if cfg_Sink c \<noteq> ''file'' \<and> cfg_Sink c \<noteq> ''network'' then bad ''MINILOGBACK_SINK''
      else if cfg_Sink c = ''file'' \<and> TrimSpaceUTF8 (cfg_LogPath c) = [] then bad ''MINILOGBACK_LOG_PATH''
      else (let network = (if cfg_Sink c = ''network'' then validateAddress ''MINILOGBACK_NETWORK_ADDR'' (cfg_NetworkAddr c) else None) in
      if network \<noteq> None then network
      else if sint (cfg_NetworkDialTimeout c) \<le> 0 \<or> sint (cfg_NetworkIOTimeout c) \<le> 0 \<or> sint (cfg_NetworkRetryInitial c) \<le> 0 \<or>
              sint (cfg_NetworkRetryMaximum c) < sint (cfg_NetworkRetryInitial c) \<or> cfg_NetworkMaxAttempts c \<le> 0
        then bad ''network timeouts''
      else if cfg_RotateBytes c \<le> 0 \<or> cfg_CollectorMaxConnections c \<le> 0 \<or> cfg_CollectorDedupeEntries c \<le> 0 \<or> cfg_SSEMaxClients c \<le> 0
        then bad ''capacity settings must be positive''
      else if TrimSpaceUTF8 (cfg_WebDir c) = [] then bad ''MINILOGBACK_WEB_DIR''
      else None))"

text \<open>\<open>Load\<close> is \<open>Parse\<close> on the environment of the process.\<close>

definition Parse :: "bool \<Rightarrow> lookup \<Rightarrow> (config_error, Config) result" where
  "Parse http_first env = (case run_parsers (parsers env) (parse_strings env Defaults) of Inl e \<Rightarrow> Inl e
     | Inr c \<Rightarrow> (case Validate http_first c of Some e \<Rightarrow> Inl e | None \<Rightarrow> Inr c))"

end
