(* ===== verification/Config_Parse.thy ===== *)
theory Config_Parse
  imports Config
begin

text \<open>
  Reading back what the settings are written as: numbers in decimal, durations in nanoseconds, truth values as words.
\<close>

subsection \<open>Texts\<close>

fun show_nat :: "nat \<Rightarrow> string" where
  "show_nat n = (if n < 10 then [char_of (48 + n)] else show_nat (n div 10) @ [char_of (48 + n mod 10)])"

declare show_nat.simps [simp del]

definition show_int :: "int \<Rightarrow> string" where
  "show_int i = (if i < 0 then CHR ''-'' # show_nat (nat (- i)) else show_nat (nat i))"

definition show_bool :: "bool \<Rightarrow> string" where
  "show_bool b = (if b then ''true'' else ''false'')"

definition show_duration :: "duration \<Rightarrow> string" where
  "show_duration d = show_int (sint d) @ ''ns''"

text \<open>The environment that sets everything to what \<open>c\<close> has.\<close>

definition settings :: "Config \<Rightarrow> (string \<times> string) list" where
  "settings c = [
     (''MINILOGBACK_HTTP_ADDR'', cfg_HTTPAddr c),
     (''MINILOGBACK_INGEST_ADDR'', cfg_IngestAddr c),
     (''MINILOGBACK_RING_CAPACITY'', show_nat (unat (cfg_RingCapacity c))),
     (''MINILOGBACK_BATCH_SIZE'', show_int (cfg_BatchSize c)),
     (''MINILOGBACK_FLUSH_INTERVAL'', show_duration (cfg_FlushInterval c)),
     (''MINILOGBACK_MAX_EVENT_BYTES'', show_int (cfg_MaxEventBytes c)),
     (''MINILOGBACK_AUDIT_MODE'', cfg_AuditMode c),
     (''MINILOGBACK_LEASE_TIMEOUT'', show_duration (cfg_LeaseTimeout c)),
     (''MINILOGBACK_AUDIT_INTERVAL'', show_duration (cfg_AuditInterval c)),
     (''MINILOGBACK_SINK'', cfg_Sink c),
     (''MINILOGBACK_LOG_PATH'', cfg_LogPath c),
     (''MINILOGBACK_NETWORK_ADDR'', cfg_NetworkAddr c),
     (''MINILOGBACK_NETWORK_DIAL_TIMEOUT'', show_duration (cfg_NetworkDialTimeout c)),
     (''MINILOGBACK_NETWORK_IO_TIMEOUT'', show_duration (cfg_NetworkIOTimeout c)),
     (''MINILOGBACK_NETWORK_RETRY_INITIAL'', show_duration (cfg_NetworkRetryInitial c)),
     (''MINILOGBACK_NETWORK_RETRY_MAXIMUM'', show_duration (cfg_NetworkRetryMaximum c)),
     (''MINILOGBACK_NETWORK_MAX_ATTEMPTS'', show_int (cfg_NetworkMaxAttempts c)),
     (''MINILOGBACK_ROTATE_BYTES'', show_int (cfg_RotateBytes c)),
     (''MINILOGBACK_SYNC_ON_FLUSH'', show_bool (cfg_SyncOnFlush c)),
     (''MINILOGBACK_DEMO_MODE'', show_bool (cfg_DemoMode c)),
     (''MINILOGBACK_CONTAINER_MODE'', show_bool (cfg_ContainerMode c)),
     (''MINILOGBACK_PROJECT_ROOT'', cfg_ProjectRoot c),
     (''MINILOGBACK_WEB_DIR'', cfg_WebDir c),
     (''MINILOGBACK_SHUTDOWN_TIMEOUT'', show_duration (cfg_ShutdownTimeout c)),
     (''MINILOGBACK_COLLECTOR_MAX_CONNECTIONS'', show_int (cfg_CollectorMaxConnections c)),
     (''MINILOGBACK_COLLECTOR_READ_TIMEOUT'', show_duration (cfg_CollectorReadTimeout c)),
     (''MINILOGBACK_COLLECTOR_DEDUPE_ENTRIES'', show_int (cfg_CollectorDedupeEntries c)),
     (''MINILOGBACK_PROTOCOL_MAX_RECORDS'', show_nat (unat (cfg_ProtocolMaxRecords c))),
     (''MINILOGBACK_PROTOCOL_MAX_PAYLOAD'', show_nat (unat (cfg_ProtocolMaxPayload c))),
     (''MINILOGBACK_TELEMETRY_INTERVAL'', show_duration (cfg_TelemetryInterval c)),
     (''MINILOGBACK_SSE_MAX_CLIENTS'', show_int (cfg_SSEMaxClients c)),
     (''MINILOGBACK_VERSION'', cfg_Version c)]"

definition env_of :: "Config \<Rightarrow> lookup" where
  "env_of c = map_of (settings c)"

lemma env_of_key:
  "env_of c ''MINILOGBACK_HTTP_ADDR'' = Some (cfg_HTTPAddr c)"
  "env_of c ''MINILOGBACK_INGEST_ADDR'' = Some (cfg_IngestAddr c)"
  "env_of c ''MINILOGBACK_RING_CAPACITY'' = Some (show_nat (unat (cfg_RingCapacity c)))"
  "env_of c ''MINILOGBACK_BATCH_SIZE'' = Some (show_int (cfg_BatchSize c))"
  "env_of c ''MINILOGBACK_FLUSH_INTERVAL'' = Some (show_duration (cfg_FlushInterval c))"
  "env_of c ''MINILOGBACK_MAX_EVENT_BYTES'' = Some (show_int (cfg_MaxEventBytes c))"
  "env_of c ''MINILOGBACK_AUDIT_MODE'' = Some (cfg_AuditMode c)"
  "env_of c ''MINILOGBACK_LEASE_TIMEOUT'' = Some (show_duration (cfg_LeaseTimeout c))"
  "env_of c ''MINILOGBACK_AUDIT_INTERVAL'' = Some (show_duration (cfg_AuditInterval c))"
  "env_of c ''MINILOGBACK_SINK'' = Some (cfg_Sink c)"
  "env_of c ''MINILOGBACK_LOG_PATH'' = Some (cfg_LogPath c)"
  "env_of c ''MINILOGBACK_NETWORK_ADDR'' = Some (cfg_NetworkAddr c)"
  "env_of c ''MINILOGBACK_NETWORK_DIAL_TIMEOUT'' = Some (show_duration (cfg_NetworkDialTimeout c))"
  "env_of c ''MINILOGBACK_NETWORK_IO_TIMEOUT'' = Some (show_duration (cfg_NetworkIOTimeout c))"
  "env_of c ''MINILOGBACK_NETWORK_RETRY_INITIAL'' = Some (show_duration (cfg_NetworkRetryInitial c))"
  "env_of c ''MINILOGBACK_NETWORK_RETRY_MAXIMUM'' = Some (show_duration (cfg_NetworkRetryMaximum c))"
  "env_of c ''MINILOGBACK_NETWORK_MAX_ATTEMPTS'' = Some (show_int (cfg_NetworkMaxAttempts c))"
  "env_of c ''MINILOGBACK_ROTATE_BYTES'' = Some (show_int (cfg_RotateBytes c))"
  "env_of c ''MINILOGBACK_SYNC_ON_FLUSH'' = Some (show_bool (cfg_SyncOnFlush c))"
  "env_of c ''MINILOGBACK_DEMO_MODE'' = Some (show_bool (cfg_DemoMode c))"
  "env_of c ''MINILOGBACK_CONTAINER_MODE'' = Some (show_bool (cfg_ContainerMode c))"
  "env_of c ''MINILOGBACK_PROJECT_ROOT'' = Some (cfg_ProjectRoot c)"
  "env_of c ''MINILOGBACK_WEB_DIR'' = Some (cfg_WebDir c)"
  "env_of c ''MINILOGBACK_SHUTDOWN_TIMEOUT'' = Some (show_duration (cfg_ShutdownTimeout c))"
  "env_of c ''MINILOGBACK_COLLECTOR_MAX_CONNECTIONS'' = Some (show_int (cfg_CollectorMaxConnections c))"
  "env_of c ''MINILOGBACK_COLLECTOR_READ_TIMEOUT'' = Some (show_duration (cfg_CollectorReadTimeout c))"
  "env_of c ''MINILOGBACK_COLLECTOR_DEDUPE_ENTRIES'' = Some (show_int (cfg_CollectorDedupeEntries c))"
  "env_of c ''MINILOGBACK_PROTOCOL_MAX_RECORDS'' = Some (show_nat (unat (cfg_ProtocolMaxRecords c)))"
  "env_of c ''MINILOGBACK_PROTOCOL_MAX_PAYLOAD'' = Some (show_nat (unat (cfg_ProtocolMaxPayload c)))"
  "env_of c ''MINILOGBACK_TELEMETRY_INTERVAL'' = Some (show_duration (cfg_TelemetryInterval c))"
  "env_of c ''MINILOGBACK_SSE_MAX_CLIENTS'' = Some (show_int (cfg_SSEMaxClients c))"
  "env_of c ''MINILOGBACK_VERSION'' = Some (cfg_Version c)"
  by (simp_all add: env_of_def settings_def)

subsection \<open>Reading a number back\<close>

lemma digit_char: "n < 10 \<Longrightarrow> is_digit (char_of (48 + n)) \<and> digit_value (char_of (48 + n)) = int n"
  by (simp add: is_digit_def digit_value_def code_of_def)

lemma show_nat_digits: "\<forall>c\<in>set (show_nat n). is_digit c"
proof (induction n rule: show_nat.induct)
  case (1 n)
  then show ?case by (subst show_nat.simps) (auto simp: digit_char)
qed

lemma show_nat_nonempty [simp]: "show_nat n \<noteq> []"
  by (subst show_nat.simps) simp

text \<open>The value of a list of digits.\<close>

definition digits_value :: "string \<Rightarrow> int \<Rightarrow> int" where
  "digits_value s x = foldl (\<lambda>x c. x * 10 + digit_value c) x s"

lemma digits_value_simps [simp]:
  "digits_value [] x = x" "digits_value (c # cs) x = digits_value cs (x * 10 + digit_value c)"
  "digits_value (xs @ ys) x = digits_value ys (digits_value xs x)"
  by (simp_all add: digits_value_def)

lemma digits_value_show: "digits_value (show_nat n) 0 = int n"
proof (induction n rule: show_nat.induct)
  case (1 n)
  show ?case
  proof (cases "n < 10")
    case True
    then show ?thesis using digit_char by (subst show_nat.simps) simp
  next
    case False
    have "int (n div 10) * 10 + int (n mod 10) = int n" by (metis div_mult_mod_eq of_nat_add of_nat_mult of_nat_numeral)
    then show ?thesis using 1 [OF False] digit_char [of "n mod 10"] False by (subst show_nat.simps) simp
  qed
qed

lemma digits_value_mono:
  assumes "\<forall>c\<in>set s. is_digit c" "0 \<le> x"
  shows "x \<le> digits_value s x"
  using assms
proof (induction s arbitrary: x)
  case (Cons c cs)
  have "0 \<le> digit_value c" using Cons.prems by (simp add: digit_value_def is_digit_def)
  then have "x \<le> x * 10 + digit_value c" "0 \<le> x * 10 + digit_value c" using Cons.prems by simp_all
  then show ?case using Cons.IH [of "x * 10 + digit_value c"] Cons.prems by simp
qed simp

lemma uint_digits_value:
  assumes "\<forall>c\<in>set s. is_digit c" "0 \<le> x" "digits_value s x \<le> 2 ^ 64 - 1"
  shows "uint_digits s x = Inr (digits_value s x)"
  using assms
proof (induction s arbitrary: x)
  case (Cons c cs)
  have d: "0 \<le> digit_value c" "is_digit c" using Cons.prems by (simp_all add: digit_value_def is_digit_def)
  have "x * 10 + digit_value c \<le> digits_value cs (x * 10 + digit_value c)"
    using Cons.prems d by (intro digits_value_mono) simp_all
  then show ?case using Cons d by simp
qed simp

lemma leading_int_value:
  assumes "\<forall>c\<in>set s. is_digit c" "0 \<le> x" "digits_value s x \<le> 2 ^ 63" "rest \<noteq> []" "\<not> is_digit (hd rest)"
  shows "leading_int (s @ rest) x = Some (digits_value s x, rest)"
  using assms
proof (induction s arbitrary: x)
  case Nil
  then show ?case by (cases rest) simp_all
next
  case (Cons c cs)
  have d: "0 \<le> digit_value c" "is_digit c" using Cons.prems by (simp_all add: digit_value_def is_digit_def)
  have "x * 10 + digit_value c \<le> digits_value cs (x * 10 + digit_value c)"
    using Cons.prems d by (intro digits_value_mono) simp_all
  then show ?case using Cons d by simp
qed

lemma ParseUint_show: "n < 2 ^ 64 \<Longrightarrow> ParseUint (show_nat n) = Inr (int n)"
  using uint_digits_value [OF show_nat_digits, of 0 n] by (simp add: ParseUint_def digits_value_show)

lemma not_sign: "is_digit c \<Longrightarrow> c \<noteq> CHR ''-'' \<and> c \<noteq> CHR ''+'' \<and> c \<noteq> CHR ''.''"
  by (auto simp: is_digit_def code_of_def)

lemma show_nat_hd: "is_digit (hd (show_nat n))"
  using show_nat_digits [of n] by (cases "show_nat n") simp_all

lemma ParseInt_show:
  assumes "- (2 ^ 63) \<le> i" "i < 2 ^ 63"
  shows "ParseInt (show_int i) = Inr i"
proof (cases "i < 0")
  case True
  then have "ParseUint (show_nat (nat (- i))) = Inr (- i)" using assms ParseUint_show [of "nat (- i)"] by simp
  then show ?thesis using assms True by (simp add: ParseInt_def show_int_def Let_def)
next
  case False
  then have "ParseUint (show_nat (nat i)) = Inr i" using assms ParseUint_show [of "nat i"] by simp
  moreover obtain c cs where "show_nat (nat i) = c # cs" "is_digit c" using show_nat_hd [of "nat i"] by (cases "show_nat (nat i)") auto
  ultimately show ?thesis using assms False not_sign [of c] by (simp add: ParseInt_def show_int_def Let_def)
qed

lemma ParseBool_show: "ParseBool (show_bool b) = Inr b"
  by (simp add: ParseBool_def show_bool_def)

lemma duration_part_show:
  assumes "int n \<le> 2 ^ 63"
  shows "duration_part (show_nat n @ ''ns'') = Some (of_nat n, [])"
proof -
  have "leading_int (show_nat n @ ''ns'') 0 = Some (int n, ''ns'')"
    using leading_int_value [OF show_nat_digits, of 0 n "''ns''"] assms by (simp add: digits_value_show is_digit_def code_of_def)
  moreover have "takeWhile in_unit ''ns'' = ''ns''" "dropWhile in_unit ''ns'' = []" by (simp_all add: in_unit_def is_digit_def code_of_def)
  moreover have "hd (show_nat n @ ''ns'') = hd (show_nat n)" by simp
  ultimately show ?thesis using assms show_nat_hd [of n] by (simp add: duration_part_def Let_def unit_map_def)
qed

lemma ParseDuration_show: "ParseDuration (show_duration d) = Some d"
proof -
  have range: "- (2 ^ 63) \<le> sint d" "sint d < 2 ^ 63" using sint_ge [of d] sint_lt [of d] by simp_all
  have loop: "duration_loop (show_nat n @ ''ns'') 0 = Some (of_nat n)" if n: "n \<le> 2 ^ 63" for n
  proof -
    have "int n \<le> 2 ^ 63" using n by (simp flip: of_nat_power)
    moreover have "\<not> (of_nat n :: u64) > 2 ^ 63"
    proof -
      have "unat (of_nat n :: u64) = n" using n by (simp add: unat_of_nat take_bit_eq_mod)
      then show ?thesis using n by (simp add: word_less_nat_alt)
    qed
    ultimately show ?thesis by (subst duration_loop.simps) (simp add: duration_part_show duration_loop.simps)
  qed
  show ?thesis
  proof (cases "sint d < 0")
    case True
    have n: "nat (- sint d) \<le> 2 ^ 63" using range by simp
    have "- (of_nat (nat (- sint d)) :: u64) = d" using True by (simp add: of_nat_nat)
    then show ?thesis using loop [OF n] True by (simp add: ParseDuration_def show_duration_def show_int_def Let_def)
  next
    case False
    have n: "nat (sint d) \<le> 2 ^ 63" "nat (sint d) < 2 ^ 63" using range by simp_all
    have w: "(of_nat (nat (sint d)) :: u64) = d" using False by (simp add: of_nat_nat)
    have "unat (of_nat (nat (sint d)) :: u64) = nat (sint d)" using n(2) by (simp add: unat_of_nat take_bit_eq_mod)
    then have "unat d = nat (sint d)" unfolding w .
    then have small: "\<not> d > 2 ^ 63 - 1" using n(2) by (simp add: word_less_nat_alt)
    have "hd (show_nat (nat (sint d)) @ ''ns'') = hd (show_nat (nat (sint d)))" by simp
    moreover have "show_nat (nat (sint d)) @ ''ns'' \<noteq> ''0''" by (cases "show_nat (nat (sint d))") auto
    ultimately show ?thesis using loop [OF n(1)] False w small not_sign [OF show_nat_hd, of "nat (sint d)"]
      by (simp add: ParseDuration_def show_duration_def show_int_def Let_def)
  qed
qed

subsection \<open>Reading all settings back\<close>

text \<open>Strings without white space around them, integers that fit 64 bits.\<close>

definition writable_config :: "Config \<Rightarrow> bool" where
  "writable_config c \<longleftrightarrow>
     (\<forall>s\<in>{cfg_HTTPAddr c, cfg_IngestAddr c, cfg_AuditMode c, cfg_Sink c, cfg_LogPath c, cfg_NetworkAddr c, cfg_ProjectRoot c, cfg_WebDir c, cfg_Version c}.
        TrimSpaceUTF8 s = s) \<and>
     (\<forall>i\<in>{cfg_BatchSize c, cfg_MaxEventBytes c, cfg_NetworkMaxAttempts c, cfg_RotateBytes c, cfg_CollectorMaxConnections c,
          cfg_CollectorDedupeEntries c, cfg_SSEMaxClients c}. - (2 ^ 63) \<le> i \<and> i < 2 ^ 63)"

lemma ParseUint_word: "ParseUint (show_nat (unat (w :: u64))) = Inr (uint w)" "ParseUint (show_nat (unat (v :: u32))) = Inr (uint v)"
  "uint v \<le> 2 ^ 32 - 1"
proof -
  have "unat v < 2 ^ 32" "uint v < 2 ^ 32" using unsigned_less [of v, where ?'a = nat] unsigned_less [of v, where ?'a = int] by simp_all
  moreover have "unat w < 2 ^ 64" using unsigned_less [of w, where ?'a = nat] by simp
  ultimately show "ParseUint (show_nat (unat w)) = Inr (uint w)" "ParseUint (show_nat (unat v)) = Inr (uint v)" "uint v \<le> 2 ^ 32 - 1"
    using ParseUint_show [of "unat w"] ParseUint_show [of "unat v"] by simp_all
qed

lemmas value_defs = stringValue_def intValue_def int64Value_def uint64Value_def uint32Value_def durationValue_def boolValue_def Atoi_def

lemma strings_read_back:
  assumes "writable_config c"
  shows "parse_strings (env_of c) d = d\<lparr>cfg_HTTPAddr := cfg_HTTPAddr c, cfg_IngestAddr := cfg_IngestAddr c, cfg_AuditMode := cfg_AuditMode c,
    cfg_Sink := cfg_Sink c, cfg_LogPath := cfg_LogPath c, cfg_NetworkAddr := cfg_NetworkAddr c, cfg_ProjectRoot := cfg_ProjectRoot c,
    cfg_WebDir := cfg_WebDir c, cfg_Version := cfg_Version c\<rparr>"
  using assms by (simp add: writable_config_def parse_strings_def value_defs env_of_key)

lemma parsers_read_back:
  assumes "writable_config c"
  shows "run_parsers (parsers (env_of c)) (parse_strings (env_of c) d) = Inr c"
proof -
  note W = assms [unfolded writable_config_def, simplified]
  have "run_parsers (parsers (env_of c)) x = Inr (x\<lparr>cfg_RingCapacity := cfg_RingCapacity c, cfg_BatchSize := cfg_BatchSize c,
      cfg_FlushInterval := cfg_FlushInterval c, cfg_MaxEventBytes := cfg_MaxEventBytes c, cfg_LeaseTimeout := cfg_LeaseTimeout c,
      cfg_AuditInterval := cfg_AuditInterval c, cfg_NetworkDialTimeout := cfg_NetworkDialTimeout c, cfg_NetworkIOTimeout := cfg_NetworkIOTimeout c,
      cfg_NetworkRetryInitial := cfg_NetworkRetryInitial c, cfg_NetworkRetryMaximum := cfg_NetworkRetryMaximum c,
      cfg_NetworkMaxAttempts := cfg_NetworkMaxAttempts c, cfg_RotateBytes := cfg_RotateBytes c, cfg_SyncOnFlush := cfg_SyncOnFlush c,
      cfg_DemoMode := cfg_DemoMode c, cfg_ContainerMode := cfg_ContainerMode c, cfg_ShutdownTimeout := cfg_ShutdownTimeout c,
      cfg_CollectorMaxConnections := cfg_CollectorMaxConnections c, cfg_CollectorReadTimeout := cfg_CollectorReadTimeout c,
      cfg_CollectorDedupeEntries := cfg_CollectorDedupeEntries c, cfg_ProtocolMaxRecords := cfg_ProtocolMaxRecords c,
      cfg_ProtocolMaxPayload := cfg_ProtocolMaxPayload c, cfg_TelemetryInterval := cfg_TelemetryInterval c, cfg_SSEMaxClients := cfg_SSEMaxClients c\<rparr>)" for x
    using W ParseUint_word(3) [of "cfg_ProtocolMaxRecords c"] ParseUint_word(3) [of "cfg_ProtocolMaxPayload c"]
    by (simp add: parsers_def value_defs env_of_key ParseInt_show ParseDuration_show ParseBool_show ParseUint_word(1,2))
  then show ?thesis unfolding strings_read_back [OF assms] by (simp add: Config.equality)
qed


text \<open>A text with visible ASCII characters at both ends has nothing to trim.\<close>

definition visible :: "char \<Rightarrow> bool" where
  "visible c \<longleftrightarrow> 33 \<le> code_of c \<and> code_of c \<le> 126"

lemma spaces_invisible: "p \<in> set spaces \<Longrightarrow> p \<noteq> [] \<and> \<not> visible (hd p) \<and> \<not> visible (last p)"
  by (auto simp: spaces_def visible_def code_of_def)

lemma drop_spaces_id:
  assumes "\<forall>p\<in>set ps. p \<noteq> [] \<longrightarrow> \<not> visible (hd p)" "s \<noteq> []" "visible (hd s)"
  shows "drop_spaces ps s = s"
proof -
  have "List.find (\<lambda>p. p \<noteq> [] \<and> starts_with p s) ps = None"
    using assms by (cases s) (auto simp: find_None_iff starts_with_def neq_Nil_conv)
  then show ?thesis by (subst drop_spaces.simps) simp
qed

lemma TrimSpaceUTF8_visible:
  assumes "s \<noteq> []" "visible (hd s)" "visible (last s)"
  shows "TrimSpaceUTF8 s = s"
proof -
  have "drop_spaces spaces s = s" using spaces_invisible assms by (intro drop_spaces_id) auto
  moreover have "drop_spaces (map rev spaces) (rev s) = rev s"
    using spaces_invisible assms by (intro drop_spaces_id) (auto simp: hd_rev)
  ultimately show ?thesis by (simp add: TrimSpaceUTF8_def)
qed

lemma TrimSpaceUTF8_Nil: "TrimSpaceUTF8 [] = []"
proof -
  have "drop_spaces ps [] = []" for ps
  proof -
    have "List.find (\<lambda>p. p \<noteq> [] \<and> starts_with p []) ps = None" by (auto simp: find_None_iff starts_with_def)
    then show ?thesis by (subst drop_spaces.simps) simp
  qed
  then show ?thesis by (simp add: TrimSpaceUTF8_def)
qed

lemma default_texts:
  "TrimSpaceUTF8 ''127.0.0.1:28640'' = ''127.0.0.1:28640''" "TrimSpaceUTF8 ''127.0.0.1:28641'' = ''127.0.0.1:28641''" "TrimSpaceUTF8 ''off'' = ''off''"
  "TrimSpaceUTF8 ''file'' = ''file''" "TrimSpaceUTF8 ''./data/minilogback.log'' = ''./data/minilogback.log''" "TrimSpaceUTF8 [] = []"
  "TrimSpaceUTF8 ''./frontend/dist'' = ''./frontend/dist''" "TrimSpaceUTF8 ''dev'' = ''dev''"
  by (simp_all add: TrimSpaceUTF8_visible visible_def code_of_def TrimSpaceUTF8_Nil)

lemmas address_eval = validateAddress_def SplitHostPort_def last_index_of_def index_of_def Let_def Atoi_def ParseInt_def ParseUint_def is_digit_def
  digit_value_def code_of_def

lemma default_addresses: "validateAddress key ''127.0.0.1:28640'' = None" "validateAddress key ''127.0.0.1:28641'' = None"
  by (simp_all add: address_eval)

lemma defaults_valid: "Validate http_first Defaults = None" "writable_config Defaults"
proof -
  have "(65536 :: u64) AND (65536 - 1) = 0" by simp
  then show "Validate http_first Defaults = None"
    by (simp add: Validate_def validate_listeners_def Defaults_def default_texts default_addresses Millisecond_def Second_def Let_def)
  show "writable_config Defaults" by (simp add: writable_config_def Defaults_def default_texts)
qed


end
