(* ===== verification/Daemon.thy ===== *)
theory Daemon
  imports Config_Parse Appender_Delivery Collector Protocol_Client File_Sink
begin

text \<open>
  The daemon \<^verbatim>\<open>cmd/minilogbackd\<close>: how \<^verbatim>\<open>runtime.go\<close> builds the components from a configuration and shuts them down, and the sink
  wrapper of \<^verbatim>\<open>sink_observer.go\<close> that measures the batches. The appender's sink is the local file, shared with the collector,
  or the network client.
\<close>

subsection \<open>The observed sink\<close>

datatype inner_sink = LocalFile | NetworkAdapter Client

text \<open>\<open>LocalFile\<close> is a reference: the file sink itself is in the runtime's state.\<close>

record 'i observedSink =
  ob_inner :: 'i
  ob_mode :: string
  ob_times :: "u64 list"
  ob_next :: nat

definition times_cap :: nat where
  "times_cap = 2048"

definition newObservedSink :: "'i \<Rightarrow> string \<Rightarrow> 'i observedSink" where
  "newObservedSink inner mode = \<lparr>ob_inner = inner, ob_mode = mode, ob_times = [], ob_next = 0\<rparr>"

definition observe_time :: "u64 \<Rightarrow> 'i observedSink \<Rightarrow> 'i observedSink" where
  "observe_time elapsed s =
     (if length (ob_times s) < times_cap then s\<lparr>ob_times := ob_times s @ [elapsed]\<rparr>
      else s\<lparr>ob_times := (ob_times s)[ob_next s := elapsed], ob_next := (ob_next s + 1) mod length (ob_times s)\<rparr>)"

text \<open>The environment of a write is the inner sink's and the time that elapses.\<close>

definition ob_WriteBatch :: "('e \<Rightarrow> bytes list \<Rightarrow> 'i \<Rightarrow> ('i \<times> sink_error option) option) \<Rightarrow> 'e \<times> u64 \<Rightarrow> bytes list \<Rightarrow> 'i observedSink \<Rightarrow>
    ('i observedSink \<times> sink_error option) option" where
  "ob_WriteBatch inner_write e records s = (case inner_write (fst e) records (ob_inner s) of None \<Rightarrow> None
     | Some (i, err) \<Rightarrow> Some (observe_time (snd e) (s\<lparr>ob_inner := i\<rparr>), err))"

definition ob_pass :: "('c \<Rightarrow> 'i \<Rightarrow> 'i \<times> sink_error option) \<Rightarrow> 'c \<Rightarrow> 'i observedSink \<Rightarrow> 'i observedSink \<times> sink_error option" where
  "ob_pass f c s = (case f c (ob_inner s) of (i, err) \<Rightarrow> (s\<lparr>ob_inner := i\<rparr>, err))"

definition p95Micros :: "'i observedSink \<Rightarrow> float64" where
  "p95Micros s = (let values = sort (ob_times s) in
     if values = [] then 0
     else let index = (95 * length values + 99) div 100; i = (if index > 0 then index - 1 else index)
     in fdiv (float64_of (values ! i)) 1000)"

subsection \<open>Construction\<close>

definition syncPolicy :: "bool \<Rightarrow> string" where
  "syncPolicy enabled = (if enabled then SyncEveryBatch else SyncManual)"

datatype daemon_error = FileErr sink_error | ClientErr client_error | AppenderErr app_error | CollectorErr collector_error

record runtimeState =
  rt_config :: Config
  rt_appender :: "inner_sink observedSink Appender"
  rt_collector :: "inner_sink Server"
  rt_localFile :: FileSink
  rt_closing :: bool
  rt_demoLeases :: "u64 \<rightharpoonup> nat"

text \<open>What the operating system and the source of random numbers answer.\<close>

record runtime_env =
  rn_existing :: "bytes option"
  rn_mkdir :: "sink_error option"
  rn_rotate :: rotate_env
  rn_random :: "(nat, bytes) result"

definition file_config :: "Config \<Rightarrow> FileConfig" where
  "file_config c = \<lparr>fc_Path = cfg_LogPath c, fc_MaxBytes = cfg_RotateBytes c, fc_SyncPolicy = syncPolicy (cfg_SyncOnFlush c),
     fc_FilePermission = 0, fc_DirPermission = 0\<rparr>"

definition config_limits :: "Config \<Rightarrow> Limits" where
  "config_limits c = \<lparr>MaxRecords = cfg_ProtocolMaxRecords c, MaxPayload = cfg_ProtocolMaxPayload c,
     MaxEventBytes = word_of_int (cfg_MaxEventBytes c)\<rparr>"

definition client_config :: "Config \<Rightarrow> ClientConfig" where
  "client_config c = \<lparr>cc_Address = cfg_NetworkAddr c, cc_ClientID = 0, cc_DialTimeout = cfg_NetworkDialTimeout c,
     cc_IOTimeout = cfg_NetworkIOTimeout c, cc_RetryInitial = cfg_NetworkRetryInitial c, cc_RetryMaximum = cfg_NetworkRetryMaximum c,
     cc_MaxAttempts = cfg_NetworkMaxAttempts c, cc_Limits = config_limits c\<rparr>"

definition appender_config :: "Config \<Rightarrow> 's \<Rightarrow> 's app_Config" where
  "appender_config c sink = \<lparr>cf_Name = ''minilogbackd'', cf_MinLevel = DebugLevel, cf_RingCapacity = cfg_RingCapacity c,
     cf_BatchSize = cfg_BatchSize c, cf_FlushInterval = cfg_FlushInterval c, cf_PollInterval = 0, cf_RetryBackoff = 0,
     cf_MaxRetryBackoff = 0, cf_MaxEventBytes = cfg_MaxEventBytes c, cf_PoolClasses = [], cf_AuditMode = ToUpper (cfg_AuditMode c),
     cf_AuditSampleEvery = 0, cf_LeaseTimeout = cfg_LeaseTimeout c, cf_AuditScanInterval = cfg_AuditInterval c,
     cf_AuditHistoryLimit = 0, cf_AuditStackDepth = 0, cf_ProjectRoot = cfg_ProjectRoot c, cf_Sink = Some sink\<rparr>"

definition server_config :: "Config \<Rightarrow> collector_Config" where
  "server_config c = \<lparr>co_Address = cfg_IngestAddr c, co_MaxConnections = cfg_CollectorMaxConnections c,
     co_ReadTimeout = cfg_CollectorReadTimeout c, co_WriteTimeout = cfg_CollectorReadTimeout c, co_SinkTimeout = cfg_CollectorReadTimeout c,
     co_DedupeEntries = cfg_CollectorDedupeEntries c, co_Limits = config_limits c\<rparr>"

text \<open>The closing of what was already built, when a later part fails, is not part of the answer.\<close>

definition newRuntime :: "runtime_env \<Rightarrow> Config \<Rightarrow> (daemon_error, runtimeState) result" where
  "newRuntime e c =
     (case NewFile (file_config c) (rn_existing e) (rn_mkdir e) (rn_rotate e) of Inl x \<Rightarrow> Inl (FileErr x)
      | Inr localFile \<Rightarrow>
          (case (if cfg_Sink c = ''network'' then (case NewClient (rn_random e) (client_config c) of Inl x \<Rightarrow> Inl (ClientErr x)
                  | Inr cl \<Rightarrow> Inr (NetworkAdapter cl, ''scatter_gather'')) else Inr (LocalFile, cap_BatchMode fs_Capabilities)) of
             Inl x \<Rightarrow> Inl x
           | Inr (inner, mode) \<Rightarrow>
               (let observed = newObservedSink inner mode
                in case app_New 0 observed (appender_config c observed) [] of Inl x \<Rightarrow> Inl (AppenderErr x)
                   | Inr app \<Rightarrow>
                       (case collector_New (server_config c) (Some LocalFile) of Inl x \<Rightarrow> Inl (CollectorErr x)
                        | Inr srv \<Rightarrow> Inr \<lparr>rt_config = c, rt_appender = app, rt_collector = srv, rt_localFile = localFile,
                            rt_closing = False, rt_demoLeases = Map.empty\<rparr>))))"

subsection \<open>The observed sink keeps the contract of a sink\<close>

lemma observe_time_simps [simp]: "ob_inner (observe_time t s) = ob_inner s" "ob_mode (observe_time t s) = ob_mode s"
  by (simp_all add: observe_time_def)

lemma ob_pend_simps [simp]:
  "accepts (\<lambda>s. pend (ob_inner s)) s rs = accepts pend (ob_inner s) rs" "start_of (\<lambda>s. pend (ob_inner s)) s = start_of pend (ob_inner s)"
  by (simp_all add: accepts_def start_of_def)

lemma ob_WriteBatch_inner:
  assumes "ob_WriteBatch w e rs s = Some (s', r)"
  obtains i where "w (fst e) rs (ob_inner s) = Some (i, r)" "ob_inner s' = i"
  using assms by (auto simp: ob_WriteBatch_def split: option.splits)

lemma ob_pass_inner:
  assumes "ob_pass f c s = (s', r)"
  obtains i where "f c (ob_inner s) = (i, r)" "ob_inner s' = i"
  using assms by (auto simp: ob_pass_def split: prod.splits)

lemma observed_batch_sink:
  assumes "batch_sink w out pend ok fl cl"
  shows "batch_sink (ob_WriteBatch w) (\<lambda>s. out (ob_inner s)) (\<lambda>s. pend (ob_inner s)) (\<lambda>s. ok (ob_inner s)) (ob_pass fl) (ob_pass cl)"
proof -
  note base = batch_sink.axioms(1) [OF assms]
  note keeps = resumable_sink.keeps [OF base] and refuse = resumable_sink.refuse [OF base] and finish = resumable_sink.finish [OF base]
    and partial = resumable_sink.partial [OF base] and quiet = batch_sink.fl_quiet [OF assms] batch_sink.cl_quiet [OF assms]
  show ?thesis
  proof (unfold_locales, goal_cases)
    case (1 s e rs s' r)
    then show ?case by (metis ob_WriteBatch_inner keeps)
  next
    case (2 s rs e s' r)
    then show ?case by (metis ob_WriteBatch_inner ob_pend_simps(1) refuse)
  next
    case (3 s rs e s')
    then show ?case by (metis ob_WriteBatch_inner ob_pend_simps finish)
  next
    case (4 s rs e s' x)
    from 4(3) obtain i where i: "w (fst e) rs (ob_inner s) = Some (i, Some x)" "ob_inner s' = i" by (rule ob_WriteBatch_inner)
    show ?case using partial [OF _ _ i(1)] 4(1,2) i(2) by simp
  next
    case (5 c s s' r)
    from 5 obtain i where "fl c (ob_inner s) = (i, r)" "ob_inner s' = i" by (rule ob_pass_inner)
    then show ?case using quiet(1) by blast
  next
    case (6 c s s' r)
    from 6 obtain i where "cl c (ob_inner s) = (i, r)" "ob_inner s' = i" by (rule ob_pass_inner)
    then show ?case using quiet(2) by blast
  qed
qed

text \<open>
  An observed sink keeps the contract when its inner sink does: a sink with a contract gives another one.
\<close>

locale observed_sink = batch_sink

sublocale observed_sink \<subseteq> observed: batch_sink "ob_WriteBatch wr" "\<lambda>s. out (ob_inner s)" "\<lambda>s. pend (ob_inner s)" "\<lambda>s. ok (ob_inner s)"
  "ob_pass fl" "ob_pass cl"
  by (rule observed_batch_sink [OF batch_sink_axioms])

interpretation obfile: observed_sink fs_WriteBatch fs_total fs_pend fs_ok "\<lambda>c. fs_Flush None (fst c)" "\<lambda>c. fs_Close (fst c) (snd c)"
  by unfold_locales


subsection \<open>The measured times\<close>

definition latest :: "nat \<Rightarrow> 'a list \<Rightarrow> 'a list" where
  "latest n xs = drop (length xs - n) xs"

lemma latest_length: "length (latest n xs) = min n (length xs)"
  by (auto simp: latest_def)

lemma latest_append: "length xs < n \<Longrightarrow> latest n (xs @ [x]) = latest n xs @ [x]"
  "n \<le> length xs \<Longrightarrow> 0 < n \<Longrightarrow> latest n (xs @ [x]) = tl (latest n xs) @ [x]"
  by (simp_all add: latest_def Suc_diff_le drop_Suc tl_drop)

lemma times_cap_pos: "0 < times_cap"
  by (simp add: times_cap_def)

text \<open>The buffer is the window of the latest times, as it is while it fills up and rotated at \<open>ob_next\<close> once it is full.\<close>

definition window :: "u64 list \<Rightarrow> 'i observedSink \<Rightarrow> bool" where
  "window xs s \<longleftrightarrow> (if length xs < times_cap then ob_times s = xs \<and> ob_next s = 0
     else length (ob_times s) = times_cap \<and> ob_next s < times_cap \<and>
       latest times_cap xs = drop (ob_next s) (ob_times s) @ take (ob_next s) (ob_times s))"

lemma window_step:
  assumes w: "window xs s"
  shows "window (xs @ [t]) (observe_time t s)"
proof (cases "length xs < times_cap")
  case True
  then have t: "ob_times s = xs" "ob_next s = 0" using w by (simp_all add: window_def)
  have step: "ob_times (observe_time t s) = xs @ [t]" "ob_next (observe_time t s) = 0" using True t by (simp_all add: observe_time_def)
  show ?thesis
  proof (cases "Suc (length xs) < times_cap")
    case True
    then show ?thesis using step by (simp add: window_def)
  next
    case False
    then have "Suc (length xs) = times_cap" using \<open>length xs < times_cap\<close> by simp
    then show ?thesis using step times_cap_pos by (simp add: window_def latest_def)
  qed
next
  case False
  define n where "n = ob_next s"
  define ts where "ts = ob_times s"
  have full: "length ts = times_cap" "n < times_cap" "latest times_cap xs = drop n ts @ take n ts" "times_cap \<le> length xs"
    using w False by (simp_all add: window_def ts_def n_def)
  have "latest times_cap (xs @ [t]) = tl (drop n ts @ take n ts) @ [t]" using latest_append(2) [OF full(4) times_cap_pos] full(3) by simp
  then have next_window: "latest times_cap (xs @ [t]) = drop (Suc n) ts @ take n ts @ [t]" using full(1,2) by (simp add: drop_Suc tl_drop)
  have step: "ob_times (observe_time t s) = ts[n := t]" "ob_next (observe_time t s) = Suc n mod times_cap"
    using False full(1) by (simp_all add: observe_time_def ts_def n_def)
  have "latest times_cap (xs @ [t]) = drop (Suc n mod times_cap) (ts[n := t]) @ take (Suc n mod times_cap) (ts[n := t])"
  proof (cases "Suc n = times_cap")
    case True
    then show ?thesis using full(1,2) next_window by (simp add: upd_conv_take_nth_drop)
  next
    case False
    then have "Suc n mod times_cap = Suc n" "Suc n < length ts" using full(1,2) by simp_all
    then show ?thesis using next_window by (simp add: take_Suc_conv_app_nth)
  qed
  then show ?thesis using full(1,4) step times_cap_pos by (simp add: window_def latest_length)
qed

lemma window_fold: "window xs (fold observe_time xs (newObservedSink inner mode))"
proof (induction xs rule: rev_induct)
  case Nil
  show ?case using times_cap_pos by (simp add: window_def newObservedSink_def latest_def)
qed (simp add: window_step)

lemma window_mset:
  assumes "window xs s"
  shows "mset (ob_times s) = mset (latest times_cap xs)"
proof (cases "length xs < times_cap")
  case True
  then show ?thesis using assms by (simp add: window_def latest_def)
next
  case False
  then have "latest times_cap xs = drop (ob_next s) (ob_times s) @ take (ob_next s) (ob_times s)" using assms by (simp add: window_def)
  then have "mset (latest times_cap xs) = mset (take (ob_next s) (ob_times s) @ drop (ob_next s) (ob_times s))" by (simp only: mset_append add.commute)
  then show ?thesis by (simp only: append_take_drop_id)
qed

lemma window_empty: "latest times_cap xs = [] \<longleftrightarrow> xs = []"
  using times_cap_pos by (cases xs) (simp_all add: latest_def)

text \<open>In a sorted list, the element at index \<open>i\<close> has more than \<open>i\<close> elements that are not above it and at most \<open>i\<close> below it.\<close>

lemma sorted_rank:
  assumes "sorted ys" "i < length ys"
  shows "i < length (filter (\<lambda>x. x \<le> ys ! i) ys)" "length (filter (\<lambda>x. x < ys ! i) ys) \<le> i"
proof -
  have "filter (\<lambda>x. x \<le> ys ! i) (take (Suc i) ys) = take (Suc i) ys"
    using assms by (auto simp: filter_id_conv in_set_conv_nth sorted_iff_nth_mono)
  moreover have "length (filter P (take k ys)) \<le> length (filter P ys)" for P k
    by (metis append_take_drop_id filter_append le_add1 length_append)
  ultimately show "i < length (filter (\<lambda>x. x \<le> ys ! i) ys)" using assms(2)
    by (metis Suc_le_eq length_take min.absorb2)
  have "filter (\<lambda>x. x < ys ! i) (drop i ys) = []"
    using assms by (auto simp: filter_empty_conv in_set_conv_nth not_less sorted_iff_nth_mono)
  then have "length (filter (\<lambda>x. x < ys ! i) ys) = length (filter (\<lambda>x. x < ys ! i) (take i ys))"
    by (metis append_Nil2 append_take_drop_id filter_append)
  then show "length (filter (\<lambda>x. x < ys ! i) ys) \<le> i" by (metis length_filter_le length_take le_trans min.cobounded2)
qed

text \<open>
  C40. The flush latency that the telemetry shows. After any number of writes, \<open>p95Micros\<close> is the nearest-rank 95th percentile, in
  microseconds, of the latest 2048 measured times \<open>w\<close>: one of them, such that at least 95 percent of them are not above it and fewer
  than 95 percent are below it. Before the first write it is zero.
\<close>

theorem p95_is_percentile_of_latest:
  "let w = drop (length xs - 2048) xs; s = fold observe_time xs (newObservedSink inner mode)
   in if xs = [] then p95Micros s = 0
      else \<exists>v. v \<in> set w \<and> p95Micros s = fdiv (float64_of v) 1000 \<and>
        95 * length w \<le> 100 * length (filter (\<lambda>x. x \<le> v) w) \<and> 100 * length (filter (\<lambda>x. x < v) w) < 95 * length w"
proof (cases "xs = []")
  case True
  then show ?thesis by (simp add: p95Micros_def newObservedSink_def)
next
  case False
  define w where "w = latest times_cap xs"
  define s where "s = fold observe_time xs (newObservedSink inner mode)"
  note w = w_def
  define ys where "ys = sort (ob_times s)"
  have ms: "mset ys = mset w" using window_mset [OF window_fold] by (simp add: ys_def w s_def)
  then have len: "length ys = length w" "0 < length w" "set ys = set w"
    using False window_empty [of xs] w by (auto dest: mset_eq_length mset_eq_setD)
  define i where "i = (95 * length w + 99) div 100 - 1"
  obtain k where k: "(95 * length w + 99) div 100 = Suc k" 
  proof -
    have "100 div 100 \<le> (95 * length w + 99) div 100" using len(2) by (intro div_le_mono) (simp add: Suc_le_eq)
    then show thesis using that by (cases "(95 * length w + 99) div 100") auto
  qed
  have "100 * Suc k \<le> 95 * length w + 99" "95 * length w + 99 < 100 * (Suc k + 1)"
    using div_mult_mod_eq [of "95 * length w + 99" 100] dividend_less_times_div [of 100 "95 * length w + 99"] unfolding k by simp_all
  then have i: "i < length w" "95 * length w \<le> 100 * Suc i" "100 * i < 95 * length w" using len(2) by (simp_all add: i_def k)
  have count: "length (filter P ys) = length (filter P w)" for P using ms by (metis mset_filter size_mset)
  have "p95Micros s = fdiv (float64_of (ys ! i)) 1000"
  proof -
    have "(95 * length w + 99) div 100 > 0" by (simp add: k)
    then show ?thesis using len by (simp add: p95Micros_def Let_def i_def flip: ys_def) auto
  qed
  moreover have "ys ! i \<in> set w" using i(1) len by (metis nth_mem)
  moreover have "95 * length w \<le> 100 * length (filter (\<lambda>x. x \<le> ys ! i) w)" "100 * length (filter (\<lambda>x. x < ys ! i) w) < 95 * length w"
    using sorted_rank [of ys i] i len(1) count by (simp_all add: ys_def)
  ultimately show ?thesis using False by (auto simp: Let_def s_def w latest_def times_cap_def)
qed

subsection \<open>What validation guarantees to the constructors\<close>

lemma validate_facts:
  assumes "Validate http_first c = None"
  shows "\<not> cfg_RingCapacity c < 2" "cfg_RingCapacity c AND (cfg_RingCapacity c - 1) = 0" "1 \<le> cfg_BatchSize c" "1 \<le> cfg_MaxEventBytes c"
    "cfg_MaxEventBytes c \<le> 16777216" "(word_of_int (cfg_MaxEventBytes c) :: u64) \<le> ucast (cfg_ProtocolMaxPayload c)"
    "cfg_ProtocolMaxRecords c \<noteq> 0" "cfg_ProtocolMaxPayload c \<noteq> 0" "cfg_ProtocolMaxRecords c \<le> 65536" "cfg_ProtocolMaxPayload c \<le> 67108864"
    "0 < sint (cfg_FlushInterval c)" "0 < sint (cfg_LeaseTimeout c)" "0 < sint (cfg_AuditInterval c)" "0 < sint (cfg_CollectorReadTimeout c)"
    "cfg_AuditMode c \<in> {''off'', ''sampled'', ''full''}" "cfg_Sink c \<in> {''file'', ''network''}"
    "cfg_Sink c = ''file'' \<Longrightarrow> TrimSpaceUTF8 (cfg_LogPath c) \<noteq> []"
    "cfg_Sink c = ''network'' \<Longrightarrow> validateAddress ''MINILOGBACK_NETWORK_ADDR'' (cfg_NetworkAddr c) = None"
    "0 < sint (cfg_NetworkDialTimeout c)" "0 < sint (cfg_NetworkIOTimeout c)" "0 < sint (cfg_NetworkRetryInitial c)"
    "sint (cfg_NetworkRetryInitial c) \<le> sint (cfg_NetworkRetryMaximum c)" "0 < cfg_NetworkMaxAttempts c"
    "0 < cfg_RotateBytes c" "0 < cfg_CollectorMaxConnections c" "0 < cfg_CollectorDedupeEntries c"
    "validate_listeners http_first c = None"
  using assms by (auto simp: Validate_def Let_def not_less split: if_splits)

lemma no_address: "validateAddress key [] \<noteq> None"
  by (simp add: address_eval)

lemma ingest_address: "validate_listeners http_first c = None \<Longrightarrow> cfg_IngestAddr c \<noteq> []"
  using no_address [of "''MINILOGBACK_INGEST_ADDR''"] by (auto simp: validate_listeners_def Let_def split: if_splits)

lemma validated_limits:
  assumes "Validate http_first c = None"
  shows "Limits_Validate (config_limits c) = None" "config_limits c \<noteq> zero_limits"
proof -
  note f = validate_facts [OF assms]
  let ?m = "cfg_MaxEventBytes c"
  have small: "uint (word_of_int ?m :: u32) = ?m" "uint (word_of_int ?m :: u64) = ?m"
    using f(4,5) by (simp_all add: uint_word_of_int_eq take_bit_int_eq_self)
  have "?m \<le> uint (cfg_ProtocolMaxPayload c)" using f(6) small(2) by (simp add: word_le_def uint_up_ucast is_up)
  then show "Limits_Validate (config_limits c) = None"
    using f(4,5,7-10) small(1) by (auto simp: Limits_Validate_def config_limits_def word_le_def word_less_def not_less)
  show "config_limits c \<noteq> zero_limits" using f(7) by (auto simp: config_limits_def zero_limits_def)
qed

lemma default_classes_ok: "1 \<le> m \<Longrightarrow> classes_ok m 0 (default_pool_classes m) \<and> default_pool_classes m \<noteq> []"
  by (auto simp: default_pool_classes_def DefaultClasses_def Let_def)

lemma upper_mode_texts: "ToUpper ''off'' = ''OFF''" "ToUpper ''sampled'' = ''SAMPLED''" "ToUpper ''full'' = ''FULL''"
  by code_simp+

lemma upper_modes:
  "m \<in> {''off'', ''sampled'', ''full''} \<Longrightarrow> ToUpper m \<in> {AuditOff, AuditSampled, AuditFull}"
  by (auto simp: upper_mode_texts AuditOff_def AuditSampled_def AuditFull_def)

lemma validated_pool:
  assumes "Validate http_first c = None" "default_pool_classes (cfg_MaxEventBytes c) = cs"
  shows "\<exists>p. pool_New ident (app_pool_config (appender_config c sink\<lparr>cf_PoolClasses := cs\<rparr>)) = Inr p \<and> MaxBytes (p_config p) = cfg_MaxEventBytes c"
proof -
  note f = validate_facts [OF assms(1)]
  have mode: "AuditMode_valid (ToUpper (cfg_AuditMode c))" "ToUpper (cfg_AuditMode c) \<noteq> []"
    using upper_modes [OF f(15)] by (auto simp: AuditMode_valid_def AuditOff_def AuditSampled_def AuditFull_def)
  have "classes_ok (cfg_MaxEventBytes c) 0 cs" "cs \<noteq> []" using default_classes_ok [OF f(4)] assms(2) by simp_all
  then show ?thesis using f(4,12,13) mode
    by (simp add: pool_New_def pool_normalized_def default_classes_and_mode_def default_limits_def app_pool_config_def appender_config_def Let_def)
qed

lemma validated_flusher:
  assumes "Validate http_first c = None"
  shows "\<exists>f. flusher_New (Some q) (Some p) (Some s) (app_flusher_config (appender_config c sink)) = Inr f \<and>
    fl_queue f = q \<and> fl_pool f = p \<and> fl_sink f = s \<and> fq_BatchSize (fl_config f) = cfg_BatchSize c \<and> \<not> fl_started f"
proof -
  note f = validate_facts [OF assms]
  have "cfg_FlushInterval c \<noteq> 0" "cfg_BatchSize c \<noteq> 0" using f(3,11) by auto
  then show ?thesis using f(3,11)
    by (simp add: flusher_New_def flusher_normalized_def flusher_defaults_def app_flusher_config_def appender_config_def Let_def
        Millisecond_def Second_def)
qed

lemma appender_config_normal:
  assumes "Validate http_first c = None"
  shows "app_normalized (appender_config c sink) = Inr (appender_config c sink\<lparr>cf_PoolClasses := default_pool_classes (cfg_MaxEventBytes c)\<rparr>)"
proof -
  note f = validate_facts [OF assms]
  have "cfg_RingCapacity c \<noteq> 0" "cfg_MaxEventBytes c \<noteq> 0" using f(1,4) by auto
  moreover have "ToUpper (cfg_AuditMode c) \<in> {AuditOff, AuditSampled, AuditFull}" "ToUpper (cfg_AuditMode c) \<noteq> []"
    using upper_modes [OF f(15)] by (auto simp: AuditOff_def AuditSampled_def AuditFull_def)
  ultimately show ?thesis using f(4)
    by (auto simp: app_normalized_def appender_config_def Level_valid_def DebugLevel_def ErrorLevel_def Let_def)
qed

lemma validated_appender:
  assumes "Validate http_first c = None"
  shows "cfg_RingCapacity c \<le> maxCapacity \<Longrightarrow> \<exists>a. app_New 0 stderr (appender_config c sink) [] = Inr a \<and> fl_sink (fm_flusher (ap_mach a)) = sink \<and>
      capacity (ap_queue a) = cfg_RingCapacity c \<and> MaxBytes (p_config (ap_pool a)) = cfg_MaxEventBytes c \<and>
      fq_BatchSize (fl_config (fm_flusher (ap_mach a))) = cfg_BatchSize c \<and> fm_pc (ap_mach a) = Select"
    and "\<not> cfg_RingCapacity c \<le> maxCapacity \<Longrightarrow>
      app_New 0 stderr (appender_config c sink) [] = Inl (AppRing (ErrInvalidCapacity (cfg_RingCapacity c)))"
proof -
  let ?c = "appender_config c sink\<lparr>cf_PoolClasses := default_pool_classes (cfg_MaxEventBytes c)\<rparr>"
  note f = validate_facts [OF assms]
  note start = app_New_def appender_config_normal [OF assms] Let_def
  have fields: "cf_Sink (appender_config c sink) = Some sink" "cf_RingCapacity ?c = cfg_RingCapacity c" "cf_Sink ?c = Some sink"
    "app_flusher_config ?c = app_flusher_config (appender_config c sink)"
    by (simp_all add: appender_config_def app_flusher_config_def)
  show "app_New 0 stderr (appender_config c sink) [] = Inl (AppRing (ErrInvalidCapacity (cfg_RingCapacity c)))"
    if "\<not> cfg_RingCapacity c \<le> maxCapacity"
    using that by (simp add: start fields ring_New_def not_le)
  assume small: "cfg_RingCapacity c \<le> maxCapacity"
  obtain q :: "nat Queue" where q: "ring_New (cfg_RingCapacity c) = Inr q" "capacity q = cfg_RingCapacity c"
  proof -
    have "\<not> (cfg_RingCapacity c < 2 \<or> cfg_RingCapacity c > maxCapacity \<or> cfg_RingCapacity c AND (cfg_RingCapacity c - 1) \<noteq> 0)"
      using f(1,2) small by (simp add: not_less)
    then have "\<exists>q :: nat Queue. ring_New (cfg_RingCapacity c) = Inr q \<and> capacity q = cfg_RingCapacity c"
      unfolding ring_New_def by (simp only: if_False) (intro exI conjI, rule refl, rule Queue.select_convs(3))
    then show thesis using that by blast
  qed
  obtain p where p: "pool_New 0 (app_pool_config ?c) = Inr p" "MaxBytes (p_config p) = cfg_MaxEventBytes c"
    using validated_pool [OF assms refl, of 0 sink] by (elim exE conjE) (rule that)
  obtain fl where fl: "flusher_New (Some q) (Some p) (Some sink) (app_flusher_config (appender_config c sink)) = Inr fl" "fl_queue fl = q"
    "fl_pool fl = p" "fl_sink fl = sink" "fq_BatchSize (fl_config fl) = cfg_BatchSize c" "\<not> fl_started fl"
    using validated_flusher [OF assms, of q p sink sink] by (elim exE conjE) (rule that)
  show "\<exists>a. app_New 0 stderr (appender_config c sink) [] = Inr a \<and> fl_sink (fm_flusher (ap_mach a)) = sink \<and>
      capacity (ap_queue a) = cfg_RingCapacity c \<and> MaxBytes (p_config (ap_pool a)) = cfg_MaxEventBytes c \<and>
      fq_BatchSize (fl_config (fm_flusher (ap_mach a))) = cfg_BatchSize c \<and> fm_pc (ap_mach a) = Select"
    using q p fl by (simp add: start fields new_appender_def flusher_Start_def)
qed

lemma validated_client:
  assumes "Validate http_first c = None" "cfg_Sink c = ''network''"
  shows "\<exists>cl. NewClient (Inr raw) (client_config c) = Inr cl"
proof -
  note f = validate_facts [OF assms(1)]
  have addr: "cfg_NetworkAddr c \<noteq> []" using f(18) [OF assms(2)] no_address [of "''MINILOGBACK_NETWORK_ADDR''"] by auto
  show ?thesis using addr f(19-23) validated_limits [OF assms(1)]
    by (simp add: NewClient_def client_config_def secureID_def Let_def positive_or_def)
qed

lemma validated_collector: "Validate http_first c = None \<Longrightarrow> \<exists>srv. collector_New (server_config c) (Some sink) = Inr srv"
  using validate_facts [of http_first c] validated_limits [of http_first c] ingest_address [of http_first c]
  by (simp add: collector_New_def collector_validate_def server_config_def)

lemma validated_file:
  assumes "0 < cfg_RotateBytes c" "rn_mkdir e = None" "re_open (rn_rotate e) = None" "re_stat (rn_rotate e) = None"
  shows "cfg_LogPath c \<noteq> [] \<Longrightarrow> \<exists>s. NewFile (file_config c) (rn_existing e) (rn_mkdir e) (rn_rotate e) = Inr s"
    and "cfg_LogPath c = [] \<Longrightarrow> NewFile (file_config c) (rn_existing e) (rn_mkdir e) (rn_rotate e) = Inl ErrPathRequired"
  using assms by (simp_all add: NewFile_def file_config_def syncPolicy_def SyncManual_def SyncEveryBatch_def fs_open_def Let_def)

text \<open>
  C39. Which validated configurations start. For a configuration that \<open>Validate\<close> accepts, and when the operating system opens the log
  file and answers random bytes, \<open>newRuntime\<close> builds every component exactly when the log path is not empty and the ring capacity is not
  above 2^30; the appender then runs with the configured ring, batch size and event limit on the configured sink. Otherwise it fails
  although the configuration was accepted: without a path, which is validated for the file sink only, with the error of the file sink,
  and with a larger ring, which \<open>Validate\<close> does not bound, with the error of the ring.
\<close>

theorem validated_config_starts:
  assumes valid: "Validate http_first c = None" and env: "rn_mkdir e = None" "re_open (rn_rotate e) = None" "re_stat (rn_rotate e) = None"
    "rn_random e = Inr raw"
  shows "if cfg_LogPath c = [] then newRuntime e c = Inl (FileErr ErrPathRequired)
     else if cfg_RingCapacity c > 2 ^ 30 then newRuntime e c = Inl (AppenderErr (AppRing (ErrInvalidCapacity (cfg_RingCapacity c))))
     else \<exists>rt. newRuntime e c = Inr rt \<and> rt_config rt = c \<and> \<not> rt_closing rt \<and> capacity (ap_queue (rt_appender rt)) = cfg_RingCapacity c \<and>
       fq_BatchSize (fl_config (fm_flusher (ap_mach (rt_appender rt)))) = cfg_BatchSize c \<and>
       MaxBytes (p_config (ap_pool (rt_appender rt))) = cfg_MaxEventBytes c \<and> fm_pc (ap_mach (rt_appender rt)) = Select \<and>
       (ob_inner (fl_sink (fm_flusher (ap_mach (rt_appender rt)))) = LocalFile \<longleftrightarrow> cfg_Sink c = ''file'')"
proof (cases "cfg_LogPath c = []")
  case True
  then show ?thesis using validated_file(2) [OF validate_facts(24) [OF valid] env(1-3)] by (simp add: newRuntime_def)
next
  case False
  obtain localFile where localFile: "NewFile (file_config c) (rn_existing e) (rn_mkdir e) (rn_rotate e) = Inr localFile"
    using validated_file(1) [OF validate_facts(24) [OF valid] env(1-3) False] by blast
  have "cfg_Sink c = ''file'' \<or> cfg_Sink c = ''network''" using validate_facts(16) [OF valid] by blast
  then obtain inner mode where inner: "(if cfg_Sink c = ''network'' then (case NewClient (rn_random e) (client_config c) of Inl x \<Rightarrow> Inl (ClientErr x)
      | Inr cl \<Rightarrow> Inr (NetworkAdapter cl, ''scatter_gather'')) else Inr (LocalFile, cap_BatchMode fs_Capabilities)) = Inr (inner, mode)"
    "inner = LocalFile \<longleftrightarrow> cfg_Sink c = ''file''"
  proof (cases "cfg_Sink c = ''network''")
    case True
    obtain cl where "NewClient (Inr raw) (client_config c) = Inr cl" using validated_client [OF valid True] by blast
    then show thesis using True env(4) that [of "NetworkAdapter cl" "''scatter_gather''"] by simp
  next
    case False
    then have "cfg_Sink c = ''file''" using \<open>cfg_Sink c = ''file'' \<or> cfg_Sink c = ''network''\<close> by blast
    then show thesis using that [of LocalFile "cap_BatchMode fs_Capabilities"] by simp
  qed
  obtain srv where srv: "collector_New (server_config c) (Some LocalFile) = Inr srv" using validated_collector [OF valid, of LocalFile] by (elim exE) (rule that)
  let ?ob = "newObservedSink inner mode"
  have run: "newRuntime e c = (case app_New 0 ?ob (appender_config c ?ob) [] of Inl x \<Rightarrow> Inl (AppenderErr x)
      | Inr app \<Rightarrow> Inr \<lparr>rt_config = c, rt_appender = app, rt_collector = srv, rt_localFile = localFile, rt_closing = False, rt_demoLeases = Map.empty\<rparr>)"
    by (simp add: newRuntime_def localFile inner(1) srv split: sum.splits)
  show ?thesis
  proof (cases "cfg_RingCapacity c \<le> maxCapacity")
    case True
    obtain a where a: "app_New 0 ?ob (appender_config c ?ob) [] = Inr a" "fl_sink (fm_flusher (ap_mach a)) = ?ob"
      "capacity (ap_queue a) = cfg_RingCapacity c" "MaxBytes (p_config (ap_pool a)) = cfg_MaxEventBytes c"
      "fq_BatchSize (fl_config (fm_flusher (ap_mach a))) = cfg_BatchSize c" "fm_pc (ap_mach a) = Select"
      using validated_appender(1) [OF valid True, of ?ob ?ob] by (elim exE conjE) (rule that)
    show ?thesis using run True False a inner(2) by (simp add: maxCapacity_def newObservedSink_def not_less)
  next
    case big: False
    then show ?thesis using run False validated_appender(2) [OF valid big, of ?ob ?ob] by (simp add: maxCapacity_def not_le)
  qed
qed

definition calm_env :: runtime_env where
  "calm_env = \<lparr>rn_existing = None, rn_mkdir = None, rn_rotate = \<lparr>re_sync = None, re_close = None, re_rename = None, re_open = None, re_stat = None\<rparr>,
     rn_random = Inr [1, 2, 3, 4, 5, 6, 7, 8]\<rparr>"

lemma validated_config_starts_witness:
  "(\<exists>rt. newRuntime calm_env Defaults = Inr rt \<and> capacity (ap_queue (rt_appender rt)) = 65536) \<and>
   newRuntime calm_env (Defaults\<lparr>cfg_RingCapacity := 2 ^ 31\<rparr>) = Inl (AppenderErr (AppRing (ErrInvalidCapacity (2 ^ 31)))) \<and>
   newRuntime calm_env (Defaults\<lparr>cfg_Sink := ''network'', cfg_LogPath := []\<rparr>) = Inl (FileErr ErrPathRequired)"
proof (intro conjI)
  have env: "rn_mkdir calm_env = None" "re_open (rn_rotate calm_env) = None" "re_stat (rn_rotate calm_env) = None"
    "rn_random calm_env = Inr [1, 2, 3, 4, 5, 6, 7, 8]" by (simp_all add: calm_env_def)
  note eval = Validate_def validate_listeners_def Defaults_def default_texts default_addresses Millisecond_def Second_def Let_def
  show "\<exists>rt. newRuntime calm_env Defaults = Inr rt \<and> capacity (ap_queue (rt_appender rt)) = 65536"
    using validated_config_starts [OF defaults_valid(1) env] by (auto simp: Defaults_def)
  have "(2147483648 :: u64) AND (2147483648 - 1) = 0" "(65536 :: u64) AND (65536 - 1) = 0" by simp_all
  then have "Validate True (Defaults\<lparr>cfg_RingCapacity := 2 ^ 31\<rparr>) = None" "Validate True (Defaults\<lparr>cfg_Sink := ''network'', cfg_LogPath := []\<rparr>) = None"
    by (simp_all add: eval)
  then show "newRuntime calm_env (Defaults\<lparr>cfg_RingCapacity := 2 ^ 31\<rparr>) = Inl (AppenderErr (AppRing (ErrInvalidCapacity (2 ^ 31))))"
    "newRuntime calm_env (Defaults\<lparr>cfg_Sink := ''network'', cfg_LogPath := []\<rparr>) = Inl (FileErr ErrPathRequired)"
    using validated_config_starts [OF _ env] by (fastforce simp: Defaults_def)+
qed

end
