(* ===== verification/Daemon_Delivery.thy ===== *)
theory Daemon_Delivery
  imports Daemon
begin

text \<open>
  The pipeline as the daemon configures it, from the calls of the appender to the rotated log files: \<open>newRuntime\<close> gives the appender a file
  sink behind an observed sink. Only the appender writes to the file here; a collector that shares it is in \<open>Network_Delivery\<close>.
\<close>

definition observed_file_sink where
  "observed_file_sink = \<lparr>bs_WriteBatch = ob_WriteBatch fs_WriteBatch, bs_Flush = ob_pass (\<lambda>c. fs_Flush None (fst c)),
     bs_Close = ob_pass (\<lambda>c. fs_Close (fst c) (snd c))\<rparr>"

lemma app_normalized_sink: "app_normalized c = Inr c' \<Longrightarrow> cf_Sink c' = cf_Sink c"
  by (auto simp: app_normalized_def Let_def split: if_splits)

lemma new_app_sink:
  assumes "app_New ident stderr config [] = Inr a0" "cf_Sink config = Some s"
  shows "fl_sink (fm_flusher (ap_mach a0)) = s"
proof -
  obtain c q p f where c: "app_normalized config = Inr c" "flusher_New (Some q) (Some p) (cf_Sink c) (app_flusher_config c) = Inr f"
    "ap_mach a0 = flusher_Start \<lparr>fm_flusher = f, fm_run = run_locals (fl_config f), fm_pc = NotStarted\<rparr>"
    using assms by (auto simp: app_New_def Let_def new_appender_def split: sum.splits)
  have "cf_Sink c = Some s" using app_normalized_sink [OF c(1)] assms(2) by simp
  then have "fl_sink f = s" using c(2) by (auto simp: flusher_New_def split: sum.splits)
  then show ?thesis using c(3) by (simp add: flusher_Start_def)
qed

lemma daemon_run:
  assumes "NewFile fc existing mkdirErr re = Inr localFile" "app_New ident stderr (appender_config c (newObservedSink localFile mode)) [] = Inr a0"
    "app_steps al enc observed_file_sink (aworld_of a0) w" "fm_pc (ap_mach (aw_app w)) = Ended" "\<not> fl_abort (fm_flusher (ap_mach (aw_app w)))"
  shows "fs_total (ob_inner (fl_sink (fm_flusher (ap_mach (aw_app w))))) = (case existing of None \<Rightarrow> [] | Some d \<Rightarrow> d) @ concat (map snd (aw_accepted w)) \<and>
    aw_delivered w = aw_accepted w \<and> (\<forall>e\<in>set (aw_accepted w). l_state (p_leases (ap_pool (aw_app w)) ! fst e) = StateReturned)"
proof -
  have sink: "fl_sink (fm_flusher (ap_mach a0)) = newObservedSink localFile mode"
    by (rule new_app_sink [OF assms(2)]) (simp add: appender_config_def)
  have inner: "ob_inner (newObservedSink localFile mode) = localFile" by (simp add: newObservedSink_def)
  have bs: "bs_WriteBatch observed_file_sink = ob_WriteBatch fs_WriteBatch" "bs_Flush observed_file_sink = ob_pass (\<lambda>c. fs_Flush None (fst c))"
    "bs_Close observed_file_sink = ob_pass (\<lambda>c. fs_Close (fst c) (snd c))" by (simp_all add: observed_file_sink_def)
  have f: "fs_ok (ob_inner (newObservedSink localFile mode))" "fs_pend (ob_inner (newObservedSink localFile mode)) = None"
    using NewFile_ok(1,2) [OF assms(1)] by (simp_all add: inner)
  show ?thesis using obfile.observed.ended_run [OF assms(2) sink f bs assms(3-5)] NewFile_ok(3) [OF assms(1)] by (simp add: inner)
qed


definition old_file :: FileSink where
  "old_file = projr (NewFile (file_config Defaults) (Some [1, 2]) None (rn_rotate calm_env))"

lemma old_file_New: "NewFile (file_config Defaults) (Some [1, 2]) None (rn_rotate calm_env) = Inr old_file"
  using validated_file(1) [of Defaults "calm_env\<lparr>rn_existing := Some [1, 2]\<rparr>"] validate_facts(24) [OF defaults_valid(1)]
  by (auto simp: old_file_def calm_env_def Defaults_def)

lemma daemon_end:
  "\<exists>a0 w. app_New 0 s (appender_config Defaults (newObservedSink old_file mode)) [] = Inr a0 \<and>
     app_steps al enc observed_file_sink (aworld_of a0) w \<and> fm_pc (ap_mach (aw_app w)) = Ended \<and> \<not> fl_abort (fm_flusher (ap_mach (aw_app w))) \<and>
     aw_accepted w = []"
proof -
  let ?s = "newObservedSink old_file mode"
  have cap: "cfg_RingCapacity Defaults \<le> maxCapacity" by (simp add: Defaults_def maxCapacity_def)
  obtain a0 where a0: "app_New 0 s (appender_config Defaults ?s) [] = Inr a0" "fm_pc (ap_mach a0) = Select"
    using validated_appender(1) [OF defaults_valid(1) cap, of s ?s] by (elim exE conjE) (rule that)
  obtain c q p s' f where new: "ring_New (cf_RingCapacity c) = Inr q" "pool_New 0 (app_pool_config c) = Inr p"
    "flusher_New (Some q) (Some p) (Some s') (app_flusher_config c) = Inr f" "ap_mach a0 = flusher_Start (fw_mach (world_of f))"
    "a0 = new_appender 0 c (ap_mach a0)" "\<not> fl_started f" "fl_queue f = q" "fl_pool f = p" "fl_sink f = s'" "\<not> fl_stop f"
    by (rule app_New_parts [OF a0(1)])
  have batch: "1 \<le> fq_BatchSize (fl_config f)" "\<not> fl_abort f"
    using new(3) by (auto simp: flusher_New_def flusher_normalized_def Let_def split: sum.splits if_splits)
  have once: "\<not> ap_closeOnce a0" by (subst new(5)) (simp add: new_appender_def)
  let ?S = "app_step al enc observed_file_sink"
  define b1 where "b1 = app_Close_begin a0"
  define b2 where "b2 = b1\<lparr>ap_mach := close_queue (ap_mach b1), ap_closer := CloseStop\<rparr>"
  define b3 where "b3 = b2\<lparr>ap_mach := close_stop (ap_mach b2), ap_closer := CloseWait\<rparr>"
  let ?w = "\<lambda>b. (aworld_of a0)\<lparr>aw_app := b\<rparr>"
  have b1: "ap_mach b1 = ap_mach a0" "ap_closer b1 = CloseQueue" using once by (simp_all add: b1_def app_Close_begin_def)
  have s1: "?S (aworld_of a0) (?w b1)" using as_close [of al enc observed_file_sink "aworld_of a0"] by (simp add: b1_def aworld_of_def)
  have "close_step None (aw_app (?w b1)) = Some b2" using b1 by (simp add: close_step_def b2_def)
  from as_closer [OF this] have s2: "?S (?w b1) (?w b2)" by simp
  have "close_step None (aw_app (?w b2)) = Some b3" by (simp add: close_step_def b2_def b3_def)
  from as_closer [OF this] have s3: "?S (?w b2) (?w b3)" by simp
  have m: "ap_mach b3 = close_stop (close_queue (ap_mach a0))" using b1 by (simp add: b3_def b2_def)
  have q: "ring_inv q" "ring_items q = []" using ring_New_inv [OF new(1)] by simp_all
  have started: "ap_mach a0 = \<lparr>fm_flusher = f\<lparr>fl_started := True, fl_running := True\<rparr>, fm_run = run_locals (fl_config f), fm_pc = Select\<rparr>"
    using new(4,6) by (simp add: flusher_Start_def world_of_def)
  have e: "\<exists>m'. run_clean observed_file_sink (replicate 4 e) (ap_mach b3) = Some m' \<and> fm_pc m' = Ended \<and> \<not> fl_abort (fm_flusher m') \<and>
    fl_queue (fm_flusher m') = fl_queue (fm_flusher (ap_mach b3)) \<and> fl_pool (fm_flusher m') = fl_pool (fm_flusher (ap_mach b3))"
    if "\<not> rv_pick e" for e
    by (rule idle_run_any) (use that q batch new(7,10) in \<open>simp_all add: m started close_stop_def close_queue_def flusher_Start_def Let_def run_locals_def ring_Close_def\<close>)
  obtain e :: "(file_env \<times> u64, sink_error option \<times> sink_error option) run_env" where "\<not> rv_pick e"
    using that [of "undefined\<lparr>rv_pick := False\<rparr>"] by simp
  then obtain m' where m': "run_clean observed_file_sink (replicate 4 e) (ap_mach (aw_app (?w b3))) = Some m'" "fm_pc m' = Ended" "\<not> fl_abort (fm_flusher m')"
    using e by auto
  obtain w where w: "app_steps al enc observed_file_sink (?w b3) w" "ap_mach (aw_app w) = m'" "aw_accepted w = aw_accepted (?w b3)"
    using app_run_clean [OF m'(1)] by blast
  have "app_steps al enc observed_file_sink (aworld_of a0) w" using s1 s2 s3 w(1) by (meson converse_rtranclp_into_rtranclp)
  then show ?thesis using a0(1) m' w by (intro exI [of _ a0] exI [of _ w]) (simp add: aworld_of_def)
qed



end
