(* ===== verification/Httpapi.thy ===== *)
theory Httpapi
  imports Daemon "HOL-Library.Signed_Division"
begin

text \<open>
  The leases of the management interface: the handlers of \<^verbatim>\<open>internal/httpapi/httpapi.go\<close> that list and show them, with the paths
  they hide, over the provider of \<^verbatim>\<open>cmd/minilogbackd/runtime.go\<close>. A query parameter that is absent is the empty string, as
  \<open>Query().Get\<close> has it; an answer is its status and what the JSON body holds.
\<close>

subsection \<open>Paths\<close>

text \<open>\<open>path/filepath\<close> on Unix: \<open>Clean\<close> keeps a stack of the elements seen, in reverse.\<close>

fun path_elements :: "string \<Rightarrow> string \<Rightarrow> string list" where
  "path_elements current [] = [current]"
| "path_elements current (c # cs) = (if c = CHR ''/'' then current # path_elements [] cs else path_elements (current @ [c]) cs)"

fun join_elements :: "string list \<Rightarrow> string" where
  "join_elements [] = []"
| "join_elements [x] = x"
| "join_elements (x # xs) = x @ CHR ''/'' # join_elements xs"

definition clean_element :: "bool \<Rightarrow> string \<Rightarrow> string list \<Rightarrow> string list" where
  "clean_element rooted e stack =
     (if e = [] \<or> e = ''.'' then stack
      else if e \<noteq> ''..'' then e # stack
      else (case stack of [] \<Rightarrow> if rooted then [] else [''..'']
            | last_one # rest \<Rightarrow> if last_one = ''..'' then e # stack else rest))"

definition IsAbs :: "string \<Rightarrow> bool" where
  "IsAbs p \<longleftrightarrow> take 1 p = ''/''"

definition Clean :: "string \<Rightarrow> string" where
  "Clean p = (if p = [] then ''.'' else
     let clean = join_elements (rev (fold (clean_element (IsAbs p)) (path_elements [] p) []))
     in if IsAbs p then CHR ''/'' # clean else if clean = [] then ''.'' else clean)"

definition Base :: "string \<Rightarrow> string" where
  "Base p = (if p = [] then ''.'' else
     let base = rev (takeWhile (\<lambda>c. c \<noteq> CHR ''/'') (dropWhile (\<lambda>c. c = CHR ''/'') (rev p)))
     in if base = [] then ''/'' else base)"

definition sanitizePath :: "string \<Rightarrow> string" where
  "sanitizePath v =
     (if IsAbs v then Base v
      else let clean = Clean v in if clean = ''.'' \<or> take 2 clean = ''..'' then Base clean else clean)"

subsection \<open>Leases\<close>

record StackFrame =
  sf_Function :: string
  sf_Source :: string
  sf_Line :: int

record http_Lease =
  hl_ID :: u64
  hl_State :: string
  hl_SizeClass :: int
  hl_Length :: int
  hl_BorrowedAt :: int
  hl_Deadline :: int
  hl_AgeMillis :: int
  hl_Level :: string
  hl_Source :: string
  hl_Function :: string
  hl_Stack :: "StackFrame list"

record LeaseQuery =
  lq_State :: string
  lq_Cursor :: u64
  lq_Limit :: int

record LeasePage =
  lp_Leases :: "http_Lease list"
  lp_NextCursor :: string
  lp_HasMore :: bool

definition char_lower :: "char \<Rightarrow> char" where
  "char_lower c = (if 65 \<le> (of_char c :: nat) \<and> (of_char c :: nat) \<le> 90 then char_of (of_char c + 32 :: nat) else c)"

definition ToLower :: "string \<Rightarrow> string" where
  "ToLower s = map char_lower s"

definition convertLease :: "LeaseSnapshot \<Rightarrow> bool \<Rightarrow> http_Lease" where
  "convertLease s includeStack =
     (let frames = (if includeStack then map (\<lambda>f. \<lparr>sf_Function = fr_Function f, sf_Source = fr_File f, sf_Line = fr_Line f\<rparr>) (sn_Stack s) else [])
      in \<lparr>hl_ID = sn_ID s, hl_State = ToLower (sn_State s), hl_SizeClass = sn_ClassSize s, hl_Length = sn_Length s,
          hl_BorrowedAt = sn_BorrowedAt s, hl_Deadline = sn_Deadline s, hl_AgeMillis = sn_AgeNanos s sdiv 1000000,
          hl_Level = ToLower (sn_Level s), hl_Source = sn_File s @ '':'' @ show_int (sn_Line s), hl_Function = sn_Function s, hl_Stack = frames\<rparr>)"

text \<open>The provider: one snapshot more than asked for tells whether there are more.\<close>

definition ListLeases :: "int \<Rightarrow> 's Appender \<Rightarrow> LeaseQuery \<Rightarrow> LeasePage option" where
  "ListLeases now a query =
     (let flt = (if lq_State query \<noteq> ''all'' then ToUpper (lq_State query) else []);
          snapshots = app_SnapshotLeasesBefore now flt (lq_Cursor query) (lq_Limit query + 1) a;
          found = map (\<lambda>s. convertLease s False) snapshots;
          hasMore = (int (length found) > lq_Limit query);
          page = (if hasMore then take (nat (lq_Limit query)) found else found);
          nextCursor = (if hasMore \<and> length page > 0 then show_nat (unat (hl_ID (last page))) else [])
      in Some \<lparr>lp_Leases = page, lp_NextCursor = nextCursor, lp_HasMore = hasMore\<rparr>)"

definition runtime_LeaseByID :: "int \<Rightarrow> 's Appender \<Rightarrow> u64 \<Rightarrow> http_Lease option" where
  "runtime_LeaseByID now a ident = map_option (\<lambda>s. convertLease s True) (app_LeaseByID now ident a)"

subsection \<open>Handlers\<close>

datatype http_body = PageBody "http_Lease list" string bool int | LeaseBody http_Lease | ErrorBody string

type_synonym http_answer = "nat \<times> http_body"

definition sanitizeLease :: "bool \<Rightarrow> http_Lease \<Rightarrow> http_Lease" where
  "sanitizeLease includeStack l = (let l1 = l\<lparr>hl_Source := sanitizePath (hl_Source l)\<rparr>
     in if \<not> includeStack then l1\<lparr>hl_Stack := []\<rparr> else l1\<lparr>hl_Stack := map (sf_Source_update sanitizePath) (hl_Stack l)\<rparr>)"

definition validLeaseState :: "string \<Rightarrow> bool" where
  "validLeaseState s \<longleftrightarrow> s = ''all'' \<or> s = ''borrowed'' \<or> s = ''queued'' \<or> s = ''in_flight'' \<or> s = ''overdue'' \<or> s = ''returned''"

definition query_limit :: "string \<Rightarrow> int option" where
  "query_limit raw = (if raw = [] then Some 50
     else case Atoi raw of Inl _ \<Rightarrow> None | Inr v \<Rightarrow> if v < 1 \<or> v > 200 then None else Some v)"

definition query_cursor :: "string \<Rightarrow> u64 option" where
  "query_cursor raw = (if raw = [] then Some 0
     else case ParseUint raw of Inl _ \<Rightarrow> None | Inr v \<Rightarrow> if v = 0 then None else Some (word_of_int v))"

definition leases :: "(LeaseQuery \<Rightarrow> LeasePage option) \<Rightarrow> string \<Rightarrow> string \<Rightarrow> string \<Rightarrow> http_answer" where
  "leases provider raw_state raw_limit raw_cursor =
     (let state = (if raw_state = [] then ''all'' else raw_state)
      in if \<not> validLeaseState state then (400, ErrorBody ''invalid_request'')
      else case query_limit raw_limit of None \<Rightarrow> (400, ErrorBody ''invalid_limit'')
      | Some limit \<Rightarrow> (case query_cursor raw_cursor of None \<Rightarrow> (400, ErrorBody ''invalid_request'')
      | Some cursor \<Rightarrow> (case provider \<lparr>lq_State = state, lq_Cursor = cursor, lq_Limit = limit\<rparr> of None \<Rightarrow> (500, ErrorBody ''internal_error'')
      | Some page \<Rightarrow> (200, PageBody (map (sanitizeLease False) (lp_Leases page)) (lp_NextCursor page) (lp_HasMore page) limit))))"

definition pathID :: "string \<Rightarrow> u64 option" where
  "pathID raw = (case ParseUint raw of Inl _ \<Rightarrow> None | Inr v \<Rightarrow> if v = 0 then None else Some (word_of_int v))"

definition lease_handler :: "(u64 \<Rightarrow> http_Lease option) \<Rightarrow> string \<Rightarrow> http_answer" where
  "lease_handler provider raw = (case pathID raw of None \<Rightarrow> (400, ErrorBody ''invalid_request'')
     | Some ident \<Rightarrow> (case provider ident of None \<Rightarrow> (404, ErrorBody ''not_found'') | Some l \<Rightarrow> (200, LeaseBody (sanitizeLease True l))))"

subsection \<open>Following the cursor\<close>

text \<open>A client that asks for pages until it is told that there are no more; the lease pool does not change meanwhile.\<close>

fun walk_http :: "nat \<Rightarrow> (LeaseQuery \<Rightarrow> LeasePage option) \<Rightarrow> string \<Rightarrow> string \<Rightarrow> string \<Rightarrow> http_Lease list" where
  "walk_http 0 provider state limit cursor = []"
| "walk_http (Suc n) provider state limit cursor = (case leases provider state limit cursor of
     (_, PageBody ls nextCursor has_more _) \<Rightarrow> ls @ (if has_more then walk_http n provider state limit nextCursor else [])
   | _ \<Rightarrow> [])"

abbreviation shown :: "LeaseSnapshot \<Rightarrow> http_Lease" where
  "shown s \<equiv> sanitizeLease False (convertLease s False)"

abbreviation state_filter :: "string \<Rightarrow> string" where
  "state_filter state \<equiv> ParseLeaseState (if state = [] \<or> state = ''all'' then [] else ToUpper state)"

lemma shown_ID [simp]: "hl_ID (shown s) = sn_ID s" "hl_ID (convertLease s b) = sn_ID s"
  by (simp_all add: sanitizeLease_def convertLease_def Let_def)

lemma query_cursor_show: "w \<noteq> 0 \<Longrightarrow> query_cursor (show_nat (unat (w :: u64))) = Some w"
  using ParseUint_word(1) [of w] by (simp add: query_cursor_def uint_0_iff)

lemma page_answer:
  fixes a :: "'s Appender" and now :: int
  assumes "raw_state = [] \<or> validLeaseState raw_state" "query_limit raw_limit = Some limit" "query_cursor raw_cursor = Some cursor" "0 < limit"
  defines "m \<equiv> clamp_limit (limit + 1)"
    and "rest \<equiv> filter (\<lambda>s. cursor = 0 \<or> sn_ID s < cursor) (sort_by_id_desc (snapshot_items (ap_pool a) (state_filter raw_state) now))"
  shows "leases (ListLeases now a) raw_state raw_limit raw_cursor =
    (let has_more = length (take m rest) > nat limit; page = (if has_more then take (nat limit) (take m rest) else take m rest)
     in (200, PageBody (map shown page) (if has_more then show_nat (unat (sn_ID (last page))) else []) has_more limit))"
proof -
  let ?state = "if raw_state = [] then ''all'' else raw_state"
  have valid: "validLeaseState ?state" using assms(1) by (auto simp: validLeaseState_def)
  have snaps: "app_SnapshotLeasesBefore now (if ?state \<noteq> ''all'' then ToUpper ?state else []) cursor (limit + 1) a = take m rest"
    by (simp add: app_SnapshotLeasesBefore_def SnapshotLeasesBefore_def audit_snapshots_eq m_def rest_def)
  have has_more: "int (length xs) > limit \<longleftrightarrow> length xs > nat limit" for xs :: "LeaseSnapshot list" using assms(4) by linarith
  have last_page: "hl_ID (last (take (nat limit) (map (\<lambda>s. convertLease s False) xs))) = sn_ID (last (take (nat limit) xs))"
    if "length xs > nat limit" for xs
  proof -
    have "take (nat limit) xs \<noteq> []" using that assms(4) by auto
    then show ?thesis by (simp add: take_map last_map)
  qed
  define xs where "xs = take m rest"
  note snaps = snaps [folded xs_def]
  show ?thesis
  proof (cases "length xs > nat limit")
    case True
    have "ListLeases now a \<lparr>lq_State = ?state, lq_Cursor = cursor, lq_Limit = limit\<rparr> =
      Some \<lparr>lp_Leases = take (nat limit) (map (\<lambda>s. convertLease s False) xs), lp_NextCursor = show_nat (unat (sn_ID (last (take (nat limit) xs)))),
        lp_HasMore = True\<rparr>"
      using True assms(4) last_page [OF True] by (simp only: ListLeases_def snaps LeaseQuery.select_convs Let_def length_map has_more) simp
    then show ?thesis unfolding xs_def [symmetric] using True valid assms(2,3) by (simp add: leases_def Let_def take_map o_def)
  next
    case False
    have "ListLeases now a \<lparr>lq_State = ?state, lq_Cursor = cursor, lq_Limit = limit\<rparr> =
      Some \<lparr>lp_Leases = map (\<lambda>s. convertLease s False) xs, lp_NextCursor = [], lp_HasMore = False\<rparr>"
      using False by (simp only: ListLeases_def snaps LeaseQuery.select_convs Let_def length_map has_more) simp
    then show ?thesis unfolding xs_def [symmetric] using False valid assms(2,3) by (simp add: leases_def Let_def o_def)
  qed
qed

lemma walk_http_rest:
  fixes a :: "'s Appender"
  assumes state: "raw_state = [] \<or> validLeaseState raw_state" and limit: "query_limit raw_limit = Some limit" "0 < limit" "limit < 200"
    and xs: "xs = sort_by_id_desc (snapshot_items (ap_pool a) (state_filter raw_state) now)" "ids_descend xs" "\<forall>s \<in> set xs. sn_ID s \<noteq> 0"
  shows "query_cursor raw_cursor = Some cursor \<Longrightarrow> filter (\<lambda>s. cursor = 0 \<or> sn_ID s < cursor) xs = rest \<Longrightarrow> suffix rest xs \<Longrightarrow> length rest < n \<Longrightarrow>
    walk_http n (ListLeases now a) raw_state raw_limit raw_cursor = map shown rest"
proof (induction n arbitrary: raw_cursor cursor rest)
  case (Suc n)
  let ?m = "clamp_limit (limit + 1)" and ?l = "nat limit"
  have m: "?m = Suc ?l" using limit by (simp add: clamp_limit_def)
  have answer: "leases (ListLeases now a) raw_state raw_limit raw_cursor =
    (let has_more = length (take ?m rest) > ?l; page = (if has_more then take ?l (take ?m rest) else take ?m rest)
     in (200, PageBody (map shown page) (if has_more then show_nat (unat (sn_ID (last page))) else []) has_more limit))"
    using page_answer [OF state limit(1) Suc.prems(1) limit(2), of now a] unfolding xs(1) [symmetric] Suc.prems(2) .
  show ?case
  proof (cases "length rest > ?l")
    case False
    then show ?thesis using answer m by (simp add: Let_def)
  next
    case True
    let ?page = "take ?l rest"
    have ne: "?page \<noteq> []" using True limit(2) by auto
    obtain ys where ys: "xs = ys @ rest" using Suc.prems(3) by (auto simp: suffix_def)
    have flt: "filter (\<lambda>s. sn_ID s < sn_ID (last ?page)) xs = drop ?l rest"
      using filter_below_last [of "ys @ ?page" "drop ?l rest"] xs(2) ys ne by simp
    have "last ?page \<in> set xs" using last_in_set [OF ne] in_set_takeD [of "last ?page" ?l rest] ys by simp
    then have nz: "sn_ID (last ?page) \<noteq> 0" using xs(3) by blast
    have "length (drop ?l rest) < n" using Suc.prems(4) True limit(2) by simp
    moreover have "suffix (drop ?l rest) xs" using ys by (metis append.assoc append_take_drop_id suffix_def)
    ultimately have "walk_http n (ListLeases now a) raw_state raw_limit (show_nat (unat (sn_ID (last ?page)))) = map shown (drop ?l rest)"
      using Suc.IH [OF query_cursor_show [OF nz]] flt nz by simp
    moreover have "leases (ListLeases now a) raw_state raw_limit raw_cursor =
      (200, PageBody (map shown ?page) (show_nat (unat (sn_ID (last ?page)))) True limit)"
      using answer True m by (simp add: Let_def min_def)
    ultimately show ?thesis by (simp flip: map_append)
  qed
qed simp

subsection \<open>Clean paths\<close>

lemma path_elements_slash: "CHR ''/'' \<notin> set x \<Longrightarrow> path_elements current (x @ CHR ''/'' # s) = (current @ x) # path_elements [] s"
  "CHR ''/'' \<notin> set x \<Longrightarrow> path_elements current x = [current @ x]"
  by (induction x arbitrary: current) auto

lemma path_elements_parts: "CHR ''/'' \<notin> set current \<Longrightarrow> e \<in> set (path_elements current s) \<Longrightarrow> CHR ''/'' \<notin> set e"
  by (induction current s rule: path_elements.induct) (auto split: if_splits)

lemma path_elements_join: "es \<noteq> [] \<Longrightarrow> (\<And>e. e \<in> set es \<Longrightarrow> CHR ''/'' \<notin> set e) \<Longrightarrow> path_elements [] (join_elements es) = es"
  by (induction es rule: join_elements.induct) (auto simp: path_elements_slash)

text \<open>The stack of a relative path: elements that are kept, above the leading double dots.\<close>

definition clean_stack :: "string list \<Rightarrow> bool" where
  "clean_stack st \<longleftrightarrow> (\<exists>xs k. st = xs @ replicate k ''..'' \<and> (\<forall>e \<in> set xs. e \<noteq> [] \<and> e \<noteq> ''..'' \<and> CHR ''/'' \<notin> set e))"

lemma clean_stack_Nil: "clean_stack []"
  by (auto simp: clean_stack_def intro!: exI [of _ 0])

lemma clean_stack_push:
  assumes "clean_stack st" "CHR ''/'' \<notin> set e"
  shows "clean_stack (clean_element False e st)"
proof -
  obtain xs k where st: "st = xs @ replicate k ''..''" "\<forall>x \<in> set xs. x \<noteq> [] \<and> x \<noteq> ''..'' \<and> CHR ''/'' \<notin> set x"
    using assms(1) unfolding clean_stack_def by blast
  consider "e = [] \<or> e = ''.''" | "e \<noteq> []" "e \<noteq> ''.''" "e \<noteq> ''..''" | "e = ''..''" "xs = []" | y ys where "e = ''..''" "xs = y # ys"
    by (cases xs) auto
  then show ?thesis
  proof cases
    case 2
    then have "clean_element False e st = (e # xs) @ replicate k ''..''" by (simp add: clean_element_def st(1))
    moreover have "\<forall>x \<in> set (e # xs). x \<noteq> [] \<and> x \<noteq> ''..'' \<and> CHR ''/'' \<notin> set x" using 2 st(2) assms(2) by simp
    ultimately show ?thesis unfolding clean_stack_def by blast
  next
    case 3
    then have "clean_element False e st = [] @ replicate (Suc k) ''..''" by (cases k) (simp_all add: clean_element_def st(1))
    then show ?thesis unfolding clean_stack_def by (metis empty_iff empty_set)
  next
    case 4
    then have "clean_element False e st = ys @ replicate k ''..''" using st(2) by (simp add: clean_element_def st(1))
    then show ?thesis using 4(2) st(2) unfolding clean_stack_def by fastforce
  qed (use assms(1) in \<open>auto simp: clean_element_def\<close>)
qed

lemma clean_stack_fold: "clean_stack st \<Longrightarrow> (\<And>e. e \<in> set es \<Longrightarrow> CHR ''/'' \<notin> set e) \<Longrightarrow> clean_stack (fold (clean_element False) es st)"
  by (induction es arbitrary: st) (auto intro: clean_stack_push)

text \<open>A relative path without a step to the directory above.\<close>

definition stays_inside :: "string \<Rightarrow> bool" where
  "stays_inside p \<longleftrightarrow> \<not> IsAbs p \<and> ''..'' \<notin> set (path_elements [] p)"

lemma stays_inside_element: "CHR ''/'' \<notin> set e \<Longrightarrow> stays_inside e \<longleftrightarrow> e \<noteq> ''..''"
  by (cases e) (auto simp: stays_inside_def IsAbs_def path_elements_slash)

lemma Clean_inside:
  assumes "\<not> IsAbs p" "take 2 (Clean p) \<noteq> ''..''"
  shows "stays_inside (Clean p)"
proof (cases "p = []")
  case True
  then show ?thesis by (simp add: Clean_def stays_inside_element)
next
  case False
  let ?st = "fold (clean_element False) (path_elements [] p) []"
  have "CHR ''/'' \<notin> set e" if "e \<in> set (path_elements [] p)" for e using path_elements_parts [OF _ that] by simp
  then have "clean_stack ?st" by (rule clean_stack_fold [OF clean_stack_Nil])
  then obtain xs k where st: "?st = xs @ replicate k ''..''" "\<forall>x \<in> set xs. x \<noteq> [] \<and> x \<noteq> ''..'' \<and> CHR ''/'' \<notin> set x"
    unfolding clean_stack_def by blast
  have clean: "Clean p = (let c = join_elements (rev ?st) in if c = [] then ''.'' else c)" using False assms(1) by (simp add: Clean_def Let_def)
  have k: "k = 0"
  proof (cases k)
    case (Suc n)
    have "take 2 (join_elements (''..'' # es)) = ''..''" for es by (cases es) simp_all
    then have "take 2 (join_elements (rev ?st)) = ''..''" by (simp add: st(1) Suc replicate_app_Cons_same)
    then show ?thesis using assms(2) clean by (auto simp: Let_def split: if_splits)
  qed simp
  show ?thesis
  proof (cases xs)
    case Nil
    then show ?thesis by (simp add: clean st(1) k Let_def stays_inside_element)
  next
    case (Cons y ys)
    let ?es = "rev xs"
    have es: "?es \<noteq> []" "\<And>e. e \<in> set ?es \<Longrightarrow> e \<noteq> [] \<and> e \<noteq> ''..'' \<and> CHR ''/'' \<notin> set e" using Cons st(2) by auto
    have elems: "path_elements [] (join_elements ?es) = ?es" using path_elements_join [OF es(1)] es(2) by metis
    obtain e rest where e: "?es = e # rest" using es(1) by (cases ?es) auto
    have "take 1 (join_elements ?es) = take 1 e" using es(2) [of e] e by (cases rest; cases e) auto
    moreover have "take 1 e \<noteq> ''/''" using es(2) [of e] e by (cases e) auto
    moreover have "join_elements ?es \<noteq> []" using es(2) [of e] e by (cases rest) auto
    ultimately show ?thesis using es elems by (auto simp: clean st(1) k Let_def stays_inside_def IsAbs_def)
  qed
qed

lemma Base_element: "Base p = ''/'' \<or> CHR ''/'' \<notin> set (Base p)"
  by (auto simp: Base_def Let_def dest: set_takeWhileD)

lemma Base_not_slash:
  assumes "c \<in> set p" "c \<noteq> CHR ''/''"
  shows "CHR ''/'' \<notin> set (Base p)"
proof -
  let ?d = "dropWhile (\<lambda>c. c = CHR ''/'') (rev p)"
  have "?d \<noteq> []" using assms by (auto simp: dropWhile_eq_Nil_conv)
  then have "hd ?d \<noteq> CHR ''/''" by (rule hd_dropWhile)
  then have "takeWhile (\<lambda>c. c \<noteq> CHR ''/'') ?d \<noteq> []" using \<open>?d \<noteq> []\<close> by (cases ?d) auto
  then show ?thesis using assms(1) by (auto simp: Base_def Let_def dest: set_takeWhileD)
qed

subsection \<open>Properties\<close>




text \<open>
  C36. The largest limit hides leases. With the limit 200, which the handler accepts, the provider asks the registry for 201 snapshots and
  gets at most 200, so every page says that there are no more: a client that follows the interface sees the latest 200 leases and never the
  others.
\<close>

theorem largest_limit_truncates:
  "walk_http (Suc n) (ListLeases now a) [] ''200'' [] = map shown (take 200 (sort_by_id_desc (snapshot_items (ap_pool a) [] now)))"
proof -
  have limit: "query_limit ''200'' = Some 200" by (simp add: query_limit_def address_eval)
  have "state_filter [] = []" by code_simp
  moreover have "clamp_limit (200 + 1) = 200" by (simp add: clamp_limit_def)
  moreover have "query_cursor [] = Some 0" by (simp add: query_cursor_def)
  ultimately show ?thesis using page_answer [of "[]" "''200''" 200 "[]" 0 now a] limit by (simp add: Let_def)
qed

end
