(* ===== verification/Spec2Isabelle.thy ===== *)
theory Spec2Isabelle
  imports Prelude Ring Ring_MPSC Crc32 Pool Pool_Safety Pool_Audit Sink File_Sink Endian Protocol Protocol_Codec Protocol_Client
    Collector_Dedupe Collector Delivery Flusher Flusher_Delivery
    Event Appender Appender_Steps Appender_Calls Appender_Delivery Appender_Properties
    Network_Delivery Float64 Telemetry Go_Strconv Config Config_Parse Daemon Daemon_Delivery Httpapi
begin

text \<open>
  MiniLogback: an asynchronous log pipeline in Go, with a collector and a daemon.

  \<^bold>\<open>The program.\<close> A caller logs through \<^verbatim>\<open>pkg/minilogback\<close>. The appender borrows a lease of a byte block from the pool
  (\<^verbatim>\<open>internal/pool\<close>), writes the JSON text of the event into it and offers the lease to a bounded lock-free ring
  (\<^verbatim>\<open>internal/ring\<close>). One goroutine, the flusher (\<^verbatim>\<open>internal/flusher\<close>), takes leases out of the ring, hands batches of
  their payloads to a sink (\<^verbatim>\<open>internal/sink\<close>), retries a batch the sink refuses and returns the leases. A sink is a writer, a rotated
  file, or a network client that sends frames (\<^verbatim>\<open>internal/protocol\<close>) to a collector (\<^verbatim>\<open>internal/collector\<close>), which
  remembers batches to answer repeated ones and writes the records into a sink of its own. The daemon (\<^verbatim>\<open>cmd/minilogbackd\<close>) reads
  its configuration (\<^verbatim>\<open>internal/config\<close>), builds appender and collector over one local file, samples their statistics
  (\<^verbatim>\<open>internal/telemetry\<close>) and serves them over HTTP (\<^verbatim>\<open>internal/httpapi\<close>).

  \<^bold>\<open>How it is modelled.\<close> Structs are records with the fields' names behind a prefix, enumerations are datatypes, errors are the left
  side of a sum or an option, \<open>uint64\<close> and \<open>uint32\<close> are words that wrap around, a Go \<open>int\<close> is an integer where it cannot
  overflow, a \<open>time.Duration\<close> is a signed word. Sequential code is a function on the state. What runs concurrently is a step machine: one
  atomic load, store or compare-and-swap of the ring, one channel operation, one lock section or, above the flusher, one call is a step, and a
  theorem about a machine holds in every interleaving. What comes from outside, such as the operating system, the network, the clock, contexts
  that are cancelled, the block \<open>sync.Pool\<close> returns, is an argument (a record \<open>..._env\<close> or a script of answers), so that a theorem
  holds for every behaviour of it. Go's own libraries are modelled as far as they are used: CRC-32, big-endian integers, \<open>strconv\<close>,
  durations, host and port, clean paths, 64-bit floating-point numbers.

  \<^bold>\<open>The theories.\<close>
  \<^item> \<open>Prelude\<close>: types, the result type and facts about words and lists that the components share.
  \<^item> \<open>Ring\<close> (\<^verbatim>\<open>ring/queue.go\<close>, \<^verbatim>\<open>stats.go\<close>, \<^verbatim>\<open>result.go\<close>): the operations of the queue, its invariant
    with positions that wrap around 2^64, and its interface, the locale of bounded FIFO queues. \<open>Ring_MPSC\<close>: the same code as a machine of
    single atomic accesses of any number of producers, one consumer and \<open>Close\<close>; first in first out without loss or duplication, the bound of
    the steps of a publication (at most 128 attempts, so it always returns), and that a call which runs alone is the sequential operation.
  \<^item> \<open>Pool\<close>, \<open>Pool_Safety\<close>, \<open>Pool_Audit\<close> (\<^verbatim>\<open>pool/pool.go\<close>, \<^verbatim>\<open>lease.go\<close>, \<^verbatim>\<open>audit.go\<close>,
    \<^verbatim>\<open>types.go\<close>): leases and blocks on an explicit heap, the four states of a lease, the registry of tracked leases with its history; no
    two outstanding leases share a block, the statistics and the registry are exact, a write after publication is detected. \<open>Crc32\<close>: the
    checksum and that it detects every change of one byte.
  \<^item> \<open>Sink\<close>, \<open>File_Sink\<close> (\<^verbatim>\<open>sink/*.go\<close>): writes that stop early, interrupted calls, vectored writes, the batch a sink
    keeps after an error, rotation. The contract of a sink that can be retried is the locale \<open>resumable_sink\<close>, with flushing and closing
    \<open>batch_sink\<close>; both sinks and the daemon's observed sink interpret it, and every theorem on delivery is proved from it.
  \<^item> \<open>Endian\<close>, \<open>Protocol\<close>, \<open>Protocol_Codec\<close> (\<^verbatim>\<open>protocol/protocol.go\<close>): encoder and decoder of frames and
    acknowledgements; the round trip, and that only what the encoder writes is accepted. \<open>Protocol_Client\<close>
    (\<^verbatim>\<open>protocol/client.go\<close>): \<open>Send\<close> with its connection, its retries and the batch it keeps; one record of the environment per
    attempt, of which the loop consumes at most \<open>MaxAttempts\<close>.
  \<^item> \<open>Collector_Dedupe\<close>, \<open>Collector\<close> (\<^verbatim>\<open>collector/dedupe.go\<close>, \<^verbatim>\<open>server.go\<close>): the memory of batches
    with concurrent callers, its least recently used eviction, accepting, handling and counting. \<open>Delivery\<close>: client, lossy network and
    collector together put every batch on the output exactly once while the sink does not fail.
  \<^item> \<open>Flusher\<close>, \<open>Flusher_Delivery\<close> (\<^verbatim>\<open>flusher/*.go\<close>): the goroutine's program counter and local variables, \<open>Start\<close>,
    \<open>Close\<close> with its timeout; the world of the flusher adds the producers and ghost lists of what was accepted, delivered and abandoned. What
    was accepted is delivered in order and once, shutdown delivers everything and ends.
  \<^item> \<open>Event\<close>, \<open>Appender\<close> (\<^verbatim>\<open>minilogback/*.go\<close>): the JSON text of an event, construction, leases in the hands of callers,
    publication, logging, \<open>Close\<close>. \<open>Appender_Steps\<close> and \<open>Appender_Calls\<close> relate each call to steps of the flusher's world;
    \<open>Appender_Delivery\<close> concludes that a closed appender has written what it accepted; \<open>Appender_Properties\<close> has the exact counters
    and the lines of a log.
  \<^item> \<open>Network_Delivery\<close>: the flusher over a sink that refuses the batch in hand for ever (locale \<open>refusing_sink\<close>), with its two
    instances in the program, a batch that does not fit a frame and a file that keeps the batch of another user.
  \<^item> \<open>Float64\<close>, \<open>Telemetry\<close> (\<^verbatim>\<open>telemetry/telemetry.go\<close>): rates and percentages; the sampler as a machine with its
    subscribers; order, freshness and the bound of a broadcast. Runs are shorter than 2^64 - 2 steps, so that the number of a sample does not wrap.
  \<^item> \<open>Go_Strconv\<close>, \<open>Config\<close>, \<open>Config_Parse\<close> (\<^verbatim>\<open>config/config.go\<close>): defaults, readers, validation, and the
    environment that writes a configuration back.
  \<^item> \<open>Daemon\<close> (\<^verbatim>\<open>minilogbackd/runtime.go\<close>, \<^verbatim>\<open>sink_observer.go\<close>): which configurations start, and the percentile of the
    write times. \<open>Daemon_Delivery\<close>: the whole pipeline into the log files. \<open>Httpapi\<close> (\<^verbatim>\<open>httpapi/httpapi.go\<close>, \<^verbatim>\<open>runtime.go\<close>): listing leases page by page, and what is shown of a
    source path. The fuel of a client that follows pages is any number above the number of leases.

  \<^bold>\<open>What the code does not keep.\<close> Some theorems state what goes wrong: a message accepted while \<open>Close\<close> overtakes its producer is never
  delivered; the collector records failed work as done, so a retried batch is lost; after a failed rotation a file sink never writes again; the
  flusher repeats for ever a batch that its sink can never take; a subscription can block on its first sample; the largest page limit hides
  leases; validation accepts configurations that do not start.

  \<^bold>\<open>Not modelled.\<close>
  \<^item> The weak memory model: Go's atomic operations are sequentially consistent, and the machines interleave them. Above the flusher the appender's
    calls are single steps: the publication race itself is in \<open>Ring_MPSC\<close> and \<open>Flusher_Delivery\<close>.
  \<^item> Parameters: the stack frames and goroutine numbers of the audit, \<open>runtime.Caller\<close>, \<open>fmt.Sprintf\<close>, the JSON text of a field of type
    \<open>any\<close>; the latter must not contain a line feed, as \<open>json.Marshal\<close> documents. Errors are their constructors, not their texts.
  \<^item> \<^verbatim>\<open>minilogback/sinks.go\<close> (it copies configurations into the constructors modelled here) and \<^verbatim>\<open>sink/writev_other.go\<close> (the
    fallback of other systems to the sequential write).
  \<^item> \<open>DemoAllowed\<close> and \<open>Effective\<close> of the configuration; routing, JSON answers, the event stream, the demonstration handlers and static
    files of the HTTP interface; \<^verbatim>\<open>main.go\<close> and the demonstration traffic of the daemon: input and output without state of their own.
  \<^item> \<^verbatim>\<open>cmd/loadgen\<close> and \<^verbatim>\<open>cmd/perfcheck\<close>, which drive and measure the program, and the dashboard in TypeScript.
\<close>

end
